(* ===== verification/Jjs_Prelude.thy ===== *)
theory Jjs_Prelude
  imports Main "HOL-Library.Word"
begin

text \<open>
  Shared vocabulary of the development: the machine types of the engine, the collections of
  rewrite rules that the component theories extend, and generic facts about words seen as natural
  numbers and about lists.
  \<^item> \<open>u8\<close>, \<open>u16\<close>, \<open>u32\<close>, \<open>u64\<close> are the C types \<open>uint8_t\<close> ... \<open>uint64_t\<close>; addition, subtraction
    and multiplication wrap, as in C.
  \<^item> \<open>unat_simps\<close> collects the rules that turn masks, shifts, casts and disjoint disjunctions of
    words into \<open>mod\<close>, \<open>div\<close> and \<open>+\<close> on \<open>nat\<close>, where \<open>arith\<close> decides them.
\<close>

unbundle bit_operations_syntax

type_synonym u8 = "8 word"
type_synonym u16 = "16 word"
type_synonym u32 = "32 word"
type_synonym u64 = "64 word"

named_theorems unat_simps \<open>words as natural numbers\<close>

section \<open>Words as natural numbers\<close>

lemma unat_u8_less: "unat (x :: u8) < 256"
  using unsigned_less [of x] by simp

lemma unat_u16_less: "unat (x :: u16) < 65536"
  using unsigned_less [of x] by simp

lemma unat_u32_less: "unat (x :: u32) < 4294967296"
  using unsigned_less [of x] by simp

lemma unat_u64_less: "unat (x :: u64) < 18446744073709551616"
  using unsigned_less [of x] by simp

text \<open>A mask of \<open>n\<close> low bits is a remainder, a shift a product or a quotient.\<close>

lemma unat_take_bit [unat_simps]: "unat (take_bit n x) = unat x mod 2 ^ n"
  by (metis take_bit_eq_mod unsigned_take_bit_eq)

lemma unat_and_mask: "unat (x AND mask n) = unat x mod 2 ^ n"
  by (metis take_bit_eq_mask unat_take_bit)

lemma unat_drop_bit [unat_simps]:
  "unat (drop_bit n (x :: 'a::len word)) = unat x div 2 ^ n"
  by (metis drop_bit_eq_div unsigned_drop_bit_eq take_bit_eq_mod mod_less unsigned_less)

lemma unat_push_bit [unat_simps]:
  "unat (push_bit n (x :: 'a::len word)) = (unat x * 2 ^ n) mod 2 ^ LENGTH('a)"
  by (metis push_bit_eq_mult unsigned_push_bit_eq take_bit_eq_mod)

lemma unat_ucast [unat_simps]:
  "unat (ucast (x :: 'a::len word) :: 'b::len word) = unat x mod 2 ^ LENGTH('b)"
  by (metis take_bit_eq_mod unsigned_ucast_eq)

lemma unat_and_not_mask:
  "unat ((x :: 'a::len word) AND NOT (mask n)) = 2 ^ n * (unat x div 2 ^ n)"
proof -
  have "x AND NOT (mask n) = push_bit n (drop_bit n x)"
    by (rule bit_word_eqI) (auto simp: bit_simps)
  moreover have "unat x div 2 ^ n * 2 ^ n < 2 ^ LENGTH('a)"
    using unsigned_less [of x] by (meson div_times_less_eq_dividend le_less_trans)
  ultimately show ?thesis by (simp add: unat_push_bit unat_drop_bit mult.commute)
qed

text \<open>The masks that occur in the text encoders, as remainders and quotients.\<close>

lemma unat_and_low_masks [unat_simps]:
  fixes x :: "'a::len word"
  shows "unat (x AND 0x7F) = unat x mod 128"
    and "unat (x AND 0x3F) = unat x mod 64"
    and "unat (x AND 0x1F) = unat x mod 32"
    and "unat (x AND 0x0F) = unat x mod 16"
    and "unat (x AND 0x07) = unat x mod 8"
    and "unat (x AND 0x3FF) = unat x mod 1024"
proof -
  have m: "(0x7F :: 'a word) = mask 7" "(0x3F :: 'a word) = mask 6" "(0x1F :: 'a word) = mask 5"
    "(0x0F :: 'a word) = mask 4" "(0x07 :: 'a word) = mask 3" "(0x3FF :: 'a word) = mask 10"
    by (simp_all add: mask_eq_exp_minus_1)
  show "unat (x AND 0x7F) = unat x mod 128" "unat (x AND 0x3F) = unat x mod 64"
    "unat (x AND 0x1F) = unat x mod 32" "unat (x AND 0x0F) = unat x mod 16"
    "unat (x AND 0x07) = unat x mod 8" "unat (x AND 0x3FF) = unat x mod 1024"
    unfolding m unat_and_mask by simp_all
qed

lemma unat_and_high_masks [unat_simps]:
  fixes x :: u8
  shows "unat (x AND 0x80) = 128 * (unat x div 128)"
    and "unat (x AND 0xC0) = 64 * (unat x div 64)"
    and "unat (x AND 0xE0) = 32 * (unat x div 32)"
    and "unat (x AND 0xF0) = 16 * (unat x div 16)"
    and "unat (x AND 0xF8) = 8 * (unat x div 8)"
proof -
  have m: "(0x80 :: u8) = NOT (mask 7)" "(0xC0 :: u8) = NOT (mask 6)" "(0xE0 :: u8) = NOT (mask 5)"
    "(0xF0 :: u8) = NOT (mask 4)" "(0xF8 :: u8) = NOT (mask 3)"
    by (simp_all add: mask_eq_exp_minus_1)
  show "unat (x AND 0x80) = 128 * (unat x div 128)" "unat (x AND 0xC0) = 64 * (unat x div 64)"
    "unat (x AND 0xE0) = 32 * (unat x div 32)" "unat (x AND 0xF0) = 16 * (unat x div 16)"
    "unat (x AND 0xF8) = 8 * (unat x div 8)"
    unfolding m unat_and_not_mask by simp_all
qed

text \<open>A disjunction of words that share no bit is a sum.\<close>

lemma nat_and_disjoint:
  assumes "2 ^ k dvd (m :: nat)" and "n < 2 ^ k"
  shows "m AND n = 0"
proof -
  obtain q where m: "m = push_bit k q"
    using assms(1) by (metis dvd_def mult.commute push_bit_eq_mult)
  have n: "n = take_bit k n"
    using assms(2) by (simp add: take_bit_nat_eq_self)
  show ?thesis
    by (subst m, subst n, rule bit_eqI) (auto simp: bit_simps)
qed

lemma nat_or_plus: "2 ^ k dvd (m :: nat) \<Longrightarrow> n < 2 ^ k \<Longrightarrow> m OR n = m + n"
  by (metis disjunctive_add_eq_or nat_and_disjoint)

lemma unat_or_plus:
  "2 ^ k dvd unat x \<Longrightarrow> unat y < 2 ^ k \<Longrightarrow> unat (x OR y) = unat x + unat (y :: 'a::len word)"
  by (simp add: unsigned_or_eq nat_or_plus)

lemma unat_or_markers [unat_simps]:
  fixes b :: u8
  shows "unat b < 64 \<Longrightarrow> unat (0x80 OR b) = 128 + unat b"
    and "unat b < 64 \<Longrightarrow> unat (0xC0 OR b) = 192 + unat b"
    and "unat b < 32 \<Longrightarrow> unat (0xE0 OR b) = 224 + unat b"
    and "unat b < 16 \<Longrightarrow> unat (0xF0 OR b) = 240 + unat b"
  by (subst unat_or_plus [of 6] unat_or_plus [of 5] unat_or_plus [of 4]; simp)+

lemma unat_or_surrogate_markers [unat_simps]:
  fixes b :: u16
  shows "unat b < 1024 \<Longrightarrow> unat (0xD800 OR b) = 55296 + unat b"
    and "unat b < 1024 \<Longrightarrow> unat (0xDC00 OR b) = 56320 + unat b"
  by (subst unat_or_plus [of 10]; simp)+

text \<open>Equality and order of words through \<open>unat\<close>, for numeral bounds.\<close>

lemma word_eq_unat: "x = y \<longleftrightarrow> unat x = unat (y :: 'a::len word)"
  by (rule word_unat_eq_iff)

lemma word_le_unat: "x \<le> y \<longleftrightarrow> unat x \<le> unat (y :: 'a::len word)"
  by (rule word_le_nat_alt)

lemma word_less_unat: "x < y \<longleftrightarrow> unat x < unat (y :: 'a::len word)"
  by (rule word_less_nat_alt)

lemmas word_unat = word_eq_unat word_le_unat word_less_unat

end
