(* ===== verification/Block_Heap.thy ===== *)
theory Block_Heap
  imports Jjs_Prelude
begin

text \<open>
  The interface between the engine's data structures and the memory manager: a request for a block
  either fails or returns the address of a block, and a block is given back with its address and
  size (\<open>jmem_heap_alloc_block_null_on_error\<close> and \<open>jmem_heap_free_block\<close> of \<open>src/jjs-core/jmem\<close>).
  The state \<open>'h\<close> of the memory manager is threaded through the calls. A new block has arbitrary
  contents, which the allocator hands out with the address.

  The contract is stated over the blocks of a client: \<open>holds h B\<close> says that, in the memory state
  \<open>h\<close>, every block of \<open>B\<close> (a map from addresses to sizes) is allocated for the client. A request
  may reclaim memory of others, but never a block of the client.
\<close>

type_synonym addr = nat

record 'h allocator =
  alloc_block :: "'h \<Rightarrow> nat \<Rightarrow> (addr \<times> (nat \<Rightarrow> u32)) option \<times> 'h"
  free_block :: "'h \<Rightarrow> addr \<Rightarrow> nat \<Rightarrow> 'h"

locale block_heap =
  fixes A :: "'h allocator"
    and holds :: "'h \<Rightarrow> (addr \<rightharpoonup> nat) \<Rightarrow> bool"
  assumes alloc_fresh: "holds h B \<Longrightarrow> 0 < n \<Longrightarrow> alloc_block A h n = (Some (p, g), h') \<Longrightarrow> p \<notin> dom B"
    and alloc_holds: "holds h B \<Longrightarrow> 0 < n \<Longrightarrow> alloc_block A h n = (Some (p, g), h') \<Longrightarrow> holds h' (B(p \<mapsto> n))"
    and alloc_none: "holds h B \<Longrightarrow> 0 < n \<Longrightarrow> alloc_block A h n = (None, h') \<Longrightarrow> holds h' B"
    and free_holds: "holds h B \<Longrightarrow> B p = Some n \<Longrightarrow> holds (free_block A h p n) (B(p := None))"
begin

text \<open>A block that is allocated and freed again leaves the client with what it had.\<close>

lemma alloc_free:
  assumes "holds h B" "0 < n" "alloc_block A h n = (Some (p, g), h')"
  shows "holds (free_block A h' p n) B"
proof -
  have "holds (free_block A h' p n) ((B(p \<mapsto> n))(p := None))"
    by (rule free_holds [OF alloc_holds [OF assms]]) simp
  moreover have "(B(p \<mapsto> n))(p := None) = B"
    using alloc_fresh [OF assms] by (auto simp: fun_eq_iff)
  ultimately show ?thesis by simp
qed

end

text \<open>
  For claims about when an operation fails, the memory state also tells whether a request has failed.
\<close>

locale failing_heap = block_heap A holds
  for A :: "'h allocator" and holds :: "'h \<Rightarrow> (addr \<rightharpoonup> nat) \<Rightarrow> bool" +
  fixes failed :: "'h \<Rightarrow> bool"
  assumes alloc_failed: "alloc_block A h n = (None, h') \<Longrightarrow> failed h'"
    and free_failed: "failed h \<Longrightarrow> failed (free_block A h p n)"

text \<open>Every allocator can be extended by a flag that remembers failed requests.\<close>

definition record_failures :: "'h allocator \<Rightarrow> ('h \<times> bool) allocator" where
  "record_failures A =
    \<lparr>alloc_block = (\<lambda>(h, f) n. case alloc_block A h n of (r, h') \<Rightarrow> (r, h', f \<or> r = None)),
     free_block = (\<lambda>(h, f) p n. (free_block A h p n, f))\<rparr>"

lemma record_failures_heap:
  assumes "block_heap A holds"
  shows "failing_heap (record_failures A) (\<lambda>(h, f). holds h) snd"
proof -
  note laws = block_heap.alloc_fresh [OF assms] block_heap.alloc_holds [OF assms]
    block_heap.alloc_none [OF assms] block_heap.free_holds [OF assms]
  show ?thesis
    by unfold_locales (auto simp: record_failures_def intro: laws dest: laws split: prod.splits)
qed

end
