(* ===== verification/Big_Digits.thy ===== *)
theory Big_Digits
  imports Jjs_Prelude
begin

text \<open>
  The digit loops of \<open>src/jjs-core/ecma/operations/ecma-big-uint.c\<close>. A number is a list of 32-bit
  digits, the least significant one first; a loop that runs downwards through the digits takes and
  returns them from the most significant one. A loop over digits in memory is a recursion over the
  list; the digits it writes are its result. Results are related to natural numbers by \<open>big_val\<close>.
\<close>

type_synonym digit = u32

section \<open>Loops\<close>

function count_leading_zero_loop :: "nat \<Rightarrow> digit \<Rightarrow> digit \<Rightarrow> digit" where
  "count_leading_zero_loop shift digit result =
    (let value = drop_bit shift digit;
         (digit, result) = (if value > 0 then (value, result - of_nat shift) else (digit, result))
     in if shift div 2 > 0 then count_leading_zero_loop (shift div 2) digit result
        else result - digit)"
  by pat_completeness auto
termination
  by (relation "measure (\<lambda>(shift, _, _). shift)") auto

definition ecma_big_uint_count_leading_zero :: "digit \<Rightarrow> digit" where
  "ecma_big_uint_count_leading_zero digit = count_leading_zero_loop 16 digit 32"

text \<open>
  The loop steps back over zero digits; the word in front of the first digit is the size of the
  value, which is not zero, so it stops there at the latest.
\<close>

fun normalize_loop :: "digit list \<Rightarrow> nat \<Rightarrow> nat" where
  "normalize_loop ds 0 = 0"
| "normalize_loop ds (Suc n) = (if n \<noteq> 0 \<and> ds ! (n - 1) = 0 then normalize_loop ds n else n)"

text \<open>
  Carry and borrow propagation. \<open>increase_loop\<close> turns digits with all bits set into zero and adds
  one to the first other digit; \<open>None\<close> when it runs over the end, having written only zeros.
  \<open>decrease_loop\<close> turns zero digits into digits with all bits set and subtracts one from the
  first other digit.
\<close>

fun increase_loop :: "digit list \<Rightarrow> digit list option" where
  "increase_loop [] = None"
| "increase_loop (d # ds) =
    (if d = NOT 0 then map_option (Cons 0) (increase_loop ds) else Some ((d + 1) # ds))"

fun decrease_loop :: "digit list \<Rightarrow> digit list option" where
  "decrease_loop [] = None"
| "decrease_loop (d # ds) =
    (if d = 0 then map_option (Cons (NOT 0)) (decrease_loop ds) else Some ((d - 1) # ds))"

text \<open>
  Comparison, from the most significant digit down.
\<close>

fun compare_loop :: "digit list \<Rightarrow> digit list \<Rightarrow> int" where
  "compare_loop (l # ls) (r # rs) =
    (if l < r then -1 else if l > r then 1 else compare_loop ls rs)"
| "compare_loop _ _ = 0"

text \<open>
  Multiplication by one digit: the new digits and the last carry.
\<close>

fun mul_digit_loop :: "digit list \<Rightarrow> digit \<Rightarrow> digit \<Rightarrow> digit list \<times> digit" where
  "mul_digit_loop [] mul carry = ([], carry)"
| "mul_digit_loop (d # ds) mul carry =
    (let multiply_result = (ucast d :: u64) * ucast mul;
         multiply_result_low = ucast multiply_result :: digit;
         new_carry = ucast (drop_bit 32 multiply_result) :: digit;
         multiply_result_low = multiply_result_low + carry;
         new_carry = (if multiply_result_low < carry then new_carry + 1 else new_carry);
         (ds', carry') = mul_digit_loop ds mul new_carry
     in (multiply_result_low # ds', carry'))"

text \<open>
  Addition and subtraction run over the digits of the shorter operand and return the digits
  written, the carry and the digits of the longer operand that are left.
\<close>

fun add_loop :: "digit list \<Rightarrow> digit list \<Rightarrow> digit \<Rightarrow> digit list \<times> digit \<times> digit list" where
  "add_loop (l # ls) (r # rs) carry =
    (let (left, carry) = (if carry = 0 \<or> l \<noteq> NOT 0 then (l + carry, 0) else (0, 1));
         left = left + r;
         carry = (if left < r then 1 else carry);
         (out, carry', rest) = add_loop ls rs carry
     in (left # out, carry', rest))"
| "add_loop ls _ carry = ([], carry, ls)"

fun sub_loop :: "digit list \<Rightarrow> digit list \<Rightarrow> digit \<Rightarrow> digit list \<times> digit \<times> digit list" where
  "sub_loop (l # ls) (r # rs) carry =
    (let (left, carry) =
       (if carry = 0 \<or> l \<noteq> 0 then (l - carry, if l - carry < r then 1 else 0) else (NOT 0, 1));
         (out, carry', rest) = sub_loop ls rs carry
     in ((left - r) # out, carry', rest))"
| "sub_loop ls _ carry = ([], carry, ls)"

text \<open>
  \<open>mul_carry\<close> and \<open>mul_row\<close> work in place on the digits of the product from the current position
  on, the extra digit included; \<open>None\<close> stands for running past the extra digit.
\<close>

fun mul_carry :: "digit list \<Rightarrow> digit \<Rightarrow> digit list option" where
  "mul_carry ds carry =
    (if carry > 0 then
       (case ds of
          [] \<Rightarrow> None
        | d # ds' \<Rightarrow>
           (let value = d + carry
            in map_option (Cons value) (mul_carry ds' (if value < carry then 1 else 0))))
     else Some ds)"

fun mul_row :: "digit list \<Rightarrow> u64 \<Rightarrow> digit list \<Rightarrow> digit \<Rightarrow> digit list option" where
  "mul_row [] right ds carry = mul_carry ds carry"
| "mul_row (l # ls) right [] carry = None"
| "mul_row (l # ls) right (d # ds) carry =
    (let multiply_result = ucast l * right;
         multiply_result_low = ucast multiply_result :: digit;
         value = d + multiply_result_low;
         new_carry = ucast (drop_bit 32 multiply_result) :: digit;
         new_carry = (if value < multiply_result_low then new_carry + 1 else new_carry);
         value = value + carry;
         new_carry = (if value < carry then new_carry + 1 else new_carry)
     in map_option (Cons value) (mul_row ls right ds new_carry))"

fun mul_loop :: "digit list \<Rightarrow> digit list \<Rightarrow> digit list \<Rightarrow> digit list option" where
  "mul_loop left [] ds = Some ds"
| "mul_loop left (right # rs) ds =
    (case (if right = 0 then Some ds else mul_row left (ucast right) ds 0) of
       Some (d # ds') \<Rightarrow> map_option (Cons d) (mul_loop left rs ds')
     | _ \<Rightarrow> None)"

text \<open>
  Division by one digit, from the most significant digit down (\<open>ecma_big_uint_div_digit\<close>, and the
  64-bit branch of \<open>ecma_big_uint_to_string\<close>).
\<close>

fun div_digit_loop :: "digit \<Rightarrow> digit \<Rightarrow> digit list \<Rightarrow> digit list \<times> digit" where
  "div_digit_loop divisor remainder [] = ([], remainder)"
| "div_digit_loop divisor remainder (d # ds) =
    (let result = ucast d OR push_bit 32 (ucast remainder) :: u64;
         (out, r) = div_digit_loop divisor (ucast (result mod ucast divisor)) ds
     in (ucast (result div ucast divisor) # out, r))"

text \<open>
  The 32-bit branch of \<open>ecma_big_uint_to_string\<close>: two digits and the remainder are divided as three
  numbers of at most 28 bits. An odd number of digits is handled by dividing the first one alone.
\<close>

definition div_radix_pair :: "digit \<Rightarrow> digit \<Rightarrow> digit \<Rightarrow> digit \<Rightarrow> digit \<times> digit \<times> digit" where
  "div_radix_pair radix remainder d1 d2 =
    (let result_high = d1;
         result_mid = push_bit 10 (result_high AND 0x3ff);
         result_high = drop_bit 10 result_high OR push_bit 22 remainder;
         result_mid = result_mid OR push_bit 20 (result_high mod radix);
         result_high = push_bit 10 (result_high div radix);
         result_low = d2;
         result_mid = result_mid OR drop_bit 22 result_low;
         result_low = (result_low AND 0x3fffff) OR push_bit 22 (result_mid mod radix);
         result_mid = result_mid div radix
     in (result_high OR drop_bit 10 result_mid,
         result_low div radix OR push_bit 22 result_mid,
         result_low mod radix))"

fun div_radix_pairs :: "digit \<Rightarrow> digit \<Rightarrow> digit list \<Rightarrow> digit list \<times> digit" where
  "div_radix_pairs radix remainder (d1 # d2 # ds) =
    (let (e1, e2, r) = div_radix_pair radix remainder d1 d2;
         (out, r') = div_radix_pairs radix r ds
     in (e1 # e2 # out, r'))"
| "div_radix_pairs radix remainder ds = ([], remainder)"

definition div_radix_loop32 :: "digit \<Rightarrow> digit list \<Rightarrow> digit list \<times> digit" where
  "div_radix_loop32 radix ds =
    (if odd (length ds) then
       (case ds of
          d # ds' \<Rightarrow> (let (out, r) = div_radix_pairs radix (d mod radix) ds' in (d div radix # out, r))
        | [] \<Rightarrow> ([], 0))
     else div_radix_pairs radix 0 ds)"

text \<open>Shifts by \<open>0 < shift < 32\<close> bits: to the left upwards, to the right downwards.\<close>

fun shift_left_loop :: "nat \<Rightarrow> digit list \<Rightarrow> digit \<Rightarrow> digit list \<times> digit" where
  "shift_left_loop shift_left [] carry = ([], carry)"
| "shift_left_loop shift_left (value # ds) carry =
    (let (out, carry') = shift_left_loop shift_left ds (drop_bit (32 - shift_left) value)
     in ((push_bit shift_left value OR carry) # out, carry'))"

fun shift_right_loop :: "nat \<Rightarrow> digit list \<Rightarrow> digit \<Rightarrow> digit list" where
  "shift_right_loop shift_right [] carry = []"
| "shift_right_loop shift_right (value # ds) carry =
    (drop_bit shift_right value OR carry) # shift_right_loop shift_right ds (push_bit (32 - shift_right) value)"

text \<open>
  Steps D3, D4 and D6 of the long division. \<open>estimate_digit\<close> gets the two leading digits of the
  dividend and the two leading digits of the divisor; its inner loop ends because \<open>result_mod\<close> grows
  by \<open>divisor_high\<close>, whose highest bit is set, and a wrap-around of \<open>result_mod\<close> leaves the loop (the guard for
  \<open>divisor_high = 0\<close>, which the code excludes by an assertion, only makes the function total).
\<close>

lemma wrap_add_greater: "b \<noteq> 0 \<Longrightarrow> \<not> a + b < b \<Longrightarrow> unat a < unat (a + b :: u32)"
  using unat_u32_less [of a] unat_u32_less [of b]
  by (auto simp: word_less_nat_alt unat_word_ariths mod_if word_eq_unat split: if_splits)

function estimate_loop :: "digit \<Rightarrow> digit \<Rightarrow> u64 \<Rightarrow> digit \<Rightarrow> digit \<Rightarrow> digit" where
  "estimate_loop divisor_high divisor_low low_digits result_div result_mod =
    (if low_digits > push_bit 32 (ucast result_mod) OR ucast divisor_low then
       (let result_div = result_div - 1; new_mod = result_mod + divisor_high in
        if new_mod < divisor_high \<or> divisor_high = 0 then result_div
        else estimate_loop divisor_high divisor_low (low_digits - ucast divisor_low) result_div new_mod)
     else result_div)"
  by pat_completeness auto
termination
proof (relation "measure (\<lambda>(h, l, w, d, m). 2 ^ 32 - unat m)", goal_cases)
  case (2 h l w d m)
  then show ?case
    using wrap_add_greater [of h m] unat_u32_less [of "m + h"] by auto
qed simp

definition estimate_digit :: "digit \<Rightarrow> digit \<Rightarrow> digit \<Rightarrow> digit \<Rightarrow> digit" where
  "estimate_digit end0 end1 divisor_high divisor_low =
    (if end0 < divisor_high then
       (let dividend = ucast end1 OR push_bit 32 (ucast end0) :: u64;
            result_div = ucast (dividend div ucast divisor_high) :: digit;
            result_mod = ucast (dividend mod ucast divisor_high) :: digit
        in estimate_loop divisor_high divisor_low (ucast result_div * ucast divisor_low) result_div result_mod)
     else
       (let result_div = NOT 0; result_mod = end1 + divisor_high in
        if result_mod < divisor_high then result_div
        else estimate_loop divisor_high divisor_low (ucast result_div * ucast divisor_low) result_div result_mod))"

text \<open>
  \<open>mul_sub_loop\<close> subtracts the product of the divisor and the estimated digit from the digits of the
  dividend; it returns the digits written, the last carry and the digits of the dividend above.
\<close>

fun mul_sub_loop :: "digit list \<Rightarrow> digit \<Rightarrow> digit list \<Rightarrow> digit \<Rightarrow> digit list \<times> digit \<times> digit list" where
  "mul_sub_loop (s # source) result_div (value # dest) carry =
    (let multiply_result = ucast s * ucast result_div :: u64;
         new_carry = ucast (drop_bit 32 multiply_result) :: digit;
         multiply_result_low = ucast multiply_result :: digit;
         new_carry = (if value < multiply_result_low then new_carry + 1 else new_carry);
         value = value - multiply_result_low;
         new_carry = (if value < carry then new_carry + 1 else new_carry);
         (out, carry', rest) = mul_sub_loop source result_div dest new_carry
     in ((value - carry) # out, carry', rest))"
| "mul_sub_loop _ result_div dest carry = ([], carry, dest)"

text \<open>
  One round of the long division on the digits from \<open>dividend_p\<close> to \<open>dividend_end_p\<close>, one more than
  the divisor has: the new digits, the last one replaced by the digit of the quotient.
\<close>

definition div_round :: "digit list \<Rightarrow> digit list \<Rightarrow> digit list" where
  "div_round divisor window =
    (let n = length divisor;
         result_div = estimate_digit (window ! n) (window ! (n - 1)) (divisor ! (n - 1)) (divisor ! (n - 2));
         (out, carry, rest) = mul_sub_loop divisor result_div window 0
     in if hd rest < carry
        then fst (add_loop out divisor 0) @ [result_div - 1]
        else out @ [result_div])"

text \<open>
  The rounds, from the most significant digit of the quotient down to \<open>dividend_p = buffer_p\<close>. The
  digits of the quotient replace the leading digits of the dividend in the buffer.
\<close>

fun div_rounds :: "digit list \<Rightarrow> nat \<Rightarrow> digit list \<Rightarrow> digit list" where
  "div_rounds divisor dividend_p buffer =
    (let n = length divisor;
         window = take (n + 1) (drop dividend_p buffer);
         buffer = take dividend_p buffer @ div_round divisor window @ drop (dividend_p + n + 1) buffer
     in if dividend_p = 0 then buffer else div_rounds divisor (dividend_p - 1) buffer)"

text \<open>
  Bitwise operations on digits, the operands optionally decreased by one: the digits written, the
  carry of the left operand and its digits that are left.
\<close>

datatype bitwise_op = AND_OP | OR_OP | XOR_OP | AND_NOT_OP

fun digit_op :: "bitwise_op \<Rightarrow> digit \<Rightarrow> digit \<Rightarrow> digit" where
  "digit_op AND_OP l r = l AND r"
| "digit_op OR_OP l r = l OR r"
| "digit_op XOR_OP l r = l XOR r"
| "digit_op AND_NOT_OP l r = l AND NOT r"

fun bitwise_loop :: "bitwise_op \<Rightarrow> digit list \<Rightarrow> digit list \<Rightarrow> digit \<Rightarrow> digit \<Rightarrow> digit list \<times> digit \<times> digit list" where
  "bitwise_loop operation_type (l # ls) (r # rs) left_carry right_carry =
    (let left = l - left_carry;
         left_carry = (if left \<noteq> NOT 0 then 0 else left_carry);
         right = r - right_carry;
         right_carry = (if right \<noteq> NOT 0 then 0 else right_carry);
         (out, carry', rest) = bitwise_loop operation_type ls rs left_carry right_carry
     in (digit_op operation_type left right # out, carry', rest))"
| "bitwise_loop operation_type ls _ left_carry right_carry = ([], left_carry, ls)"

section \<open>Values of digit lists\<close>

abbreviation base :: nat where "base \<equiv> 4294967296"

fun big_val :: "digit list \<Rightarrow> nat" where
  "big_val [] = 0"
| "big_val (d # ds) = unat d + base * big_val ds"

definition normalized :: "digit list \<Rightarrow> bool" where
  "normalized ds \<longleftrightarrow> ds \<noteq> [] \<and> last ds \<noteq> 0"

lemma big_val_append: "big_val (xs @ ys) = big_val xs + base ^ length xs * big_val ys"
  by (induction xs) (simp_all add: algebra_simps)

lemma big_val_replicate_0 [simp]: "big_val (replicate n 0) = 0"
  by (induction n) auto

lemma unat_minus_1 [simp]: "unat (- 1 :: u32) = 4294967295"
  by (simp add: unsigned_minus_1_eq_mask mask_eq_exp_minus_1)

lemma big_val_replicate_max: "big_val (replicate n (NOT 0)) + 1 = base ^ n"
  by (induction n) (auto simp: algebra_simps)

lemma big_val_less: "big_val ds < base ^ length ds"
proof (induction ds)
  case (Cons d ds)
  then have "big_val ds + 1 \<le> base ^ length ds" by simp
  then have "base * (big_val ds + 1) \<le> base * base ^ length ds" by (rule mult_le_mono2)
  with unat_u32_less [of d] show ?case by simp
qed simp

lemma normalized_ge: "normalized ds \<Longrightarrow> base ^ (length ds - 1) \<le> big_val ds"
proof (cases ds rule: rev_cases)
  case (snoc xs x)
  moreover assume "normalized ds"
  ultimately have "1 \<le> unat x" by (simp add: normalized_def word_eq_unat)
  then have "base ^ length xs * 1 \<le> base ^ length xs * unat x" by (rule mult_le_mono2)
  then have "base ^ length xs \<le> big_val xs + base ^ length xs * unat x"
    unfolding mult_1_right by (rule trans_le_add2)
  with snoc show ?thesis by (simp add: big_val_append)
qed (simp add: normalized_def)

lemma normalized_pos: "normalized ds \<Longrightarrow> 0 < big_val ds"
  using normalized_ge [of ds] by (metis not_gr_zero not_one_le_zero power_not_zero zero_neq_numeral le_zero_eq)

lemma normalizedI_val: "ds \<noteq> [] \<Longrightarrow> base ^ (length ds - 1) \<le> big_val ds \<Longrightarrow> normalized ds"
proof (cases ds rule: rev_cases)
  case (snoc xs x)
  assume "base ^ (length ds - 1) \<le> big_val ds"
  with snoc big_val_less [of xs] show ?thesis
    by (cases "x = 0") (auto simp: normalized_def big_val_append)
qed simp

section \<open>Increase, decrease and addition\<close>

lemma unat_add32: "unat (a + b :: u32) = (unat a + unat b) mod base"
  by (simp add: unat_word_ariths)

lemma add_carry_iff: "(a + b :: u32) < b \<longleftrightarrow> base \<le> unat a + unat b"
  using unat_u32_less [of a] unat_u32_less [of b]
  by (auto simp: word_less_unat unat_add32 mod_if)

lemma unat_add_split: "unat a + unat b = unat (a + b :: u32) + (if a + b < b then base else 0)"
  using unat_u32_less [of a] unat_u32_less [of b]
  by (auto simp: add_carry_iff unat_add32 mod_if)

lemma unat_sub_split: "unat (a :: u32) + (if a < b then base else 0) = unat (a - b) + unat b"
  using unat_u32_less [of a] unat_u32_less [of b]
  by (auto simp: word_less_unat unat_sub_if')

lemma increase_loop_None: "increase_loop ds = None \<Longrightarrow> big_val ds + 1 = base ^ length ds"
  by (induction ds) (auto split: if_splits simp: algebra_simps)

lemma unat_plus_one: "d \<noteq> NOT 0 \<Longrightarrow> unat (d + 1 :: u32) = unat d + 1"
  using unat_u32_less [of d] by (auto simp: unat_add32 word_eq_unat mod_if)

lemma increase_loop_Some:
  "increase_loop ds = Some ds' \<Longrightarrow> big_val ds' = big_val ds + 1 \<and> length ds' = length ds"
  by (induction ds arbitrary: ds') (auto split: if_splits simp: unat_plus_one algebra_simps)

lemma unat_minus_one32: "d \<noteq> 0 \<Longrightarrow> unat (d - 1 :: u32) + 1 = unat d"
  using unat_sub_split [of d 1] by (auto simp: word_less_unat word_eq_unat)

lemma decrease_loop_None: "decrease_loop ds = None \<longleftrightarrow> big_val ds = 0"
  by (induction ds) (auto simp: word_eq_unat)

lemma decrease_loop_Some:
  "decrease_loop ds = Some ds' \<Longrightarrow> big_val ds' + 1 = big_val ds \<and> length ds' = length ds"
proof (induction ds arbitrary: ds')
  case (Cons d ds)
  show ?case
  proof (cases "d = 0")
    case True
    with Cons obtain ds2 where "ds' = - 1 # ds2" "decrease_loop ds = Some ds2" by auto
    with Cons.IH [of ds2] True show ?thesis by (simp flip: distrib_left)
  next
    case False
    with Cons.prems unat_minus_one32 [of d] show ?thesis by auto
  qed
qed simp

definition add_step :: "digit \<Rightarrow> digit \<Rightarrow> digit \<Rightarrow> digit \<times> digit" where
  "add_step l r c =
    (let (left, carry) = (if c = 0 \<or> l \<noteq> NOT 0 then (l + c, 0) else (0, 1));
         left = left + r
     in (left, if left < r then 1 else carry))"

lemma add_step_val:
  assumes "add_step l r c = (d, c')" "unat c \<le> 1"
  shows "unat d + base * unat c' = unat l + unat r + unat c" "unat c' \<le> 1"
proof -
  have c: "c = 0 \<or> c = 1" using assms(2) by (auto simp: word_eq_unat)
  define l1 c1 where "l1 = (if c = 0 \<or> l \<noteq> NOT 0 then l + c else 0)"
    and "c1 = (if c = 0 \<or> l \<noteq> NOT 0 then 0 else 1 :: u32)"
  have d: "d = l1 + r" "c' = (if l1 + r < r then 1 else c1)"
    using assms(1) by (auto simp: add_step_def l1_def c1_def Let_def split: if_splits)
  have l1: "unat l + unat c = unat l1 + base * unat c1"
    using c unat_plus_one [of l] by (auto simp: l1_def c1_def)
  have "c1 = 0 \<or> c1 = 1 \<and> l1 = 0"
    by (auto simp: c1_def l1_def)
  then show "unat d + base * unat c' = unat l + unat r + unat c" "unat c' \<le> 1"
    using unat_add_split [of l1 r] l1 by (auto simp: d)
qed

lemma add_loop_Cons:
  "add_loop (l # ls) (r # rs) c =
    (case add_step l r c of (d, c') \<Rightarrow> case add_loop ls rs c' of (out, c'', rest) \<Rightarrow> (d # out, c'', rest))"
  by (simp add: add_step_def Let_def)

lemma add_loop_spec:
  "add_loop ls rs c = (out, c', rest) \<Longrightarrow> length rs \<le> length ls \<Longrightarrow> unat c \<le> 1 \<Longrightarrow>
    length out = length rs \<and> rest = drop (length rs) ls \<and> unat c' \<le> 1 \<and>
    big_val out + base ^ length rs * unat c' = big_val (take (length rs) ls) + big_val rs + unat c"
proof (induction rs arbitrary: ls c out)
  case (Cons r rs)
  then obtain l ls' where ls: "ls = l # ls'" by (cases ls) auto
  obtain d c1 where s: "add_step l r c = (d, c1)" by fastforce
  obtain out' where rec: "add_loop ls' rs c1 = (out', c', rest)" "out = d # out'"
    using Cons.prems(1) by (auto simp: ls s add_loop_Cons simp del: add_loop.simps split: prod.splits)
  note v = add_step_val [OF s Cons.prems(3)]
  have "length out' = length rs \<and> rest = drop (length rs) ls' \<and> unat c' \<le> 1 \<and>
    big_val out' + base ^ length rs * unat c' = big_val (take (length rs) ls') + big_val rs + unat c1"
    using Cons.prems(2) ls v by (intro Cons.IH [OF rec(1)]) auto
  with v ls rec show ?case by (auto simp: algebra_simps simp flip: distrib_left) 
qed auto

section \<open>Subtraction\<close>

definition sub_step :: "digit \<Rightarrow> digit \<Rightarrow> digit \<Rightarrow> digit \<times> digit" where
  "sub_step l r c =
    (let (left, carry) = (if c = 0 \<or> l \<noteq> 0 then (l - c, if l - c < r then 1 else 0) else (NOT 0, 1))
     in (left - r, carry))"

lemma digit_01: "unat (c :: digit) \<le> 1 \<Longrightarrow> c = 0 \<or> c = 1"
  by (auto simp: word_eq_unat)

lemma sub_step_eqs:
  "sub_step l r 0 = (l - r, if l < r then 1 else 0)"
  "l \<noteq> 0 \<Longrightarrow> sub_step l r 1 = (l - 1 - r, if l - 1 < r then 1 else 0)"
  "sub_step 0 r 1 = (NOT 0 - r, 1)"
  by (simp_all add: sub_step_def)

lemma sub_step_val:
  assumes "sub_step l r c = (d, c')" "unat c \<le> 1"
  shows "unat d + unat r + unat c = unat l + base * unat c' \<and> unat c' \<le> 1"
proof -
  consider "c = 0" | "c = 1" "l \<noteq> 0" | "c = 1" "l = 0" using digit_01 [OF assms(2)] by blast
  then show ?thesis
  proof cases
    case 1
    with assms(1) unat_sub_split [of l r] show ?thesis by (auto simp: sub_step_eqs)
  next
    case 2
    with assms(1) unat_sub_split [of "l - 1" r] unat_minus_one32 [of l]
    show ?thesis by (auto simp: sub_step_eqs)
  next
    case 3
    have "\<not> NOT 0 < r" using unat_u32_less [of r] by (simp add: word_less_unat)
    with 3 assms(1) unat_sub_split [of "NOT 0" r] show ?thesis by (auto simp: sub_step_eqs)
  qed
qed

lemma sub_loop_Cons:
  "sub_loop (l # ls) (r # rs) c =
    (case sub_step l r c of (d, c') \<Rightarrow> case sub_loop ls rs c' of (out, c'', rest) \<Rightarrow> (d # out, c'', rest))"
  by (simp add: sub_step_def Let_def)

lemma sub_loop_spec:
  "sub_loop ls rs c = (out, c', rest) \<Longrightarrow> length rs \<le> length ls \<Longrightarrow> unat c \<le> 1 \<Longrightarrow>
    length out = length rs \<and> rest = drop (length rs) ls \<and> unat c' \<le> 1 \<and>
    big_val out + big_val rs + unat c = big_val (take (length rs) ls) + base ^ length rs * unat c'"
proof (induction rs arbitrary: ls c out)
  case (Cons r rs)
  then obtain l ls' where ls: "ls = l # ls'" by (cases ls) auto
  obtain d c1 where s: "sub_step l r c = (d, c1)" by fastforce
  obtain out' where rec: "sub_loop ls' rs c1 = (out', c', rest)" "out = d # out'"
    using Cons.prems(1) by (auto simp: ls s sub_loop_Cons simp del: sub_loop.simps split: prod.splits)
  note v = sub_step_val [OF s Cons.prems(3)]
  have IH: "length out' = length rs" "rest = drop (length rs) ls'" "unat c' \<le> 1"
    "big_val out' + big_val rs + unat c1 = big_val (take (length rs) ls') + base ^ length rs * unat c'"
    using Cons.IH [OF rec(1)] Cons.prems(2) ls v by auto
  have "base * (big_val out' + big_val rs + unat c1) =
      base * (big_val (take (length rs) ls') + base ^ length rs * unat c')"
    by (simp only: IH(4))
  with v IH(1-3) ls rec(2) show ?case by (simp add: algebra_simps)
qed auto

section \<open>Comparison\<close>

lemma compare_loop_val:
  "length ls = length rs \<Longrightarrow>
    compare_loop (rev ls) (rev rs) =
      (if big_val ls < big_val rs then -1 else if big_val ls = big_val rs then 0 else 1)"
proof (induction ls rs rule: rev_induct2)
  case 1
  then show ?case by simp
next
  case (4 x xs y ys)
  have less: "big_val (xs @ [x]) < big_val (ys @ [y])" if "unat x < unat y" "length xs = length ys" for x y and xs ys :: "digit list"
  proof -
    from that have "base ^ length xs * (unat x + 1) \<le> base ^ length xs * unat y" by (intro mult_le_mono2) simp
    with big_val_less [of xs] that show ?thesis by (simp add: big_val_append)
  qed
  from 4 show ?case
    using less [of x y xs ys] less [of y x ys xs]
    by (cases "x = y") (auto simp: big_val_append word_less_unat word_eq_unat)
qed auto

section \<open>Products of digits\<close>

lemma unat_u64_ucast: "unat (ucast (a :: u32) :: u64) = unat a"
  using unat_u32_less [of a] by (simp add: unat_ucast)

lemma digit_product:
  fixes a b :: digit
  defines "p \<equiv> (ucast a :: u64) * ucast b"
  shows "unat (ucast p :: digit) + base * unat (ucast (drop_bit 32 p) :: digit) = unat a * unat b"
    and "unat (ucast (drop_bit 32 p) :: digit) * base \<le> unat a * unat b"
    and "unat (ucast (drop_bit 32 p) :: digit) \<le> base - 2"
proof -
  have ab: "unat a \<le> base - 1" "unat b \<le> base - 1" using unat_u32_less [of a] unat_u32_less [of b] by auto
  have le: "unat a * unat b \<le> (base - 1) * (base - 1)" using mult_le_mono [OF ab] .
  then have p: "unat p = unat a * unat b"
    by (simp add: p_def unat_word_ariths unat_u64_ucast)
  have hi: "unat (ucast (drop_bit 32 p) :: digit) = unat p div base"
    using le p by (simp add: unat_ucast unat_drop_bit)
  have lo: "unat (ucast p :: digit) = unat p mod base" by (simp add: unat_ucast)
  show "unat (ucast p :: digit) + base * unat (ucast (drop_bit 32 p) :: digit) = unat a * unat b"
    using hi lo p by simp
  show "unat (ucast (drop_bit 32 p) :: digit) * base \<le> unat a * unat b"
    using hi p by simp
  show "unat (ucast (drop_bit 32 p) :: digit) \<le> base - 2"
    using hi p le by (simp add: div_le_mono)
qed

lemma unat_succ_if: "unat x \<le> base - 2 \<Longrightarrow> unat (if P then x + 1 else x :: u32) = unat x + (if P then 1 else 0)"
  using unat_plus_one [of x] by (auto simp: word_eq_unat)

definition mul_digit_step :: "digit \<Rightarrow> digit \<Rightarrow> digit \<Rightarrow> digit \<times> digit" where
  "mul_digit_step d mul carry =
    (let multiply_result = (ucast d :: u64) * ucast mul;
         low = ucast multiply_result + carry :: digit;
         high = ucast (drop_bit 32 multiply_result) :: digit
     in (low, if low < carry then high + 1 else high))"

lemma mul_digit_step_val:
  "mul_digit_step d mul c = (e, c') \<Longrightarrow> unat e + base * unat c' = unat d * unat mul + unat c"
  using digit_product [of d mul] unat_add_split [of "ucast ((ucast d :: u64) * ucast mul)" c]
    unat_succ_if [of "ucast (drop_bit 32 ((ucast d :: u64) * ucast mul))" True]
  by (auto simp: mul_digit_step_def Let_def split: if_splits)

lemma mul_digit_loop_Cons:
  "mul_digit_loop (d # ds) mul c =
    (case mul_digit_step d mul c of (e, c') \<Rightarrow> case mul_digit_loop ds mul c' of (out, c'') \<Rightarrow> (e # out, c''))"
  by (simp add: mul_digit_step_def Let_def)

lemma mul_digit_loop_spec:
  "mul_digit_loop ds mul c = (out, c') \<Longrightarrow>
    length out = length ds \<and> big_val out + base ^ length ds * unat c' = big_val ds * unat mul + unat c"
proof (induction ds arbitrary: c out)
  case (Cons d ds)
  obtain e c1 where s: "mul_digit_step d mul c = (e, c1)" by fastforce
  obtain out' where rec: "mul_digit_loop ds mul c1 = (out', c')" "out = e # out'"
    using Cons.prems by (auto simp: s mul_digit_loop_Cons simp del: mul_digit_loop.simps split: prod.splits)
  have "base * (big_val out' + base ^ length ds * unat c') = base * (big_val ds * unat mul + unat c1)"
    using Cons.IH [OF rec(1)] by simp
  with Cons.IH [OF rec(1)] mul_digit_step_val [OF s] rec(2) show ?case
    by (simp add: algebra_simps)
qed simp

section \<open>Multiplication\<close>

lemma mul_carry_0 [simp]: "mul_carry ds 0 = Some ds"
  by (subst mul_carry.simps) simp

lemma mul_carry_Cons:
  "c \<noteq> 0 \<Longrightarrow> mul_carry (d # ds) c = map_option (Cons (d + c)) (mul_carry ds (if d + c < c then 1 else 0))"
  by (subst mul_carry.simps) (simp add: word_less_unat word_eq_unat Let_def)

declare mul_carry.simps [simp del]

lemma mul_carry_spec:
  "big_val ds + unat c < base ^ length ds \<Longrightarrow>
    \<exists>ds'. mul_carry ds c = Some ds' \<and> length ds' = length ds \<and> big_val ds' = big_val ds + unat c"
proof (induction ds arbitrary: c)
  case Nil
  then have "c = 0" by (simp add: word_eq_unat)
  then show ?case by simp
next
  case (Cons d ds)
  show ?case
  proof (cases "c = 0")
    case False
    define k :: u32 where "k = (if d + c < c then 1 else 0)"
    have v: "unat d + unat c = unat (d + c) + base * unat k"
      using unat_add_split [of d c] by (simp add: k_def)
    with Cons.prems have "base * (big_val ds + unat k) < base * base ^ length ds"
      by (simp add: algebra_simps)
    then have "big_val ds + unat k < base ^ length ds" by simp
    from Cons.IH [OF this] obtain ds' where "mul_carry ds k = Some ds'" "length ds' = length ds"
      "big_val ds' = big_val ds + unat k" by blast
    with False v show ?thesis by (simp add: mul_carry_Cons k_def [symmetric])
  qed simp
qed

definition mul_step :: "digit \<Rightarrow> digit \<Rightarrow> digit \<Rightarrow> digit \<Rightarrow> digit \<times> digit" where
  "mul_step l r d c =
    (let multiply_result = (ucast l :: u64) * ucast r;
         low = ucast multiply_result :: digit;
         high = ucast (drop_bit 32 multiply_result) :: digit;
         high = (if d + low < low then high + 1 else high)
     in (d + low + c, if d + low + c < c then high + 1 else high))"

lemma mul_step_val:
  assumes "mul_step l r d c = (e, c')"
  shows "unat e + base * unat c' = unat d + unat l * unat r + unat c"
proof -
  define low high where "low = (ucast ((ucast l :: u64) * ucast r) :: digit)"
    and "high = (ucast (drop_bit 32 ((ucast l :: u64) * ucast r)) :: digit)"
  define h1 where "h1 = (if d + low < low then high + 1 else high)"
  have p: "unat low + base * unat high = unat l * unat r" "unat high \<le> base - 2"
    unfolding low_def high_def using digit_product [of l r] by auto
  have e: "e = d + low + c" "c' = (if d + low + c < c then h1 + 1 else h1)"
    using assms by (auto simp: mul_step_def Let_def low_def high_def h1_def split: if_splits)
  have h1: "unat d + unat low + base * unat high = unat (d + low) + base * unat h1"
    using unat_add_split [of d low] unat_succ_if [OF p(2), of "d + low < low"] by (simp add: h1_def)
  have "unat (d + low) + unat c = unat e + (if d + low + c < c then base else 0)"
    using unat_add_split [of "d + low" c] e by simp
  moreover have "unat h1 + 1 < base" if "d + low + c < c"
  proof (rule ccontr)
    assume "\<not> unat h1 + 1 < base"
    moreover have "unat l * unat r \<le> (base - 1) * (base - 1)"
      using unat_u32_less [of l] unat_u32_less [of r] by (intro mult_le_mono) auto
    ultimately show False
      using that h1 p unat_u32_less [of d] unat_u32_less [of c] \<open>unat (d + low) + unat c = _\<close>
        unat_u32_less [of e] by auto
  qed
  ultimately show ?thesis
    using h1 p e unat_plus_one [of h1] by (auto simp: word_eq_unat)
qed

lemma mul_row_Cons:
  "mul_row (l # ls) (ucast r) (d # ds) c =
    (case mul_step l r d c of (e, c') \<Rightarrow> map_option (Cons e) (mul_row ls (ucast r) ds c'))"
  by (simp add: mul_step_def Let_def)

lemma mul_row_spec:
  fixes r :: digit
  shows "big_val ds + big_val ls * unat r + unat c < base ^ length ds \<Longrightarrow> length ls \<le> length ds \<Longrightarrow>
    \<exists>ds'. mul_row ls (ucast r) ds c = Some ds' \<and> length ds' = length ds \<and>
      big_val ds' = big_val ds + big_val ls * unat r + unat c"
proof (induction ls arbitrary: ds c)
  case Nil
  then show ?case using mul_carry_spec [of ds c] by simp
next
  case (Cons l ls)
  then obtain d ds1 where ds: "ds = d # ds1" by (cases ds) auto
  obtain e c1 where s: "mul_step l r d c = (e, c1)" by fastforce
  note v = mul_step_val [OF s]
  have "base * (big_val ds1 + big_val ls * unat r + unat c1) < base * base ^ length ds1"
    using Cons.prems(1) v by (simp add: ds algebra_simps)
  then have "big_val ds1 + big_val ls * unat r + unat c1 < base ^ length ds1" by simp
  from Cons.IH [OF this] Cons.prems(2) obtain ds' where ds': "mul_row ls (ucast r) ds1 c1 = Some ds'"
    "length ds' = length ds1" "big_val ds' = big_val ds1 + big_val ls * unat r + unat c1"
    by (auto simp: ds)
  have "mul_row (l # ls) (ucast r) ds c = Some (e # ds')"
    by (simp only: ds mul_row_Cons s prod.case ds'(1) option.map)
  moreover have "big_val (e # ds') = big_val ds + big_val (l # ls) * unat r + unat c"
    using v by (simp add: ds ds'(3) algebra_simps)
  ultimately show ?case using ds'(2) ds by (intro exI [of _ "e # ds'"]) (simp del: mul_row.simps)
qed

lemma mul_loop_spec:
  assumes "big_val ds + big_val left * big_val rs < base ^ length ds" "length left + length rs \<le> length ds + 1"
    "length rs \<le> length ds"
  shows "\<exists>ds'. mul_loop left rs ds = Some ds' \<and> length ds' = length ds \<and>
    big_val ds' = big_val ds + big_val left * big_val rs"
  using assms
proof (induction rs arbitrary: ds)
  case (Cons r rs)
  have "big_val ds + big_val left * unat r \<le> big_val ds + big_val left * big_val (r # rs)" by simp
  from this Cons.prems(1) have "big_val ds + big_val left * unat r < base ^ length ds" by (rule le_less_trans)
  then have lt: "big_val ds + big_val left * unat r + unat (0 :: u32) < base ^ length ds" by simp
  have "length left \<le> length ds" using Cons.prems by simp
  then obtain ds1 where row: "(if r = 0 then Some ds else mul_row left (ucast r) ds 0) = Some ds1"
    "length ds1 = length ds" "big_val ds1 = big_val ds + big_val left * unat r"
    using mul_row_spec [OF lt] by (cases "r = 0") fastforce+
  from row(2) Cons.prems obtain d ds2 where ds1: "ds1 = d # ds2" by (cases ds1) auto
  have "base * (big_val ds2 + big_val left * big_val rs) < base * base ^ length ds2"
    using Cons.prems(1) row by (simp add: ds1 algebra_simps flip: row(2))
  then have "big_val ds2 + big_val left * big_val rs < base ^ length ds2" by simp
  from Cons.IH [OF this] Cons.prems row(2) obtain ds' where "mul_loop left rs ds2 = Some ds'"
    "length ds' = length ds2" "big_val ds' = big_val ds2 + big_val left * big_val rs"
    by (auto simp: ds1)
  with row ds1 show ?case by (simp add: algebra_simps)
qed simp

section \<open>Division by a digit\<close>

text \<open>\<open>big_val (rev ds)\<close> is the value of digits listed from the most significant one.\<close>

lemma two_digits:
  fixes d r :: digit
  shows "unat (ucast d OR push_bit 32 (ucast r) :: u64) = unat d + base * unat r"
proof -
  have "unat (push_bit 32 (ucast r :: u64)) = base * unat r"
    using unat_u32_less [of r] by (simp add: unat_push_bit unat_u64_ucast)
  then show ?thesis
    using unat_or_plus [of 32 "push_bit 32 (ucast r :: u64)" "ucast d"] unat_u32_less [of d]
    by (simp add: unat_u64_ucast or.commute)
qed

lemma unat_u32_ucast: "unat (ucast (w :: u64) :: u32) = unat w mod base"
  by (simp add: unat_ucast)

lemma big_val_rev_Cons: "big_val (rev (d # ds)) = big_val (rev ds) + base ^ length ds * unat d"
  by (simp add: big_val_append)

definition div_step :: "digit \<Rightarrow> digit \<Rightarrow> digit \<Rightarrow> digit \<times> digit" where
  "div_step v r d =
    (let result = ucast d OR push_bit 32 (ucast r) :: u64
     in (ucast (result div ucast v), ucast (result mod ucast v)))"

lemma div_step_val:
  assumes "div_step v r d = (q, r')" "r < v"
  shows "unat q * unat v + unat r' = unat d + base * unat r \<and> r' < v"
proof -
  define w where "w = (ucast d OR push_bit 32 (ucast r) :: u64)"
  have w: "unat w = unat d + base * unat r" unfolding w_def by (rule two_digits)
  have v: "0 < unat v" "unat r + 1 \<le> unat v" using assms(2) by (simp_all add: word_less_unat)
  have "base * (unat r + 1) \<le> base * unat v" by (rule mult_le_mono2 [OF v(2)])
  then have "unat w < base * unat v" using w unat_u32_less [of d] by simp
  then have q: "unat w div unat v < base" using v by (simp add: less_mult_imp_div_less)
  have "unat q = unat w div unat v"
    using assms(1) q by (auto simp: div_step_def Let_def unat_u32_ucast unat_div_distrib w_def [symmetric] unat_u64_ucast)
  moreover have "unat w mod unat v < unat v" using v by simp
  then have "unat r' = unat w mod unat v"
    using assms(1) unat_u32_less [of v]
    by (auto simp: div_step_def Let_def unat_u32_ucast unat_mod_distrib w_def [symmetric] unat_u64_ucast)
  ultimately show ?thesis using v w by (simp add: word_less_unat)
qed

lemma div_digit_loop_Cons:
  "div_digit_loop v r (d # ds) =
    (case div_step v r d of (q, r') \<Rightarrow> case div_digit_loop v r' ds of (out, r'') \<Rightarrow> (q # out, r''))"
  by (simp add: div_step_def Let_def)

lemma div_digit_loop_spec:
  "div_digit_loop v r ds = (out, r') \<Longrightarrow> r < v \<Longrightarrow>
    length out = length ds \<and> r' < v \<and>
    big_val (rev out) * unat v + unat r' = big_val (rev ds) + base ^ length ds * unat r"
proof (induction ds arbitrary: r out)
  case (Cons d ds)
  obtain q r1 where s: "div_step v r d = (q, r1)" by fastforce
  obtain out' where rec: "div_digit_loop v r1 ds = (out', r')" "out = q # out'"
    using Cons.prems by (auto simp: s div_digit_loop_Cons simp del: div_digit_loop.simps split: prod.splits)
  note v = div_step_val [OF s Cons.prems(2)]
  have IH: "length out' = length ds" "r' < v"
    "big_val (rev out') * unat v + unat r' = big_val (rev ds) + base ^ length ds * unat r1"
    using Cons.IH [OF rec(1)] v by auto
  have "big_val (rev out) * unat v + unat r' =
      big_val (rev out') * unat v + unat r' + base ^ length ds * (unat q * unat v)"
    unfolding rec(2) big_val_rev_Cons IH(1) by (simp add: algebra_simps)
  also have "\<dots> = big_val (rev ds) + base ^ length ds * (unat q * unat v + unat r1)"
    unfolding IH(3) by (simp add: algebra_simps)
  also have "unat q * unat v + unat r1 = unat d + base * unat r" using v by simp
  also have "big_val (rev ds) + base ^ length ds * (unat d + base * unat r) =
      big_val (rev (d # ds)) + base ^ length (d # ds) * unat r"
    unfolding big_val_rev_Cons by (simp add: algebra_simps)
  finally show ?case using IH rec(2) by simp
qed simp

section \<open>The 32-bit division step\<close>

lemma unat_or_plus': "2 ^ k dvd unat x \<Longrightarrow> unat y < 2 ^ k \<Longrightarrow> unat (y OR x) = unat y + unat (x :: 'a::len word)"
  using unat_or_plus [of k x y] by (simp add: or.commute add.commute)

lemma less_radix_product: "a < k * R \<Longrightarrow> (R :: nat) \<le> 64 \<Longrightarrow> a < k * 64 \<and> a div R < k"
  by (meson less_mult_imp_div_less less_le_trans mult_le_mono2)

lemma radix_arith:
  fixes h l r R :: nat
  assumes rh: "rh = h div 1024 + r * 4194304"
    and mid: "mid = h mod 1024 * 1024 + rh mod R * 1048576 + l div 4194304"
    and low: "low = l mod 4194304 + mid mod R * 4194304"
  shows "(low div R + mid div R mod 1024 * 4194304 + base * (rh div R * 1024 + mid div R div 1024)) * R +
    low mod R = l + base * h + base * base * r"
proof -
  have shuffle: "x + a * 4194304 + base * (c * 1024 + b) = x + 4194304 * (a + 1024 * b) + 4398046511104 * c"
    for x a b c :: nat by simp
  have linear: "rh = h1 + r * 4194304 \<Longrightarrow> mid = h0 * 1024 + rhm * 1048576 + l1 \<Longrightarrow> low = l0 + midm * 4194304 \<Longrightarrow>
      ql + lowm = low \<Longrightarrow> qm + midm = mid \<Longrightarrow> qh + rhm = rh \<Longrightarrow> l0 + 4194304 * l1 = l \<Longrightarrow> h0 + 1024 * h1 = h \<Longrightarrow>
      (ql + lowm) + 4194304 * qm + 4398046511104 * qh = l + base * h + base * base * r"
    for rh h1 mid h0 rhm l1 low l0 midm ql lowm qm qh l h r :: nat by linarith
  have "low div R + mid div R mod 1024 * 4194304 + base * (rh div R * 1024 + mid div R div 1024) =
      low div R + 4194304 * (mid div R mod 1024 + 1024 * (mid div R div 1024)) + 4398046511104 * (rh div R)"
    by (rule shuffle)
  also have "\<dots> = low div R + 4194304 * (mid div R) + 4398046511104 * (rh div R)"
    by (simp only: mod_mult_div_eq)
  finally have "(low div R + mid div R mod 1024 * 4194304 + base * (rh div R * 1024 + mid div R div 1024)) * R +
      low mod R = (low div R * R + low mod R) + 4194304 * (mid div R * R) + 4398046511104 * (rh div R * R)"
    by (simp only: add_mult_distrib mult.assoc)
  also have "\<dots> = l + base * h + base * base * r"
    by (rule linear [OF rh mid low div_mult_mod_eq div_mult_mod_eq div_mult_mod_eq mod_mult_div_eq mod_mult_div_eq])
  finally show ?thesis .
qed

lemma div_radix_pair_val:
  assumes "div_radix_pair radix r d1 d2 = (e1, e2, r')" "r < radix" "unat radix \<le> 64"
  shows "(unat e2 + base * unat e1) * unat radix + unat r' = unat d2 + base * unat d1 + base * base * unat r \<and>
    r' < radix"
proof -
  define R h l where "R = unat radix" and "h = unat d1" and "l = unat d2"
  have R: "0 < R" "unat r < R" "R \<le> 64" "unat r < 64"
    using assms(2,3) by (auto simp: R_def word_less_unat)
  have h: "h < base" "l < base" by (simp_all add: h_def l_def unat_u32_less)
  define wh where "wh = drop_bit 10 d1 OR push_bit 22 r"
  define rh where "rh = h div 1024 + unat r * 4194304"
  have rh: "unat wh = rh"
    unfolding wh_def rh_def using R h
    by (subst unat_or_plus' [of 22]) (auto simp: unat_push_bit unat_drop_bit h_def)
  have "h div 1024 < 4194304" using h by simp
  then have "rh < 4194304 * R" using R(2) by (simp add: rh_def)
  note rh_less = less_radix_product [OF this R(3)]
  define wm where "wm = (push_bit 10 (d1 AND 0x3ff) OR push_bit 20 (wh mod radix)) OR drop_bit 22 d2"
  define mid where "mid = h mod 1024 * 1024 + rh mod R * 1048576 + l div 4194304"
  have modR: "x mod R < R" "x mod R < 64" for x using R by (auto intro: less_le_trans [OF mod_less_divisor])
  have m1: "unat (push_bit 10 (d1 AND 0x3ff)) = h mod 1024 * 1024"
    using mod_less_divisor [of 1024 h] by (simp add: unat_push_bit unat_and_low_masks h_def del: push_bit_and)
  have m2: "unat (push_bit 20 (wh mod radix)) = rh mod R * 1048576"
    using modR(2) [of rh] by (simp add: unat_push_bit unat_mod_distrib rh R_def)
  have m12: "unat (push_bit 10 (d1 AND 0x3ff) OR push_bit 20 (wh mod radix)) = h mod 1024 * 1024 + rh mod R * 1048576"
    using mod_less_divisor [of 1024 h]
    by (subst unat_or_plus' [of 20]) (auto simp: m1 m2 simp del: push_bit_and)
  have l22: "l div 4194304 < 1024" using h by simp
  have mid: "unat wm = mid"
    unfolding wm_def mid_def using l22
    by (subst unat_or_plus [of 10]) (auto simp: m12 unat_drop_bit l_def intro!: dvd_add simp del: push_bit_and)
  have "mid < 1048576 * R"
    using l22 modR(1) [of rh] mod_less_divisor [of 1024 h] by (simp add: mid_def)
  note mid_less = less_radix_product [OF this R(3)]
  define wl where "wl = (d2 AND 0x3fffff) OR push_bit 22 (wm mod radix)"
  define low where "low = l mod 4194304 + mid mod R * 4194304"
  have mask22: "unat (d2 AND 0x3fffff) = l mod 4194304"
    using unat_and_mask [of d2 22] by (simp add: mask_eq_exp_minus_1 l_def)
  have low: "unat wl = low"
    unfolding wl_def low_def using modR(2) [of mid]
    by (subst unat_or_plus' [of 22]) (auto simp: unat_push_bit unat_mod_distrib mid R_def mask22)
  have "low < 4194304 * R" using modR(1) [of mid] mod_less_divisor [of 4194304 l] by (simp add: low_def)
  note low_less = less_radix_product [OF this R(3)]
  have res: "e1 = push_bit 10 (wh div radix) OR drop_bit 10 (wm div radix)"
    "e2 = wl div radix OR push_bit 22 (wm div radix)" "r' = wl mod radix"
    using assms(1) by (simp_all add: div_radix_pair_def Let_def wh_def wm_def wl_def)
  have e1: "unat e1 = rh div R * 1024 + mid div R div 1024"
    unfolding res using rh_less mid_less
    by (subst unat_or_plus [of 10]) (auto simp: unat_push_bit unat_drop_bit unat_div_distrib rh mid R_def)
  have push: "unat (push_bit 22 (wm div radix)) = mid div R mod 1024 * 4194304"
    by (simp add: unat_push_bit unat_div_distrib mid R_def mult_mod_left)
  have e2: "unat e2 = low div R + mid div R mod 1024 * 4194304"
    unfolding res using low_less
    by (subst unat_or_plus' [of 22]) (auto simp: push unat_div_distrib low R_def)
  have r': "unat r' = low mod R" by (simp add: res unat_mod_distrib low R_def)
  have "(unat e2 + base * unat e1) * R + unat r' = l + base * h + base * base * unat r"
    unfolding e1 e2 r' using radix_arith [OF rh_def mid_def low_def] .
  then show ?thesis using modR(1) [of low] r' by (simp add: R_def h_def l_def word_less_unat)
qed

lemma big_val_inject: "length xs = length ys \<Longrightarrow> big_val xs = big_val ys \<Longrightarrow> xs = ys"
proof (induction xs ys rule: list_induct2)
  case (Cons x xs y ys)
  have "unat x = big_val (x # xs) mod base" "unat y = big_val (y # ys) mod base"
    "big_val xs = big_val (x # xs) div base" "big_val ys = big_val (y # ys) div base"
    using unat_u32_less [of x] unat_u32_less [of y] by simp_all
  with Cons show ?case by (metis word_eq_unat)
qed simp

lemma div_radix_pairs_spec:
  "div_radix_pairs v r ds = (out, r') \<Longrightarrow> r < v \<Longrightarrow> unat v \<le> 64 \<Longrightarrow> even (length ds) \<Longrightarrow>
    length out = length ds \<and> r' < v \<and>
    big_val (rev out) * unat v + unat r' = big_val (rev ds) + base ^ length ds * unat r"
proof (induction v r ds arbitrary: out rule: div_radix_pairs.induct)
  case (1 v r d1 d2 ds)
  obtain e1 e2 r1 where s: "div_radix_pair v r d1 d2 = (e1, e2, r1)" by (metis prod_cases3)
  obtain out' where rec: "div_radix_pairs v r1 ds = (out', r')" "out = e1 # e2 # out'"
    using 1(2) s by (auto split: prod.splits)
  note v = div_radix_pair_val [OF s 1(3,4)]
  have IH: "length out' = length ds" "r' < v"
    "big_val (rev out') * unat v + unat r' = big_val (rev ds) + base ^ length ds * unat r1"
    using 1(1) [OF s [symmetric] refl refl rec(1)] v 1(4,5) by auto
  have "big_val (rev out) * unat v + unat r' =
      big_val (rev out') * unat v + unat r' + base ^ length ds * ((unat e2 + base * unat e1) * unat v)"
    unfolding rec(2) big_val_rev_Cons by (simp add: IH(1) algebra_simps)
  also have "\<dots> = big_val (rev ds) + base ^ length ds * ((unat e2 + base * unat e1) * unat v + unat r1)"
    unfolding IH(3) by (simp add: algebra_simps)
  also have "\<dots> = big_val (rev (d1 # d2 # ds)) + base ^ length (d1 # d2 # ds) * unat r"
    unfolding v [THEN conjunct1] big_val_rev_Cons by (simp add: algebra_simps)
  finally show ?case using IH rec(2) by simp
qed simp_all

text \<open>The two branches of the conversion to a string divide alike.\<close>

lemma div_unique:
  fixes q q' v r r' :: nat
  assumes "q * v + r = q' * v + r'" "r < v" "r' < v"
  shows "q = q' \<and> r = r'"
proof -
  have "(q * v + r) div v = q" "(q' * v + r') div v = q'" "(q * v + r) mod v = r" "(q' * v + r') mod v = r'"
    using assms(2,3) by simp_all
  with assms(1) show ?thesis by simp
qed

lemma div_radix_pairs_eq:
  assumes "r < v" "unat v \<le> 64" "even (length ds)"
  shows "div_radix_pairs v r ds = div_digit_loop v r ds"
proof -
  obtain out1 r1 out2 r2 where eqs: "div_radix_pairs v r ds = (out1, r1)" "div_digit_loop v r ds = (out2, r2)"
    by fastforce
  note s1 = div_radix_pairs_spec [OF eqs(1) assms] and s2 = div_digit_loop_spec [OF eqs(2) assms(1)]
  have "big_val (rev out1) * unat v + unat r1 = big_val (rev out2) * unat v + unat r2" using s1 s2 by simp
  from div_unique [OF this] s1 s2 have "big_val (rev out1) = big_val (rev out2)" "r1 = r2"
    by (auto simp: word_unat)
  with s1 s2 show ?thesis using big_val_inject [of "rev out1" "rev out2"] eqs by simp
qed

lemma div_radix_loop32_eq:
  assumes "0 < radix" "unat radix \<le> 64"
  shows "div_radix_loop32 radix ds = div_digit_loop radix 0 ds"
proof (cases "odd (length ds)")
  case True
  then obtain d ds' where ds: "ds = d # ds'" by (cases ds) auto
  have "unat d div unat radix < base" "unat d mod unat radix < base"
    using unat_u32_less [of d] by (meson div_le_dividend le_less_trans mod_less_eq_dividend)+
  then have "div_step radix 0 d = (d div radix, d mod radix)"
    by (simp add: div_step_def Let_def word_eq_unat unat_u32_ucast unat_div_distrib unat_mod_distrib unat_u64_ucast)
  moreover have "d mod radix < radix" using assms(1) by (simp add: word_less_unat unat_mod_distrib)
  ultimately show ?thesis
    using True assms by (simp add: div_radix_loop32_def ds div_digit_loop_Cons div_radix_pairs_eq del: div_digit_loop.simps)
next
  case False
  with assms show ?thesis by (simp add: div_radix_loop32_def div_radix_pairs_eq)
qed

section \<open>Shifts\<close>

lemma pow2_split: "s \<le> 32 \<Longrightarrow> (2 :: nat) ^ s * 2 ^ (32 - s) = base"
  by (simp flip: power_add)

lemma unat_push32:
  assumes "s \<le> 32"
  shows "unat (push_bit s (d :: digit)) = unat d mod 2 ^ (32 - s) * 2 ^ s"
proof -
  have "unat (push_bit s d) = unat d * 2 ^ s mod (2 ^ (32 - s) * 2 ^ s)"
    using pow2_split [OF assms] by (simp add: unat_push_bit mult.commute)
  then show ?thesis by (simp only: mult_mod_left)
qed

lemma push_drop_split:
  fixes d :: digit
  assumes "s \<le> 32"
  shows "unat (push_bit s d) + base * unat (drop_bit (32 - s) d) = unat d * 2 ^ s"
proof -
  have "unat (push_bit s d) + base * unat (drop_bit (32 - s) d) =
      2 ^ s * (unat d mod 2 ^ (32 - s) + 2 ^ (32 - s) * (unat d div 2 ^ (32 - s)))"
    unfolding unat_push32 [OF assms] unat_drop_bit pow2_split [OF assms, symmetric]
    by (simp only: algebra_simps)
  then show ?thesis by (simp only: mod_mult_div_eq mult.commute)
qed

lemma unat_push_or:
  fixes d c :: digit
  assumes "s \<le> 32" "unat c < 2 ^ s"
  shows "unat (push_bit s d OR c) = unat (push_bit s d) + unat c"
proof (rule unat_or_plus [OF _ assms(2)])
  show "2 ^ s dvd unat (push_bit s d)" by (simp add: unat_push32 [OF assms(1)])
qed

lemma drop_bit_less: "s \<le> 32 \<Longrightarrow> unat (drop_bit (32 - s) (d :: digit)) < 2 ^ s"
  using pow2_split [of s] unat_u32_less [of d] by (simp add: unat_drop_bit less_mult_imp_div_less)

lemma shift_left_loop_spec:
  "shift_left_loop s ds c = (out, c') \<Longrightarrow> s \<le> 32 \<Longrightarrow> unat c < 2 ^ s \<Longrightarrow>
    length out = length ds \<and> unat c' < 2 ^ s \<and>
    big_val out + base ^ length ds * unat c' = big_val ds * 2 ^ s + unat c \<and>
    (ds \<noteq> [] \<longrightarrow> c' = drop_bit (32 - s) (last ds))"
proof (induction ds arbitrary: c out)
  case (Cons d ds)
  obtain out' where rec: "shift_left_loop s ds (drop_bit (32 - s) d) = (out', c')"
    "out = (push_bit s d OR c) # out'"
    using Cons.prems(1) by (auto split: prod.splits)
  have IH: "length out' = length ds" "unat c' < 2 ^ s"
    "big_val out' + base ^ length ds * unat c' = big_val ds * 2 ^ s + unat (drop_bit (32 - s) d)"
    "ds \<noteq> [] \<longrightarrow> c' = drop_bit (32 - s) (last ds)"
    using Cons.IH [OF rec(1) Cons.prems(2) drop_bit_less [OF Cons.prems(2)]] by auto
  have "big_val out + base ^ length (d # ds) * unat c' =
      unat (push_bit s d) + unat c + base * (big_val out' + base ^ length ds * unat c')"
    using unat_push_or [OF Cons.prems(2,3), of d] by (simp add: rec(2) distrib_left)
  also have "\<dots> = base * (big_val ds * 2 ^ s) + (unat (push_bit s d) + base * unat (drop_bit (32 - s) d)) + unat c"
    unfolding IH(3) by (simp only: algebra_simps)
  also have "\<dots> = big_val (d # ds) * 2 ^ s + unat c"
    unfolding push_drop_split [OF Cons.prems(2)] by (simp add: algebra_simps)
  finally have "big_val out + base ^ length (d # ds) * unat c' = big_val (d # ds) * 2 ^ s + unat c" .
  moreover have "c' = drop_bit (32 - s) (last (d # ds))"
    using IH(4) rec(1) by (cases "ds = []") simp_all
  ultimately show ?case using IH(1,2) rec(2) by (simp del: big_val.simps)
qed simp

lemma drop_or_push:
  fixes d c :: digit
  assumes "s < 32" "2 ^ (32 - s) dvd unat c"
  shows "unat (drop_bit s d OR c) = unat d div 2 ^ s + unat c"
  using unat_or_plus' [OF assms(2), of "drop_bit s d"] drop_bit_less [of "32 - s" d] assms(1)
  by (simp add: unat_drop_bit)

text \<open>
  Downwards, each carry is a multiple of \<open>2 ^ (32 - s)\<close>: scaled by \<open>2 ^ s\<close> it is the part of the
  number above the digits.
\<close>

lemma shift_right_loop_spec:
  assumes "0 < s" "s < 32"
  shows "2 ^ (32 - s) dvd unat c \<Longrightarrow>
    length (shift_right_loop s ds c) = length ds \<and>
    big_val (rev (shift_right_loop s ds c)) =
      (big_val (rev ds) + base ^ length ds * (unat c * 2 ^ s div base)) div 2 ^ s"
proof (induction ds arbitrary: c)
  case (Cons d ds)
  let ?c = "push_bit (32 - s) d"
  define k where "k = unat c * 2 ^ s div base"
  have k: "unat c = k * 2 ^ (32 - s)"
  proof -
    obtain m where m: "unat c = 2 ^ (32 - s) * m" using Cons.prems by (auto simp: dvd_def)
    then have "unat c * 2 ^ s = base * m" using pow2_split [of s] assms by (simp add: ac_simps)
    then have "k = m" by (simp add: k_def)
    then show ?thesis using m by simp
  qed
  have c': "unat ?c * 2 ^ s div base = unat d mod 2 ^ s"
  proof -
    have "unat ?c * 2 ^ s = unat d mod 2 ^ s * (2 ^ (32 - s) * 2 ^ s)"
      using assms by (simp add: unat_push32)
    also have "\<dots> = unat d mod 2 ^ s * base" using pow2_split [of s] assms by (simp add: mult.commute)
    finally have "unat ?c * 2 ^ s = unat d mod 2 ^ s * base" .
    then show ?thesis by simp
  qed
  have dvd: "2 ^ (32 - s) dvd unat ?c"
    by (simp add: unat_push32)
  have IH: "length (shift_right_loop s ds ?c) = length ds"
    "big_val (rev (shift_right_loop s ds ?c)) =
      (big_val (rev ds) + base ^ length ds * (unat d mod 2 ^ s)) div 2 ^ s"
    using Cons.IH [OF dvd] c' by auto
  have "big_val (rev (shift_right_loop s (d # ds) c)) =
      (big_val (rev ds) + base ^ length ds * (unat d mod 2 ^ s)) div 2 ^ s +
      base ^ length ds * (unat d div 2 ^ s + k * 2 ^ (32 - s))"
    using IH drop_or_push [OF assms(2) Cons.prems, of d] k by (simp add: big_val_append)
  also have "\<dots> = (big_val (rev ds) + base ^ length ds * (unat d mod 2 ^ s) +
      2 ^ s * (base ^ length ds * (unat d div 2 ^ s + k * 2 ^ (32 - s)))) div 2 ^ s"
    by simp
  also have "big_val (rev ds) + base ^ length ds * (unat d mod 2 ^ s) +
      2 ^ s * (base ^ length ds * (unat d div 2 ^ s + k * 2 ^ (32 - s))) =
      big_val (rev ds) + base ^ length ds * (unat d mod 2 ^ s + 2 ^ s * (unat d div 2 ^ s)) +
      base ^ length ds * (k * (2 ^ s * 2 ^ (32 - s)))"
    by (simp only: algebra_simps)
  also have "\<dots> = big_val (rev (d # ds)) + base ^ length (d # ds) * k"
    using pow2_split [of s] assms unfolding mod_mult_div_eq big_val_rev_Cons by (simp add: ac_simps)
  finally show ?case using IH(1) by (simp add: k_def)
next
  case Nil
  have "unat c * 2 ^ s < base * 2 ^ s" using unat_u32_less [of c] by simp
  then have "unat c * 2 ^ s div base < 2 ^ s" by (simp add: less_mult_imp_div_less mult.commute)
  then show ?case by simp
qed

section \<open>Leading zeros\<close>

lemma big_val_eq_0_iff: "big_val ds = 0 \<longleftrightarrow> (\<forall>d\<in>set ds. d = 0)"
  by (induction ds) (auto simp: word_eq_unat)

lemma normalize_loop_spec:
  assumes "0 < n" "n \<le> length ds" "ds ! (n - 1) = 0"
  shows "normalize_loop ds n \<le> n - 1 \<and> big_val (take (normalize_loop ds n) ds) = big_val (take n ds) \<and>
    (normalize_loop ds n \<noteq> 0 \<longrightarrow> ds ! (normalize_loop ds n - 1) \<noteq> 0)"
  using assms
proof (induction n)
  case (Suc n)
  have "big_val (take (Suc n) ds) = big_val (take n ds)"
    using Suc.prems by (simp add: take_Suc_conv_app_nth big_val_append)
  with Suc show ?case by (cases "n = 0") auto
qed simp

section \<open>Counting leading zeros\<close>

declare count_leading_zero_loop.simps [simp del]

lemma drop_bit_bounds:
  fixes d :: nat
  assumes "2 ^ (b - 1) \<le> d div 2 ^ s" "d div 2 ^ s < 2 ^ b" "0 < b"
  shows "2 ^ (b + s - 1) \<le> d" "d < 2 ^ (b + s)"
proof -
  have "2 ^ (b - 1) * 2 ^ s \<le> d div 2 ^ s * 2 ^ s" using assms(1) by simp
  also have "\<dots> \<le> d" by simp
  finally show "2 ^ (b + s - 1) \<le> d" using assms(3) by (simp flip: power_add)
  have "d < 2 ^ b * 2 ^ s" using assms(2) by (simp add: div_less_iff_less_mult)
  then show "d < 2 ^ (b + s)" by (simp add: power_add)
qed

lemma count_leading_zero_loop_bits:
  "0 < unat d \<Longrightarrow> unat d < 2 ^ (2 * 2 ^ j) \<Longrightarrow>
    \<exists>b. count_leading_zero_loop (2 ^ j) d r = r - of_nat b \<and> 0 < b \<and> b \<le> 2 * 2 ^ j \<and>
      2 ^ (b - 1) \<le> unat d \<and> unat d < 2 ^ b"
proof (induction j arbitrary: d r)
  case 0
  then consider "unat d = 1" | "unat d = 2" | "unat d = 3" by fastforce
  then have "d = 1 \<or> d = 2 \<or> d = 3" by cases (auto simp: word_eq_unat)
  moreover have "drop_bit (Suc 0) 1 = (0 :: digit)" "drop_bit (Suc 0) 2 = (1 :: digit)" "drop_bit (Suc 0) 3 = (1 :: digit)"
    by (simp_all add: word_eq_unat unat_drop_bit)
  ultimately show ?case
    by (subst count_leading_zero_loop.simps) (auto intro: exI [of _ 1] exI [of _ 2])
next
  case (Suc j)
  let ?s = "2 ^ Suc j :: nat" and ?v = "drop_bit (2 ^ Suc j) d"
  have v: "unat ?v = unat d div 2 ^ ?s" by (simp add: unat_drop_bit)
  have step: "count_leading_zero_loop ?s d r =
      (if ?v > 0 then count_leading_zero_loop (2 ^ j) ?v (r - of_nat ?s) else count_leading_zero_loop (2 ^ j) d r)"
    by (subst count_leading_zero_loop.simps) (simp add: Let_def)
  show ?case
  proof (cases "?v > 0")
    case True
    have "unat d < 2 ^ ?s * 2 ^ ?s" using Suc.prems(2) by (simp flip: power_add)
    then have "unat ?v < 2 ^ (2 * 2 ^ j)" unfolding v by (simp add: less_mult_imp_div_less)
    from Suc.IH [OF _ this, of "r - of_nat ?s"] True obtain b where b:
      "count_leading_zero_loop (2 ^ j) ?v (r - of_nat ?s) = r - of_nat ?s - of_nat b" "0 < b" "b \<le> 2 * 2 ^ j"
      "2 ^ (b - 1) \<le> unat ?v" "unat ?v < 2 ^ b"
      by (auto simp: word_less_unat)
    have "2 ^ (b + ?s - 1) \<le> unat d" "unat d < 2 ^ (b + ?s)"
      using drop_bit_bounds [of b "unat d" ?s] b v by auto
    then show ?thesis using True b step by (intro exI [of _ "b + ?s"]) simp
  next
    case False
    then have "unat d div 2 ^ ?s = 0" using v by (simp add: word_less_unat)
    then have "unat d < 2 ^ (2 * 2 ^ j)" by (simp add: div_eq_0_iff)
    from Suc.IH [OF Suc.prems(1) this, of r] obtain b where b:
      "count_leading_zero_loop (2 ^ j) d r = r - of_nat b" "0 < b" "b \<le> 2 * 2 ^ j"
      "2 ^ (b - 1) \<le> unat d" "unat d < 2 ^ b" by blast
    with False step show ?thesis by (intro exI [of _ b]) simp
  qed
qed

lemma count_leading_zero_spec:
  assumes "d \<noteq> 0"
  shows "unat (ecma_big_uint_count_leading_zero d) < 32 \<and>
    2 ^ 31 \<le> unat d * 2 ^ unat (ecma_big_uint_count_leading_zero d) \<and>
    unat d * 2 ^ unat (ecma_big_uint_count_leading_zero d) < 2 ^ 32"
proof -
  have "0 < unat d" "unat d < 2 ^ (2 * 2 ^ 4)" using assms unat_u32_less [of d] by (auto simp: word_eq_unat)
  from count_leading_zero_loop_bits [OF this, of 32] obtain b where b:
    "ecma_big_uint_count_leading_zero d = 32 - of_nat b" "0 < b" "b \<le> 32" "2 ^ (b - 1) \<le> unat d" "unat d < 2 ^ b"
    by (auto simp: ecma_big_uint_count_leading_zero_def)
  have "unat (of_nat b :: digit) = b" using b(3) by (simp add: unat_of_nat)
  then have u: "unat (ecma_big_uint_count_leading_zero d) = 32 - b"
    unfolding b(1) using b(3) by (subst unat_sub) (auto simp: word_le_unat)
  have eqs: "(2 :: nat) ^ (b - 1) * 2 ^ (32 - b) = 2 ^ 31" "(2 :: nat) ^ b * 2 ^ (32 - b) = 2 ^ 32"
    using b(2,3) by (simp_all flip: power_add)
  have "2 ^ 31 \<le> unat d * 2 ^ (32 - b)" using mult_le_mono1 [OF b(4), of "2 ^ (32 - b)"] by (simp only: eqs)
  moreover have "unat d * 2 ^ (32 - b) < 2 ^ 32" using mult_less_mono1 [OF b(5), of "2 ^ (32 - b)"] by (simp only: eqs) simp
  ultimately show ?thesis using b(2) by (simp add: u)
qed

section \<open>Multiply and subtract\<close>

definition mul_sub_step :: "digit \<Rightarrow> digit \<Rightarrow> digit \<Rightarrow> digit \<Rightarrow> digit \<times> digit" where
  "mul_sub_step s q v c =
    (let multiply_result = ucast s * ucast q :: u64;
         high = ucast (drop_bit 32 multiply_result) :: digit;
         low = ucast multiply_result :: digit;
         high = (if v < low then high + 1 else high)
     in (v - low - c, if v - low < c then high + 1 else high))"

lemma mul_sub_step_val:
  assumes "mul_sub_step s q v c = (e, c')"
  shows "unat e + unat s * unat q + unat c = unat v + base * unat c'"
proof -
  define low high where "low = (ucast ((ucast s :: u64) * ucast q) :: digit)"
    and "high = (ucast (drop_bit 32 ((ucast s :: u64) * ucast q)) :: digit)"
  define h1 where "h1 = (if v < low then high + 1 else high)"
  have p: "unat low + base * unat high = unat s * unat q" "unat high \<le> base - 2"
    unfolding low_def high_def using digit_product [of s q] by auto
  have e: "e = v - low - c" "c' = (if v - low < c then h1 + 1 else h1)"
    using assms by (auto simp: mul_sub_step_def Let_def low_def high_def h1_def split: if_splits)
  have h1: "unat h1 = unat high + (if v < low then 1 else 0)"
    unfolding h1_def by (rule unat_succ_if [OF p(2)])
  have a: "unat v + (if v < low then base else 0) = unat (v - low) + unat low"
    by (rule unat_sub_split)
  have b: "unat (v - low) + (if v - low < c then base else 0) = unat e + unat c"
    unfolding e by (rule unat_sub_split)
  have "unat h1 + 1 < base" if "v - low < c"
  proof (rule ccontr)
    assume "\<not> unat h1 + 1 < base"
    then have "unat high = base - 2" "v < low" using h1 p(2) by (auto split: if_splits)
    moreover have "unat s * unat q \<le> (base - 1) * (base - 1)"
      using unat_u32_less [of s] unat_u32_less [of q] by (intro mult_le_mono) auto
    ultimately have "unat low \<le> 1" using p(1) by simp
    with \<open>v < low\<close> have "unat v = 0" "unat low = 1" by (auto simp: word_less_unat)
    with a \<open>v < low\<close> that unat_u32_less [of c] show False by (auto simp: word_less_unat)
  qed
  then have "unat c' = unat h1 + (if v - low < c then 1 else 0)"
    using e(2) unat_plus_one [of h1] by (auto simp: word_eq_unat)
  with h1 a b p(1) show ?thesis by (auto split: if_splits)
qed

lemma mul_sub_loop_Cons:
  "mul_sub_loop (s # ss) q (v # ds) c =
    (case mul_sub_step s q v c of (e, c') \<Rightarrow> case mul_sub_loop ss q ds c' of (out, c'', rest) \<Rightarrow> (e # out, c'', rest))"
  by (simp add: mul_sub_step_def Let_def)

lemma mul_sub_loop_spec:
  "mul_sub_loop ss q ds c = (out, c', rest) \<Longrightarrow> length ss \<le> length ds \<Longrightarrow>
    length out = length ss \<and> rest = drop (length ss) ds \<and>
    big_val out + big_val ss * unat q + unat c = big_val (take (length ss) ds) + base ^ length ss * unat c'"
proof (induction ss arbitrary: ds c out)
  case (Cons s ss)
  then obtain v ds' where ds: "ds = v # ds'" by (cases ds) auto
  obtain e c1 where s: "mul_sub_step s q v c = (e, c1)" by fastforce
  obtain out' where rec: "mul_sub_loop ss q ds' c1 = (out', c', rest)" "out = e # out'"
    using Cons.prems(1) by (auto simp: ds s mul_sub_loop_Cons simp del: mul_sub_loop.simps split: prod.splits)
  have IH: "length out' = length ss" "rest = drop (length ss) ds'"
    "big_val out' + big_val ss * unat q + unat c1 = big_val (take (length ss) ds') + base ^ length ss * unat c'"
    using Cons.IH [OF rec(1)] Cons.prems(2) ds by auto
  have "big_val out + big_val (s # ss) * unat q + unat c + base * unat c1 =
      (unat e + unat s * unat q + unat c) + base * (big_val out' + big_val ss * unat q + unat c1)"
    by (simp add: rec(2) algebra_simps)
  also have "\<dots> = unat v + base * unat c1 + base * (big_val (take (length ss) ds') + base ^ length ss * unat c')"
    unfolding IH(3) mul_sub_step_val [OF s] ..
  finally show ?case using IH(1,2) rec(2) ds by (simp add: algebra_simps)
qed simp

section \<open>Long division\<close>

lemma div_round_arith:
  fixes W V q e k out B :: nat
  assumes W: "W = V * q + r" "r < V" "V < B" "out < B" "e = q \<or> e = q + 1"
    and eq: "out + V * e + B * t = W + B * c"
  shows "t < c \<Longrightarrow> e = q + 1 \<and> out + V = B + r" "\<not> t < c \<Longrightarrow> e = q \<and> out = r"
proof -
  assume t: "t < c"
  then obtain k where k: "c = t + Suc k" using less_imp_Suc_add by auto
  have e: "e = q + 1"
    using W eq by (cases "e = q") (auto simp: k algebra_simps)
  have s: "out + V = r + B + B * k" using eq W(1) by (simp add: e k algebra_simps)
  have "k = 0"
  proof (rule ccontr)
    assume "k \<noteq> 0"
    then have "B * 1 \<le> B * k" by (intro mult_le_mono2) simp
    with s W(3,4) show False by simp
  qed
  with e s show "e = q + 1 \<and> out + V = B + r" by simp
next
  assume "\<not> t < c"
  then obtain k where k: "t = c + k" using le_Suc_ex [of c t] by auto
  have e: "e = q"
    using W eq by (cases "e = q + 1") (auto simp: k algebra_simps)
  have s: "out + B * k = r" using eq W(1) by (simp add: e k algebra_simps)
  have "k = 0" using s W(2,3) by (cases k) auto
  with e s show "e = q \<and> out = r" by simp
qed

definition estimate_close :: "digit list \<Rightarrow> digit list \<Rightarrow> bool" where
  "estimate_close divisor window \<longleftrightarrow>
    (let n = length divisor; q = big_val window div big_val divisor;
         e = unat (estimate_digit (window ! n) (window ! (n - 1)) (divisor ! (n - 1)) (divisor ! (n - 2)))
     in e = q \<or> e = q + 1)"

lemma div_round_spec:
  assumes len: "length window = Suc (length divisor)" and V: "0 < big_val divisor"
    and W: "big_val window < base * big_val divisor" and close: "estimate_close divisor window"
  shows "\<exists>out q. div_round divisor window = out @ [q] \<and> length out = length divisor \<and>
    big_val out < big_val divisor \<and> unat q * big_val divisor + big_val out = big_val window"
proof -
  let ?n = "length divisor" and ?V = "big_val divisor" and ?W = "big_val window"
  define e where "e = estimate_digit (window ! ?n) (window ! (?n - 1)) (divisor ! (?n - 1)) (divisor ! (?n - 2))"
  obtain out c rest where m: "mul_sub_loop divisor e window 0 = (out, c, rest)" by (metis prod_cases3)
  have ms: "length out = ?n" "rest = drop ?n window"
    "big_val out + ?V * unat e = big_val (take ?n window) + base ^ ?n * unat c"
    using mul_sub_loop_spec [OF m] len by auto
  have "length rest = Suc 0" using len ms(2) by simp
  then obtain t where t: "rest = [t]" by (auto simp: length_Suc_conv)
  have "window = take ?n window @ [t]" using t ms(2) by (metis append_take_drop_id)
  then have "?W = big_val (take ?n window @ [t])" by simp
  then have W_eq: "?W = big_val (take ?n window) + base ^ ?n * unat t"
    using len by (simp add: big_val_append)
  have q: "?W div ?V < base" using W by (simp add: less_mult_imp_div_less)
  have close': "unat e = ?W div ?V \<or> unat e = ?W div ?V + 1"
    using close by (simp add: estimate_close_def Let_def e_def)
  have out: "big_val out < base ^ ?n" using big_val_less [of out] ms(1) by simp
  have eq: "big_val out + ?V * unat e + base ^ ?n * unat t = ?W + base ^ ?n * unat c"
    unfolding W_eq ms(3) by simp
  have "?W = ?V * (?W div ?V) + ?W mod ?V" by simp
  note arith = div_round_arith [OF this mod_less_divisor [OF V] big_val_less out close' eq]
  show ?thesis
  proof (cases "t < c")
    case True
    obtain out2 c2 rest2 where a: "add_loop out divisor 0 = (out2, c2, rest2)" by (metis prod_cases3)
    have as: "length out2 = ?n" "unat c2 \<le> 1" "big_val out2 + base ^ ?n * unat c2 = big_val out + ?V"
      using add_loop_spec [OF a] ms(1) by auto
    have "unat e = ?W div ?V + 1" and sum: "big_val out + ?V = base ^ ?n + ?W mod ?V"
      using arith(1) True by (auto simp: word_less_unat)
    then have q1: "unat (e - 1) = ?W div ?V" using unat_minus_one32 [of e] by (auto simp: word_eq_unat)
    have "big_val out2 = ?W mod ?V"
    proof -
      have "?W mod ?V < base ^ ?n" using V big_val_less [of divisor] by (meson less_trans mod_less_divisor)
      moreover have "big_val out2 < base ^ ?n" using big_val_less [of out2] as(1) by simp
      moreover have "unat c2 = 0 \<or> unat c2 = 1" using as(2) by linarith
      ultimately show ?thesis using as(3) sum by auto
    qed
    moreover have "div_round divisor window = out2 @ [e - 1]"
      unfolding div_round_def Let_def e_def [symmetric] m t using True a by simp
    ultimately show ?thesis using as(1) q1 V by (intro exI [of _ out2] exI [of _ "e - 1"]) simp
  next
    case False
    then have "unat e = ?W div ?V" "big_val out = ?W mod ?V" using arith(2) by (auto simp: word_less_unat)
    moreover have "div_round divisor window = out @ [e]"
      unfolding div_round_def Let_def e_def [symmetric] m t using False by simp
    ultimately show ?thesis using ms(1) V by (intro exI [of _ out] exI [of _ e]) simp
  qed
qed

text \<open>All rounds of a division have an estimate that is exact or one too large.\<close>

fun estimates_close :: "digit list \<Rightarrow> nat \<Rightarrow> digit list \<Rightarrow> bool" where
  "estimates_close divisor p buffer \<longleftrightarrow>
    (let n = length divisor; window = take (n + 1) (drop p buffer);
         buffer' = take p buffer @ div_round divisor window @ drop (p + n + 1) buffer
     in estimate_close divisor window \<and> (if p = 0 then True else estimates_close divisor (p - 1) buffer'))"

declare div_rounds.simps [simp del] estimates_close.simps [simp del]

lemma drop_take_snoc: "p < length xs \<Longrightarrow> drop p (take (Suc p) xs @ ys) = xs ! p # ys"
  by (simp add: take_Suc_conv_app_nth)

lemma div_rounds_spec:
  assumes "0 < big_val divisor" "p + length divisor < length buffer"
    "big_val (take (length divisor + 1) (drop p buffer)) < base * big_val divisor"
    "estimates_close divisor p buffer"
  shows "\<exists>rem quo. div_rounds divisor p buffer = rem @ quo @ drop (p + length divisor + 1) buffer \<and>
    length rem = length divisor \<and> length quo = p + 1 \<and> big_val rem < big_val divisor \<and>
    big_val quo * big_val divisor + big_val rem = big_val (take (p + length divisor + 1) buffer)"
  using assms(2-)
proof (induction p arbitrary: buffer)
  let ?n = "length divisor" and ?V = "big_val divisor"
  case 0
  have "estimate_close divisor (take (?n + 1) buffer)"
    using 0 by (subst (asm) estimates_close.simps) (simp add: Let_def)
  then obtain out q where "div_round divisor (take (?n + 1) buffer) = out @ [q]" "length out = ?n"
    "big_val out < ?V" "unat q * ?V + big_val out = big_val (take (?n + 1) buffer)"
    using div_round_spec [of "take (?n + 1) buffer" divisor] 0 assms(1) by auto
  then show ?case
    by (intro exI [of _ out] exI [of _ "[q]"]) (simp add: div_rounds.simps [of _ 0] Let_def)
next
  let ?n = "length divisor" and ?V = "big_val divisor"
  case (Suc p)
  let ?w = "take (?n + 1) (drop (Suc p) buffer)"
  have close: "estimate_close divisor ?w" "estimates_close divisor p
      (take (Suc p) buffer @ div_round divisor ?w @ drop (Suc p + ?n + 1) buffer)"
    using Suc.prems(3) by (simp_all add: Let_def estimates_close.simps [of divisor "Suc p" buffer])
  obtain out q where r: "div_round divisor ?w = out @ [q]" "length out = ?n" "big_val out < ?V"
    "unat q * ?V + big_val out = big_val ?w"
    using div_round_spec [of ?w divisor] close(1) Suc.prems assms(1) by auto
  define b where "b = take (Suc p) buffer @ out @ [q] @ drop (Suc p + ?n + 1) buffer"
  have lb: "length b = length buffer" using Suc.prems(1) r(2) by (simp add: b_def)
  have wb: "take (?n + 1) (drop p b) = buffer ! p # out"
    using Suc.prems(1) r(2) drop_take_snoc [of p buffer "out @ [q] @ drop (Suc p + ?n + 1) buffer"]
    by (simp only: b_def) simp
  have "big_val (buffer ! p # out) < base * ?V"
  proof -
    have "base * (big_val out + 1) \<le> base * ?V" using r(3) by (intro mult_le_mono2) simp
    then show ?thesis using unat_u32_less [of "buffer ! p"] by simp
  qed
  then obtain rem quo where IH: "div_rounds divisor p b = rem @ quo @ drop (p + ?n + 1) b"
    "length rem = ?n" "length quo = p + 1" "big_val rem < ?V"
    "big_val quo * ?V + big_val rem = big_val (take (p + ?n + 1) b)"
    using Suc.IH [of b] close(2) r(1) lb wb Suc.prems(1) by (auto simp: b_def)
  have take_b: "take (p + ?n + 1) b = take (Suc p) buffer @ out"
    and drop_b: "drop (p + ?n + 1) b = q # drop (Suc p + ?n + 1) buffer"
    using Suc.prems(1) r(2) by (simp_all add: b_def)
  have "take (Suc p + ?n + 1) buffer = take (Suc p) buffer @ ?w" by (simp add: take_add [symmetric] add.commute)
  then have "big_val (take (Suc p + ?n + 1) buffer) = big_val (take (Suc p) buffer) + base ^ Suc p * (unat q * ?V + big_val out)"
    using Suc.prems(1) by (simp add: big_val_append r(4))
  also have "\<dots> = big_val (take (p + ?n + 1) b) + base ^ Suc p * (unat q * ?V)"
    using Suc.prems(1) unfolding take_b by (simp add: big_val_append algebra_simps)
  also have "\<dots> = big_val (quo @ [q]) * ?V + big_val rem"
    unfolding IH(5) [symmetric] by (simp add: big_val_append IH(3) algebra_simps)
  finally have "big_val (quo @ [q]) * ?V + big_val rem = big_val (take (Suc p + ?n + 1) buffer)" by simp
  moreover have "div_rounds divisor (Suc p) buffer = div_rounds divisor p b"
    using r(1) by (subst div_rounds.simps) (simp add: Let_def b_def)
  ultimately show ?case
    using IH drop_b by (intro exI [of _ rem] exI [of _ "quo @ [q]"]) simp
qed

section \<open>Bitwise operations\<close>

fun nat_op :: "bitwise_op \<Rightarrow> nat \<Rightarrow> nat \<Rightarrow> nat" where
  "nat_op AND_OP a b = a AND b"
| "nat_op OR_OP a b = a OR b"
| "nat_op XOR_OP a b = a XOR b"
| "nat_op AND_NOT_OP a b = (a OR b) XOR b"

fun bit_op :: "bitwise_op \<Rightarrow> bool \<Rightarrow> bool \<Rightarrow> bool" where
  "bit_op AND_OP a b \<longleftrightarrow> a \<and> b"
| "bit_op OR_OP a b \<longleftrightarrow> a \<or> b"
| "bit_op XOR_OP a b \<longleftrightarrow> a \<noteq> b"
| "bit_op AND_NOT_OP a b \<longleftrightarrow> a \<and> \<not> b"

lemma bit_nat_op: "bit (nat_op op a b) n \<longleftrightarrow> bit_op op (bit a n) (bit b n)"
  by (cases op) (auto simp: bit_simps)

lemma bit_op_False [simp]: "\<not> bit_op op False False"
  by (cases op) auto

lemma nat_less_bits: "(a :: nat) < 2 ^ k \<longleftrightarrow> (\<forall>n \<ge> k. \<not> bit a n)"
proof
  assume "a < 2 ^ k"
  then show "\<forall>n \<ge> k. \<not> bit a n" by (metis bit_take_bit_iff leD take_bit_nat_eq_self)
next
  assume "\<forall>n \<ge> k. \<not> bit a n"
  then have "take_bit k a = a" by (intro bit_eqI) (auto simp: bit_simps not_less [symmetric])
  then show "a < 2 ^ k" by (metis take_bit_nat_less_exp)
qed

lemma bit_digit_plus:
  assumes "a < 2 ^ 32"
  shows "bit (a + 2 ^ 32 * x) n \<longleftrightarrow> (if n < 32 then bit a n else bit (x :: nat) (n - 32))"
proof -
  have "a + 2 ^ 32 * x = push_bit 32 x OR a"
    using nat_or_plus [of 32 "push_bit 32 x" a] assms by (simp add: push_bit_eq_mult mult.commute)
  then have "bit (a + 2 ^ 32 * x) n \<longleftrightarrow> (32 \<le> n \<and> bit x (n - 32)) \<or> bit a n"
    by (simp only: bit_simps) (simp add: bit_simps possible_bit_def)
  then show ?thesis using assms nat_less_bits [of a 32] by auto
qed

lemma nat_op_less: "a < 2 ^ k \<Longrightarrow> b < 2 ^ k \<Longrightarrow> nat_op op a b < 2 ^ k"
  by (simp add: nat_less_bits bit_nat_op)

lemma nat_op_split:
  assumes "a < base" "b < base"
  shows "nat_op op (a + base * x) (b + base * y) = nat_op op a b + base * nat_op op x y"
proof (rule bit_eqI)
  fix n
  have b: "base = 2 ^ 32" by simp
  have "nat_op op a b < 2 ^ 32" using nat_op_less [of a 32 b op] assms by simp
  then show "bit (nat_op op (a + base * x) (b + base * y)) n = bit (nat_op op a b + base * nat_op op x y) n"
    using assms unfolding b by (simp only: bit_nat_op bit_digit_plus split: if_split) simp
qed

lemma unat_digit_op: "unat (digit_op op l r) = nat_op op (unat l) (unat r)"
proof (rule bit_eqI)
  fix n
  show "bit (unat (digit_op op l r)) n = bit (nat_op op (unat l) (unat r)) n"
    using nat_less_bits [of "unat l" 32] unat_u32_less [of l] by (cases op) (auto simp: bit_simps not_less [symmetric])
qed

lemma nat_op_0_0 [simp]: "nat_op op 0 0 = 0"
  by (cases op) auto

lemma big_val_map2:
  "length ls = length rs \<Longrightarrow> big_val (map2 (digit_op op) ls rs) = nat_op op (big_val ls) (big_val rs)"
  by (induction ls rs rule: list_induct2) (simp_all add: nat_op_split unat_u32_less unat_digit_op)

text \<open>The operands of a bitwise operation, decreased by the carry: digits and the last borrow.\<close>

fun dec_digits :: "digit list \<Rightarrow> digit \<Rightarrow> digit list" where
  "dec_digits [] c = []"
| "dec_digits (d # ds) c = (d - c) # dec_digits ds (if d - c \<noteq> NOT 0 then 0 else c)"

fun dec_borrow :: "digit list \<Rightarrow> digit \<Rightarrow> digit" where
  "dec_borrow [] c = c"
| "dec_borrow (d # ds) c = dec_borrow ds (if d - c \<noteq> NOT 0 then 0 else c)"

lemma length_dec_digits [simp]: "length (dec_digits ds c) = length ds"
  by (induction ds arbitrary: c) auto

lemma dec_digits_0 [simp]: "dec_digits ds 0 = ds" "dec_borrow ds 0 = 0"
  by (induction ds) auto

lemma bitwise_loop_eq:
  "length rs \<le> length ls \<Longrightarrow>
    bitwise_loop op ls rs lc rc =
      (map2 (digit_op op) (dec_digits (take (length rs) ls) lc) (dec_digits rs rc),
       dec_borrow (take (length rs) ls) lc, drop (length rs) ls)"
proof (induction rs arbitrary: ls lc rc)
  case (Cons r rs)
  then obtain l ls' where ls: "ls = l # ls'" by (cases ls) auto
  with Cons.prems show ?case
    using Cons.IH [of ls' "if l - lc \<noteq> NOT 0 then 0 else lc" "if r - rc \<noteq> NOT 0 then 0 else rc"]
    by (simp add: Let_def)
qed simp

lemma dec_digits_val:
  "c = 0 \<or> c = 1 \<Longrightarrow>
    big_val (dec_digits ds c) + unat c = big_val ds + base ^ length ds * unat (dec_borrow ds c) \<and>
    (dec_borrow ds c = 0 \<or> dec_borrow ds c = 1)"
proof (induction ds arbitrary: c)
  case (Cons d ds)
  show ?case
  proof (cases "c = 0")
    case False
    with Cons.prems have c: "c = 1" by simp
    show ?thesis
    proof (cases "d = 0")
      case True
      have "big_val (dec_digits ds 1) + 1 = big_val ds + base ^ length ds * unat (dec_borrow ds 1)"
        and b: "dec_borrow ds 1 = 0 \<or> dec_borrow ds 1 = 1"
        using Cons.IH [of 1] by auto
      then have "base * (big_val (dec_digits ds 1) + 1) = base * (big_val ds + base ^ length ds * unat (dec_borrow ds 1))"
        by simp
      with True c b show ?thesis by (simp add: algebra_simps)
    next
      case False
      then have "d - 1 \<noteq> NOT 0" using unat_minus_one32 [of d] unat_u32_less [of d] by (auto simp: word_eq_unat)
      with c False unat_minus_one32 [of d] show ?thesis by simp
    qed
  qed simp
qed simp

text \<open>Decreasing a number that is not zero leaves no borrow; below the first digit that is not zero it does.\<close>

lemma dec_borrow_1: "dec_borrow ds 1 = (if big_val ds = 0 then 1 else 0)"
proof -
  have v: "big_val (dec_digits ds 1) + 1 = big_val ds + base ^ length ds * unat (dec_borrow ds 1)"
    "dec_borrow ds 1 = 0 \<or> dec_borrow ds 1 = 1"
    using dec_digits_val [of 1 ds] by auto
  have "big_val (dec_digits ds 1) < base ^ length ds" using big_val_less [of "dec_digits ds 1"] by simp
  with v show ?thesis by (cases "dec_borrow ds 1 = 0") auto
qed

lemma big_val_dec_digits: "0 < big_val ds \<Longrightarrow> big_val (dec_digits ds 1) = big_val ds - 1"
  using dec_digits_val [of 1 ds] dec_borrow_1 [of ds] by simp

lemma big_val_take_drop: "big_val ds = big_val (take n ds) + base ^ length (take n ds) * big_val (drop n ds)"
  by (metis append_take_drop_id big_val_append)

lemma nat_op_0_right [simp]: "op \<noteq> AND_OP \<Longrightarrow> nat_op op a 0 = a"
  by (cases op) auto

lemma big_val_map2_append:
  assumes "length ls = length rs" "op \<noteq> AND_OP"
  shows "big_val (map2 (digit_op op) ls rs @ hs) = nat_op op (big_val (ls @ hs)) (big_val rs)"
  using assms(1)
proof (induction ls rs rule: list_induct2)
  case Nil
  show ?case using assms(2) by simp
next
  case (Cons l ls r rs)
  then show ?case by (simp add: nat_op_split unat_u32_less unat_digit_op)
qed

lemma big_val_take: "n \<le> length ds \<Longrightarrow> big_val (take n ds) = take_bit (32 * n) (big_val ds)"
  using big_val_take_drop [of ds n] big_val_less [of "take n ds"]
  by (simp add: take_bit_eq_mod power_mult)

lemma nat_op_AND_take: "b < 2 ^ k \<Longrightarrow> nat_op AND_OP (take_bit k a) b = nat_op AND_OP a b"
  by (rule bit_eqI) (auto simp: bit_nat_op bit_simps nat_less_bits not_less [symmetric])

lemma nat_op_AND_NOT_take: "a < 2 ^ k \<Longrightarrow> nat_op AND_NOT_OP a (take_bit k b) = nat_op AND_NOT_OP a b"
  by (rule bit_eqI) (auto simp: bit_nat_op bit_simps nat_less_bits not_less [symmetric])

lemma nat_op_AND_commute: "nat_op AND_OP a b = nat_op AND_OP b a"
  by (simp add: and.commute)

end
