(* ===== verification/Big_Uint.thy ===== *)
theory Big_Uint
  imports Block_Heap Big_Digits
begin

text \<open>
  Arbitrary-precision unsigned integers, \<open>src/jjs-core/ecma/operations/ecma-big-uint.c\<close>: the memory
  representation of a BigInt and its reference counting, and the operations on it. The loops over
  digits are in \<open>Big_Digits\<close>.

  A value is an \<open>ecma_extended_primitive_t\<close> followed by its 32-bit digits, least significant first.
  The context keeps a store from addresses to values and the state of the memory manager; the
  operations take addresses and return an address, \<open>NULL\<close> when memory runs out or the result is too
  long, or the special pointer for zero (\<open>ECMA_BIGINT_POINTER_TO_ZERO\<close>). The digits of a new value
  are whatever the allocator left there. An operation that could run past the end of a number, or
  end in a fatal error, returns an option, \<open>None\<close> being that case. Sizes are in bytes; they are at
  most \<open>ECMA_BIGINT_MAX_SIZE\<close>, so 32-bit size arithmetic does not wrap around.
\<close>

record bigint_prim =
  refs_and_type :: nat
  bigint_sign_and_size :: nat
  digits :: "digit list"

datatype bigptr = NULL | POINTER_TO_ZERO | Ptr addr

record 'h ecma_context =
  store :: "addr \<rightharpoonup> bigint_prim"
  heap :: 'h

section \<open>Representation\<close>

abbreviation REF_ONE :: nat where "REF_ONE \<equiv> 8"
abbreviation ECMA_TYPE_BIGINT :: nat where "ECMA_TYPE_BIGINT \<equiv> 6"
abbreviation ECMA_BIGINT_MAX_SIZE :: nat where "ECMA_BIGINT_MAX_SIZE \<equiv> 0x10000"

definition ECMA_BIGINT_GET_SIZE :: "bigint_prim \<Rightarrow> nat" where
  "ECMA_BIGINT_GET_SIZE v = bigint_sign_and_size v div 4 * 4"

definition ECMA_BIGINT_GET_BYTE_SIZE :: "nat \<Rightarrow> nat" where
  "ECMA_BIGINT_GET_BYTE_SIZE n = (n + 4) div 8 * 8"

definition ECMA_BIGINT_SIZE_IS_ODD :: "nat \<Rightarrow> bool" where
  "ECMA_BIGINT_SIZE_IS_ODD n \<longleftrightarrow> n div 4 mod 2 = 1"

text \<open>Size of the whole block: the header takes 8 bytes.\<close>

definition bigint_mem_size :: "nat \<Rightarrow> nat" where
  "bigint_mem_size n = ECMA_BIGINT_GET_BYTE_SIZE n + 8"

definition obj :: "'h ecma_context \<Rightarrow> addr \<Rightarrow> bigint_prim" where
  "obj c p = the (store c p)"

definition set_obj :: "'h ecma_context \<Rightarrow> addr \<Rightarrow> bigint_prim \<Rightarrow> 'h ecma_context" where
  "set_obj c p v = c\<lparr>store := (store c)(p \<mapsto> v)\<rparr>"

definition set_digits :: "'h ecma_context \<Rightarrow> addr \<Rightarrow> digit list \<Rightarrow> 'h ecma_context" where
  "set_digits c p ds = set_obj c p ((obj c p)\<lparr>digits := ds\<rparr>)"

definition ecma_bigint_create :: "'h allocator \<Rightarrow> 'h ecma_context \<Rightarrow> nat \<Rightarrow> 'h ecma_context \<times> bigptr" where
  "ecma_bigint_create A c n =
    (if n > ECMA_BIGINT_MAX_SIZE then (c, NULL)
     else (case alloc_block A (heap c) (bigint_mem_size n) of
       (None, h) \<Rightarrow> (c\<lparr>heap := h\<rparr>, NULL)
     | (Some (p, g), h) \<Rightarrow>
        (set_obj (c\<lparr>heap := h\<rparr>) p
           \<lparr>refs_and_type = REF_ONE + ECMA_TYPE_BIGINT, bigint_sign_and_size = n,
            digits = map g [0..<n div 4]\<rparr>,
         Ptr p)))"

abbreviation ECMA_EXTENDED_PRIMITIVE_MAX_REF :: nat where
  "ECMA_EXTENDED_PRIMITIVE_MAX_REF \<equiv> 0xFFFFFFFF - (REF_ONE - 1)"

definition ecma_ref_extended_primitive :: "'h ecma_context \<Rightarrow> addr \<Rightarrow> 'h ecma_context option" where
  "ecma_ref_extended_primitive c p =
    (let v = obj c p in
     if refs_and_type v < ECMA_EXTENDED_PRIMITIVE_MAX_REF
     then Some (set_obj c p (v\<lparr>refs_and_type := refs_and_type v + REF_ONE\<rparr>))
     else None)"

definition ecma_deref_bigint :: "'h allocator \<Rightarrow> 'h ecma_context \<Rightarrow> addr \<Rightarrow> 'h ecma_context" where
  "ecma_deref_bigint A c p =
    (let v = obj c p; r = refs_and_type v - REF_ONE in
     if r \<ge> REF_ONE then set_obj c p (v\<lparr>refs_and_type := r\<rparr>)
     else c\<lparr>store := (store c)(p := None),
            heap := free_block A (heap c) p (bigint_mem_size (ECMA_BIGINT_GET_SIZE v))\<rparr>)"

text \<open>
  A value with an odd number of digits owns one more digit of memory, so it is extended in place;
  otherwise the digits move to a new block. The old value is consumed in every case.
\<close>

definition ecma_big_uint_extend ::
  "'h allocator \<Rightarrow> 'h ecma_context \<Rightarrow> addr \<Rightarrow> digit \<Rightarrow> 'h ecma_context \<times> bigptr" where
  "ecma_big_uint_extend A c p digit =
    (let v = obj c p; old_size = ECMA_BIGINT_GET_SIZE v in
     if ECMA_BIGINT_SIZE_IS_ODD old_size then
       (set_obj c p (v\<lparr>bigint_sign_and_size := bigint_sign_and_size v + 4, digits := digits v @ [digit]\<rparr>),
        Ptr p)
     else (case ecma_bigint_create A c (old_size + 4) of
       (c1, Ptr q) \<Rightarrow>
         (let c2 = set_digits c1 q (digits v @ drop (length (digits v)) (digits (obj c1 q)));
              c3 = ecma_deref_bigint A c2 p
          in (set_digits c3 q ((digits (obj c3 q))[old_size div 4 := digit]), Ptr q))
     | (c1, _) \<Rightarrow> (ecma_deref_bigint A c1 p, NULL)))"

definition ecma_big_uint_normalize_result ::
  "'h allocator \<Rightarrow> 'h ecma_context \<Rightarrow> addr \<Rightarrow> nat \<Rightarrow> 'h ecma_context \<times> bigptr" where
  "ecma_big_uint_normalize_result A c p last_digit =
    (let v = obj c p; n = normalize_loop (digits v) last_digit in
     if n = 0 then (ecma_deref_bigint A c p, POINTER_TO_ZERO)
     else
      (let new_size = 4 * n in
       if ECMA_BIGINT_SIZE_IS_ODD new_size \<and> new_size + 4 = ECMA_BIGINT_GET_SIZE v then
         (set_obj c p (v\<lparr>bigint_sign_and_size := bigint_sign_and_size v - 4,
                         digits := take n (digits v)\<rparr>), Ptr p)
       else (case ecma_bigint_create A c new_size of
         (c1, Ptr q) \<Rightarrow> (ecma_deref_bigint A (set_digits c1 q (take n (digits v))) p, Ptr q)
       | (c1, _) \<Rightarrow> (ecma_deref_bigint A c1 p, NULL))))"

definition ecma_big_uint_increase_result ::
  "'h allocator \<Rightarrow> 'h ecma_context \<Rightarrow> addr \<Rightarrow> 'h ecma_context \<times> bigptr" where
  "ecma_big_uint_increase_result A c p =
    (let ds = digits (obj c p) in
     case increase_loop ds of
       None \<Rightarrow> ecma_big_uint_extend A (set_digits c p (replicate (length ds) 0)) p 1
     | Some ds' \<Rightarrow>
        (if last ds' \<noteq> 0 then (set_digits c p ds', Ptr p)
         else ecma_big_uint_normalize_result A (set_digits c p ds') p (length ds')))"

section \<open>Comparison\<close>

definition ecma_big_uint_compare :: "'h ecma_context \<Rightarrow> addr \<Rightarrow> addr \<Rightarrow> int" where
  "ecma_big_uint_compare c left right =
    (let left_size = ECMA_BIGINT_GET_SIZE (obj c left); right_size = ECMA_BIGINT_GET_SIZE (obj c right) in
     if left_size > right_size then 1
     else if left_size < right_size then -1
     else compare_loop (rev (digits (obj c left))) (rev (digits (obj c right))))"

section \<open>Digit-wise multiplication\<close>

definition ecma_big_uint_mul_digit ::
  "'h allocator \<Rightarrow> 'h ecma_context \<Rightarrow> bigptr \<Rightarrow> digit \<Rightarrow> digit \<Rightarrow> 'h ecma_context \<times> bigptr" where
  "ecma_big_uint_mul_digit A c value_p mul add =
    (case value_p of
       Ptr p \<Rightarrow>
         (let (ds, carry) = mul_digit_loop (digits (obj c p)) mul add;
              c1 = set_digits c p ds
          in if carry = 0 then (c1, Ptr p) else ecma_big_uint_extend A c1 p carry)
     | _ \<Rightarrow>
        (case ecma_bigint_create A c 4 of
           (c1, Ptr q) \<Rightarrow> (set_digits c1 q [add], Ptr q)
         | (c1, _) \<Rightarrow> (c1, NULL)))"

section \<open>Increase and decrease\<close>

definition ecma_big_uint_increase ::
  "'h allocator \<Rightarrow> 'h ecma_context \<Rightarrow> addr \<Rightarrow> ('h ecma_context \<times> bigptr) option" where
  "ecma_big_uint_increase A c p =
    (let ds = digits (obj c p); n = ECMA_BIGINT_GET_SIZE (obj c p) in
     if hd ds = NOT 0 \<and> last ds = NOT 0 \<and> list_all (\<lambda>d. d = NOT 0) (tl ds) then
       (case ecma_bigint_create A c (n + 4) of
          (c1, Ptr q) \<Rightarrow> Some (set_digits c1 q (replicate (length ds) 0 @ [1]), Ptr q)
        | (c1, _) \<Rightarrow> Some (c1, NULL))
     else
       (case ecma_bigint_create A c n of
          (c1, Ptr q) \<Rightarrow> map_option (\<lambda>ds'. (set_digits c1 q ds', Ptr q)) (increase_loop ds)
        | (c1, _) \<Rightarrow> Some (c1, NULL)))"

definition ecma_big_uint_decrease ::
  "'h allocator \<Rightarrow> 'h ecma_context \<Rightarrow> addr \<Rightarrow> ('h ecma_context \<times> bigptr) option" where
  "ecma_big_uint_decrease A c p =
    (let ds = digits (obj c p); n = ECMA_BIGINT_GET_SIZE (obj c p) in
     if hd ds = 0 \<and> last ds = 1 \<and> list_all (\<lambda>d. d = 0) (butlast ds) then
       (case ecma_bigint_create A c (n - 4) of
          (c1, Ptr q) \<Rightarrow> Some (set_digits c1 q (replicate (length ds - 1) (NOT 0)), Ptr q)
        | (c1, _) \<Rightarrow> Some (c1, NULL))
     else
       (case ecma_bigint_create A c n of
          (c1, Ptr q) \<Rightarrow> map_option (\<lambda>ds'. (set_digits c1 q ds', Ptr q)) (decrease_loop ds)
        | (c1, _) \<Rightarrow> Some (c1, NULL)))"

section \<open>Addition and subtraction\<close>

definition ecma_big_uint_add ::
  "'h allocator \<Rightarrow> 'h ecma_context \<Rightarrow> addr \<Rightarrow> addr \<Rightarrow> 'h ecma_context \<times> bigptr" where
  "ecma_big_uint_add A c left_value right_value =
    (let (left, right) =
       (if ECMA_BIGINT_GET_SIZE (obj c left_value) < ECMA_BIGINT_GET_SIZE (obj c right_value)
        then (obj c right_value, obj c left_value) else (obj c left_value, obj c right_value))
     in case ecma_bigint_create A c (ECMA_BIGINT_GET_SIZE left) of
       (c1, Ptr p) \<Rightarrow>
         (let (out, carry, rest) = add_loop (digits left) (digits right) 0 in
          if carry \<noteq> 0 then
            (case increase_loop rest of
               None \<Rightarrow> ecma_big_uint_extend A (set_digits c1 p (out @ replicate (length rest) 0)) p 1
             | Some rest' \<Rightarrow> (set_digits c1 p (out @ rest'), Ptr p))
          else (set_digits c1 p (out @ rest), Ptr p))
     | (c1, _) \<Rightarrow> (c1, NULL))"

text \<open>
  With a borrow, at least one digit of the left operand must be left (\<open>JJS_ASSERT (current_p <
  end_p)\<close>); \<open>None\<close> stands for running past the end. The rest is copied unless the borrow or the
  digits ended exactly at the end, where leading zeros have to be removed.
\<close>

definition borrowed_length :: "digit \<Rightarrow> digit list \<Rightarrow> nat" where
  "borrowed_length carry rest = (if carry \<noteq> 0 then Suc (length (takeWhile (\<lambda>d. d = 0) rest)) else 0)"

definition ecma_big_uint_sub ::
  "'h allocator \<Rightarrow> 'h ecma_context \<Rightarrow> addr \<Rightarrow> addr \<Rightarrow> ('h ecma_context \<times> bigptr) option" where
  "ecma_big_uint_sub A c left_value right_value =
    (let left = obj c left_value; right = obj c right_value in
     case ecma_bigint_create A c (ECMA_BIGINT_GET_SIZE left) of
       (c1, Ptr p) \<Rightarrow>
         (let (out, carry, rest) = sub_loop (digits left) (digits right) 0 in
          case (if carry \<noteq> 0 then decrease_loop rest else Some rest) of
            None \<Rightarrow> None
          | Some rest' \<Rightarrow>
             (let c2 = set_digits c1 p (out @ rest')
              in if borrowed_length carry rest < length rest then Some (c2, Ptr p)
                 else if last (out @ rest') \<noteq> 0 then Some (c2, Ptr p)
                 else Some (ecma_big_uint_normalize_result A c2 p (length (out @ rest')))))
     | (c1, _) \<Rightarrow> Some (c1, NULL))"

section \<open>Multiplication\<close>

definition ecma_big_uint_mul ::
  "'h allocator \<Rightarrow> 'h ecma_context \<Rightarrow> addr \<Rightarrow> addr \<Rightarrow> ('h ecma_context \<times> bigptr) option" where
  "ecma_big_uint_mul A c left_value right_value =
    (let (left, right) =
       (if ECMA_BIGINT_GET_SIZE (obj c left_value) < ECMA_BIGINT_GET_SIZE (obj c right_value)
        then (obj c right_value, obj c left_value) else (obj c left_value, obj c right_value));
         result_size = ECMA_BIGINT_GET_SIZE left + ECMA_BIGINT_GET_SIZE right - 4
     in case ecma_bigint_create A c result_size of
       (c1, Ptr p) \<Rightarrow>
         (case mul_loop (digits left) (digits right) (replicate (result_size div 4) 0 @ [0]) of
            None \<Rightarrow> None
          | Some ds \<Rightarrow>
             (let c2 = set_digits c1 p (butlast ds) in
              if last ds = 0 then Some (c2, Ptr p)
              else Some (ecma_big_uint_extend A c2 p (last ds))))
     | (c1, _) \<Rightarrow> Some (c1, NULL))"

section \<open>Division\<close>

definition ecma_big_uint_div_digit ::
  "'h allocator \<Rightarrow> 'h ecma_context \<Rightarrow> addr \<Rightarrow> digit \<Rightarrow> bool \<Rightarrow> 'h ecma_context \<times> bigptr" where
  "ecma_big_uint_div_digit A c left_value divisor_digit is_mod =
    (let left_size = ECMA_BIGINT_GET_SIZE (obj c left_value);
         left = rev (digits (obj c left_value));
         remainder = hd left mod divisor_digit;
         last_digit = hd left div divisor_digit;
         (out, remainder) = div_digit_loop divisor_digit remainder (tl left)
     in if \<not> is_mod then
          (case ecma_bigint_create A c (if last_digit = 0 then left_size - 4 else left_size) of
             (c1, Ptr p) \<Rightarrow> (set_digits c1 p (rev (if last_digit \<noteq> 0 then last_digit # out else out)), Ptr p)
           | (c1, _) \<Rightarrow> (c1, NULL))
        else if remainder = 0 then (c, POINTER_TO_ZERO)
        else (case ecma_bigint_create A c 4 of
             (c1, Ptr p) \<Rightarrow> (set_digits c1 p [remainder], Ptr p)
           | (c1, _) \<Rightarrow> (c1, NULL)))"

text \<open>
  The long division works on a shifted copy of the dividend in a buffer of its own, with one more
  digit, and on a shifted copy of the divisor (unless the divisor needs no shift). The result of \<open>ecma_big_uint_div_shift_left\<close> is the
  address of the buffer and its digits.
\<close>

definition ecma_big_uint_div_shift_left ::
  "'h allocator \<Rightarrow> 'h ecma_context \<Rightarrow> addr \<Rightarrow> nat \<Rightarrow> bool \<Rightarrow> 'h ecma_context \<times> (addr \<times> digit list) option" where
  "ecma_big_uint_div_shift_left A c value_p shift_left extended =
    (let v = obj c value_p;
         byte_size = ECMA_BIGINT_GET_SIZE v + (if extended then 4 else 0)
     in case alloc_block A (heap c) byte_size of
       (None, h) \<Rightarrow> (c\<lparr>heap := h\<rparr>, None)
     | (Some (p, g), h) \<Rightarrow>
         (c\<lparr>heap := h\<rparr>,
          Some (p, if shift_left = 0 then digits v @ [0]
                   else (let (out, carry) = shift_left_loop shift_left (digits v) 0
                         in out @ (if extended then [carry] else [])))))"

definition free_buffer :: "'h allocator \<Rightarrow> 'h ecma_context \<Rightarrow> addr \<Rightarrow> nat \<Rightarrow> 'h ecma_context" where
  "free_buffer A c p n = c\<lparr>heap := free_block A (heap c) p n\<rparr>"

text \<open>The end of the remainder in the buffer: leading zeros are skipped, downwards from index \<open>n\<close>.\<close>

fun mod_end :: "digit list \<Rightarrow> nat \<Rightarrow> nat" where
  "mod_end buffer 0 = 0"
| "mod_end buffer (Suc n) = (if buffer ! Suc n = 0 then mod_end buffer n else Suc n)"

definition remainder_digits :: "digit list \<Rightarrow> nat \<Rightarrow> nat \<Rightarrow> digit list" where
  "remainder_digits buffer dividend_end shift_left =
    (let source_end = mod_end buffer dividend_end;
         (source_end, buffer) =
           (if drop_bit shift_left (buffer ! source_end) \<noteq> 0
            then (source_end + 1, buffer[source_end + 1 := 0]) else (source_end, buffer));
         source = take source_end buffer
     in if shift_left > 0 \<and> source_end > 0
        then rev (shift_right_loop shift_left (rev source) (push_bit (32 - shift_left) (buffer ! source_end)))
        else source)"

definition quotient_digits :: "digit list \<Rightarrow> nat \<Rightarrow> nat \<Rightarrow> digit list" where
  "quotient_digits buffer source_p dividend_length =
    (let source_end = (if buffer ! dividend_length \<noteq> 0 then dividend_length + 1 else dividend_length)
     in take (source_end - source_p) (drop source_p buffer))"

definition div_mod_result :: "bool \<Rightarrow> digit list \<Rightarrow> digit list \<Rightarrow> nat \<Rightarrow> digit list" where
  "div_mod_result is_mod divisor buffer shift_left =
    (let divisor_length = length divisor;
         dividend_length = length buffer - 1;
         buffer = div_rounds divisor (dividend_length - divisor_length) buffer
     in if is_mod then remainder_digits buffer (divisor_length - 1) shift_left
        else quotient_digits buffer divisor_length dividend_length)"

text \<open>The result gets a block of its own, then the buffers are freed.\<close>

definition div_mod_finish ::
  "'h allocator \<Rightarrow> 'h ecma_context \<Rightarrow> addr \<Rightarrow> nat \<Rightarrow> addr \<Rightarrow> nat \<Rightarrow> nat \<Rightarrow> digit list \<Rightarrow> 'h ecma_context \<times> bigptr" where
  "div_mod_finish A c buffer_p dividend_size divisor_p divisor_size shift_left result =
    (let (c1, result_p) =
       (if result = [] then (c, POINTER_TO_ZERO)
        else (case ecma_bigint_create A c (4 * length result) of
            (c1, Ptr p) \<Rightarrow> (set_digits c1 p result, Ptr p)
          | (c1, _) \<Rightarrow> (c1, NULL)));
         c2 = free_buffer A c1 buffer_p (dividend_size + 4);
         c3 = (if shift_left > 0 then free_buffer A c2 divisor_p divisor_size else c2)
     in (c3, result_p))"

definition ecma_big_uint_div_mod ::
  "'h allocator \<Rightarrow> 'h ecma_context \<Rightarrow> addr \<Rightarrow> addr \<Rightarrow> bool \<Rightarrow> 'h ecma_context \<times> bigptr" where
  "ecma_big_uint_div_mod A c dividend_value divisor_value is_mod =
    (let divisor_size = ECMA_BIGINT_GET_SIZE (obj c divisor_value) in
     if divisor_size = 4 then ecma_big_uint_div_digit A c dividend_value (hd (digits (obj c divisor_value))) is_mod
     else
      (let shift_left = unat (ecma_big_uint_count_leading_zero (last (digits (obj c divisor_value))))
       in case ecma_big_uint_div_shift_left A c dividend_value shift_left True of
         (c1, None) \<Rightarrow> (c1, NULL)
       | (c1, Some (buffer_p, buffer)) \<Rightarrow>
          (let dividend_size = ECMA_BIGINT_GET_SIZE (obj c1 dividend_value) in
           case (if shift_left > 0 then ecma_big_uint_div_shift_left A c1 divisor_value shift_left False
                 else (c1, Some (divisor_value, digits (obj c1 divisor_value)))) of
             (c2, None) \<Rightarrow> (free_buffer A c2 buffer_p (dividend_size + 4), NULL)
           | (c2, Some (divisor_p, divisor)) \<Rightarrow>
              div_mod_finish A c2 buffer_p dividend_size divisor_p divisor_size shift_left
                (div_mod_result is_mod divisor buffer shift_left))))"

section \<open>Shifts\<close>

definition ecma_big_uint_shift_left ::
  "'h allocator \<Rightarrow> 'h ecma_context \<Rightarrow> addr \<Rightarrow> nat \<Rightarrow> 'h ecma_context \<times> bigptr" where
  "ecma_big_uint_shift_left A c left_value right_value =
    (let left = digits (obj c left_value);
         left_size = ECMA_BIGINT_GET_SIZE (obj c left_value);
         zero_size = right_value div 32 * 4;
         shift_left = right_value mod 32;
         shift_right = 32 - shift_left;
         result_size = left_size + zero_size +
           (if shift_left > 0 \<and> drop_bit shift_right (last left) \<noteq> 0 then 4 else 0)
     in if result_size > ECMA_BIGINT_MAX_SIZE then (c, NULL)
        else (case ecma_bigint_create A c result_size of
          (c1, Ptr p) \<Rightarrow>
            (let zeros = replicate (zero_size div 4) 0 in
             if shift_left = 0 then (set_digits c1 p (zeros @ left), Ptr p)
             else (let (out, carry) = shift_left_loop shift_left left 0
                   in (set_digits c1 p (zeros @ out @ (if carry > 0 then [carry] else [])), Ptr p)))
        | (c1, _) \<Rightarrow> (c1, NULL)))"

definition ecma_big_uint_shift_right ::
  "'h allocator \<Rightarrow> 'h ecma_context \<Rightarrow> addr \<Rightarrow> nat \<Rightarrow> bool \<Rightarrow> 'h ecma_context \<times> bigptr" where
  "ecma_big_uint_shift_right A c left_value right_value increase_result =
    (let left = digits (obj c left_value);
         left_size = ECMA_BIGINT_GET_SIZE (obj c left_value);
         crop_size = right_value div 32 * 4;
         shift_right = right_value mod 32;
         shift_left = 32 - shift_right;
         (carry, left_size) =
           (if shift_right > 0 \<and> drop_bit shift_right (last left) = 0
            then (push_bit shift_left (last left), left_size - 4) else (0, left_size))
     in if left_size \<le> crop_size then
          (if \<not> increase_result then (c, POINTER_TO_ZERO)
           else (case ecma_bigint_create A c 4 of
             (c1, Ptr p) \<Rightarrow> (set_digits c1 p [1], Ptr p)
           | (c1, _) \<Rightarrow> (c1, NULL)))
        else
          (let increase_result =
             (if increase_result \<and> (shift_right = 0 \<or> push_bit shift_left (left ! (crop_size div 4)) = 0)
              then \<not> list_all (\<lambda>d. d = 0) (take (crop_size div 4) left) else increase_result)
           in case ecma_bigint_create A c (left_size - crop_size) of
             (c1, Ptr p) \<Rightarrow>
               (let source = drop (crop_size div 4) (take (left_size div 4) left);
                    out = (if shift_right = 0 then source
                           else rev (shift_right_loop shift_right (rev source) carry));
                    c2 = set_digits c1 p out
                in if \<not> increase_result then (c2, Ptr p) else ecma_big_uint_increase_result A c2 p)
           | (c1, _) \<Rightarrow> (c1, NULL)))"

section \<open>Power\<close>

text \<open>
  The square-and-multiply loop, with \<open>right_value \<ge> 2\<close>. The running product is the left operand
  itself, a value of its own, or not there yet; \<open>None\<close> also stands for a loop that never stops, which
  would happen for \<open>right_value = 0\<close> only.
\<close>

function pow_loop ::
  "'h allocator \<Rightarrow> addr \<Rightarrow> 'h ecma_context \<Rightarrow> bigptr \<Rightarrow> addr \<Rightarrow> nat \<Rightarrow> ('h ecma_context \<times> bigptr) option" where
  "pow_loop A left_value c result square right_value =
    (case ecma_big_uint_mul A c square square of
       None \<Rightarrow> None
     | Some (c1, Ptr new_square) \<Rightarrow>
        (let c2 = (if square \<noteq> left_value then ecma_deref_bigint A c1 square else c1);
             right_value' = right_value div 2
         in if odd right_value' then
              (case (case result of
                  Ptr r \<Rightarrow>
                    (case ecma_big_uint_mul A c2 new_square r of
                       None \<Rightarrow> None
                     | Some (c3, new_result) \<Rightarrow>
                         Some (if r \<noteq> left_value then ecma_deref_bigint A c3 r else c3, new_result))
                | _ \<Rightarrow> map_option (\<lambda>c3. (c3, Ptr new_square)) (ecma_ref_extended_primitive c2 new_square)) of
                 None \<Rightarrow> None
               | Some (c3, new_result) \<Rightarrow>
                  (if new_result = NULL \<or> right_value' = 1
                   then Some (if new_square \<noteq> left_value then ecma_deref_bigint A c3 new_square else c3, new_result)
                   else pow_loop A left_value c3 new_result new_square right_value'))
            else if right_value' = 0 then None
            else pow_loop A left_value c2 result new_square right_value')
     | Some (c1, _) \<Rightarrow>
        (let c2 = (case result of
             Ptr r \<Rightarrow> if r \<noteq> left_value then ecma_deref_bigint A c1 r else c1
           | _ \<Rightarrow> c1)
         in Some (if square \<noteq> left_value then ecma_deref_bigint A c2 square else c2, NULL)))"
  by pat_completeness auto
termination
  by (relation "measure (\<lambda>(A, l, c, r, s, v). v)") (auto elim!: oddE)

definition ecma_big_uint_pow ::
  "'h allocator \<Rightarrow> 'h ecma_context \<Rightarrow> addr \<Rightarrow> nat \<Rightarrow> ('h ecma_context \<times> bigptr) option" where
  "ecma_big_uint_pow A c left_value right_value =
    pow_loop A left_value c (if odd right_value then Ptr left_value else NULL) left_value right_value"

section \<open>Bitwise operations\<close>

text \<open>
  The operation type and the options \<open>DECREASE_LEFT\<close>, \<open>DECREASE_RIGHT\<close> and \<open>INCREASE_RESULT\<close>, which
  the code packs into one word, are separate arguments. \<open>bitwise_operands\<close> is the switch at the
  start: the digits of the operands that are used and the decrease options, swapped when the
  operands are.
\<close>

definition bitwise_operands ::
  "bitwise_op \<Rightarrow> bool \<Rightarrow> bool \<Rightarrow> digit list \<Rightarrow> digit list \<Rightarrow> digit list \<times> digit list \<times> bool \<times> bool" where
  "bitwise_operands operation_type decrease_left decrease_right left right =
    (case operation_type of
       AND_OP \<Rightarrow>
         (if length left > length right then (take (length right) left, right, decrease_left, decrease_right)
          else (left, take (length left) right, decrease_left, decrease_right))
     | AND_NOT_OP \<Rightarrow> (left, take (length left) right, decrease_left, decrease_right)
     | _ \<Rightarrow>
         (if length right \<le> length left then (left, right, decrease_left, decrease_right)
          else if decrease_left \<noteq> decrease_right then (right, left, \<not> decrease_left, \<not> decrease_right)
          else (right, left, decrease_left, decrease_right)))"

definition ecma_big_uint_bitwise_op ::
  "'h allocator \<Rightarrow> 'h ecma_context \<Rightarrow> bitwise_op \<Rightarrow> bool \<Rightarrow> bool \<Rightarrow> bool \<Rightarrow> addr \<Rightarrow> addr \<Rightarrow>
    ('h ecma_context \<times> bigptr) option" where
  "ecma_big_uint_bitwise_op A c operation_type decrease_left decrease_right increase_result left_value right_value =
    (let (left, right, decrease_left, decrease_right) =
       bitwise_operands operation_type decrease_left decrease_right
         (digits (obj c left_value)) (digits (obj c right_value))
     in case ecma_bigint_create A c (4 * length left) of
       (c1, Ptr p) \<Rightarrow>
         (let return_normalized = (\<lambda>ds.
                if last ds = 0 then ecma_big_uint_normalize_result A (set_digits c1 p ds) p (length ds)
                else (set_digits c1 p ds, Ptr p))
          in if \<not> decrease_left \<and> \<not> decrease_right then
            (let rest = drop (length right) left in
             case operation_type of
               AND_OP \<Rightarrow> Some (return_normalized (map2 (digit_op AND_OP) left right))
             | OR_OP \<Rightarrow> Some (set_digits c1 p (map2 (digit_op OR_OP) left right @ rest), Ptr p)
             | _ \<Rightarrow>
                (let ds = map2 (digit_op XOR_OP) left right @ rest in
                 if length left > length right then Some (set_digits c1 p ds, Ptr p)
                 else Some (return_normalized ds)))
          else
            (let (out, left_carry, rest) =
               bitwise_loop operation_type left right (of_bool decrease_left) (of_bool decrease_right)
             in case (if operation_type \<noteq> AND_OP \<and> left_carry > 0 then decrease_loop rest else Some rest) of
                  None \<Rightarrow> None
                | Some rest' \<Rightarrow>
                   (let ds = out @ rest' in
                    if operation_type \<noteq> AND_OP \<and> borrowed_length left_carry rest < length rest then
                      Some (if increase_result then ecma_big_uint_increase_result A (set_digits c1 p ds) p
                            else (set_digits c1 p ds, Ptr p))
                    else if increase_result then Some (ecma_big_uint_increase_result A (set_digits c1 p ds) p)
                    else Some (return_normalized ds))))
     | (c1, _) \<Rightarrow> Some (c1, NULL))"

section \<open>Conversion to a string\<close>

text \<open>
  The characters are written downwards from the end of a buffer whose start holds the digits of
  the running quotient (from the most significant one here). The code asserts that the characters
  never reach the digits; \<open>None\<close> is the case where they do. \<open>is64\<close> says whether a pointer is as wide
  as two digits.
\<close>

definition to_string_max_size :: "nat \<Rightarrow> nat \<Rightarrow> nat" where
  "to_string_max_size byte_size radix =
    (let max_size = byte_size * 8;
         max_size = (if radix < 16 then
             (if radix \<ge> 8 then (max_size + 2) div 3 else if radix \<ge> 4 then (max_size + 1) div 2 else max_size)
           else if radix < 32 then (max_size + 3) div 4 else (max_size + 4) div 5)
     in (max_size + 7) div 4 * 4)"

definition digit_char :: "digit \<Rightarrow> u8" where
  "digit_char remainder = ucast (if remainder < 10 then remainder + 48 else remainder + 87)"

function to_string_loop :: "bool \<Rightarrow> digit \<Rightarrow> nat \<Rightarrow> digit list \<Rightarrow> u8 list \<Rightarrow> u8 list option" where
  "to_string_loop is64 radix max_size ds str =
    (let (out, remainder) = (if is64 then div_digit_loop radix 0 ds else div_radix_loop32 radix ds);
         str = digit_char remainder # str
     in if length str + 4 * length ds > max_size then None
        else (let ds = (if hd out = 0 then tl out else out)
              in if ds = [] then Some str else to_string_loop is64 radix max_size ds str))"
  by pat_completeness auto
termination
  by (relation "measure (\<lambda>(i, r, n, ds, str). n - length str)") auto

definition ecma_big_uint_to_string ::
  "bool \<Rightarrow> 'h allocator \<Rightarrow> 'h ecma_context \<Rightarrow> addr \<Rightarrow> digit \<Rightarrow>
    ('h ecma_context \<times> (addr \<times> u8 list \<times> nat \<times> nat) option) option" where
  "ecma_big_uint_to_string is64 A c value_p radix =
    (let max_size = to_string_max_size (ECMA_BIGINT_GET_SIZE (obj c value_p)) (unat radix)
     in case alloc_block A (heap c) max_size of
       (None, h) \<Rightarrow> Some (c\<lparr>heap := h\<rparr>, None)
     | (Some (p, g), h) \<Rightarrow>
        map_option (\<lambda>str. (c\<lparr>heap := h\<rparr>, Some (p, str, max_size - length str, max_size)))
          (to_string_loop is64 radix max_size (rev (digits (obj c value_p))) []))"

end
