(* ===== verification/Big_Uint_Correct.thy ===== *)
theory Big_Uint_Correct
  imports Big_Uint
begin

text \<open>
  Correctness of the operations of \<open>Big_Uint\<close>. Each operation is related to arithmetic on natural
  numbers; at the same time its effect on memory is exact: on success the store has one new entry
  and every temporary value has been freed with the size it was allocated with; on failure the store
  is as before. An operation returns \<open>NULL\<close> only when a memory request failed or the result has more
  than 16384 digits.
\<close>

section \<open>Specification\<close>

definition new_prim :: "digit list \<Rightarrow> bigint_prim" where
  "new_prim ds = \<lparr>refs_and_type = REF_ONE + ECMA_TYPE_BIGINT, bigint_sign_and_size = 4 * length ds, digits = ds\<rparr>"

definition wf_prim :: "bigint_prim \<Rightarrow> bool" where
  "wf_prim v \<longleftrightarrow> bigint_sign_and_size v div 4 = length (digits v) \<and> normalized (digits v) \<and> length (digits v) \<le> 16384"

definition number :: "(addr \<rightharpoonup> bigint_prim) \<Rightarrow> addr \<Rightarrow> nat \<Rightarrow> bool" where
  "number st p n \<longleftrightarrow> (case st p of None \<Rightarrow> False | Some v \<Rightarrow> wf_prim v \<and> big_val (digits v) = n)"

definition blocks :: "(addr \<rightharpoonup> bigint_prim) \<Rightarrow> (addr \<rightharpoonup> nat)" where
  "blocks st = (\<lambda>p. map_option (\<lambda>v. bigint_mem_size (ECMA_BIGINT_GET_SIZE v)) (st p))"

text \<open>
  All values of the store are allocated blocks of the right size, and so are the blocks \<open>X\<close> of the rest of
  the engine, which no operation touches.
\<close>

definition ctx_inv :: "('h \<Rightarrow> (addr \<rightharpoonup> nat) \<Rightarrow> bool) \<Rightarrow> (addr \<rightharpoonup> nat) \<Rightarrow> 'h ecma_context \<Rightarrow> bool" where
  "ctx_inv holds X c \<longleftrightarrow> dom X \<inter> dom (store c) = {} \<and> holds (heap c) (X ++ blocks (store c))"

definition big_limit :: nat where
  "big_limit = base ^ 16384"

definition yields :: "('h \<Rightarrow> (addr \<rightharpoonup> nat) \<Rightarrow> bool) \<Rightarrow> ('h \<Rightarrow> bool) \<Rightarrow> (addr \<rightharpoonup> nat) \<Rightarrow> (addr \<rightharpoonup> bigint_prim) \<Rightarrow>
    nat \<Rightarrow> 'h ecma_context \<times> bigptr \<Rightarrow> bool" where
  "yields holds failed X st n res \<longleftrightarrow> (case res of (c, r) \<Rightarrow> ctx_inv holds X c \<and>
    (case r of
       NULL \<Rightarrow> store c = st \<and> (failed (heap c) \<or> big_limit \<le> n)
     | POINTER_TO_ZERO \<Rightarrow> store c = st \<and> n = 0
     | Ptr p \<Rightarrow> p \<notin> dom st \<and> (\<exists>ds. store c = st(p \<mapsto> new_prim ds) \<and> wf_prim (new_prim ds) \<and> big_val ds = n)))"

definition yields_some where
  "yields_some holds failed X st n ores \<longleftrightarrow> (\<exists>res. ores = Some res \<and> yields holds failed X st n res)"

text \<open>A value under construction.\<close>

definition owns :: "('h \<Rightarrow> (addr \<rightharpoonup> nat) \<Rightarrow> bool) \<Rightarrow> (addr \<rightharpoonup> nat) \<Rightarrow> (addr \<rightharpoonup> bigint_prim) \<Rightarrow> 'h ecma_context \<Rightarrow>
    addr \<Rightarrow> digit list \<Rightarrow> bool" where
  "owns holds X st c p ds \<longleftrightarrow> ctx_inv holds X c \<and> p \<notin> dom st \<and> store c = st(p \<mapsto> new_prim ds)"

section \<open>Basic facts\<close>

lemma new_prim_simps [simp]:
  "refs_and_type (new_prim ds) = 14" "bigint_sign_and_size (new_prim ds) = 4 * length ds"
  "digits (new_prim ds) = ds" "ECMA_BIGINT_GET_SIZE (new_prim ds) = 4 * length ds"
  by (simp_all add: new_prim_def ECMA_BIGINT_GET_SIZE_def)

lemma wf_new_prim: "wf_prim (new_prim ds) \<longleftrightarrow> normalized ds \<and> length ds \<le> 16384"
  by (simp add: wf_prim_def)

lemma wf_prim_size: "wf_prim v \<Longrightarrow> ECMA_BIGINT_GET_SIZE v = 4 * length (digits v)"
  by (simp add: wf_prim_def ECMA_BIGINT_GET_SIZE_def)

lemma blocks_upd: "blocks (st(p \<mapsto> v)) = (blocks st)(p \<mapsto> bigint_mem_size (ECMA_BIGINT_GET_SIZE v))"
  by (auto simp: blocks_def)

lemma blocks_del: "blocks (st(p := None)) = (blocks st)(p := None)"
  by (auto simp: blocks_def)

lemma dom_blocks [simp]: "dom (blocks st) = dom st"
  by (auto simp: blocks_def)

lemma mem_size_pos: "0 < bigint_mem_size n"
  by (simp add: bigint_mem_size_def)

lemma mem_size_odd: "odd k \<Longrightarrow> bigint_mem_size (4 * Suc k) = bigint_mem_size (4 * k)"
  by (auto elim!: oddE simp: bigint_mem_size_def ECMA_BIGINT_GET_BYTE_SIZE_def)

lemma size_is_odd [simp]: "ECMA_BIGINT_SIZE_IS_ODD (4 * k) \<longleftrightarrow> odd k"
  by (simp add: ECMA_BIGINT_SIZE_IS_ODD_def odd_iff_mod_2_eq_one)

lemma number_obj:
  assumes "number (store c) p n"
  obtains v where "store c p = Some v" "obj c p = v" "wf_prim v" "big_val (digits v) = n"
    "ECMA_BIGINT_GET_SIZE v = 4 * length (digits v)" "normalized (digits v)" "length (digits v) \<le> 16384" "0 < length (digits v)"
  using assms by (auto simp: number_def obj_def wf_prim_size wf_prim_def normalized_def split: option.splits)

lemma set_obj_simps [simp]: "store (set_obj c p v) = (store c)(p \<mapsto> v)" "heap (set_obj c p v) = heap c"
  by (simp_all add: set_obj_def)

lemma set_digits_simps [simp]:
  "store (set_digits c p ds) = (store c)(p \<mapsto> (obj c p)\<lparr>digits := ds\<rparr>)" "heap (set_digits c p ds) = heap c"
  by (simp_all add: set_digits_def)

lemma new_prim_digits: "length ds' = length ds \<Longrightarrow> (new_prim ds)\<lparr>digits := ds'\<rparr> = new_prim ds'"
  by (simp add: new_prim_def)

lemma new_prim_shrink:
  "m \<le> length ds \<Longrightarrow> (new_prim ds)\<lparr>bigint_sign_and_size := 4 * m, digits := take m ds\<rparr> = new_prim (take m ds)"
  by (simp add: new_prim_def)

lemma ctx_inv_cong:
  "store c' = store c \<Longrightarrow> heap c' = heap c \<Longrightarrow> ctx_inv holds X c' = ctx_inv holds X c"
  by (simp add: ctx_inv_def)

lemma owns_obj: "owns holds X st c p ds \<Longrightarrow> obj c p = new_prim ds"
  by (simp add: owns_def obj_def)

lemma owns_set_digits:
  assumes "owns holds X st c p ds" "length ds' = length ds"
  shows "owns holds X st (set_digits c p ds') p ds'"
  using assms owns_obj [OF assms(1)]
  by (auto simp: owns_def ctx_inv_def blocks_upd new_prim_digits)

lemma owns_resize:
  assumes "owns holds X st c p ds" "bigint_mem_size (4 * length ds') = bigint_mem_size (4 * length ds)"
  shows "owns holds X st (set_obj c p (new_prim ds')) p ds'"
  using assms by (auto simp: owns_def ctx_inv_def blocks_upd)

lemma owns_yields:
  assumes "owns holds X st c p ds" "normalized ds" "length ds \<le> 16384" "big_val ds = n"
  shows "yields holds failed X st n (c, Ptr p)"
  using assms by (auto simp: owns_def yields_def wf_new_prim)

lemma yields_NULL: "ctx_inv holds X c \<Longrightarrow> store c = st \<Longrightarrow> failed (heap c) \<or> big_limit \<le> n \<Longrightarrow> yields holds failed X st n (c, NULL)"
  by (simp add: yields_def)

lemma yields_zero: "ctx_inv holds X c \<Longrightarrow> store c = st \<Longrightarrow> n = 0 \<Longrightarrow> yields holds failed X st n (c, POINTER_TO_ZERO)"
  by (simp add: yields_def)

lemma yields_some_Some [simp]: "yields_some holds failed X st n (Some res) \<longleftrightarrow> yields holds failed X st n res"
  by (simp add: yields_some_def)

lemma big_limitI: "16384 < k \<Longrightarrow> base ^ (k - 1) \<le> n \<Longrightarrow> big_limit \<le> n"
  unfolding big_limit_def by (rule order_trans [OF power_increasing]) auto

text \<open>The digits of a sum: without a carry, with a carry out of all digits, with a carry that stops.\<close>

lemma add_loop_total:
  assumes loop: "add_loop ls rs 0 = (out, k, rest)" and le: "length rs \<le> length ls"
  shows "length out + length rest = length ls"
    and "k = 0 \<Longrightarrow> big_val (out @ rest) = big_val ls + big_val rs"
    and "k \<noteq> 0 \<Longrightarrow> increase_loop rest = None \<Longrightarrow>
      big_val ls + big_val rs = big_val (out @ replicate (length rest) 0) + base ^ length ls"
    and "k \<noteq> 0 \<Longrightarrow> increase_loop rest = Some rest' \<Longrightarrow>
      big_val (out @ rest') = big_val ls + big_val rs \<and> length rest' = length rest"
proof -
  note sp = add_loop_spec [OF loop le]
  have split: "big_val ls = big_val (take (length rs) ls) + base ^ length rs * big_val rest"
    using big_val_take_drop [of ls "length rs"] le sp by simp
  have sum: "big_val out + base ^ length out * (big_val rest + unat k) = big_val ls + big_val rs"
    using sp split by (simp add: algebra_simps)
  show len: "length out + length rest = length ls" using sp le by simp
  show "k = 0 \<Longrightarrow> big_val (out @ rest) = big_val ls + big_val rs"
    using sum by (simp add: big_val_append)
  assume "k \<noteq> 0"
  then have k: "unat k = 1" using sp by (auto simp: word_eq_unat)
  show "big_val ls + big_val rs = big_val (out @ replicate (length rest) 0) + base ^ length ls" if "increase_loop rest = None"
    using sum unfolding k increase_loop_None [OF that] by (simp add: big_val_append len [symmetric] power_add)
  show "big_val (out @ rest') = big_val ls + big_val rs \<and> length rest' = length rest" if "increase_loop rest = Some rest'"
    using sum k increase_loop_Some [OF that] by (simp add: big_val_append)
qed

lemma big_val_length:
  assumes "normalized rs" "big_val rs \<le> big_val ls"
  shows "length rs \<le> length ls"
proof (rule ccontr)
  assume "\<not> ?thesis"
  then have "base ^ length ls \<le> base ^ (length rs - 1)" by (intro power_increasing) auto
  with normalized_ge [OF assms(1)] assms(2) big_val_less [of ls] show False by linarith
qed

lemma increase_loop_all: "increase_loop ds = None \<Longrightarrow> \<forall>d\<in>set ds. d = - 1"
  by (induction ds) (auto split: if_splits)

lemma increase_loop_not_all: "increase_loop ds = Some ds' \<Longrightarrow> \<exists>d\<in>set ds. d \<noteq> - 1"
  by (induction ds arbitrary: ds') (auto split: if_splits)

lemma decrease_loop_last:
  "decrease_loop ds = Some ds' \<Longrightarrow> Suc (length (takeWhile (\<lambda>d. d = 0) ds)) < length ds \<Longrightarrow> last ds' = last ds"
proof (induction ds arbitrary: ds')
  case (Cons d ds)
  show ?case
  proof (cases "d = 0")
    case True
    with Cons obtain ds2 where "ds' = (- 1) # ds2" "decrease_loop ds = Some ds2" by auto
    with Cons True decrease_loop_Some [of ds ds2] show ?thesis by auto
  next
    case False
    with Cons show ?thesis by auto
  qed
qed simp

lemma borrow_last:
  assumes "(if k \<noteq> 0 then decrease_loop rest else Some rest) = Some rest'" "borrowed_length k rest < length rest"
  shows "last (out @ rest') = last rest" "rest' \<noteq> []"
proof -
  have len: "length rest' = length rest" using assms(1) decrease_loop_Some by (auto split: if_splits)
  then show "rest' \<noteq> []" using assms(2) by auto
  then show "last (out @ rest') = last rest"
    using assms decrease_loop_last by (auto simp: borrowed_length_def split: if_splits)
qed

lemma sub_loop_total:
  assumes loop: "sub_loop ls rs 0 = (out, k, rest)" and le: "length rs \<le> length ls" "big_val rs \<le> big_val ls"
  obtains rest' where "(if k \<noteq> 0 then decrease_loop rest else Some rest) = Some rest'"
    "length (out @ rest') = length ls" "big_val (out @ rest') = big_val ls - big_val rs"
proof -
  note sp = sub_loop_spec [OF loop le(1)]
  have split: "big_val ls = big_val (take (length rs) ls) + base ^ length rs * big_val rest"
    using big_val_take_drop [of ls "length rs"] le sp by simp
  have diff: "big_val out + base ^ length out * big_val rest + big_val rs = big_val ls + base ^ length out * unat k"
    using sp split by (simp add: algebra_simps)
  have len: "length out + length rest = length ls" using sp le by simp
  show thesis
  proof (cases "k = 0")
    case True
    with diff len show ?thesis by (intro that [of rest]) (simp_all add: big_val_append)
  next
    case False
    then have k: "unat k = 1" using sp by (auto simp: word_eq_unat)
    have "big_val rest \<noteq> 0"
      using diff k le(2) big_val_less [of out] by (intro notI) simp
    then obtain rest' where d: "decrease_loop rest = Some rest'" using decrease_loop_None [of rest] by auto
    note sd = decrease_loop_Some [OF d]
    have "base ^ length out * (big_val rest' + 1) = base ^ length out * big_val rest" using sd by simp
    with diff k have "big_val (out @ rest') + big_val rs = big_val ls" by (simp add: big_val_append algebra_simps)
    with False d sd len show ?thesis by (intro that [of rest']) auto
  qed
qed

context failing_heap
begin

section \<open>Allocation and release\<close>

lemma create_cases:
  assumes inv: "ctx_inv holds X c" and "0 < k" and res: "ecma_bigint_create A c (4 * k) = (c', r)"
  shows "(\<exists>p ds. r = Ptr p \<and> owns holds X (store c) c' p ds \<and> length ds = k \<and> k \<le> 16384) \<or>
    (r = NULL \<and> ctx_inv holds X c' \<and> store c' = store c \<and> (failed (heap c') \<or> 16384 < k))"
proof (cases "4 * k > ECMA_BIGINT_MAX_SIZE")
  case True
  with inv res show ?thesis by (simp add: ecma_bigint_create_def)
next
  case False
  let ?n = "bigint_mem_size (4 * k)" and ?B = "X ++ blocks (store c)"
  from inv have h: "holds (heap c) ?B" and dj: "dom X \<inter> dom (store c) = {}" by (simp_all add: ctx_inv_def)
  obtain a h' where a: "alloc_block A (heap c) ?n = (a, h')" by fastforce
  show ?thesis
  proof (cases a)
    case None
    with False a res h dj show ?thesis
      using alloc_none [OF h mem_size_pos] alloc_failed by (auto simp: ecma_bigint_create_def ctx_inv_def)
  next
    case (Some pg)
    then obtain p g where a': "alloc_block A (heap c) ?n = (Some (p, g), h')" using a by (cases pg) simp
    let ?ds = "map g [0..<k]"
    have c': "c' = set_obj (c\<lparr>heap := h'\<rparr>) p (new_prim ?ds)" "r = Ptr p"
      using False a' res by (simp_all add: ecma_bigint_create_def new_prim_def)
    have fresh: "p \<notin> dom ?B" by (rule alloc_fresh [OF h mem_size_pos a'])
    then have "?B(p \<mapsto> ?n) = X ++ blocks ((store c)(p \<mapsto> new_prim ?ds))"
      by (simp add: blocks_upd map_add_upd)
    with alloc_holds [OF h mem_size_pos a'] have "holds h' (X ++ blocks ((store c)(p \<mapsto> new_prim ?ds)))" by simp
    then have "owns holds X (store c) c' p ?ds"
      using fresh dj by (auto simp: owns_def ctx_inv_def c')
    with c' False show ?thesis by auto
  qed
qed

lemma create_yields:
  assumes "ctx_inv holds X c" "0 < k" "16384 < k \<Longrightarrow> big_limit \<le> n"
    and "\<And>c1 p ds. owns holds X (store c) c1 p ds \<Longrightarrow> length ds = k \<Longrightarrow> ds \<noteq> [] \<Longrightarrow> length ds \<le> 16384 \<Longrightarrow> yields holds failed X (store c) n (f c1 p)"
  shows "yields holds failed X (store c) n (case ecma_bigint_create A c (4 * k) of (c1, Ptr p) \<Rightarrow> f c1 p | (c1, _) \<Rightarrow> (c1, NULL))"
proof -
  obtain c' r where res: "ecma_bigint_create A c (4 * k) = (c', r)" by fastforce
  from create_cases [OF assms(1,2) res] assms(2-4) show ?thesis
    by (auto simp: res intro!: yields_NULL)
qed

lemma create_yields_some:
  assumes "ctx_inv holds X c" "0 < k" "16384 < k \<Longrightarrow> big_limit \<le> n"
    and "\<And>c1 p ds. owns holds X (store c) c1 p ds \<Longrightarrow> length ds = k \<Longrightarrow> ds \<noteq> [] \<Longrightarrow> length ds \<le> 16384 \<Longrightarrow> yields_some holds failed X (store c) n (f c1 p)"
  shows "yields_some holds failed X (store c) n (case ecma_bigint_create A c (4 * k) of (c1, Ptr p) \<Rightarrow> f c1 p | (c1, _) \<Rightarrow> Some (c1, NULL))"
proof -
  obtain c' r where res: "ecma_bigint_create A c (4 * k) = (c', r)" by fastforce
  from create_cases [OF assms(1,2) res] assms(2-4) show ?thesis
    by (auto simp: res intro!: yields_NULL)
qed

text \<open>Dropping the last reference to a value frees its block.\<close>

lemma deref_owned:
  assumes "ctx_inv holds X c" "store c = st(p \<mapsto> new_prim ds)" "p \<notin> dom st"
  shows "store (ecma_deref_bigint A c p) = st" "ctx_inv holds X (ecma_deref_bigint A c p)"
    "failed (heap c) \<Longrightarrow> failed (heap (ecma_deref_bigint A c p))"
proof -
  have o: "obj c p = new_prim ds" using assms(2) by (simp add: obj_def)
  have c': "ecma_deref_bigint A c p = c\<lparr>store := (store c)(p := None),
      heap := free_block A (heap c) p (bigint_mem_size (4 * length ds))\<rparr>"
    by (simp add: ecma_deref_bigint_def o Let_def)
  show st: "store (ecma_deref_bigint A c p) = st" using assms(2,3) by (auto simp: c')
  have pX: "X p = None" using assms(1,2) by (auto simp: ctx_inv_def)
  have "(X ++ blocks (store c)) p = Some (bigint_mem_size (4 * length ds))"
    by (simp add: assms(2) blocks_upd)
  with assms(1) have "holds (free_block A (heap c) p (bigint_mem_size (4 * length ds))) ((X ++ blocks (store c))(p := None))"
    by (intro free_holds) (simp_all add: ctx_inv_def)
  moreover have "(X ++ blocks (store c))(p := None) = X ++ blocks ((store c)(p := None))"
    using pX by (auto simp: fun_eq_iff map_add_def blocks_def split: option.splits)
  ultimately show "ctx_inv holds X (ecma_deref_bigint A c p)"
    using assms(1) by (auto simp: c' ctx_inv_def)
  show "failed (heap c) \<Longrightarrow> failed (heap (ecma_deref_bigint A c p))" by (simp add: c' free_failed)
qed

lemma owned_null:
  assumes "owns holds X st c p ds" "failed (heap c) \<or> big_limit \<le> n"
  shows "yields holds failed X st n (ecma_deref_bigint A c p, NULL)"
  using assms deref_owned [of X c st p ds] by (auto simp: owns_def yields_def)

text \<open>A value on top of another one under construction; the lower one is dropped.\<close>

lemma owns_deref_below:
  assumes "owns holds X (st(p \<mapsto> new_prim ds)) c q ds'" "p \<notin> dom st"
  shows "owns holds X st (ecma_deref_bigint A c p) q ds'" "failed (heap c) \<Longrightarrow> failed (heap (ecma_deref_bigint A c p))"
proof -
  have qp: "q \<noteq> p" "q \<notin> dom st" using assms(1) by (auto simp: owns_def)
  have inv: "ctx_inv holds X c" and st: "store c = st(q \<mapsto> new_prim ds', p \<mapsto> new_prim ds)"
    using assms(1) qp by (auto simp: owns_def fun_upd_twist)
  have p: "p \<notin> dom (st(q \<mapsto> new_prim ds'))" using assms(2) qp by simp
  note d = deref_owned [OF inv st p]
  show "owns holds X st (ecma_deref_bigint A c p) q ds'" using d(1,2) qp by (simp add: owns_def)
  show "failed (heap c) \<Longrightarrow> failed (heap (ecma_deref_bigint A c p))" by (rule d(3))
qed

lemma extend_yields:
  assumes own: "owns holds X st c p ds" and "d \<noteq> 0" "0 < length ds" "length ds \<le> 16384"
    and n: "n = big_val ds + base ^ length ds * unat d"
  shows "yields holds failed X st n (ecma_big_uint_extend A c p d)"
proof -
  note o = owns_obj [OF own]
  have norm: "normalized (ds @ [d])" and val: "big_val (ds @ [d]) = n"
    using assms(2) n by (simp_all add: normalized_def big_val_append)
  show ?thesis
  proof (cases "odd (length ds)")
    case True
    let ?c = "set_obj c p (new_prim (ds @ [d]))"
    have "ecma_big_uint_extend A c p d = (?c, Ptr p)"
      using True by (simp add: ecma_big_uint_extend_def o) (simp add: new_prim_def add.commute)
    moreover have "owns holds X st ?c p (ds @ [d])"
      using owns_resize [OF own, of "ds @ [d]"] mem_size_odd [OF True] by simp
    moreover have "length (ds @ [d]) \<le> 16384" using True assms(4) by (cases "length ds = 16384") auto
    ultimately show ?thesis using owns_yields [OF _ norm _ val] by simp
  next
    case False
    obtain c1 r where res: "ecma_bigint_create A c (4 * Suc (length ds)) = (c1, r)" by fastforce
    have inv: "ctx_inv holds X c" and st: "store c = st(p \<mapsto> new_prim ds)" "p \<notin> dom st"
      using own by (auto simp: owns_def)
    have eq: "ecma_big_uint_extend A c p d =
        (case (c1, r) of (c1, Ptr q) \<Rightarrow>
           (let c2 = set_digits c1 q (ds @ drop (length ds) (digits (obj c1 q))); c3 = ecma_deref_bigint A c2 p
            in (set_digits c3 q ((digits (obj c3 q))[length ds := d]), Ptr q))
         | (c1, _) \<Rightarrow> (ecma_deref_bigint A c1 p, NULL))"
      using False res by (simp add: ecma_big_uint_extend_def o add.commute)
    from create_cases [OF inv _ res] st consider
        q ds1 where "r = Ptr q" "owns holds X (st(p \<mapsto> new_prim ds)) c1 q ds1" "length ds1 = Suc (length ds)" "Suc (length ds) \<le> 16384"
      | "r = NULL" "ctx_inv holds X c1" "store c1 = st(p \<mapsto> new_prim ds)" "failed (heap c1) \<or> 16384 < Suc (length ds)"
      by auto
    then show ?thesis
    proof cases
      case 1
      obtain x where x: "drop (length ds) ds1 = [x]"
        using 1(3) by (cases "drop (length ds) ds1") (auto dest: arg_cong [of _ _ length])
      have "owns holds X (st(p \<mapsto> new_prim ds)) (set_digits c1 q (ds @ [x])) q (ds @ [x])"
        using owns_set_digits [OF 1(2)] 1(3) by simp
      from owns_deref_below [OF this st(2)] have o3: "owns holds X st (ecma_deref_bigint A (set_digits c1 q (ds @ [x])) p) q (ds @ [x])"
        by simp
      from owns_set_digits [OF this, of "ds @ [d]"] owns_yields [OF _ norm _ val] 1(4)
      show ?thesis by (simp add: eq 1(1) owns_obj [OF 1(2)] x Let_def owns_obj [OF o3])
    next
      case 2
      have "big_limit \<le> n" if "16384 < Suc (length ds)"
        using big_limitI [OF that] normalized_ge [OF norm] val by simp
      with 2 show ?thesis
        using owned_null [of X st c1 p ds n] st(2) by (auto simp: eq owns_def)
    qed
  qed
qed

lemma normalize_yields:
  assumes own: "owns holds X st c p ds" and "ds \<noteq> []" "last ds = 0" "length ds \<le> 16384" "big_val ds = n"
  shows "yields holds failed X st n (ecma_big_uint_normalize_result A c p (length ds))"
proof -
  note o = owns_obj [OF own]
  define m where "m = normalize_loop ds (length ds)"
  have m: "m \<le> length ds - 1" "big_val (take m ds) = n" "m \<noteq> 0 \<longrightarrow> ds ! (m - 1) \<noteq> 0"
    using normalize_loop_spec [of "length ds" ds] assms(2,3,5) by (auto simp: m_def last_conv_nth)
  have inv: "ctx_inv holds X c" and st: "store c = st(p \<mapsto> new_prim ds)" "p \<notin> dom st"
    using own by (auto simp: owns_def)
  show ?thesis
  proof (cases "m = 0")
    case True
    with m deref_owned [OF inv st] show ?thesis
      by (auto simp: ecma_big_uint_normalize_result_def o m_def [symmetric] intro: yields_zero)
  next
    case False
    have norm: "normalized (take m ds)"
      using False m assms(2) by (auto simp: normalized_def last_conv_nth)
    have len: "length (take m ds) = m" "m < length ds" using m assms(2) by (cases ds; simp)+
    show ?thesis
    proof (cases "odd m \<and> Suc m = length ds")
      case True
      let ?c = "set_obj c p (new_prim (take m ds))"
      have "4 * length ds - 4 = 4 * m" using True by linarith
      then have "ecma_big_uint_normalize_result A c p (length ds) = (?c, Ptr p)"
        using True False len by (simp add: ecma_big_uint_normalize_result_def o m_def [symmetric] new_prim_shrink)
      moreover have "bigint_mem_size (4 * m) = bigint_mem_size (4 * length ds)"
        using mem_size_odd [of m] True by metis
      then have "owns holds X st ?c p (take m ds)" using owns_resize [OF own, of "take m ds"] len(1) by argo
      ultimately show ?thesis using owns_yields [OF _ norm _ m(2)] len assms(4) by simp
    next
      case nodd: False
      obtain c1 r where res: "ecma_bigint_create A c (4 * m) = (c1, r)" by fastforce
      have eq: "ecma_big_uint_normalize_result A c p (length ds) =
          (case (c1, r) of (c1, Ptr q) \<Rightarrow> (ecma_deref_bigint A (set_digits c1 q (take m ds)) p, Ptr q)
           | (c1, _) \<Rightarrow> (ecma_deref_bigint A c1 p, NULL))"
        using nodd False res by (auto simp: ecma_big_uint_normalize_result_def o m_def [symmetric] Let_def)
      from create_cases [OF inv _ res] st False len assms(4) consider
          q ds1 where "r = Ptr q" "owns holds X (st(p \<mapsto> new_prim ds)) c1 q ds1" "length ds1 = m"
        | "r = NULL" "ctx_inv holds X c1" "store c1 = st(p \<mapsto> new_prim ds)" "failed (heap c1)"
        by auto
      then show ?thesis
      proof cases
        case 1
        have "owns holds X (st(p \<mapsto> new_prim ds)) (set_digits c1 q (take m ds)) q (take m ds)"
          using owns_set_digits [OF 1(2)] 1(3) len by simp
        from owns_yields [OF owns_deref_below(1) [OF this st(2)] norm _ m(2)] len assms(4)
        show ?thesis by (simp add: eq 1(1))
      next
        case 2
        with owned_null [of X st c1 p ds n] st(2) show ?thesis by (auto simp: eq owns_def)
      qed
    qed
  qed
qed

lemma finish_yields:
  assumes "owns holds X st c p ds" "length ds' = length ds" "ds \<noteq> []" "length ds \<le> 16384" "big_val ds' = n"
  shows "last ds' \<noteq> 0 \<Longrightarrow> yields holds failed X st n (set_digits c p ds', Ptr p)"
    and "last ds' = 0 \<Longrightarrow> yields holds failed X st n (ecma_big_uint_normalize_result A (set_digits c p ds') p (length ds'))"
proof -
  have "ds' \<noteq> []" "length ds' \<le> 16384" using assms(2-4) by auto
  then show "last ds' \<noteq> 0 \<Longrightarrow> yields holds failed X st n (set_digits c p ds', Ptr p)"
    and "last ds' = 0 \<Longrightarrow> yields holds failed X st n (ecma_big_uint_normalize_result A (set_digits c p ds') p (length ds'))"
    using owns_set_digits [OF assms(1,2)] assms(5)
    by (simp_all add: owns_yields normalize_yields normalized_def del: set_digits_simps)
qed

lemma increase_result_yields:
  assumes own: "owns holds X st c p ds" and "ds \<noteq> []" "length ds \<le> 16384" "n = big_val ds + 1"
  shows "yields holds failed X st n (ecma_big_uint_increase_result A c p)"
proof (cases "increase_loop ds")
  case None
  have "owns holds X st (set_digits c p (replicate (length ds) 0)) p (replicate (length ds) 0)"
    using owns_set_digits [OF own] by simp
  from extend_yields [OF this, of 1 n] None increase_loop_None [OF None] assms(2-)
  show ?thesis by (simp add: ecma_big_uint_increase_result_def owns_obj [OF own])
next
  case (Some ds')
  with increase_loop_Some [OF Some] finish_yields [OF own, of ds' n] assms(2-)
  show ?thesis by (simp add: ecma_big_uint_increase_result_def owns_obj [OF own])
qed

section \<open>Operations\<close>

lemma store_yields:
  assumes "owns holds X st c p ds" "length ds' = length ds" "ds \<noteq> []" "length ds \<le> 16384" "big_val ds' = n"
    "base ^ (length ds - 1) \<le> n"
  shows "yields holds failed X st n (set_digits c p ds', Ptr p)"
proof -
  have "normalized ds'" using assms by (intro normalizedI_val) auto
  then show ?thesis using assms finish_yields(1) [OF assms(1-5)] by (simp add: normalized_def)
qed

lemma add_correct:
  assumes inv: "ctx_inv holds X c" and "number (store c) l a" "number (store c) r b"
  shows "yields holds failed X (store c) (a + b) (ecma_big_uint_add A c l r)"
proof -
  obtain lv where lv: "obj c l = lv" "wf_prim lv" "big_val (digits lv) = a" using assms(2) by (rule number_obj)
  obtain rv where rv: "obj c r = rv" "wf_prim rv" "big_val (digits rv) = b" using assms(3) by (rule number_obj)
  define L R where "L = (if length (digits lv) < length (digits rv) then rv else lv)"
    and "R = (if length (digits lv) < length (digits rv) then lv else rv)"
  have LR: "wf_prim L" "length (digits R) \<le> length (digits L)" "a + b = big_val (digits L) + big_val (digits R)"
    using lv rv by (auto simp: L_def R_def)
  have L: "normalized (digits L)" "length (digits L) \<le> 16384" "0 < length (digits L)"
    using LR(1) by (auto simp: wf_prim_def normalized_def)
  have ge: "base ^ (length (digits L) - 1) \<le> a + b" using normalized_ge [OF L(1)] LR(3) by linarith
  obtain out k rest where loop: "add_loop (digits L) (digits R) 0 = (out, k, rest)" by (metis prod_cases3)
  note total = add_loop_total [OF loop LR(2), folded LR(3)]
  have "yields holds failed X (store c) (a + b)
      (case ecma_bigint_create A c (4 * length (digits L)) of
         (c1, Ptr p) \<Rightarrow>
           (if k \<noteq> 0 then
              (case increase_loop rest of
                 None \<Rightarrow> ecma_big_uint_extend A (set_digits c1 p (out @ replicate (length rest) 0)) p 1
               | Some rest' \<Rightarrow> (set_digits c1 p (out @ rest'), Ptr p))
            else (set_digits c1 p (out @ rest), Ptr p))
       | (c1, _) \<Rightarrow> (c1, NULL))"
  proof (rule create_yields [OF inv L(3)])
    fix c1 p ds
    assume own: "owns holds X (store c) c1 p ds" and len: "length ds = length (digits L)"
    note store = store_yields [OF own, of _ "a + b"] and extend = extend_yields [OF owns_set_digits [OF own], of _ 1]
    show "yields holds failed X (store c) (a + b)
           (if k \<noteq> 0 then
              (case increase_loop rest of
                 None \<Rightarrow> ecma_big_uint_extend A (set_digits c1 p (out @ replicate (length rest) 0)) p 1
               | Some rest' \<Rightarrow> (set_digits c1 p (out @ rest'), Ptr p))
            else (set_digits c1 p (out @ rest), Ptr p))"
      using total len L ge
      by (cases "increase_loop rest") (auto intro!: store extend simp del: length_greater_0_conv)
  qed (use L in auto)
  moreover have "(if ECMA_BIGINT_GET_SIZE (obj c l) < ECMA_BIGINT_GET_SIZE (obj c r)
      then (obj c r, obj c l) else (obj c l, obj c r)) = (L, R)"
    using lv rv by (simp add: wf_prim_size L_def R_def)
  ultimately show ?thesis
    by (simp add: ecma_big_uint_add_def wf_prim_size [OF LR(1)] loop)
qed

lemma sub_correct:
  assumes inv: "ctx_inv holds X c" and "number (store c) l a" "number (store c) r b" "b \<le> a"
  shows "yields_some holds failed X (store c) (a - b) (ecma_big_uint_sub A c l r)"
proof -
  obtain L where L: "obj c l = L" "big_val (digits L) = a" "ECMA_BIGINT_GET_SIZE L = 4 * length (digits L)"
    "normalized (digits L)" "length (digits L) \<le> 16384" "0 < length (digits L)" using assms(2) by (rule number_obj)
  obtain R where R: "obj c r = R" "big_val (digits R) = b" "normalized (digits R)" "0 < length (digits R)"
    using assms(3) by (rule number_obj)
  have "length (digits R) \<le> length (digits L)"
    using assms(4) big_val_length [OF R(3), of "digits L"] L R by simp
  obtain out k rest where loop: "sub_loop (digits L) (digits R) 0 = (out, k, rest)" by (metis prod_cases3)
  obtain rest' where rest': "(if k \<noteq> 0 then decrease_loop rest else Some rest) = Some rest'"
    "length (out @ rest') = length (digits L)" "big_val (out @ rest') = a - b"
    using sub_loop_total [OF loop \<open>length (digits R) \<le> _\<close>] assms(4) L(2) R(2) by metis
  have rest: "rest = drop (length (digits R)) (digits L)" using sub_loop_spec [OF loop \<open>length (digits R) \<le> _\<close>] by simp
  have last: "last (out @ rest') \<noteq> 0" if "borrowed_length k rest < length rest"
    using borrow_last(1) [OF rest'(1) that, of out] that rest L(4) by (auto simp: normalized_def)
  have eq: "ecma_big_uint_sub A c l r =
      (case ecma_bigint_create A c (4 * length (digits L)) of
        (c1, Ptr p) \<Rightarrow>
          Some (if borrowed_length k rest < length rest \<or> last (out @ rest') \<noteq> 0
                then (set_digits c1 p (out @ rest'), Ptr p)
                else ecma_big_uint_normalize_result A (set_digits c1 p (out @ rest')) p (length (out @ rest')))
      | (c1, _) \<Rightarrow> Some (c1, NULL))"
    by (simp add: ecma_big_uint_sub_def L(1,3) R(1) loop rest'(1) Let_def cong: if_cong split: prod.split bigptr.split)
  show ?thesis unfolding eq
  proof (rule create_yields_some [OF inv L(6)])
    fix c1 p ds
    assume own: "owns holds X (store c) c1 p ds" "length ds = length (digits L)" "ds \<noteq> []"
    note fin = finish_yields [OF own(1), of "out @ rest'" "a - b"]
    show "yields_some holds failed X (store c) (a - b)
        (Some (if borrowed_length k rest < length rest \<or> last (out @ rest') \<noteq> 0
               then (set_digits c1 p (out @ rest'), Ptr p)
               else ecma_big_uint_normalize_result A (set_digits c1 p (out @ rest')) p (length (out @ rest'))))"
      using own(2,3) rest'(2,3) L(5) last fin by (auto simp del: last_append length_append append_is_Nil_conv)
  qed (use L in auto)
qed

lemma mul_correct:
  assumes inv: "ctx_inv holds X c" and "number (store c) l a" "number (store c) r b"
  shows "yields_some holds failed X (store c) (a * b) (ecma_big_uint_mul A c l r)"
proof -
  obtain lv where lv: "obj c l = lv" "wf_prim lv" "big_val (digits lv) = a" using assms(2) by (rule number_obj)
  obtain rv where rv: "obj c r = rv" "wf_prim rv" "big_val (digits rv) = b" using assms(3) by (rule number_obj)
  define L R where "L = (if length (digits lv) < length (digits rv) then rv else lv)"
    and "R = (if length (digits lv) < length (digits rv) then lv else rv)"
  have LR: "wf_prim L" "wf_prim R" "a * b = big_val (digits L) * big_val (digits R)"
    using lv rv by (auto simp: L_def R_def)
  have norm: "normalized (digits L)" "normalized (digits R)" using LR by (auto simp: wf_prim_def)
  define k where "k = length (digits L) + length (digits R) - 1"
  have k: "0 < k" "k + 1 = length (digits L) + length (digits R)" "length (digits R) \<le> k" "length (digits L) \<le> k"
    "4 * length (digits L) + 4 * length (digits R) - 4 = 4 * k"
    using norm by (auto simp: k_def normalized_def neq_Nil_conv)
  have ge: "base ^ (k - 1) \<le> a * b"
  proof -
    have "base ^ (k - 1) = base ^ (length (digits L) - 1) * base ^ (length (digits R) - 1)"
      using norm by (auto simp: k_def normalized_def neq_Nil_conv simp flip: power_add)
    also have "\<dots> \<le> a * b" unfolding LR(3) using norm by (intro mult_le_mono normalized_ge)
    finally show ?thesis .
  qed
  have less: "a * b < base ^ (k + 1)"
    unfolding LR(3) k(2) power_add by (intro mult_strict_mono big_val_less) auto
  obtain ds where ds: "mul_loop (digits L) (digits R) (replicate k 0 @ [0]) = Some ds" "length ds = k + 1" "big_val ds = a * b"
    using mul_loop_spec [of "replicate k 0 @ [0]" "digits L" "digits R"] less k LR(3)
    by (auto simp: big_val_append)
  obtain d e where de: "ds = d @ [e]" "length d = k" using ds(2) by (cases ds rule: rev_cases) auto
  have sel: "(if ECMA_BIGINT_GET_SIZE (obj c l) < ECMA_BIGINT_GET_SIZE (obj c r)
      then (obj c r, obj c l) else (obj c l, obj c r)) = (L, R)"
    using lv rv by (simp add: wf_prim_size L_def R_def)
  have eq: "ecma_big_uint_mul A c l r =
      (case ecma_bigint_create A c (4 * k) of
        (c1, Ptr p) \<Rightarrow>
          Some (if e = 0 then (set_digits c1 p d, Ptr p) else ecma_big_uint_extend A (set_digits c1 p d) p e)
      | (c1, _) \<Rightarrow> Some (c1, NULL))"
    unfolding ecma_big_uint_mul_def sel
    by (simp add: wf_prim_size LR k(5) ds(1) [simplified] de Let_def split: prod.split bigptr.split)
  show ?thesis unfolding eq
  proof (rule create_yields_some [OF inv k(1)])
    fix c1 p ds1
    assume own: "owns holds X (store c) c1 p ds1" "length ds1 = k" "ds1 \<noteq> []" "length ds1 \<le> 16384"
    note st = store_yields [OF own(1), of d "a * b"] and ex = extend_yields [OF owns_set_digits [OF own(1), of d], of e "a * b"]
    show "yields_some holds failed X (store c) (a * b)
        (Some (if e = 0 then (set_digits c1 p d, Ptr p) else ecma_big_uint_extend A (set_digits c1 p d) p e))"
      using own(2-) ds(3) ge st ex k(1) by (cases "e = 0") (simp_all add: de big_val_append)
  qed (use big_limitI [of k "a * b"] ge in auto)
qed

lemma mul_digit_new:
  assumes inv: "ctx_inv holds X c" and "0 < d"
  shows "yields holds failed X (store c) (unat d) (ecma_big_uint_mul_digit A c NULL mul d)"
proof -
  have "yields holds failed X (store c) (unat d)
      (case ecma_bigint_create A c (4 * 1) of (c1, Ptr q) \<Rightarrow> (set_digits c1 q [d], Ptr q) | (c1, _) \<Rightarrow> (c1, NULL))"
    using assms(2) by (rule_tac create_yields [OF inv])
      (auto intro!: store_yields simp: word_less_unat)
  then show ?thesis by (simp add: ecma_big_uint_mul_digit_def)
qed

text \<open>The digit-wise step of the parser consumes its operand.\<close>

lemma mul_digit_correct:
  assumes own: "owns holds X st c p ds" and norm: "normalized ds" "length ds \<le> 16384" and "0 < mul"
  shows "yields holds failed X st (big_val ds * unat mul + unat d) (ecma_big_uint_mul_digit A c (Ptr p) mul d)"
proof -
  obtain out k where loop: "mul_digit_loop ds mul d = (out, k)" by fastforce
  note sp = mul_digit_loop_spec [OF loop]
  have ne: "ds \<noteq> []" using norm by (simp add: normalized_def)
  have "big_val ds \<le> big_val ds * unat mul" using assms(4) by (simp add: word_less_unat)
  with normalized_ge [OF norm(1)] have ge: "base ^ (length ds - 1) \<le> big_val ds * unat mul + unat d" by linarith
  have eq: "ecma_big_uint_mul_digit A c (Ptr p) mul d =
      (if k = 0 then (set_digits c p out, Ptr p) else ecma_big_uint_extend A (set_digits c p out) p k)"
    by (simp add: ecma_big_uint_mul_digit_def owns_obj [OF own] loop)
  show ?thesis
    unfolding eq using sp ge norm ne store_yields [OF own, of out] extend_yields [OF owns_set_digits [OF own, of out], of k]
    by auto
qed

lemma increase_correct:
  assumes inv: "ctx_inv holds X c" and "number (store c) p a"
  shows "yields_some holds failed X (store c) (a + 1) (ecma_big_uint_increase A c p)"
proof -
  obtain v where v: "obj c p = v" "big_val (digits v) = a" "ECMA_BIGINT_GET_SIZE v = 4 * length (digits v)"
    "normalized (digits v)" "length (digits v) \<le> 16384" "0 < length (digits v)" using assms(2) by (rule number_obj)
  let ?ds = "digits v" and ?n = "length (digits v)"
  have ge: "base ^ (?n - 1) \<le> a + 1" using normalized_ge [OF v(4)] v(2) by simp
  show ?thesis
  proof (cases "increase_loop ?ds")
    case None
    have all: "hd ?ds = NOT 0 \<and> last ?ds = NOT 0 \<and> list_all (\<lambda>d. d = NOT 0) (tl ?ds)"
      using increase_loop_all [OF None] v(6) by (cases ?ds) (auto simp: list_all_iff)
    have val: "a + 1 = base ^ ?n" using increase_loop_None [OF None] v(2) by simp
    have "yields_some holds failed X (store c) (a + 1)
        (case ecma_bigint_create A c (4 * Suc ?n) of
          (c1, Ptr q) \<Rightarrow> Some (set_digits c1 q (replicate ?n 0 @ [1]), Ptr q) | (c1, _) \<Rightarrow> Some (c1, NULL))"
      by (rule create_yields_some [OF inv])
        (use val big_limitI [of "Suc ?n"] in \<open>auto intro!: store_yields simp: big_val_append\<close>)
    with all show ?thesis by (simp add: ecma_big_uint_increase_def v(1,3) add.commute Let_def)
  next
    case (Some ds')
    note sp = increase_loop_Some [OF Some]
    have "\<not> (hd ?ds = NOT 0 \<and> last ?ds = NOT 0 \<and> list_all (\<lambda>d. d = NOT 0) (tl ?ds))"
      using increase_loop_not_all [OF Some] v(6) by (cases ?ds) (auto simp: list_all_iff)
    moreover have "yields_some holds failed X (store c) (a + 1)
        (case ecma_bigint_create A c (4 * ?n) of
          (c1, Ptr q) \<Rightarrow> map_option (\<lambda>ds'. (set_digits c1 q ds', Ptr q)) (increase_loop ?ds) | (c1, _) \<Rightarrow> Some (c1, NULL))"
      by (rule create_yields_some [OF inv v(6)])
        (use sp ge v(2,5) Some in \<open>auto intro!: store_yields\<close>)
    ultimately show ?thesis unfolding ecma_big_uint_increase_def v(1,3) Let_def by auto
  qed
qed

lemma decrease_correct:
  assumes inv: "ctx_inv holds X c" and "number (store c) p a" "1 < a"
  shows "yields_some holds failed X (store c) (a - 1) (ecma_big_uint_decrease A c p)"
proof -
  obtain v where v: "obj c p = v" "big_val (digits v) = a" "ECMA_BIGINT_GET_SIZE v = 4 * length (digits v)"
    "normalized (digits v)" "length (digits v) \<le> 16384" "0 < length (digits v)" using assms(2) by (rule number_obj)
  let ?ds = "digits v" and ?n = "length (digits v)"
  obtain init top where ds: "?ds = init @ [top]" using v(6) by (cases ?ds rule: rev_cases) auto
  have n: "?n = Suc (length init)" and a: "a = big_val init + base ^ length init * unat top"
    using ds v(2) by (simp_all add: big_val_append flip: v(2))
  show ?thesis
  proof (cases "hd ?ds = 0 \<and> last ?ds = 1 \<and> list_all (\<lambda>d. d = 0) (butlast ?ds)")
    case True
    then have "top = 1" "big_val init = 0" by (auto simp: ds list_all_iff big_val_eq_0_iff)
    then have val: "a = base ^ length init" using a by simp
    with assms(3) have ne: "0 < length init" by (cases init) auto
    have "yields_some holds failed X (store c) (a - 1)
        (case ecma_bigint_create A c (4 * length init) of
          (c1, Ptr q) \<Rightarrow> Some (set_digits c1 q (replicate (length init) (- 1)), Ptr q) | (c1, _) \<Rightarrow> Some (c1, NULL))"
    proof (rule create_yields_some [OF inv ne])
      fix c1 q ds1
      assume own: "owns holds X (store c) c1 q ds1" "length ds1 = length init" "ds1 \<noteq> []" "length ds1 \<le> 16384"
      have "big_val (replicate (length init) (- 1)) = a - 1"
        using big_val_replicate_max [of "length init"] val by simp
      moreover have "last (replicate (length init) (- 1 :: digit)) \<noteq> 0" using ne by simp
      ultimately show "yields_some holds failed X (store c) (a - 1)
          (Some (set_digits c1 q (replicate (length init) (- 1)), Ptr q))"
        using finish_yields(1) [OF own(1), of "replicate (length init) (- 1)"] own(2-) by simp
    qed (use v(5) n in auto)
    with True show ?thesis by (simp add: ecma_big_uint_decrease_def v(1,3) n Let_def)
  next
    case False
    obtain ds' where d: "decrease_loop ?ds = Some ds'"
      using decrease_loop_None [of ?ds] v(2) assms(3) by (cases "decrease_loop ?ds") auto
    note sp = decrease_loop_Some [OF d]
    have "base ^ (?n - 1) < a"
    proof -
      have top: "1 \<le> unat top" using v(4) by (simp add: ds normalized_def word_eq_unat)
      show ?thesis
      proof (cases "unat top = 1")
        case True
        then have "top = 1" by (simp add: word_eq_unat)
        with False ds have "big_val init \<noteq> 0 \<or> init = []" by (cases init) (auto simp: list_all_iff big_val_eq_0_iff simp del: big_val.simps)
        with a assms(3) True show ?thesis by (auto simp: n)
      next
        case False
        with top have "base ^ length init * 2 \<le> base ^ length init * unat top" by (intro mult_le_mono2) simp
        moreover have "0 < base ^ length init" by simp
        ultimately show ?thesis using a unfolding n by (simp only: diff_Suc_1)
      qed
    qed
    then have ge: "base ^ (?n - 1) \<le> a - 1" by simp
    have "yields_some holds failed X (store c) (a - 1)
        (case ecma_bigint_create A c (4 * ?n) of
          (c1, Ptr q) \<Rightarrow> map_option (\<lambda>ds'. (set_digits c1 q ds', Ptr q)) (decrease_loop ?ds) | (c1, _) \<Rightarrow> Some (c1, NULL))"
      by (rule create_yields_some [OF inv v(6)])
        (use sp ge v(2,5) d in \<open>auto intro!: store_yields\<close>)
    with False show ?thesis unfolding ecma_big_uint_decrease_def v(1,3) Let_def by auto
  qed
qed

end

lemma compare_correct:
  assumes "number (store c) l a" "number (store c) r b"
  shows "ecma_big_uint_compare c l r = (if a < b then -1 else if a = b then 0 else 1)"
proof -
  obtain L where L: "obj c l = L" "big_val (digits L) = a" "ECMA_BIGINT_GET_SIZE L = 4 * length (digits L)"
    "normalized (digits L)" using assms(1) by (rule number_obj)
  obtain R where R: "obj c r = R" "big_val (digits R) = b" "ECMA_BIGINT_GET_SIZE R = 4 * length (digits R)"
    "normalized (digits R)" using assms(2) by (rule number_obj)
  have "b < a" if "length (digits R) < length (digits L)"
    using that big_val_length [OF L(4), of "digits R"] L R by fastforce
  moreover have "a < b" if "length (digits L) < length (digits R)"
    using that big_val_length [OF R(4), of "digits L"] L R by fastforce
  ultimately show ?thesis
    using compare_loop_val [of "digits L" "digits R"] L R by (auto simp: ecma_big_uint_compare_def Let_def)
qed

end
