(* ===== verification/Big_Uint_Ops.thy ===== *)
theory Big_Uint_Ops
  imports Big_Uint_Correct
begin

text \<open>
  Correctness of the operations of \<open>Big_Uint\<close>, second part: division by a digit, shifts, the
  conversion to a string and bitwise operations.
\<close>

section \<open>Division by a digit\<close>

lemma div_digit_total:
  assumes ds: "normalized ds" and v: "0 < v" "unat v \<le> big_val ds"
    and res: "div_digit_loop v (hd (rev ds) mod v) (tl (rev ds)) = (out, r)"
  defines "q \<equiv> hd (rev ds) div v"
  shows "big_val (rev (if q \<noteq> 0 then q # out else out)) = big_val ds div unat v"
    and "unat r = big_val ds mod unat v"
    and "length (if q \<noteq> 0 then q # out else out) = (if q = 0 then length ds - 1 else length ds)"
    and "q = 0 \<Longrightarrow> 0 < length ds - 1"
    and "base ^ (length (if q \<noteq> 0 then q # out else out) - 1) \<le> big_val ds div unat v"
proof -
  obtain ds' d where dd: "ds = ds' @ [d]" using ds by (cases ds rule: rev_cases) (auto simp: normalized_def)
  have d: "d \<noteq> 0" using ds dd by (simp add: normalized_def)
  have q: "q = d div v" "unat q = unat d div unat v" by (simp_all add: q_def dd unat_div_distrib)
  have rm: "d mod v < v" "unat (d mod v) = unat d mod unat v" using v(1) by (simp_all add: word_less_unat unat_mod_distrib)
  have sp: "length out = length ds'" "r < v"
    "big_val (rev out) * unat v + unat r = big_val ds' + base ^ length ds' * (unat d mod unat v)"
    using div_digit_loop_spec [of v "d mod v" "rev ds'" out r] res rm by (auto simp: dd)
  have "big_val (rev (q # out)) * unat v + unat r =
      big_val (rev out) * unat v + unat r + base ^ length ds' * (unat d div unat v * unat v)"
    by (simp add: big_val_append sp(1) q(2) algebra_simps)
  also have "\<dots> = big_val ds' + base ^ length ds' * (unat d div unat v * unat v + unat d mod unat v)"
    unfolding sp(3) by (simp only: algebra_simps)
  also have "\<dots> = big_val ds" by (simp add: dd big_val_append)
  finally have total: "big_val (rev (q # out)) * unat v + unat r = big_val ds div unat v * unat v + big_val ds mod unat v"
    by simp
  have "0 < unat v" "unat r < unat v" using v(1) sp(2) by (simp_all add: word_less_unat)
  with div_unique [OF total] have qr: "big_val (rev (q # out)) = big_val ds div unat v" "unat r = big_val ds mod unat v"
    by simp_all
  show val: "big_val (rev (if q \<noteq> 0 then q # out else out)) = big_val ds div unat v"
    using qr(1) by (auto simp: big_val_append)
  show "unat r = big_val ds mod unat v" by (rule qr(2))
  show len: "length (if q \<noteq> 0 then q # out else out) = (if q = 0 then length ds - 1 else length ds)"
    using sp(1) by (simp add: dd)
  show ne: "0 < length ds - 1" if "q = 0"
    using that q v(2) \<open>0 < unat v\<close> by (cases ds') (auto simp: dd div_eq_0_iff)
  show "base ^ (length (if q \<noteq> 0 then q # out else out) - 1) \<le> big_val ds div unat v"
  proof (cases "q = 0")
    case False
    then have "normalized (rev (q # out))" by (simp add: normalized_def)
    from normalized_ge [OF this] False qr(1) show ?thesis by simp
  next
    case True
    then obtain k where k: "length ds' = Suc k" using ne by (cases ds') (auto simp: dd)
    have "base ^ k * unat v \<le> base ^ k * base" using unat_u32_less [of v] by (intro mult_le_mono2) simp
    also have "\<dots> \<le> big_val ds" using normalized_ge [OF ds] by (simp add: dd k mult.commute)
    finally have "base ^ k \<le> big_val ds div unat v" using \<open>0 < unat v\<close> by (simp add: less_eq_div_iff_mult_less_eq)
    then show ?thesis using True sp(1) k by simp
  qed
qed

text \<open>
  The right shift by \<open>32 z + s\<close> bits, digit by digit. When the highest digit is shifted out it only
  contributes the first carry.
\<close>

lemma shift_right_split:
  assumes "z \<le> length ds"
  shows "big_val ds div (base ^ z * 2 ^ s) = big_val (drop z ds) div 2 ^ s"
    and "big_val ds mod (base ^ z * 2 ^ s) = big_val (take z ds) + base ^ z * (big_val (drop z ds) mod 2 ^ s)"
proof -
  have ds: "big_val ds = big_val (take z ds) + base ^ z * big_val (drop z ds)" and lt: "big_val (take z ds) < base ^ z"
    using big_val_take_drop [of ds z] big_val_less [of "take z ds"] assms by simp_all
  then have dm: "big_val ds div base ^ z = big_val (drop z ds)" "big_val ds mod base ^ z = big_val (take z ds)"
    by simp_all
  show "big_val ds div (base ^ z * 2 ^ s) = big_val (drop z ds) div 2 ^ s"
    by (simp only: div_mult2_eq dm)
  show "big_val ds mod (base ^ z * 2 ^ s) = big_val (take z ds) + base ^ z * (big_val (drop z ds) mod 2 ^ s)"
    by (simp only: mod_mult2_eq dm add.commute)
qed

lemma shift_right_digits:
  assumes "normalized (ds @ [t])" "0 < s" "s < 32"
  shows "drop_bit s t \<noteq> 0 \<Longrightarrow> big_val (rev (shift_right_loop s (rev (ds @ [t])) 0)) = big_val (ds @ [t]) div 2 ^ s"
    and "drop_bit s t = 0 \<Longrightarrow>
      big_val (rev (shift_right_loop s (rev ds) (push_bit (32 - s) t))) = big_val (ds @ [t]) div 2 ^ s"
    and "drop_bit s t \<noteq> 0 \<Longrightarrow> base ^ length ds \<le> big_val (ds @ [t]) div 2 ^ s"
    and "drop_bit s t = 0 \<Longrightarrow> ds \<noteq> [] \<Longrightarrow> base ^ (length ds - 1) \<le> big_val (ds @ [t]) div 2 ^ s"
proof -
  show "big_val (rev (shift_right_loop s (rev (ds @ [t])) 0)) = big_val (ds @ [t]) div 2 ^ s" if "drop_bit s t \<noteq> 0"
    using shift_right_loop_spec [OF assms(2,3), of 0 "rev (ds @ [t])"] by (simp only: rev_rev_ident) simp
  have tt: "unat (push_bit (32 - s) t) * 2 ^ s div base = unat t" "2 ^ (32 - s) dvd unat (push_bit (32 - s) t)"
    if "drop_bit s t = 0"
  proof -
    have "unat t div 2 ^ s = 0" using that by (simp flip: unat_drop_bit)
    then have lt: "unat t < 2 ^ s" by (simp add: div_eq_0_iff)
    have "unat (push_bit (32 - s) t) * 2 ^ s = unat t * (2 ^ s * 2 ^ (32 - s))"
      using lt assms(3) by (simp add: unat_push32 ac_simps)
    also have "2 ^ s * 2 ^ (32 - s) = base" using assms(3) by (intro pow2_split) simp
    finally show "unat (push_bit (32 - s) t) * 2 ^ s div base = unat t" by simp
    show "2 ^ (32 - s) dvd unat (push_bit (32 - s) t)" by (simp add: unat_push32)
  qed
  show "big_val (rev (shift_right_loop s (rev ds) (push_bit (32 - s) t))) = big_val (ds @ [t]) div 2 ^ s" if "drop_bit s t = 0"
    using shift_right_loop_spec [OF assms(2,3) tt(2) [OF that], of "rev ds"] tt(1) [OF that]
    by (simp add: big_val_append)
  have le: "base ^ length ds * unat t \<le> big_val (ds @ [t])" by (simp add: big_val_append)
  show "base ^ length ds \<le> big_val (ds @ [t]) div 2 ^ s" if "drop_bit s t \<noteq> 0"
  proof -
    have "unat (drop_bit s t) \<noteq> 0" using that by (simp add: word_eq_unat)
    then have "2 ^ s \<le> unat t" by (simp add: unat_drop_bit div_eq_0_iff)
    then have "base ^ length ds * 2 ^ s \<le> base ^ length ds * unat t" by (rule mult_le_mono2)
    with le have "base ^ length ds * 2 ^ s \<le> big_val (ds @ [t])" by (rule order_trans [rotated])
    then show ?thesis by (simp add: less_eq_div_iff_mult_less_eq)
  qed
  show "base ^ (length ds - 1) \<le> big_val (ds @ [t]) div 2 ^ s" if "ds \<noteq> []"
  proof -
    have "(2 :: nat) ^ s \<le> 2 ^ 32" using assms(3) by (intro power_increasing) auto
    then have "base ^ (length ds - 1) * 2 ^ s \<le> base ^ (length ds - 1) * base" by (intro mult_le_mono2) simp
    also have "\<dots> = base ^ length ds" using that by (cases ds) auto
    also have "\<dots> \<le> big_val (ds @ [t])" using normalized_ge [OF assms(1)] by simp
    finally show ?thesis by (simp add: less_eq_div_iff_mult_less_eq)
  qed
qed

lemma length_shift_right_loop: "length (shift_right_loop s ds k) = length ds"
  by (induction ds arbitrary: k) auto

text \<open>The digits the shift keeps and the carry it starts with.\<close>

definition shift_right_source :: "nat \<Rightarrow> nat \<Rightarrow> digit list \<Rightarrow> digit list \<times> digit" where
  "shift_right_source z s ds =
    (if s > 0 \<and> drop_bit s (last ds) = 0 then (drop z (butlast ds), push_bit (32 - s) (last ds)) else (drop z ds, 0))"

lemma shift_right_value:
  assumes ds: "normalized ds" and s: "s < 32" and src: "shift_right_source z s ds = (src, k)"
  defines "out \<equiv> (if s = 0 then src else rev (shift_right_loop s (rev src) k))"
  shows "length out = length src" and "big_val out = big_val ds div (base ^ z * 2 ^ s)"
    and "src \<noteq> [] \<Longrightarrow> base ^ (length src - 1) \<le> big_val out"
proof -
  show len: "length out = length src"
    by (simp add: out_def length_shift_right_loop)
  obtain ds0 t where dt: "ds = ds0 @ [t]" using ds by (cases ds rule: rev_cases) (auto simp: normalized_def)
  have "big_val out = big_val ds div (base ^ z * 2 ^ s) \<and> (src \<noteq> [] \<longrightarrow> base ^ (length src - 1) \<le> big_val out)"
  proof (cases "z \<le> length ds0")
    case True
    have dropz: "drop z ds = drop z ds0 @ [t]" using True by (simp add: dt)
    then have norm: "normalized (drop z ds0 @ [t])" using ds by (simp add: normalized_def dt)
    have split: "big_val ds div (base ^ z * 2 ^ s) = big_val (drop z ds0 @ [t]) div 2 ^ s"
      using shift_right_split(1) [of z ds s] True by (simp add: dropz) (simp add: dt)
    show ?thesis
    proof (cases "s = 0")
      case True
      then have "src = drop z ds0 @ [t]" using src dropz by (auto simp: shift_right_source_def)
      then show ?thesis using True split normalized_ge [OF norm] by (auto simp: out_def)
    next
      case False
      then have "0 < s" by simp
      note d = shift_right_digits [OF norm this s]
      show ?thesis
        unfolding split using src False d dropz
        by (cases "drop_bit s t = 0") (auto simp: shift_right_source_def dt out_def)
    qed
  next
    case False
    then have "src = []" using src by (auto simp: shift_right_source_def dt split: if_splits)
    moreover have "big_val ds < base ^ z * 2 ^ s"
    proof -
      have "base ^ length ds \<le> base ^ z" using False by (intro power_increasing) (auto simp: dt)
      then have "big_val ds < base ^ z" using big_val_less [of ds] by linarith
      also have "\<dots> \<le> base ^ z * 2 ^ s" by simp
      finally show ?thesis .
    qed
    ultimately show ?thesis by (simp add: out_def)
  qed
  then show "big_val out = big_val ds div (base ^ z * 2 ^ s)" "src \<noteq> [] \<Longrightarrow> base ^ (length src - 1) \<le> big_val out"
    by auto
qed

text \<open>The test for a lost bit.\<close>

lemma shift_right_lost:
  assumes "z < length ds" "s < 32"
  shows "big_val ds mod (base ^ z * 2 ^ s) = 0 \<longleftrightarrow>
    (s = 0 \<or> push_bit (32 - s) (ds ! z) = 0) \<and> list_all (\<lambda>d. d = 0) (take z ds)"
proof -
  obtain r where r: "drop z ds = ds ! z # r" using assms(1) by (metis Cons_nth_drop_Suc)
  have "(2 :: nat) ^ s dvd base" using pow2_split [of s] assms(2) by (metis dvd_triv_left less_imp_le_nat)
  then have "big_val (drop z ds) mod 2 ^ s = unat (ds ! z) mod 2 ^ s"
    unfolding r big_val.simps by (metis dvd_mult2 mod_add_right_eq add.right_neutral mod_0_imp_dvd dvd_imp_mod_0)
  moreover have "push_bit (32 - s) (ds ! z) = 0 \<longleftrightarrow> unat (ds ! z) mod 2 ^ s = 0"
    using assms(2) by (simp add: word_eq_unat unat_push32)
  ultimately show ?thesis
    using shift_right_split(2) [of z ds s] assms by (auto simp: big_val_eq_0_iff list_all_iff)
qed

context failing_heap
begin

lemma div_digit_correct:
  assumes inv: "ctx_inv holds X c" and "number (store c) p a" and v: "0 < v" "unat v \<le> a"
  shows "yields holds failed X (store c) (if is_mod then a mod unat v else a div unat v)
    (ecma_big_uint_div_digit A c p v is_mod)"
proof -
  obtain u where u: "obj c p = u" "big_val (digits u) = a" "ECMA_BIGINT_GET_SIZE u = 4 * length (digits u)"
    "normalized (digits u)" "length (digits u) \<le> 16384" "0 < length (digits u)" using assms(2) by (rule number_obj)
  obtain out r where loop: "div_digit_loop v (hd (rev (digits u)) mod v) (tl (rev (digits u))) = (out, r)" by fastforce
  define q where "q = hd (rev (digits u)) div v"
  define res where "res = (if q \<noteq> 0 then q # out else out)"
  note total = div_digit_total [OF u(4) v(1) _ loop, folded q_def, folded res_def, unfolded u(2), OF v(2)]
  show ?thesis
  proof (cases is_mod)
    case False
    have "yields holds failed X (store c) (a div unat v)
        (case ecma_bigint_create A c (4 * length res) of
           (c1, Ptr p) \<Rightarrow> (set_digits c1 p (rev res), Ptr p) | (c1, _) \<Rightarrow> (c1, NULL))"
    proof (rule create_yields [OF inv])
      show "0 < length res" using total(3,4) u(6) by auto
    qed (use total u(5) in \<open>auto intro!: store_yields split: if_splits\<close>)
    moreover have size: "(if q = 0 then 4 * length (digits u) - 4 else 4 * length (digits u)) = 4 * length res"
      using total(3) by (auto split: if_splits)
    ultimately show ?thesis
      unfolding ecma_big_uint_div_digit_def u(1,3) Let_def loop q_def [symmetric] prod.case res_def [symmetric] size
      using False by simp
  next
    case True
    have zero: "yields holds failed X (store c) 0 (c, POINTER_TO_ZERO)" using inv by (simp add: yields_def)
    have "yields holds failed X (store c) (unat r)
        (case ecma_bigint_create A c (4 * 1) of (c1, Ptr p) \<Rightarrow> (set_digits c1 p [r], Ptr p) | (c1, _) \<Rightarrow> (c1, NULL))"
      if "r \<noteq> 0" using that by (rule_tac create_yields [OF inv]) (auto intro!: store_yields simp: word_eq_unat)
    with True total(2) zero show ?thesis
      unfolding ecma_big_uint_div_digit_def u(1,3) Let_def loop prod.case by (auto simp: word_eq_unat)
  qed
qed

section \<open>Shifts\<close>

lemma shift_left_correct:
  assumes inv: "ctx_inv holds X c" and "number (store c) p a"
  shows "yields holds failed X (store c) (a * 2 ^ k) (ecma_big_uint_shift_left A c p k)"
proof -
  obtain u where u: "obj c p = u" "big_val (digits u) = a" "ECMA_BIGINT_GET_SIZE u = 4 * length (digits u)"
    "normalized (digits u)" "length (digits u) \<le> 16384" "0 < length (digits u)" using assms(2) by (rule number_obj)
  let ?s = "k mod 32" and ?z = "k div 32"
  obtain out carry where loop: "shift_left_loop ?s (digits u) 0 = (out, carry)" by fastforce
  have sp: "length out = length (digits u)" "big_val out + base ^ length (digits u) * unat carry = a * 2 ^ ?s"
    "carry = drop_bit (32 - ?s) (last (digits u))"
    using shift_left_loop_spec [OF loop] u(2,6) by auto
  define ds where "ds = replicate ?z 0 @ (if ?s = 0 then digits u else out @ (if carry > 0 then [carry] else []))"
  have "(2 :: nat) ^ k = 2 ^ (32 * ?z + ?s)" by simp
  also have "\<dots> = base ^ ?z * 2 ^ ?s" unfolding power_add power_mult by simp
  finally have pow: "(2 :: nat) ^ k = base ^ ?z * 2 ^ ?s" .
  have body: "big_val (if ?s = 0 then digits u else out @ (if carry > 0 then [carry] else [])) = a * 2 ^ ?s"
    using u(2) sp by (auto simp: big_val_append word_less_unat)
  have val: "big_val ds = a * 2 ^ k"
    unfolding ds_def big_val_append body pow by simp
  have size: "4 * length (digits u) + ?z * 4 + (if ?s > 0 \<and> drop_bit (32 - ?s) (last (digits u)) \<noteq> 0 then 4 else 0) = 4 * length ds"
    using sp by (auto simp: ds_def word_less_unat word_eq_unat)
  have norm: "normalized ds"
  proof (cases "?s = 0 \<or> 0 < carry")
    case True
    then show ?thesis using u(4) by (auto simp: ds_def normalized_def)
  next
    case False
    then have "base ^ (length out - 1) \<le> big_val out"
    proof -
      have "base ^ (length out - 1) \<le> a * 2 ^ ?s"
        unfolding sp(1) by (rule order_trans [OF normalized_ge [OF u(4)]]) (simp add: u(2))
      then show ?thesis using sp(2) False by (simp add: word_less_unat)
    qed
    then have "normalized out" using sp(1) u(6) by (intro normalizedI_val) auto
    then show ?thesis using False by (simp add: ds_def normalized_def)
  qed
  have ne: "0 < length ds" using norm by (simp add: normalized_def)
  have create: "yields holds failed X (store c) (a * 2 ^ k)
      (case ecma_bigint_create A c (4 * length ds) of
         (c1, Ptr p) \<Rightarrow> (set_digits c1 p ds, Ptr p) | (c1, _) \<Rightarrow> (c1, NULL))"
    by (rule create_yields [OF inv ne])
      (use val norm normalized_ge [OF norm] in \<open>auto intro!: store_yields big_limitI [of "length ds"]\<close>)
  show ?thesis
  proof (cases "4 * length ds > ECMA_BIGINT_MAX_SIZE")
    case True
    then have "big_limit \<le> a * 2 ^ k" using big_limitI [of "length ds"] normalized_ge [OF norm] val by simp
    with True inv show ?thesis
      unfolding ecma_big_uint_shift_left_def u(1,3) Let_def size by (simp add: yields_def)
  next
    case False
    have "ecma_big_uint_shift_left A c p k = (case ecma_bigint_create A c (4 * length ds) of
         (c1, Ptr p) \<Rightarrow> (set_digits c1 p ds, Ptr p) | (c1, _) \<Rightarrow> (c1, NULL))"
      using False loop unfolding ecma_big_uint_shift_left_def u(1,3) Let_def size
      by (auto simp: ds_def split: prod.split bigptr.split)
    with create show ?thesis by simp
  qed
qed

lemma shift_right_correct:
  assumes inv: "ctx_inv holds X c" and "number (store c) p a"
  shows "yields holds failed X (store c) (a div 2 ^ k + (if increase \<and> a mod 2 ^ k \<noteq> 0 then 1 else 0))
    (ecma_big_uint_shift_right A c p k increase)"
proof -
  obtain u where u: "obj c p = u" "big_val (digits u) = a" "ECMA_BIGINT_GET_SIZE u = 4 * length (digits u)"
    "normalized (digits u)" "length (digits u) \<le> 16384" "0 < length (digits u)" using assms(2) by (rule number_obj)
  let ?s = "k mod 32" and ?z = "k div 32" and ?ds = "digits u"
  have "(2 :: nat) ^ k = 2 ^ (32 * ?z + ?s)" by simp
  also have "\<dots> = base ^ ?z * 2 ^ ?s" unfolding power_add power_mult by simp
  finally have pow: "(2 :: nat) ^ k = base ^ ?z * 2 ^ ?s" .
  obtain src carry where src: "shift_right_source ?z ?s ?ds = (src, carry)" by fastforce
  define out where "out = (if ?s = 0 then src else rev (shift_right_loop ?s (rev src) carry))"
  have val: "length out = length src" "big_val out = a div 2 ^ k" "src \<noteq> [] \<Longrightarrow> base ^ (length src - 1) \<le> big_val out"
    unfolding out_def pow u(2) [symmetric] using shift_right_value [OF u(4) _ src] by simp_all
  define m where "m = (if ?s > 0 \<and> drop_bit ?s (last ?ds) = 0 then length ?ds - 1 else length ?ds)"
  have sel: "(if ?s > 0 \<and> drop_bit ?s (last ?ds) = 0
      then (push_bit (32 - ?s) (last ?ds), 4 * length ?ds - 4) else (0, 4 * length ?ds)) = (carry, 4 * m)"
    using src by (auto simp: m_def shift_right_source_def split: if_splits)
  have srcm: "drop ?z (take m ?ds) = src" "length src = m - ?z" "m \<le> length ?ds"
    using src by (auto simp: m_def shift_right_source_def butlast_conv_take split: if_splits)
  have one: "yields holds failed X (store c) 1
      (case ecma_bigint_create A c (4 * 1) of (c1, Ptr p) \<Rightarrow> (set_digits c1 p [1], Ptr p) | (c1, _) \<Rightarrow> (c1, NULL))"
    by (rule create_yields [OF inv]) (auto intro!: store_yields)
  show ?thesis
  proof (cases "m \<le> ?z")
    case True
    then have "src = []" using srcm by simp
    then have "a div 2 ^ k = 0" using val by simp
    moreover from this have "a mod 2 ^ k = a" by (simp add: div_eq_0_iff)
    moreover have "0 < a" using normalized_pos [OF u(4)] u(2) by simp
    moreover have "yields holds failed X (store c) 0 (c, POINTER_TO_ZERO)" using inv by (simp add: yields_zero)
    ultimately show ?thesis
      using True one unfolding ecma_big_uint_shift_right_def u(1,3) Let_def sel prod.case by simp
  next
    case False
    define inc where "inc \<longleftrightarrow> increase \<and> a mod 2 ^ k \<noteq> 0"
    have "?z < length ?ds" using False srcm(3) by simp
    from shift_right_lost [OF this, of ?s] u(2) pow
    have inc: "(if increase \<and> (?s = 0 \<or> push_bit (32 - ?s) (?ds ! ?z) = 0) then \<not> list_all (\<lambda>d. d = 0) (take ?z ?ds)
        else increase) = inc"
      by (auto simp: inc_def)
    have "yields holds failed X (store c) (a div 2 ^ k + (if inc then 1 else 0))
        (case ecma_bigint_create A c (4 * length src) of
           (c1, Ptr p) \<Rightarrow>
             if \<not> inc then (set_digits c1 p out, Ptr p)
             else ecma_big_uint_increase_result A (set_digits c1 p out) p
         | (c1, _) \<Rightarrow> (c1, NULL))"
    proof (rule create_yields [OF inv])
      fix c1 p ds
      assume own: "owns holds X (store c) c1 p ds" "length ds = length src" "ds \<noteq> []" "length ds \<le> 16384"
      have "src \<noteq> []" using own(2,3) by auto
      then have st: "yields holds failed X (store c) (a div 2 ^ k) (set_digits c1 p out, Ptr p)"
        using own val by (intro store_yields [OF own(1)]) auto
      have "owns holds X (store c) (set_digits c1 p out) p out" using owns_set_digits [OF own(1)] own(2) val by simp
      from increase_result_yields [OF this, of "a div 2 ^ k + 1"] own val
      have "yields holds failed X (store c) (a div 2 ^ k + 1) (ecma_big_uint_increase_result A (set_digits c1 p out) p)"
        by (cases out) auto
      with st show "yields holds failed X (store c) (a div 2 ^ k + (if inc then 1 else 0))
          (if \<not> inc then (set_digits c1 p out, Ptr p) else ecma_big_uint_increase_result A (set_digits c1 p out) p)"
        by simp
    qed (use False srcm u(5) in auto)
    moreover have size: "4 * m - ?z * 4 = 4 * length src" "\<not> 4 * m \<le> ?z * 4" using False srcm(2) by simp_all
    moreover have crop: "?z * 4 div 4 = ?z" "4 * m div 4 = m" by simp_all
    ultimately show ?thesis
      unfolding ecma_big_uint_shift_right_def u(1,3) Let_def sel prod.case crop inc srcm(1) size(1) out_def [symmetric] inc_def [symmetric]
      by (simp split del: if_split)
  qed
qed

end

section \<open>Conversion to a string\<close>

definition radix_char :: "nat \<Rightarrow> u8" where
  "radix_char n = of_nat (if n < 10 then n + 48 else n + 87)"

function radix_string :: "nat \<Rightarrow> nat \<Rightarrow> u8 list" where
  "radix_string radix n =
    (if n < radix \<or> radix < 2 then [radix_char n] else radix_string radix (n div radix) @ [radix_char (n mod radix)])"
  by pat_completeness auto
termination
  by (relation "measure snd") auto

declare radix_string.simps [simp del] to_string_loop.simps [simp del]

lemma digit_char_radix: "unat r < 36 \<Longrightarrow> digit_char r = radix_char (unat r)"
  by (auto simp: digit_char_def radix_char_def word_less_unat word_eq_unat unat_ucast unat_add32 unat_of_nat)

definition radix_bits :: "nat \<Rightarrow> nat" where
  "radix_bits radix = (if radix < 16 then (if radix \<ge> 8 then 3 else if radix \<ge> 4 then 2 else 1) else if radix < 32 then 4 else 5)"

lemma radix_bits_le: "2 \<le> radix \<Longrightarrow> 2 ^ radix_bits radix \<le> radix"
  by (auto simp: radix_bits_def)

text \<open>While the digits and the characters fit, there is room for one more character.\<close>

lemma to_string_room:
  assumes "0 < k" "32 * (k - 1) + radix_bits radix * j < 32 * n"
  shows "Suc j + 4 * k \<le> to_string_max_size (4 * n) radix"
proof -
  define x where "x = (32 * n + (radix_bits radix - 1)) div radix_bits radix"
  have size: "to_string_max_size (4 * n) radix = (x + 7) div 4 * 4"
    by (auto simp: to_string_max_size_def x_def radix_bits_def Let_def)
  have "Suc j + 4 * k \<le> x + 4"
    using assms unfolding x_def radix_bits_def by (auto split: if_splits)
  also have "\<dots> \<le> (x + 7) div 4 * 4" by linarith
  finally show ?thesis by (simp only: size)
qed

lemma room_exponents:
  assumes "normalized ds" "big_val ds * 2 ^ m < 2 ^ (32 * n)"
  shows "32 * (length ds - 1) + m < 32 * n"
proof -
  have "(2 :: nat) ^ (32 * (length ds - 1) + m) = base ^ (length ds - 1) * 2 ^ m"
    unfolding power_add power_mult by simp
  also have "\<dots> \<le> big_val ds * 2 ^ m" using normalized_ge [OF assms(1)] by simp
  also have "\<dots> < 2 ^ (32 * n)" by (rule assms(2))
  finally show ?thesis by (simp only: power_strict_increasing_iff one_less_numeral_iff semiring_norm)
qed

text \<open>One division by the radix drops at most one digit.\<close>

lemma radix_division:
  assumes ds: "normalized (rev ds)" and R: "2 \<le> unat radix" "unat radix \<le> 36"
    and res: "(if is64 then div_digit_loop radix 0 ds else div_radix_loop32 radix ds) = (out, r)"
  defines "ds' \<equiv> if hd out = 0 then tl out else out" and "V \<equiv> big_val (rev ds)"
  shows "unat r = V mod unat radix" "big_val (rev ds') = V div unat radix" "ds' = [] \<or> normalized (rev ds')"
proof -
  have "div_radix_loop32 radix ds = div_digit_loop radix 0 ds"
    using R by (intro div_radix_loop32_eq) (auto simp: word_less_unat)
  with res have loop: "div_digit_loop radix 0 ds = (out, r)" by (simp split: if_splits)
  have sp: "length out = length ds" "r < radix" "big_val (rev out) * unat radix + unat r = V"
    using div_digit_loop_spec [OF loop] R by (auto simp: V_def word_less_unat)
  have "V = V div unat radix * unat radix + V mod unat radix" by simp
  with sp have "big_val (rev out) * unat radix + unat r = V div unat radix * unat radix + V mod unat radix" by simp
  from div_unique [OF this] sp(2) R
  have val: "big_val (rev out) = V div unat radix" "unat r = V mod unat radix" by (simp_all add: word_less_unat)
  show "unat r = V mod unat radix" by (rule val(2))
  have "ds \<noteq> []" using ds by (auto simp: normalized_def)
  then obtain d rest where out: "out = d # rest" using sp(1) by (cases out) auto
  show val': "big_val (rev ds') = V div unat radix"
    using val(1) by (auto simp: ds'_def out big_val_append)
  show "ds' = [] \<or> normalized (rev ds')"
  proof (cases "d = 0 \<and> rest \<noteq> []")
    case True
    then obtain m where m: "length rest = Suc m" by (cases rest) auto
    have "base ^ m * unat radix \<le> base ^ m * base" using R by (intro mult_le_mono2) simp
    also have "\<dots> \<le> V"
    proof -
      have "length (rev ds) - 1 = Suc m" using sp(1) m out by simp
      then show ?thesis using normalized_ge [OF ds] by (simp add: V_def mult.commute)
    qed
    finally have "base ^ m \<le> V div unat radix" using R by (simp add: less_eq_div_iff_mult_less_eq)
    with True val' m have "normalized (rev ds')" by (intro normalizedI_val) (simp_all add: ds'_def out)
    then show ?thesis ..
  next
    case False
    then show ?thesis by (auto simp: ds'_def out normalized_def)
  qed
qed

lemma to_string_loop_correct:
  assumes "normalized (rev ds)" "2 \<le> unat radix" "unat radix \<le> 36"
    and "big_val (rev ds) * 2 ^ (radix_bits (unat radix) * length str) < 2 ^ (32 * n)"
    and "max_size = to_string_max_size (4 * n) (unat radix)"
  shows "to_string_loop is64 radix max_size ds str = Some (radix_string (unat radix) (big_val (rev ds)) @ str) \<and>
    length (radix_string (unat radix) (big_val (rev ds)) @ str) + 4 \<le> max_size"
  using assms(1,4)
proof (induction "big_val (rev ds)" arbitrary: ds str rule: less_induct)
  case less
  let ?R = "unat radix" and ?V = "big_val (rev ds)"
  obtain out r where res: "(if is64 then div_digit_loop radix 0 ds else div_radix_loop32 radix ds) = (out, r)" by fastforce
  define ds' where "ds' = (if hd out = 0 then tl out else out)"
  note d = radix_division [OF less.prems(1) assms(2,3) res, folded ds'_def]
  have "?V mod ?R < ?R" using assms(2) by simp
  then have "unat r < 36" using d(1) assms(3) by linarith
  then have ch: "digit_char r = radix_char (?V mod ?R)" using d(1) digit_char_radix by simp
  have room: "Suc (length str) + 4 * length ds \<le> max_size"
    using to_string_room [of "length ds" "?R" "length str" n] room_exponents [OF less.prems(1,2)] less.prems(1) assms(5)
    by (auto simp: normalized_def)
  have step: "to_string_loop is64 radix max_size ds str =
      (if ds' = [] then Some (radix_char (?V mod ?R) # str)
       else to_string_loop is64 radix max_size ds' (radix_char (?V mod ?R) # str))"
    using room by (subst to_string_loop.simps) (simp add: res ds'_def [symmetric] ch Let_def)
  show ?case
  proof (cases "ds' = []")
    case True
    then have "?V div ?R = 0" using d(2) by simp
    then have "?V < ?R" using assms(2) by (simp add: div_eq_0_iff)
    then have "radix_string ?R ?V = [radix_char (?V mod ?R)]" by (subst radix_string.simps) simp
    moreover have "1 \<le> length ds" using less.prems(1) by (cases ds) (auto simp: normalized_def)
    ultimately show ?thesis using True step room by simp
  next
    case False
    then have norm: "normalized (rev ds')" using d(3) by simp
    from normalized_pos [OF this] d(2) have "0 < ?V div ?R" by simp
    then have ge: "\<not> (?V < ?R \<or> ?R < 2)" using assms(2) by auto
    have lt: "big_val (rev ds') < ?V" using d(2) ge assms(2) by simp
    have "big_val (rev ds') * 2 ^ (radix_bits ?R * Suc (length str)) =
        big_val (rev ds') * 2 ^ radix_bits ?R * 2 ^ (radix_bits ?R * length str)"
      by (simp add: power_add)
    also have "\<dots> \<le> (?V div ?R * ?R) * 2 ^ (radix_bits ?R * length str)"
      unfolding d(2) using radix_bits_le [OF assms(2)] by (intro mult_le_mono1 mult_le_mono2)
    also have "\<dots> \<le> ?V * 2 ^ (radix_bits ?R * length str)" by (intro mult_le_mono1) simp
    also have "\<dots> < 2 ^ (32 * n)" by (rule less.prems(2))
    finally have "big_val (rev ds') * 2 ^ (radix_bits ?R * length (radix_char (?V mod ?R) # str)) < 2 ^ (32 * n)" by simp
    note IH = less.hyps [OF lt norm this]
    have "radix_string ?R ?V = radix_string ?R (big_val (rev ds')) @ [radix_char (?V mod ?R)]"
      using ge d(2) by (subst radix_string.simps) simp
    with IH False step show ?thesis by simp
  qed
qed

context failing_heap
begin

text \<open>The buffer for the characters is a new block; nothing else changes.\<close>

lemma to_string_correct:
  assumes inv: "ctx_inv holds X c" and "number (store c) p a" and R: "2 \<le> unat radix" "unat radix \<le> 36"
  obtains c' where "ecma_big_uint_to_string is64 A c p radix = Some (c', None)"
      "ctx_inv holds X c'" "store c' = store c" "failed (heap c')"
  | c' q start char_size where "ecma_big_uint_to_string is64 A c p radix = Some (c', Some (q, radix_string (unat radix) a, start, char_size))"
      "ctx_inv holds (X(q \<mapsto> char_size)) c'" "q \<notin> dom X \<union> dom (store c)" "store c' = store c"
      "start + length (radix_string (unat radix) a) = char_size" "4 \<le> start"
proof -
  obtain u where u: "obj c p = u" "big_val (digits u) = a" "ECMA_BIGINT_GET_SIZE u = 4 * length (digits u)"
    "normalized (digits u)" "0 < length (digits u)" using assms(2) by (rule number_obj)
  let ?n = "length (digits u)" and ?str = "radix_string (unat radix) a"
  define m where "m = to_string_max_size (4 * ?n) (unat radix)"
  have "big_val (digits u) < 2 ^ (32 * ?n)" using big_val_less [of "digits u"] by (simp add: power_mult)
  then have str: "to_string_loop is64 radix m (rev (digits u)) [] = Some ?str" "length ?str + 4 \<le> m"
    using to_string_loop_correct [of "rev (digits u)" radix "[]" ?n m is64] u(2,4) R by (auto simp: m_def)
  then have m: "0 < m" by simp
  from inv have h: "holds (heap c) (X ++ blocks (store c))" and dj: "dom X \<inter> dom (store c) = {}" by (simp_all add: ctx_inv_def)
  obtain al h' where al: "alloc_block A (heap c) m = (al, h')" by fastforce
  have eq: "ecma_big_uint_to_string is64 A c p radix =
      (case al of None \<Rightarrow> Some (c\<lparr>heap := h'\<rparr>, None)
       | Some (q, g) \<Rightarrow> Some (c\<lparr>heap := h'\<rparr>, Some (q, ?str, m - length ?str, m)))"
    by (simp add: ecma_big_uint_to_string_def u(1,3) m_def [symmetric] al str Let_def split: option.split prod.split)
  show thesis
  proof (cases al)
    case None
    with alloc_none [OF h m] alloc_failed al eq dj show ?thesis
      by (intro that(1) [of "c\<lparr>heap := h'\<rparr>"]) (auto simp: ctx_inv_def)
  next
    case (Some qg)
    then obtain q g where al': "alloc_block A (heap c) m = (Some (q, g), h')" using al by (cases qg) simp
    have fresh: "q \<notin> dom (X ++ blocks (store c))" by (rule alloc_fresh [OF h m al'])
    then have "(X ++ blocks (store c))(q \<mapsto> m) = X(q \<mapsto> m) ++ blocks (store c)"
      by (auto simp: fun_eq_iff map_add_def split: option.splits)
    with alloc_holds [OF h m al'] fresh dj have "ctx_inv holds (X(q \<mapsto> m)) (c\<lparr>heap := h'\<rparr>)"
      by (auto simp: ctx_inv_def)
    moreover have "al = Some (q, g)" using al al' by simp
    moreover have "q \<notin> dom X \<union> dom (store c)" using fresh by simp
    ultimately show ?thesis
      using eq str(2) by (intro that(2) [of "c\<lparr>heap := h'\<rparr>" q "m - length ?str" m]) simp_all
  qed
qed

end

section \<open>Bitwise operations\<close>

lemma take_dec_digits: "take n (dec_digits ds k) = dec_digits (take n ds) k"
proof (induction ds arbitrary: n k)
  case (Cons d ds)
  then show ?case by (cases n) auto
qed simp

lemma big_val_dec:
  assumes "normalized ds"
  shows "big_val (dec_digits ds (of_bool b)) = big_val ds - of_bool b"
  using big_val_dec_digits [OF normalized_pos [OF assms]] by (cases b) auto

lemma big_val_take_dec:
  assumes "normalized ds" "n \<le> length ds"
  shows "big_val (dec_digits (take n ds) (of_bool b)) = take_bit (32 * n) (big_val ds - of_bool b)"
  using big_val_take [of n "dec_digits ds (of_bool b)"] big_val_dec [OF assms(1)] assms(2)
  by (simp add: take_dec_digits)

lemma big_val_bound: "big_val ds < 2 ^ (32 * length ds)"
  using big_val_less [of ds] by (simp add: power_mult)

lemma nat_op_commute: "op \<noteq> AND_NOT_OP \<Longrightarrow> nat_op op a b = nat_op op b a"
  by (cases op) (simp_all add: ac_simps)

lemma minus_less: "(a :: nat) < n \<Longrightarrow> a - k < n" by simp

text \<open>The operands after the switch have the same meaning as before it.\<close>

lemma bitwise_operands_sound:
  assumes "normalized L" "normalized R" and sel: "bitwise_operands op dl dr L R = (l, r, dl', dr')"
  shows "length r \<le> length l" "l \<noteq> []" "length l \<le> max (length L) (length R)" "r \<noteq> []"
    and "(dl' \<or> dr') = (dl \<or> dr)"
    and "op = AND_OP \<Longrightarrow> length r = length l"
    and "op \<noteq> AND_OP \<Longrightarrow> normalized l"
    and "op = AND_OP \<Longrightarrow> nat_op op (big_val (dec_digits l (of_bool dl'))) (big_val (dec_digits r (of_bool dr'))) =
      nat_op op (big_val L - of_bool dl) (big_val R - of_bool dr)"
    and "op \<noteq> AND_OP \<Longrightarrow> nat_op op (big_val l - of_bool dl') (big_val (dec_digits r (of_bool dr'))) =
      nat_op op (big_val L - of_bool dl) (big_val R - of_bool dr)"
proof -
  have ne: "L \<noteq> []" "R \<noteq> []" using assms by (auto simp: normalized_def)
  show "length r \<le> length l" "l \<noteq> []" "length l \<le> max (length L) (length R)" "r \<noteq> []" "(dl' \<or> dr') = (dl \<or> dr)"
    and "op = AND_OP \<Longrightarrow> length r = length l" and "op \<noteq> AND_OP \<Longrightarrow> normalized l"
    using sel ne assms(1,2) by (cases op; auto simp: bitwise_operands_def split: if_splits)+
  show "nat_op op (big_val (dec_digits l (of_bool dl'))) (big_val (dec_digits r (of_bool dr'))) =
      nat_op op (big_val L - of_bool dl) (big_val R - of_bool dr)" if op: "op = AND_OP"
  proof (cases "length L > length R")
    case True
    with sel op have "l = take (length R) L" "r = R" "dl' = dl" "dr' = dr" by (auto simp: bitwise_operands_def)
    with True assms op big_val_bound [of R] show ?thesis
      by (simp add: big_val_take_dec big_val_dec nat_op_AND_take minus_less del: nat_op.simps)
  next
    case False
    with sel op have "l = L" "r = take (length L) R" "dl' = dl" "dr' = dr" by (auto simp: bitwise_operands_def)
    with False assms op big_val_bound [of L] show ?thesis
      by (simp add: big_val_take_dec big_val_dec nat_op_AND_take minus_less nat_op_AND_commute [of "big_val L - _"] del: nat_op.simps)
  qed
  show "nat_op op (big_val l - of_bool dl') (big_val (dec_digits r (of_bool dr'))) =
      nat_op op (big_val L - of_bool dl) (big_val R - of_bool dr)" if op: "op \<noteq> AND_OP"
  proof (cases "op = AND_NOT_OP")
    case True
    with sel have s: "l = L" "r = take (length L) R" "dl' = dl" "dr' = dr" by (auto simp: bitwise_operands_def)
    show ?thesis
    proof (cases "length L \<le> length R")
      case len: True
      then show ?thesis
        using True assms big_val_bound [of L] by (simp add: s big_val_take_dec nat_op_AND_NOT_take minus_less del: nat_op.simps)
    next
      case False
      then show ?thesis using assms by (simp add: s big_val_dec)
    qed
  next
    case False
    show ?thesis
    proof (cases "length R \<le> length L")
      case True
      with sel op False have "l = L" "r = R" "dl' = dl" "dr' = dr" by (cases op; auto simp: bitwise_operands_def)+
      then show ?thesis using assms by (simp add: big_val_dec)
    next
      case swap: False
      with sel op False have "l = R" "r = L" "dl' = dr" "dr' = dl" by (cases op; auto simp: bitwise_operands_def split: if_splits)+
      then show ?thesis using assms False by (simp add: big_val_dec nat_op_commute)
    qed
  qed
qed

text \<open>Digits of the longer operand above the shorter one: a pending borrow goes through them.\<close>

lemma bitwise_rest:
  assumes loop: "bitwise_loop op l r (of_bool dl) (of_bool dr) = (out, k, rest)"
    and l: "length r \<le> length l" "normalized l" and op: "op \<noteq> AND_OP"
  obtains rest' where "(if k > 0 then decrease_loop rest else Some rest) = Some rest'" "length (out @ rest') = length l"
    "big_val (out @ rest') = nat_op op (big_val l - of_bool dl) (big_val (dec_digits r (of_bool dr)))"
    "borrowed_length k rest < length rest \<Longrightarrow> last (out @ rest') \<noteq> 0"
proof -
  let ?lo = "take (length r) l" and ?hi = "drop (length r) l"
  have eqs: "out = map2 (digit_op op) (dec_digits ?lo (of_bool dl)) (dec_digits r (of_bool dr))"
    "k = dec_borrow ?lo (of_bool dl)" "rest = ?hi"
    using loop bitwise_loop_eq [OF l(1), of op "of_bool dl" "of_bool dr"] by simp_all
  have lo: "big_val (dec_digits ?lo (of_bool dl)) + of_bool dl = big_val ?lo + base ^ length r * unat k" "k = 0 \<or> k = 1"
    using dec_digits_val [of "of_bool dl" ?lo] l(1) by (auto simp: eqs(2))
  have split: "big_val l = big_val ?lo + base ^ length r * big_val ?hi"
    using big_val_take_drop [of l "length r"] l(1) by simp
  have "\<exists>rest'. (if k > 0 then decrease_loop rest else Some rest) = Some rest' \<and> length rest' = length rest \<and>
      big_val rest' + unat k = big_val rest"
  proof (cases "k = 0")
    case False
    with lo(2) have k: "k = 1" by simp
    then have "dl" using eqs(2) by (cases dl) auto
    have "big_val ?lo = 0" using k eqs(2) \<open>dl\<close> dec_borrow_1 [of ?lo] by (auto split: if_splits)
    then have "big_val rest \<noteq> 0" using split normalized_pos [OF l(2)] by (auto simp: eqs(3))
    then obtain rest' where d: "decrease_loop rest = Some rest'" using decrease_loop_None [of rest] by (cases "decrease_loop rest") auto
    with decrease_loop_Some [OF d] k show ?thesis by simp
  qed simp
  then obtain rest' where rest': "(if k > 0 then decrease_loop rest else Some rest) = Some rest'" "length rest' = length rest"
    "big_val rest' + unat k = big_val rest" by blast
  have hd: "big_val (dec_digits ?lo (of_bool dl) @ rest') = big_val l - of_bool dl"
  proof -
    have "base ^ length r * (big_val rest' + unat k) = base ^ length r * big_val rest" using rest'(3) by simp
    then have "big_val (dec_digits ?lo (of_bool dl) @ rest') + of_bool dl = big_val l"
      using lo(1) split l(1) by (simp add: big_val_append eqs(3) algebra_simps)
    then show ?thesis by simp
  qed
  show thesis
  proof (rule that [OF rest'(1)])
    show "length (out @ rest') = length l" using l(1) rest'(2) by (simp add: eqs)
    show "big_val (out @ rest') = nat_op op (big_val l - of_bool dl) (big_val (dec_digits r (of_bool dr)))"
      using big_val_map2_append [of "dec_digits ?lo (of_bool dl)" "dec_digits r (of_bool dr)" op rest'] op l(1) hd by (simp add: eqs(1))
    show "last (out @ rest') \<noteq> 0" if b: "borrowed_length k rest < length rest"
    proof -
      have "(if k \<noteq> 0 then decrease_loop rest else Some rest) = Some rest'" using rest'(1) by (simp add: word_less_unat word_eq_unat)
      from borrow_last(1) [OF this b, of out] l(2) b show ?thesis by (auto simp: eqs(3) normalized_def)
    qed
  qed
qed

lemma zip_take_left [simp]: "zip (take (length r) l) r = zip l r"
proof (induction r arbitrary: l)
  case (Cons x r)
  then show ?case by (cases l) auto
qed simp

lemma nat_or_ge: "(a :: nat) \<le> a OR b"
  using or_greater_eq [of "int b" "int a"] by (simp flip: of_nat_or_eq)

context failing_heap
begin

definition return_normalized :: "'h ecma_context \<Rightarrow> addr \<Rightarrow> digit list \<Rightarrow> 'h ecma_context \<times> bigptr" where
  "return_normalized c p ds =
    (if last ds = 0 then ecma_big_uint_normalize_result A (set_digits c p ds) p (length ds) else (set_digits c p ds, Ptr p))"

lemma return_normalized_yields:
  assumes "owns holds X st c p ds" "length ds' = length ds" "ds \<noteq> []" "length ds \<le> 16384" "big_val ds' = n"
  shows "yields holds failed X st n (return_normalized c p ds')"
  using finish_yields [OF assms] by (simp add: return_normalized_def)

lemma bitwise_plain_yields:
  assumes own: "owns holds X st c p ds" "length ds = length l" "ds \<noteq> []" "length ds \<le> 16384"
    and lr: "length r \<le> length l" "op = AND_OP \<Longrightarrow> length r = length l" "op \<noteq> AND_OP \<Longrightarrow> normalized l"
    and op: "op \<noteq> AND_NOT_OP" and n: "n = nat_op op (big_val l) (big_val r)"
  shows "yields_some holds failed X st n
    (case op of
       AND_OP \<Rightarrow> Some (return_normalized c p (map2 (digit_op AND_OP) l r))
     | OR_OP \<Rightarrow> Some (set_digits c p (map2 (digit_op OR_OP) l r @ drop (length r) l), Ptr p)
     | _ \<Rightarrow> (if length l > length r then Some (set_digits c p (map2 (digit_op XOR_OP) l r @ drop (length r) l), Ptr p)
            else Some (return_normalized c p (map2 (digit_op XOR_OP) l r @ drop (length r) l))))"
proof -
  let ?ds = "map2 (digit_op op) l r @ drop (length r) l"
  have len: "length ?ds = length ds" using lr(1) own(2) by simp
  have ext: "big_val ?ds = n" if "op \<noteq> AND_OP"
    using big_val_map2_append [of "take (length r) l" r op "drop (length r) l"] that lr(1) by (simp add: n)
  consider "op = AND_OP" | "op = OR_OP" | "op = XOR_OP" using op by (cases op) auto
  then show ?thesis
  proof cases
    case 1
    then have "big_val ?ds = n" using lr(2) big_val_map2 [of l r op] by (simp add: n)
    with return_normalized_yields [OF own(1) len own(3,4)] 1 lr(2) show ?thesis by (simp del: digit_op.simps)
  next
    case 2
    have "base ^ (length l - 1) \<le> big_val l" using lr(3) 2 normalized_ge by simp
    also have "\<dots> \<le> n" using nat_or_ge by (simp add: n 2)
    finally have "base ^ (length ds - 1) \<le> n" by (simp only: own(2))
    with store_yields [OF own(1) len own(3,4)] ext 2 show ?thesis by (simp del: digit_op.simps)
  next
    case 3
    have "last ?ds \<noteq> 0" if "length l > length r" using that lr(3) 3 by (auto simp: normalized_def)
    with finish_yields(1) [OF own(1) len own(3,4)] return_normalized_yields [OF own(1) len own(3,4)] ext 3
    show ?thesis by (cases "length l > length r") (simp_all del: digit_op.simps)
  qed
qed

lemma bitwise_decrease_yields:
  assumes own: "owns holds X st c p ds" "length ds = length l" "ds \<noteq> []" "length ds \<le> 16384"
    and lr: "length r \<le> length l" "op = AND_OP \<Longrightarrow> length r = length l" "op \<noteq> AND_OP \<Longrightarrow> normalized l"
    and loop: "bitwise_loop op l r (of_bool dl) (of_bool dr) = (out, k, rest)"
    and n_AND: "op = AND_OP \<Longrightarrow> nat_op op (big_val (dec_digits l (of_bool dl))) (big_val (dec_digits r (of_bool dr))) + of_bool inc = n"
    and n: "op \<noteq> AND_OP \<Longrightarrow> nat_op op (big_val l - of_bool dl) (big_val (dec_digits r (of_bool dr))) + of_bool inc = n"
  shows "yields_some holds failed X st n
    (case if op \<noteq> AND_OP \<and> k > 0 then decrease_loop rest else Some rest of
       None \<Rightarrow> None
     | Some rest' \<Rightarrow>
        (if op \<noteq> AND_OP \<and> borrowed_length k rest < length rest then
           Some (if inc then ecma_big_uint_increase_result A (set_digits c p (out @ rest')) p
                 else (set_digits c p (out @ rest'), Ptr p))
         else if inc then Some (ecma_big_uint_increase_result A (set_digits c p (out @ rest')) p)
         else Some (return_normalized c p (out @ rest'))))"
proof -
  obtain rest' where rest': "(if op \<noteq> AND_OP \<and> k > 0 then decrease_loop rest else Some rest) = Some rest'"
    "length (out @ rest') = length l" "big_val (out @ rest') + of_bool inc = n"
    "op \<noteq> AND_OP \<and> borrowed_length k rest < length rest \<longrightarrow> last (out @ rest') \<noteq> 0"
  proof (cases "op = AND_OP")
    case True
    with bitwise_loop_eq [of r l op "of_bool dl" "of_bool dr"] loop lr(2) n_AND
      big_val_map2 [of "dec_digits l (of_bool dl)" "dec_digits r (of_bool dr)" op]
    show ?thesis by (intro that [of rest]) auto
  next
    case False
    from bitwise_rest [OF loop lr(1) lr(3) [OF False] False] n [OF False] False that show ?thesis by metis
  qed
  have len: "length (out @ rest') = length ds" using rest'(2) own(2) by simp
  then have ne: "out @ rest' \<noteq> []" using own(3) by auto
  have inc: "yields holds failed X st n (ecma_big_uint_increase_result A (set_digits c p (out @ rest')) p)" if inc
    using increase_result_yields [OF owns_set_digits [OF own(1) len] ne] len own(4) rest'(3) that by simp
  show ?thesis
    unfolding rest'(1) option.case
    using inc finish_yields(1) [OF own(1) len own(3,4)] return_normalized_yields [OF own(1) len own(3,4)] rest'(3,4)
    by (cases inc) simp_all
qed

lemma bitwise_op_correct:
  assumes inv: "ctx_inv holds X c" and "number (store c) lp a" "number (store c) rp b"
    and opts: "\<not> dl \<Longrightarrow> \<not> dr \<Longrightarrow> op \<noteq> AND_NOT_OP \<and> \<not> inc"
  shows "yields_some holds failed X (store c) (nat_op op (a - of_bool dl) (b - of_bool dr) + of_bool inc)
    (ecma_big_uint_bitwise_op A c op dl dr inc lp rp)"
proof -
  obtain L where L: "obj c lp = L" "big_val (digits L) = a" "normalized (digits L)" "length (digits L) \<le> 16384"
    using assms(2) by (rule number_obj)
  obtain R where R: "obj c rp = R" "big_val (digits R) = b" "normalized (digits R)" "length (digits R) \<le> 16384"
    using assms(3) by (rule number_obj)
  obtain l r dl' dr' where sel: "bitwise_operands op dl dr (digits L) (digits R) = (l, r, dl', dr')" by (metis prod_cases4)
  note sound = bitwise_operands_sound [OF L(3) R(3) sel, unfolded L(2) R(2)]
  have len: "length l \<le> 16384" "0 < length l" using sound(2,3) L(4) R(4) by auto
  define n where "n = nat_op op (a - of_bool dl) (b - of_bool dr) + of_bool inc"
  obtain out k rest where loop: "bitwise_loop op l r (of_bool dl') (of_bool dr') = (out, k, rest)" by (metis prod_cases3)
  show ?thesis
    unfolding ecma_big_uint_bitwise_op_def L(1) R(1) sel Let_def prod.case n_def [symmetric] return_normalized_def [symmetric] loop
  proof (rule create_yields_some [OF inv len(2)], goal_cases)
    case (2 c1 p ds)
    show ?case
    proof (cases "dl' \<or> dr'")
      case False
      then have "\<not> dl" "\<not> dr" using sound(5) by auto
      with opts sound(8,9) False have "op \<noteq> AND_NOT_OP" "n = nat_op op (big_val l) (big_val r)"
        by (cases "op = AND_OP"; simp add: n_def)+
      note plain = bitwise_plain_yields [OF 2(1-4) sound(1,6,7) this]
      from False have cond: "(\<not> dl' \<and> \<not> dr') = True" by blast
      show ?thesis unfolding cond if_True by (rule plain)
    next
      case True
      then have cond: "(\<not> dl' \<and> \<not> dr') = False" by blast
      show ?thesis unfolding cond if_False
        by (rule bitwise_decrease_yields [OF 2(1-4) sound(1,6,7) loop]) (use sound(8,9) in \<open>simp_all add: n_def\<close>)
    qed
  qed (use len in auto)
qed

end

end
