(* ===== verification/Big_Uint_Pow_Div.thy ===== *)
theory Big_Uint_Pow_Div
  imports Big_Uint_Ops
begin

text \<open>
  Correctness of the operations of \<open>Big_Uint\<close>, third part: the power, with its reference counting,
  and the long division.
\<close>

section \<open>Power\<close>

definition shared_prim :: "digit list \<Rightarrow> bigint_prim" where
  "shared_prim ds = (new_prim ds)\<lparr>refs_and_type := 22\<rparr>"

text \<open>
  The store with the running product only: it is absent, the left operand itself, or a value of its
  own. On top of it is the current square: the left operand, a value of its own, or a value shared
  with the running product.
\<close>

definition borrowed_product :: "addr \<Rightarrow> nat \<Rightarrow> bigptr \<Rightarrow> nat \<Rightarrow> bool" where
  "borrowed_product left a result rv \<longleftrightarrow> (result = NULL \<and> rv = 1) \<or> (result = Ptr left \<and> rv = a)"

inductive pow_shape ::
  "(addr \<rightharpoonup> bigint_prim) \<Rightarrow> addr \<Rightarrow> nat \<Rightarrow> bigptr \<Rightarrow> addr \<Rightarrow> nat \<Rightarrow> nat \<Rightarrow> (addr \<rightharpoonup> bigint_prim) \<Rightarrow>
    (addr \<rightharpoonup> bigint_prim) \<Rightarrow> bool" for st left a where
  start: "borrowed_product left a result rv \<Longrightarrow> pow_shape st left a result left a rv st st"
| square: "borrowed_product left a result rv \<Longrightarrow> square \<notin> dom st \<Longrightarrow> wf_prim (new_prim sq) \<Longrightarrow>
    pow_shape st left a result square (big_val sq) rv st (st(square \<mapsto> new_prim sq))"
| both: "r \<notin> dom st \<Longrightarrow> square \<notin> dom st \<Longrightarrow> square \<noteq> r \<Longrightarrow> wf_prim (new_prim sq) \<Longrightarrow> wf_prim (new_prim rs) \<Longrightarrow>
    pow_shape st left a (Ptr r) square (big_val sq) (big_val rs) (st(r \<mapsto> new_prim rs))
      (st(r \<mapsto> new_prim rs, square \<mapsto> new_prim sq))"
| shared: "square \<notin> dom st \<Longrightarrow> wf_prim (new_prim sq) \<Longrightarrow>
    pow_shape st left a (Ptr square) square (big_val sq) (big_val sq) (st(square \<mapsto> new_prim sq))
      (st(square \<mapsto> shared_prim sq))"

definition pow_state ::
  "('h \<Rightarrow> (addr \<rightharpoonup> nat) \<Rightarrow> bool) \<Rightarrow> (addr \<rightharpoonup> nat) \<Rightarrow> (addr \<rightharpoonup> bigint_prim) \<Rightarrow> addr \<Rightarrow> nat \<Rightarrow>
    'h ecma_context \<Rightarrow> bigptr \<Rightarrow> addr \<Rightarrow> nat \<Rightarrow> nat \<Rightarrow> (addr \<rightharpoonup> bigint_prim) \<Rightarrow> bool" where
  "pow_state holds X st left a c result square sv rv rst \<longleftrightarrow>
    ctx_inv holds X c \<and> number st left a \<and> pow_shape st left a result square sv rv rst (store c)"

lemma shared_prim_simps [simp]:
  "refs_and_type (shared_prim ds) = 22" "ECMA_BIGINT_GET_SIZE (shared_prim ds) = 4 * length ds"
  "digits (shared_prim ds) = ds" "(shared_prim ds)\<lparr>refs_and_type := 14\<rparr> = new_prim ds"
  "wf_prim (shared_prim ds) = wf_prim (new_prim ds)"
  by (simp_all add: shared_prim_def new_prim_def ECMA_BIGINT_GET_SIZE_def wf_prim_def)

lemma number_new [simp]: "number (st(p \<mapsto> new_prim ds)) p n \<longleftrightarrow> wf_prim (new_prim ds) \<and> big_val ds = n"
  by (simp add: number_def)

lemma number_dom: "number st p n \<Longrightarrow> p \<in> dom st"
  by (auto simp: number_def split: option.splits)

lemma number_upd: "q \<noteq> p \<Longrightarrow> number (st(q \<mapsto> v)) p n = number st p n"
  by (simp add: number_def)

lemma pow_state_square: "pow_state holds X st left a c result square sv rv rst \<Longrightarrow> number (store c) square sv"
  by (auto simp: pow_state_def number_def elim!: pow_shape.cases)

lemma deref_shared:
  assumes "store c p = Some (shared_prim ds)"
  shows "ecma_deref_bigint A c p = set_obj c p (new_prim ds)"
  using assms by (simp add: ecma_deref_bigint_def obj_def Let_def)

lemma ctx_inv_shared:
  assumes "ctx_inv holds X c" "store c p = Some (shared_prim ds)"
  shows "ctx_inv holds X (set_obj c p (new_prim ds))"
proof -
  have "blocks ((store c)(p \<mapsto> new_prim ds)) = blocks (store c)"
    using assms(2) by (auto simp: blocks_def fun_eq_iff)
  then show ?thesis using assms by (auto simp: ctx_inv_def)
qed

lemma yields_Ptr:
  "yields holds failed X st n (c, Ptr p) \<longleftrightarrow>
    (\<exists>ds. owns holds X st c p ds \<and> wf_prim (new_prim ds) \<and> big_val ds = n)"
  by (auto simp: yields_def owns_def)

context failing_heap
begin

text \<open>After squaring, the old square is released.\<close>

lemma pow_square_step:
  assumes state: "pow_state holds X st left a c result square sv rv rst" and own: "owns holds X (store c) c1 ns nsq"
  shows "owns holds X rst (if square \<noteq> left then ecma_deref_bigint A c1 square else c1) ns nsq"
proof -
  from state have left: "left \<in> dom st" and shape: "pow_shape st left a result square sv rv rst (store c)"
    by (auto simp: pow_state_def dest: number_dom)
  from shape show ?thesis
  proof cases
    case start
    with own show ?thesis by simp
  next
    case (square sq)
    then have "square \<noteq> left" using left by auto
    with square owns_deref_below(1) [of X st square sq c1 ns nsq] own show ?thesis by simp
  next
    case (both r sq rs)
    then have "square \<noteq> left" "square \<notin> dom (st(r \<mapsto> new_prim rs))" using left by auto
    with both owns_deref_below(1) [of X "st(r \<mapsto> new_prim rs)" square sq c1 ns nsq] own show ?thesis by simp
  next
    case (shared sq)
    from own \<open>store c = _\<close> have ns: "ns \<noteq> square" "ns \<notin> dom st"
      and c1: "store c1 = st(square \<mapsto> shared_prim sq, ns \<mapsto> new_prim nsq)"
      by (auto simp: owns_def)
    then have sq: "store c1 square = Some (shared_prim sq)" by simp
    have "ctx_inv holds X (set_obj c1 square (new_prim sq))" using own by (intro ctx_inv_shared [OF _ sq]) (simp add: owns_def)
    then show ?thesis
      using shared ns c1 left by (auto simp: owns_def deref_shared [OF sq] fun_upd_twist)
  qed
qed

text \<open>When squaring fails, the running product and the old square are released.\<close>

lemma pow_failure:
  assumes state: "pow_state holds X st left a c result square sv rv rst" and c1: "ctx_inv holds X c1" "store c1 = store c"
    and "failed (heap c1) \<or> big_limit \<le> n"
  shows "yields holds failed X st n
    (let c2 = (case result of Ptr r \<Rightarrow> if r \<noteq> left then ecma_deref_bigint A c1 r else c1 | _ \<Rightarrow> c1)
     in (if square \<noteq> left then ecma_deref_bigint A c2 square else c2, NULL))"
proof -
  from state have left: "left \<in> dom st" and shape: "pow_shape st left a result square sv rv rst (store c)"
    by (auto simp: pow_state_def dest: number_dom)
  have borrowed: "(case result of Ptr r \<Rightarrow> if r \<noteq> left then ecma_deref_bigint A c1 r else c1 | _ \<Rightarrow> c1) = c1"
    if "borrowed_product left a result rv" using that by (auto simp: borrowed_product_def)
  from shape show ?thesis
  proof cases
    case start
    with c1 assms(4) show ?thesis by (simp add: borrowed yields_NULL)
  next
    case (square sq)
    then have "square \<noteq> left" using left by auto
    with owned_null [of X st c1 square sq n] square c1 assms(4) show ?thesis by (simp add: borrowed owns_def)
  next
    case (both r sq rs)
    then have ne: "square \<noteq> left" "r \<noteq> left" using left by auto
    have "owns holds X (st(r \<mapsto> new_prim rs)) c1 square sq" using both c1 by (simp add: owns_def)
    from owns_deref_below [OF this] owned_null [of X st "ecma_deref_bigint A c1 r" square sq n] both ne assms(4)
    show ?thesis by auto
  next
    case (shared sq)
    then have ne: "square \<noteq> left" using left by auto
    have sq: "store c1 square = Some (shared_prim sq)" using shared c1 by simp
    have "owns holds X st (set_obj c1 square (new_prim sq)) square sq"
      using shared c1 ctx_inv_shared [OF c1(1) sq] by (simp add: owns_def)
    from owned_null [OF this, of n] assms(4) shared ne show ?thesis by (simp add: deref_shared [OF sq])
  qed
qed

text \<open>The value of the power splits along the loop.\<close>

lemma pow_split: "rv * (sv * sv) ^ v = (if odd v then rv * (sv * sv) else rv) * ((sv * sv) * (sv * sv)) ^ (v div 2)"
  for rv sv v :: nat
proof -
  have "(sv * sv) ^ v = (sv * sv) ^ (2 * (v div 2) + v mod 2)" by simp
  also have "\<dots> = ((sv * sv) * (sv * sv)) ^ (v div 2) * (sv * sv) ^ (v mod 2)"
    by (simp only: power_add power_mult power2_eq_square)
  finally show ?thesis by (cases "odd v") (simp_all add: odd_iff_mod_2_eq_one)
qed

lemma pow_ge: "0 < rv \<Longrightarrow> 0 < s \<Longrightarrow> 0 < v \<Longrightarrow> (s :: nat) \<le> rv * s ^ v"
  by (cases v) (auto intro: order_trans [of s "s * s ^ _" "rv * (s * s ^ _)"])

lemma pow_positive:
  assumes "pow_state holds X st left a c result square sv rv rst"
  shows "0 < sv" "0 < rv"
proof -
  have a: "0 < a" using assms normalized_pos by (auto simp: pow_state_def number_def wf_prim_def split: option.splits)
  have pos: "0 < big_val ds" if "wf_prim (new_prim ds)" for ds using that normalized_pos by (simp add: wf_new_prim)
  from assms have "pow_shape st left a result square sv rv rst (store c)" by (simp add: pow_state_def)
  then show "0 < sv" "0 < rv" by (cases; use a pos in \<open>auto simp: borrowed_product_def\<close>)+
qed

lemma pow_shape_product:
  assumes "pow_shape st left a result square sv rv rst cst"
  obtains "result = NULL" "rst = st" "rv = 1" | "result = Ptr left" "rst = st" "rv = a"
  | r rs where "result = Ptr r" "r \<notin> dom st" "rst = st(r \<mapsto> new_prim rs)" "wf_prim (new_prim rs)" "rv = big_val rs"
  using assms by (cases; auto simp: borrowed_product_def)

text \<open>The product step: the new product and, at the end, the release of the square.\<close>

lemma pow_shape_dom: "pow_shape st left a result square sv rv rst cst \<Longrightarrow> dom st \<subseteq> dom rst"
  by (erule pow_shape_product) auto

lemma pow_next_state:
  assumes state: "pow_state holds X st left a c result square sv rv rst" and own: "owns holds X rst c2 ns nsq"
    and nsq: "wf_prim (new_prim nsq)"
  shows "pow_state holds X st left a c2 result ns (big_val nsq) rv rst"
proof -
  from state have left: "number st left a" and shape: "pow_shape st left a result square sv rv rst (store c)"
    by (auto simp: pow_state_def)
  have ns: "ns \<notin> dom rst" "store c2 = rst(ns \<mapsto> new_prim nsq)" "ctx_inv holds X c2" using own by (auto simp: owns_def)
  from shape have "pow_shape st left a result ns (big_val nsq) rv rst (rst(ns \<mapsto> new_prim nsq))"
  proof (cases rule: pow_shape_product)
    case (3 r rs)
    with ns(1) nsq both [of r st ns nsq rs left a] show ?thesis by simp
  qed (use ns(1) nsq in \<open>auto intro!: square simp: borrowed_product_def\<close>)
  with left ns show ?thesis by (simp add: pow_state_def)
qed

lemma pow_product_done:
  assumes "number st left a" "owns holds X (st(ns \<mapsto> new_prim nsq)) c q ds" "ns \<notin> dom st"
    "wf_prim (new_prim nsq)" "wf_prim (new_prim ds)"
  shows "pow_state holds X st left a c (Ptr q) ns (big_val nsq) (big_val ds) (st(q \<mapsto> new_prim ds))"
    and "yields holds failed X st (big_val ds) (ecma_deref_bigint A c ns, Ptr q)"
proof -
  have q: "q \<noteq> ns" "q \<notin> dom st" "store c = st(q \<mapsto> new_prim ds, ns \<mapsto> new_prim nsq)" "ctx_inv holds X c"
    using assms(2) by (auto simp: owns_def fun_upd_twist)
  with both [of q st ns nsq ds left a] assms show "pow_state holds X st left a c (Ptr q) ns (big_val nsq) (big_val ds) (st(q \<mapsto> new_prim ds))"
    by (simp add: pow_state_def)
  show "yields holds failed X st (big_val ds) (ecma_deref_bigint A c ns, Ptr q)"
    using owns_deref_below(1) [OF assms(2,3)] assms(5) by (auto simp: yields_Ptr)
qed

lemma pow_shared_done:
  assumes "number st left a" "owns holds X st c ns nsq" "wf_prim (new_prim nsq)"
  obtains c3 where "ecma_ref_extended_primitive c ns = Some c3"
    "pow_state holds X st left a c3 (Ptr ns) ns (big_val nsq) (big_val nsq) (st(ns \<mapsto> new_prim nsq))"
    "yields holds failed X st (big_val nsq) (ecma_deref_bigint A c3 ns, Ptr ns)"
proof -
  let ?c3 = "set_obj c ns (shared_prim nsq)"
  have own: "ns \<notin> dom st" "store c = st(ns \<mapsto> new_prim nsq)" "ctx_inv holds X c" using assms(2) by (auto simp: owns_def)
  have inv: "ctx_inv holds X ?c3" using own by (auto simp: ctx_inv_def blocks_upd)
  have sq: "store ?c3 ns = Some (shared_prim nsq)" by simp
  show thesis
  proof (rule that [of ?c3])
    show "ecma_ref_extended_primitive c ns = Some ?c3"
      by (simp add: ecma_ref_extended_primitive_def owns_obj [OF assms(2)] shared_prim_def)
    show "pow_state holds X st left a ?c3 (Ptr ns) ns (big_val nsq) (big_val nsq) (st(ns \<mapsto> new_prim nsq))"
      using shared [of ns st nsq left a] own inv assms by (simp add: pow_state_def)
    show "yields holds failed X st (big_val nsq) (ecma_deref_bigint A ?c3 ns, Ptr ns)"
      using ctx_inv_shared [OF inv sq] own assms(3) by (auto simp: yields_Ptr deref_shared [OF sq] owns_def)
  qed
qed

lemma pow_mul:
  assumes "number st left a" "owns holds X rst c2 ns nsq" "wf_prim (new_prim nsq)" "number rst r rv" "0 < rv" "0 < big_val nsq"
  obtains c3 where "ecma_big_uint_mul A c2 ns r = Some (c3, NULL)" "owns holds X rst c3 ns nsq"
      "failed (heap c3) \<or> big_limit \<le> rv * big_val nsq"
  | c3 q ds where "ecma_big_uint_mul A c2 ns r = Some (c3, Ptr q)" "owns holds X (rst(ns \<mapsto> new_prim nsq)) c3 q ds"
      "wf_prim (new_prim ds)" "big_val ds = rv * big_val nsq"
proof -
  have ns: "ns \<notin> dom rst" "store c2 = rst(ns \<mapsto> new_prim nsq)" "ctx_inv holds X c2" using assms(2) by (auto simp: owns_def)
  have "r \<noteq> ns" using ns assms(4) number_dom by blast
  then have nums: "number (store c2) ns (big_val nsq)" "number (store c2) r rv"
    using ns assms(3,4) number_upd [of ns r rst "new_prim nsq" rv] by auto
  obtain c3 r' where res: "ecma_big_uint_mul A c2 ns r = Some (c3, r')" "yields holds failed X (store c2) (big_val nsq * rv) (c3, r')"
    using mul_correct [OF ns(3) nums] by (auto simp: yields_some_def)
  show thesis
  proof (cases r')
    case NULL
    with res(2) ns have "owns holds X rst c3 ns nsq" "failed (heap c3) \<or> big_limit \<le> rv * big_val nsq"
      by (auto simp: yields_def owns_def mult.commute)
    with that(1) res(1) NULL show ?thesis by blast
  next
    case POINTER_TO_ZERO
    with res(2) assms(5,6) show ?thesis by (simp add: yields_def)
  next
    case (Ptr q)
    with res(2) obtain ds where "owns holds X (rst(ns \<mapsto> new_prim nsq)) c3 q ds" "wf_prim (new_prim ds)" "big_val ds = rv * big_val nsq"
      by (auto simp: yields_Ptr ns mult.commute)
    with that(2) res(1) Ptr show ?thesis by blast
  qed
qed

lemma pow_product_step:
  assumes state: "pow_state holds X st left a c result square sv rv rst" and own: "owns holds X rst c2 ns nsq"
    and nsq: "wf_prim (new_prim nsq)"
  defines "n \<equiv> rv * big_val nsq"
  obtains
    c3 where "(case result of
        Ptr r \<Rightarrow>
          (case ecma_big_uint_mul A c2 ns r of
             None \<Rightarrow> None
           | Some (c3, new_result) \<Rightarrow> Some (if r \<noteq> left then ecma_deref_bigint A c3 r else c3, new_result))
      | _ \<Rightarrow> map_option (\<lambda>c3. (c3, Ptr ns)) (ecma_ref_extended_primitive c2 ns)) = Some (c3, NULL)"
      "owns holds X st c3 ns nsq" "failed (heap c3) \<or> big_limit \<le> n"
  | c3 r' rst' where "(case result of
        Ptr r \<Rightarrow>
          (case ecma_big_uint_mul A c2 ns r of
             None \<Rightarrow> None
           | Some (c3, new_result) \<Rightarrow> Some (if r \<noteq> left then ecma_deref_bigint A c3 r else c3, new_result))
      | _ \<Rightarrow> map_option (\<lambda>c3. (c3, Ptr ns)) (ecma_ref_extended_primitive c2 ns)) = Some (c3, Ptr r')"
      "pow_state holds X st left a c3 (Ptr r') ns (big_val nsq) n rst'"
      "yields holds failed X st n (ecma_deref_bigint A c3 ns, Ptr r')"
proof -
  from state have left: "number st left a" "left \<in> dom st" and shape: "pow_shape st left a result square sv rv rst (store c)"
    by (auto simp: pow_state_def dest: number_dom)
  have pos: "0 < rv" "0 < big_val nsq"
    using pow_positive [OF state] nsq normalized_pos by (auto simp: wf_new_prim)
  from shape show thesis
  proof (cases rule: pow_shape_product)
    case 1
    obtain c3 where c3: "ecma_ref_extended_primitive c2 ns = Some c3"
      "pow_state holds X st left a c3 (Ptr ns) ns (big_val nsq) (big_val nsq) (st(ns \<mapsto> new_prim nsq))"
      "yields holds failed X st (big_val nsq) (ecma_deref_bigint A c3 ns, Ptr ns)"
      by (rule pow_shared_done [OF left(1) own [unfolded 1(2)] nsq])
    show ?thesis by (rule that(2) [of c3 ns]) (use 1 c3 in \<open>simp_all add: n_def\<close>)
  next
    case 2
    have num: "number rst left rv" using left(1) 2 by simp
    from pow_mul [OF left(1) own nsq num pos] show ?thesis
    proof cases
      case (1 c3)
      with that(1) 2 show ?thesis by (simp add: n_def)
    next
      case m: (2 c3 q ds)
      have "ns \<notin> dom st" using own 2 by (auto simp: owns_def)
      from pow_product_done [OF left(1) m(2) [unfolded 2(2)] this nsq m(3)] that(2) 2 m show ?thesis by (simp add: n_def)
    qed
  next
    case (3 r rs)
    have rl: "r \<noteq> left" and num: "number rst r rv" using left(2) 3 by auto
    have ns: "ns \<notin> dom st" "ns \<noteq> r" using own 3 by (auto simp: owns_def)
    from pow_mul [OF left(1) own nsq num pos] show ?thesis
    proof cases
      case (1 c3)
      from owns_deref_below [OF 1(2) [unfolded 3(3)] 3(2)] that(1) [of "ecma_deref_bigint A c3 r"] 1 3 rl show ?thesis
        by (auto simp: n_def)
    next
      case (2 c3 q ds)
      have "owns holds X ((st(ns \<mapsto> new_prim nsq))(r \<mapsto> new_prim rs)) c3 q ds" using 2(2) ns by (simp add: 3(3) fun_upd_twist)
      from owns_deref_below(1) [OF this] 3(2) ns have "owns holds X (st(ns \<mapsto> new_prim nsq)) (ecma_deref_bigint A c3 r) q ds" by simp
      from pow_product_done [OF left(1) this ns(1) nsq 2(3)] that(2) [of "ecma_deref_bigint A c3 r"] 2 3 rl show ?thesis
        by (simp add: n_def)
    qed
  qed
qed

declare pow_loop.simps [simp del]

lemma pow_loop_correct:
  assumes "pow_state holds X st left a c result square sv rv rst" "2 \<le> v"
  shows "yields_some holds failed X st (rv * (sv * sv) ^ (v div 2)) (pow_loop A left c result square v)"
  using assms
proof (induction v arbitrary: c result square sv rv rst rule: less_induct)
  case (less v)
  let ?n = "rv * (sv * sv) ^ (v div 2)" and ?v = "v div 2"
  note state = less.prems(1)
  have left: "number st left a" "left \<in> dom st" using state by (auto simp: pow_state_def dest: number_dom)
  note pos = pow_positive [OF state]
  have ge: "sv * sv \<le> ?n" using pos less.prems(2) by (intro pow_ge) auto
  obtain c1 r1 where mul: "ecma_big_uint_mul A c square square = Some (c1, r1)" "yields holds failed X (store c) (sv * sv) (c1, r1)"
    using mul_correct [of X c square sv square sv] pow_state_square [OF state] state by (auto simp: yields_some_def pow_state_def)
  show ?case
  proof (cases r1)
    case NULL
    with mul(2) have "ctx_inv holds X c1" "store c1 = store c" "failed (heap c1) \<or> big_limit \<le> sv * sv" by (auto simp: yields_def)
    with pow_failure [OF state, of c1 ?n] ge have "yields holds failed X st ?n
        (let c2 = (case result of Ptr r \<Rightarrow> if r \<noteq> left then ecma_deref_bigint A c1 r else c1 | _ \<Rightarrow> c1)
         in (if square \<noteq> left then ecma_deref_bigint A c2 square else c2, NULL))" by force
    with mul(1) NULL show ?thesis by (subst pow_loop.simps) (simp add: Let_def)
  next
    case POINTER_TO_ZERO
    with mul(2) pos show ?thesis by (simp add: yields_def)
  next
    case (Ptr ns)
    from mul(2) Ptr obtain nsq where nsq: "owns holds X (store c) c1 ns nsq" "wf_prim (new_prim nsq)" "big_val nsq = sv * sv"
      by (auto simp: yields_Ptr)
    define c2 where "c2 = (if square \<noteq> left then ecma_deref_bigint A c1 square else c1)"
    have own2: "owns holds X rst c2 ns nsq" unfolding c2_def by (rule pow_square_step [OF state nsq(1)])
    have ns: "ns \<noteq> left"
    proof -
      have "left \<in> dom rst" using state left(2) pow_shape_dom by (fastforce simp: pow_state_def)
      then show ?thesis using own2 by (auto simp: owns_def)
    qed
    let ?step = "(case result of
        Ptr r \<Rightarrow>
          (case ecma_big_uint_mul A c2 ns r of
             None \<Rightarrow> None
           | Some (c3, new_result) \<Rightarrow> Some (if r \<noteq> left then ecma_deref_bigint A c3 r else c3, new_result))
      | _ \<Rightarrow> map_option (\<lambda>c3. (c3, Ptr ns)) (ecma_ref_extended_primitive c2 ns))"
    have eq: "pow_loop A left c result square v =
        (if odd ?v then
           (case ?step of
              None \<Rightarrow> None
            | Some (c3, new_result) \<Rightarrow>
               (if new_result = NULL \<or> ?v = 1
                then Some (if ns \<noteq> left then ecma_deref_bigint A c3 ns else c3, new_result)
                else pow_loop A left c3 new_result ns ?v))
         else if ?v = 0 then None else pow_loop A left c2 result ns ?v)"
      by (subst pow_loop.simps) (simp add: mul(1) Ptr Let_def c2_def [symmetric] cong: bigptr.case_cong if_cong option.case_cong)
    have lt: "?v < v" using less.prems(2) by simp
    show ?thesis
    proof (cases "odd ?v")
      case False
      then have v: "2 \<le> ?v" using less.prems(2) by (cases "?v = 0"; cases "?v = 1") auto
      have "pow_state holds X st left a c2 result ns (sv * sv) rv rst"
        using pow_next_state [OF state own2 nsq(2)] nsq(3) by simp
      have split: "?n = rv * ((sv * sv) * (sv * sv)) ^ (?v div 2)" using pow_split [of rv sv ?v] False by (simp only: if_False)
      have "pow_loop A left c result square v = pow_loop A left c2 result ns ?v" using False v by (simp add: eq)
      with less.IH [OF lt \<open>pow_state _ _ _ _ _ c2 _ _ _ _ _\<close> v] show ?thesis unfolding split by (simp only:)
    next
      case True
      have split: "?n = (rv * (sv * sv)) * ((sv * sv) * (sv * sv)) ^ (?v div 2)" using pow_split [of rv sv ?v] True by simp
      from state own2 nsq(2) show ?thesis
      proof (cases rule: pow_product_step)
        case (1 c3)
        have le: "rv * (sv * sv) \<le> ?n" unfolding split using pos by simp
        have "failed (heap c3) \<or> big_limit \<le> ?n" using 1(3) unfolding nsq(3) by (meson le order_trans)
        from owned_null [OF 1(2) this] 1(1) ns show ?thesis by (simp add: eq True)
      next
        case (2 c3 r' rst')
        show ?thesis
        proof (cases "?v = 1")
          case v1: True
          with 2 nsq(3) ns show ?thesis by (simp add: eq)
        next
          case v1: False
          then have v: "2 \<le> ?v" using less.prems(2) by simp
          from less.IH [OF lt 2(2) v] nsq(3) v1 True 2(1) show ?thesis unfolding split eq by simp
        qed
      qed
    qed
  qed
qed

lemma pow_correct:
  assumes inv: "ctx_inv holds X c" and num: "number (store c) p a" and e: "2 \<le> e"
  shows "yields_some holds failed X (store c) (a ^ e) (ecma_big_uint_pow A c p e)"
proof -
  define rv where "rv = (if odd e then a else 1)"
  have "pow_state holds X (store c) p a c (if odd e then Ptr p else NULL) p a rv (store c)"
    using inv num by (auto simp: pow_state_def rv_def borrowed_product_def intro!: start)
  from pow_loop_correct [OF this e] have "yields_some holds failed X (store c) (rv * (a * a) ^ (e div 2)) (ecma_big_uint_pow A c p e)"
    by (simp add: ecma_big_uint_pow_def)
  also have "rv * (a * a) ^ (e div 2) = (a ^ 2) ^ (e div 2) * a ^ (e mod 2)"
    by (cases "odd e") (simp_all add: rv_def power2_eq_square odd_iff_mod_2_eq_one)
  also have "\<dots> = a ^ (2 * (e div 2) + e mod 2)" by (simp only: power_add power_mult)
  finally show ?thesis by simp
qed

end

section \<open>Long division\<close>

definition shifted_dividend :: "nat \<Rightarrow> digit list \<Rightarrow> digit list" where
  "shifted_dividend s ds = (if s = 0 then ds @ [0] else (let (out, carry) = shift_left_loop s ds 0 in out @ [carry]))"

definition shifted_divisor :: "nat \<Rightarrow> digit list \<Rightarrow> digit list" where
  "shifted_divisor s ds = (if s = 0 then ds else fst (shift_left_loop s ds 0))"

text \<open>All estimates of the division of two numbers are exact or one too large.\<close>

definition division_estimates_close :: "digit list \<Rightarrow> digit list \<Rightarrow> bool" where
  "division_estimates_close dividend divisor \<longleftrightarrow>
    length divisor = 1 \<or>
    (let s = unat (ecma_big_uint_count_leading_zero (last divisor))
     in estimates_close (shifted_divisor s divisor) (length dividend - length divisor) (shifted_dividend s dividend))"

lemma shifted_dividend:
  assumes "s < 32"
  shows "length (shifted_dividend s ds) = Suc (length ds)" "big_val (shifted_dividend s ds) = big_val ds * 2 ^ s"
proof -
  obtain out carry where loop: "shift_left_loop s ds 0 = (out, carry)" by fastforce
  note sp = shift_left_loop_spec [OF loop]
  show "length (shifted_dividend s ds) = Suc (length ds)" "big_val (shifted_dividend s ds) = big_val ds * 2 ^ s"
    using sp assms by (auto simp: shifted_dividend_def loop big_val_append)
qed

lemma shifted_divisor:
  assumes "normalized ds" and "s = unat (ecma_big_uint_count_leading_zero (last ds))"
  shows "length (shifted_divisor s ds) = length ds" "big_val (shifted_divisor s ds) = big_val ds * 2 ^ s"
proof -
  have top: "last ds \<noteq> 0" "ds \<noteq> []" using assms(1) by (simp_all add: normalized_def)
  note clz = count_leading_zero_spec [OF top(1), folded assms(2)]
  obtain out carry where loop: "shift_left_loop s ds 0 = (out, carry)" by fastforce
  note sp = shift_left_loop_spec [OF loop]
  have "carry = 0"
  proof -
    have "unat (last ds) < 2 ^ (32 - s)"
    proof (rule ccontr)
      assume "\<not> ?thesis"
      then have "2 ^ (32 - s) * 2 ^ s \<le> unat (last ds) * 2 ^ s" by simp
      with clz pow2_split [of s] show False by (simp add: mult.commute)
    qed
    then show ?thesis using sp clz top by (simp add: word_eq_unat unat_drop_bit)
  qed
  then show "length (shifted_divisor s ds) = length ds" "big_val (shifted_divisor s ds) = big_val ds * 2 ^ s"
    using sp clz by (auto simp: shifted_divisor_def loop)
qed

text \<open>The buffer after the last round: the remainder, still shifted, and the quotient.\<close>

lemma division_buffer:
  assumes ds: "normalized as" "normalized bs" "length bs \<le> length as" and two: "length bs \<noteq> 1"
    and close: "division_estimates_close as bs" and s: "s = unat (ecma_big_uint_count_leading_zero (last bs))"
  obtains rem quo where
    "div_rounds (shifted_divisor s bs) (length as - length bs) (shifted_dividend s as) = rem @ quo"
    "length rem = length bs" "length quo = length as - length bs + 1"
    "big_val quo = big_val as div big_val bs" "big_val rem = (big_val as mod big_val bs) * 2 ^ s"
proof -
  let ?p = "length as - length bs" and ?m = "length bs" and ?a = "big_val as" and ?b = "big_val bs"
  let ?V = "shifted_divisor s bs" and ?B = "shifted_dividend s as"
  have "last bs \<noteq> 0" using ds(2) by (simp add: normalized_def)
  from count_leading_zero_spec [OF this] s have s32: "s < 32" by simp
  note V = shifted_divisor [OF ds(2) s] and B = shifted_dividend [OF s32, of as]
  have b: "0 < ?b" by (rule normalized_pos [OF ds(2)])
  have W: "big_val (take (?m + 1) (drop ?p ?B)) < base * big_val ?V"
  proof -
    have len: "take (?m + 1) (drop ?p ?B) = drop ?p ?B" using B(1) ds(3) by simp
    have "base ^ ?p * big_val (drop ?p ?B) \<le> big_val ?B" using big_val_take_drop [of ?B ?p] B(1) by simp
    also have "\<dots> < base ^ length as * 2 ^ s" unfolding B(2) using big_val_less [of as] by simp
    also have "base ^ length as = base ^ ?p * base ^ ?m" using ds(3) by (simp flip: power_add)
    finally have "base ^ ?p * big_val (drop ?p ?B) < base ^ ?p * (base ^ ?m * 2 ^ s)" by (simp add: mult.assoc)
    then have lt: "big_val (drop ?p ?B) < base ^ ?m * 2 ^ s" by simp
    have "base ^ ?m = base * base ^ (?m - 1)" using ds(2) by (cases bs) (auto simp: normalized_def)
    also have "\<dots> \<le> base * ?b" using normalized_ge [OF ds(2)] by (rule mult_le_mono2)
    finally have "base ^ ?m * 2 ^ s \<le> base * (?b * 2 ^ s)" by (simp add: mult.assoc [symmetric])
    with lt show ?thesis unfolding len V(2) by (rule less_le_trans)
  qed
  have "estimates_close ?V ?p ?B" using close two by (simp add: division_estimates_close_def s Let_def)
  with div_rounds_spec [of ?V ?p ?B] V B W b ds(3) obtain rem quo where r: "div_rounds ?V ?p ?B = rem @ quo"
    "length rem = ?m" "length quo = ?p + 1" "big_val rem < ?b * 2 ^ s" "big_val quo * (?b * 2 ^ s) + big_val rem = ?a * 2 ^ s"
    by auto
  have "?a * 2 ^ s = (?a div ?b * ?b + ?a mod ?b) * 2 ^ s" by simp
  also have "\<dots> = ?a div ?b * (?b * 2 ^ s) + (?a mod ?b) * 2 ^ s" by (simp only: algebra_simps)
  finally have "big_val quo * (?b * 2 ^ s) + big_val rem = ?a div ?b * (?b * 2 ^ s) + (?a mod ?b) * 2 ^ s" using r(5) by simp
  from div_unique [OF this r(4)] b have "big_val quo = ?a div ?b" "big_val rem = (?a mod ?b) * 2 ^ s" by simp_all
  with that r(1-3) show thesis by blast
qed

lemma mod_end_spec:
  "n < length ds \<Longrightarrow> mod_end ds n \<le> n \<and> big_val (take (Suc (mod_end ds n)) ds) = big_val (take (Suc n) ds) \<and>
    (mod_end ds n \<noteq> 0 \<longrightarrow> ds ! mod_end ds n \<noteq> 0)"
proof (induction n)
  case (Suc n)
  have "big_val (take (Suc (Suc n)) ds) = big_val (take (Suc n) ds)" if "ds ! Suc n = 0"
    using Suc.prems that by (simp add: take_Suc_conv_app_nth [of "Suc n"] big_val_append)
  with Suc show ?case by auto
qed simp

lemma remainder_digits_correct:
  assumes rem: "length rem = m" "0 < m" "quo \<noteq> []" "big_val rem = r * 2 ^ s" and s: "s < 32"
  defines "ds \<equiv> remainder_digits (rem @ quo) (m - 1) s"
  shows "big_val ds = r" "ds = [] \<or> normalized ds" "length ds \<le> m"
proof -
  let ?buf = "rem @ quo"
  define e where "e = mod_end ?buf (m - 1)"
  have e: "e < m" "big_val (take (Suc e) rem) = r * 2 ^ s" "e \<noteq> 0 \<Longrightarrow> rem ! e \<noteq> 0" "?buf ! e = rem ! e"
  proof -
    have "m - 1 < length ?buf" "Suc (m - 1) = m" using rem by auto
    with mod_end_spec [of "m - 1" ?buf, folded e_def]
    have sp: "e \<le> m - 1" "big_val (take (Suc e) ?buf) = big_val (take m ?buf)" "e \<noteq> 0 \<Longrightarrow> ?buf ! e \<noteq> 0" by auto
    show em: "e < m" using sp(1) rem(2) by simp
    then show buf: "?buf ! e = rem ! e" using rem(1) by (simp add: nth_append)
    show "big_val (take (Suc e) rem) = r * 2 ^ s" using sp(2) em rem by simp
    show "e \<noteq> 0 \<Longrightarrow> rem ! e \<noteq> 0" using sp(3) buf by simp
  qed
  have take_e: "take (Suc e) rem = take e rem @ [rem ! e]" using e(1) rem(1) by (simp add: take_Suc_conv_app_nth)
  have r: "r = big_val (take (Suc e) rem) div 2 ^ s" using e(2) by simp
  have "big_val ds = r \<and> (ds = [] \<or> normalized ds) \<and> length ds \<le> m"
  proof (cases "drop_bit s (rem ! e) = 0")
    case False
    then have "rem ! e \<noteq> 0" by auto
    then have norm: "normalized (take e rem @ [rem ! e])" by (simp add: normalized_def)
    have "Suc e < length ?buf" using e(1) rem by (cases quo) auto
    then have ds: "ds = (if s > 0 then rev (shift_right_loop s (rev (take (Suc e) rem)) 0) else take (Suc e) rem)"
      unfolding ds_def remainder_digits_def e_def [symmetric] Let_def e(4) using False e(1) rem by simp
    show ?thesis
    proof (cases "s > 0")
      case True
      note d = shift_right_digits [OF norm True s]
      have val: "big_val ds = r" using d(1) [OF False] True by (simp add: ds r take_e)
      have len: "length ds = Suc e" using True e(1) rem(1) by (simp add: ds length_shift_right_loop)
      have "base ^ e \<le> r" using d(3) [OF False] e(1) rem(1) by (simp add: r take_e)
      with val len have "normalized ds" by (intro normalizedI_val) auto
      with val len e(1) show ?thesis by simp
    next
      case False
      then show ?thesis using norm e rem(1) by (simp add: ds take_e)
    qed
  next
    case True
    have ds: "ds = (if s > 0 \<and> e > 0 then rev (shift_right_loop s (rev (take e rem)) (push_bit (32 - s) (rem ! e))) else take e rem)"
      unfolding ds_def remainder_digits_def e_def [symmetric] Let_def e(4) using True e(1,4) rem(1) by simp
    show ?thesis
    proof (cases "s > 0 \<and> e > 0")
      case se: True
      then have norm: "normalized (take e rem @ [rem ! e])" using e(3) by (simp add: normalized_def)
      from se have "0 < s" by simp
      note d = shift_right_digits [OF norm this s]
      have val: "big_val ds = r" using d(2) [OF True] se by (simp add: ds r take_e)
      have len: "length ds = e" using se e(1) rem(1) by (simp add: ds length_shift_right_loop)
      have "take e rem \<noteq> []" using se e(1) rem(1) by auto
      from d(4) [OF True this] have "base ^ (e - 1) \<le> r" using e(1) rem(1) by (simp add: r take_e)
      with val len se have "normalized ds" by (intro normalizedI_val) auto
      with val len e(1) show ?thesis by simp
    next
      case se: False
      have "e = 0"
      proof (rule ccontr)
        assume "e \<noteq> 0"
        with se e(3) True show False by simp
      qed
      then have "unat (rem ! 0) = r * 2 ^ s" using e(2) take_e by simp
      moreover have "unat (rem ! 0) div 2 ^ s = 0" using True \<open>e = 0\<close> by (simp flip: unat_drop_bit)
      ultimately have "r = 0" by simp
      then show ?thesis using \<open>e = 0\<close> by (simp add: ds)
    qed
  qed
  then show "big_val ds = r" "ds = [] \<or> normalized ds" "length ds \<le> m" by auto
qed

lemma quotient_digits_correct:
  assumes "length rem = m" "length quo = p + 1" "big_val quo = q" "0 < p \<Longrightarrow> base ^ (p - 1) \<le> q"
  defines "ds \<equiv> quotient_digits (rem @ quo) m (m + p)"
  shows "big_val ds = q" "ds = [] \<or> normalized ds" "length ds \<le> p + 1"
proof -
  obtain qs t where qt: "quo = qs @ [t]" "length qs = p" using assms(2) by (cases quo rule: rev_cases) auto
  have "(rem @ quo) ! (m + p) = t" using assms(1) qt by (simp add: nth_append)
  then have ds: "ds = (if t = 0 then qs else quo)"
    using assms(1) qt by (simp add: ds_def quotient_digits_def)
  show val: "big_val ds = q" using assms(3) qt by (auto simp: ds big_val_append)
  show "length ds \<le> p + 1" using qt by (simp add: ds)
  show "ds = [] \<or> normalized ds"
  proof (cases "t = 0 \<and> 0 < p")
    case True
    then have "normalized qs" using assms(4) val qt(2) by (intro normalizedI_val) (auto simp: ds)
    then show ?thesis using True by (simp add: ds)
  next
    case False
    then show ?thesis using qt by (auto simp: ds normalized_def)
  qed
qed

lemma div_mod_result_correct:
  fixes is_mod :: bool
  assumes ds: "normalized as" "normalized bs" "length bs \<le> length as" and two: "length bs \<noteq> 1" and "length as \<le> 16384"
    and close: "division_estimates_close as bs" and s: "s = unat (ecma_big_uint_count_leading_zero (last bs))"
  defines "ds \<equiv> div_mod_result is_mod (shifted_divisor s bs) (shifted_dividend s as) s"
  shows "big_val ds = (if is_mod then big_val as mod big_val bs else big_val as div big_val bs)"
    "ds = [] \<or> normalized ds" "length ds \<le> 16384"
proof -
  let ?n = "length as" and ?m = "length bs"
  have m: "0 < ?m" using ds(2) by (simp add: normalized_def)
  have s32: "s < 32" using count_leading_zero_spec [of "last bs"] ds(2) by (simp add: s normalized_def)
  obtain rm quo where div: "div_rounds (shifted_divisor s bs) (?n - ?m) (shifted_dividend s as) = rm @ quo"
    "length rm = ?m" "length quo = ?n - ?m + 1"
    "big_val quo = big_val as div big_val bs" "big_val rm = (big_val as mod big_val bs) * 2 ^ s"
    by (rule division_buffer [OF ds two close s])
  have "base ^ (?n - ?m - 1) \<le> big_val as div big_val bs" if "0 < ?n - ?m"
  proof -
    have "base ^ (?n - ?m - 1) * big_val bs \<le> base ^ (?n - ?m - 1) * base ^ ?m"
      using big_val_less [of bs] by (intro mult_le_mono2) simp
    also have "\<dots> = base ^ (?n - 1)" using that by (simp flip: power_add)
    also have "\<dots> \<le> big_val as" by (rule normalized_ge [OF ds(1)])
    finally show ?thesis using normalized_pos [OF ds(2)] by (simp add: less_eq_div_iff_mult_less_eq)
  qed
  note quotient = quotient_digits_correct [OF div(2,3,4) this]
  have "quo \<noteq> []" using div(3) by auto
  note remainder = remainder_digits_correct [OF div(2) m this div(5) s32]
  have eq: "ds = (if is_mod then remainder_digits (rm @ quo) (?m - 1) s else quotient_digits (rm @ quo) ?m ?n)"
    using shifted_divisor(1) [OF ds(2) s] shifted_dividend(1) [OF s32, of as]
    by (simp add: ds_def div_mod_result_def div(1))
  have "?n - ?m + 1 \<le> 16384" "?m \<le> 16384" using ds(3) m assms(5) by linarith+
  then show "big_val ds = (if is_mod then big_val as mod big_val bs else big_val as div big_val bs)"
      "ds = [] \<or> normalized ds" "length ds \<le> 16384"
    using quotient remainder ds(3) by (auto simp: eq)
qed

context failing_heap
begin

text \<open>Buffers are blocks of their own.\<close>

lemma div_shift_left_cases:
  assumes inv: "ctx_inv holds X c" and "obj c p = v" "ECMA_BIGINT_GET_SIZE v = 4 * length (digits v)" "0 < length (digits v)"
  obtains c1 where "ecma_big_uint_div_shift_left A c p s ext = (c1, None)" "ctx_inv holds X c1" "store c1 = store c" "failed (heap c1)"
  | c1 q where "ecma_big_uint_div_shift_left A c p s ext = (c1, Some (q,
        if s = 0 then digits v @ [0]
        else (let (out, carry) = shift_left_loop s (digits v) 0 in out @ (if ext then [carry] else []))))"
      "q \<notin> dom X" "ctx_inv holds (X(q \<mapsto> 4 * length (digits v) + (if ext then 4 else 0))) c1" "store c1 = store c"
proof -
  let ?n = "4 * length (digits v) + (if ext then 4 else 0)"
  from inv have h: "holds (heap c) (X ++ blocks (store c))" and dj: "dom X \<inter> dom (store c) = {}" by (simp_all add: ctx_inv_def)
  have n: "0 < ?n" using assms(4) by simp
  obtain al h' where al: "alloc_block A (heap c) ?n = (al, h')" by fastforce
  show thesis
  proof (cases al)
    case None
    show ?thesis
      by (rule that(1) [of "c\<lparr>heap := h'\<rparr>"])
        (use al None assms alloc_none [OF h n] alloc_failed dj in \<open>auto simp: ecma_big_uint_div_shift_left_def ctx_inv_def\<close>)
  next
    case (Some qg)
    then obtain q g where al': "alloc_block A (heap c) ?n = (Some (q, g), h')" using al by (cases qg) simp
    have fresh: "q \<notin> dom (X ++ blocks (store c))" by (rule alloc_fresh [OF h n al'])
    then have "(X ++ blocks (store c))(q \<mapsto> ?n) = X(q \<mapsto> ?n) ++ blocks (store c)"
      by (auto simp: fun_eq_iff map_add_def split: option.splits)
    with alloc_holds [OF h n al'] fresh dj have inv': "ctx_inv holds (X(q \<mapsto> ?n)) (c\<lparr>heap := h'\<rparr>)"
      by (auto simp: ctx_inv_def)
    show ?thesis
    proof (rule that(2) [of "c\<lparr>heap := h'\<rparr>" q])
      show "q \<notin> dom X" using fresh by simp
    qed (use al' assms inv' in \<open>simp_all add: ecma_big_uint_div_shift_left_def Let_def\<close>)
  qed
qed

lemma free_buffer_yields:
  assumes "yields holds failed (X(q \<mapsto> k)) st n (c, r)" "q \<notin> dom X"
  shows "yields holds failed X st n (free_buffer A c q k, r)"
proof -
  have inv: "ctx_inv holds (X(q \<mapsto> k)) c" using assms(1) by (simp add: yields_def)
  then have q: "q \<notin> dom (store c)" by (auto simp: ctx_inv_def)
  then have "(X(q \<mapsto> k) ++ blocks (store c)) q = Some k"
    by (simp add: map_add_def blocks_def dom_def)
  with inv have "holds (free_block A (heap c) q k) ((X(q \<mapsto> k) ++ blocks (store c))(q := None))"
    by (intro free_holds) (simp_all add: ctx_inv_def)
  moreover have "(X(q \<mapsto> k) ++ blocks (store c))(q := None) = X ++ blocks (store c)"
    using assms(2) q by (auto simp: fun_eq_iff map_add_def blocks_def split: option.splits)
  ultimately have "ctx_inv holds X (free_buffer A c q k)"
    using inv by (auto simp: ctx_inv_def free_buffer_def)
  with assms(1) show ?thesis
    by (cases r) (auto simp: yields_def free_buffer_def free_failed)
qed

lemma store_result_yields:
  assumes inv: "ctx_inv holds X c" and "ds = [] \<or> normalized ds" "length ds \<le> 16384" "big_val ds = n"
  shows "yields holds failed X (store c) n
    (if ds = [] then (c, POINTER_TO_ZERO)
     else (case ecma_bigint_create A c (4 * length ds) of
         (c3, Ptr p) \<Rightarrow> (set_digits c3 p ds, Ptr p) | (c3, _) \<Rightarrow> (c3, NULL)))"
proof (cases "ds = []")
  case True
  with assms show ?thesis by (auto simp: yields_zero)
next
  case False
  then have norm: "normalized ds" using assms(2) by simp
  have "yields holds failed X (store c) n
      (case ecma_bigint_create A c (4 * length ds) of
         (c3, Ptr p) \<Rightarrow> (set_digits c3 p ds, Ptr p) | (c3, _) \<Rightarrow> (c3, NULL))"
    by (rule create_yields [OF inv]) (use False assms normalized_ge [OF norm] in \<open>auto intro!: store_yields\<close>)
  with False show ?thesis by simp
qed

lemma div_mod_finish_yields:
  assumes res: "big_val ds = n" "ds = [] \<or> normalized ds" "length ds \<le> 16384" and q: "q \<notin> dom X"
    and s: "if s > 0 then ctx_inv holds (X(q \<mapsto> k + 4, d \<mapsto> m)) c \<and> d \<notin> dom X \<and> d \<noteq> q
      else ctx_inv holds (X(q \<mapsto> k + 4)) c"
  shows "yields holds failed X (store c) n (div_mod_finish A c q k d m s ds)"
proof -
  define X' where "X' = (if s > 0 then X(d \<mapsto> m) else X)"
  have X': "ctx_inv holds (X'(q \<mapsto> k + 4)) c" "q \<notin> dom X'"
    using s q by (auto simp: X'_def fun_upd_twist split: if_splits)
  obtain c1 r where t: "(if ds = [] then (c, POINTER_TO_ZERO)
     else (case ecma_bigint_create A c (4 * length ds) of
         (c1, Ptr p) \<Rightarrow> (set_digits c1 p ds, Ptr p) | (c1, _) \<Rightarrow> (c1, NULL))) = (c1, r)" by (meson surj_pair)
  have "yields holds failed (X'(q \<mapsto> k + 4)) (store c) n (c1, r)"
    using store_result_yields [OF X'(1) res(2,3,1)] unfolding t .
  from free_buffer_yields [OF this X'(2)] have y: "yields holds failed X' (store c) n (free_buffer A c1 q (k + 4), r)" .
  show ?thesis
  proof (cases "s > 0")
    case True
    with s y free_buffer_yields [of X d m "store c" n] show ?thesis
      unfolding div_mod_finish_def t by (simp add: X'_def)
  next
    case False
    with y show ?thesis unfolding div_mod_finish_def t by (simp add: X'_def)
  qed
qed

lemma long_division_correct:
  assumes inv: "ctx_inv holds X c" and as: "obj c l = as" "ECMA_BIGINT_GET_SIZE as = 4 * length (digits as)"
      "normalized (digits as)" "length (digits as) \<le> 16384"
    and bs: "obj c r = bs" "ECMA_BIGINT_GET_SIZE bs = 4 * length (digits bs)" "normalized (digits bs)" "length (digits bs) \<noteq> 1"
    and le: "big_val (digits bs) \<le> big_val (digits as)" and close: "division_estimates_close (digits as) (digits bs)"
  shows "yields holds failed X (store c)
    (if is_mod then big_val (digits as) mod big_val (digits bs) else big_val (digits as) div big_val (digits bs))
    (ecma_big_uint_div_mod A c l r is_mod)"
proof -
  let ?a = "digits as" and ?b = "digits bs" and ?n = "length (digits as)" and ?m = "length (digits bs)"
  define N where "N = (if is_mod then big_val ?a mod big_val ?b else big_val ?a div big_val ?b)"
  define s where "s = unat (ecma_big_uint_count_leading_zero (last ?b))"
  define res where "res = div_mod_result is_mod (shifted_divisor s ?b) (shifted_dividend s ?a) s"
  have len: "?m \<le> ?n" "0 < ?m" "0 < ?n" using big_val_length [OF bs(3) le] as(3) bs(3) by (auto simp: normalized_def)
  note res = div_mod_result_correct [OF as(3) bs(3) len(1) bs(4) as(4) close s_def, of is_mod, folded res_def N_def]
  have eq: "ecma_big_uint_div_mod A c l r is_mod =
     (case ecma_big_uint_div_shift_left A c l s True of
         (c1, None) \<Rightarrow> (c1, NULL)
       | (c1, Some (q, buffer)) \<Rightarrow>
          (case (if s > 0 then ecma_big_uint_div_shift_left A c1 r s False else (c1, Some (r, digits (obj c1 r)))) of
             (c2, None) \<Rightarrow> (free_buffer A c2 q (ECMA_BIGINT_GET_SIZE (obj c1 l) + 4), NULL)
           | (c2, Some (d, divisor)) \<Rightarrow>
              div_mod_finish A c2 q (ECMA_BIGINT_GET_SIZE (obj c1 l)) d (4 * ?m) s (div_mod_result is_mod divisor buffer s)))"
    using bs(4) unfolding ecma_big_uint_div_mod_def bs(1,2) s_def [symmetric] Let_def by simp
  show ?thesis
    unfolding N_def [symmetric]
  proof (rule div_shift_left_cases [OF inv as(1,2) len(3), of s True])
    fix c1
    assume "ecma_big_uint_div_shift_left A c l s True = (c1, None)" "ctx_inv holds X c1" "store c1 = store c" "failed (heap c1)"
    then show "yields holds failed X (store c) N (ecma_big_uint_div_mod A c l r is_mod)" by (simp add: eq yields_NULL)
  next
    fix c1 q
    assume sl: "ecma_big_uint_div_shift_left A c l s True = (c1, Some (q,
        if s = 0 then ?a @ [0] else (let (out, carry) = shift_left_loop s ?a 0 in out @ (if True then [carry] else []))))"
      and q: "q \<notin> dom X" "ctx_inv holds (X(q \<mapsto> 4 * ?n + (if True then 4 else 0))) c1" "store c1 = store c"
    have objs: "obj c1 l = as" "obj c1 r = bs" using q(3) as(1) bs(1) by (simp_all add: obj_def)
    have inv1: "ctx_inv holds (X(q \<mapsto> 4 * ?n + 4)) c1" using q(2) by simp
    have "ecma_big_uint_div_shift_left A c l s True = (c1, Some (q, shifted_dividend s ?a))"
      using sl by (simp add: shifted_dividend_def)
    then have eq1: "ecma_big_uint_div_mod A c l r is_mod =
        (case (if s > 0 then ecma_big_uint_div_shift_left A c1 r s False else (c1, Some (r, ?b))) of
           (c2, None) \<Rightarrow> (free_buffer A c2 q (4 * ?n + 4), NULL)
         | (c2, Some (d, divisor)) \<Rightarrow>
             div_mod_finish A c2 q (4 * ?n) d (4 * ?m) s (div_mod_result is_mod divisor (shifted_dividend s ?a) s))"
      by (simp add: eq objs as(2))
    show "yields holds failed X (store c) N (ecma_big_uint_div_mod A c l r is_mod)"
    proof (cases "s = 0")
      case True
      then have "shifted_divisor s ?b = ?b" by (simp add: shifted_divisor_def)
      with True eq1 div_mod_finish_yields [OF res q(1), of s "4 * ?n" r "4 * ?m" c1] inv1 q(3) show ?thesis by (simp add: res_def)
    next
      case False
      show ?thesis
      proof (rule div_shift_left_cases [OF inv1 objs(2) bs(2) len(2), of s False])
        fix c2
        assume "ecma_big_uint_div_shift_left A c1 r s False = (c2, None)" "ctx_inv holds (X(q \<mapsto> 4 * ?n + 4)) c2"
          "store c2 = store c1" "failed (heap c2)"
        with False q(3) show ?thesis unfolding eq1 by (simp add: free_buffer_yields [OF _ q(1)] yields_NULL)
      next
        fix c2 d
        assume sl: "ecma_big_uint_div_shift_left A c1 r s False = (c2, Some (d,
            if s = 0 then ?b @ [0] else (let (out, carry) = shift_left_loop s ?b 0 in out @ (if False then [carry] else []))))"
          and d: "d \<notin> dom (X(q \<mapsto> 4 * ?n + 4))" "ctx_inv holds (X(q \<mapsto> 4 * ?n + 4, d \<mapsto> 4 * ?m + (if False then 4 else 0))) c2"
            "store c2 = store c1"
        have "ecma_big_uint_div_shift_left A c1 r s False = (c2, Some (d, shifted_divisor s ?b))"
          using sl False by (simp add: shifted_divisor_def split: prod.split)
        with False eq1 div_mod_finish_yields [OF res q(1), of s "4 * ?n" d "4 * ?m" c2] d q(3) show ?thesis by (simp add: res_def)
      qed
    qed
  qed
qed

lemma div_mod_correct:
  assumes inv: "ctx_inv holds X c" and "number (store c) l a" "number (store c) r b" "b \<le> a"
    and close: "division_estimates_close (digits (obj c l)) (digits (obj c r))"
  shows "yields holds failed X (store c) (if is_mod then a mod b else a div b) (ecma_big_uint_div_mod A c l r is_mod)"
proof -
  obtain as where as: "obj c l = as" "big_val (digits as) = a" "ECMA_BIGINT_GET_SIZE as = 4 * length (digits as)"
    "normalized (digits as)" "length (digits as) \<le> 16384" using assms(2) by (rule number_obj)
  obtain bs where bs: "obj c r = bs" "big_val (digits bs) = b" "ECMA_BIGINT_GET_SIZE bs = 4 * length (digits bs)"
    "normalized (digits bs)" using assms(3) by (rule number_obj)
  show ?thesis
  proof (cases "length (digits bs) = 1")
    case True
    then obtain v where v: "digits bs = [v]" by (auto simp: length_Suc_conv)
    then have "0 < v" "unat v = b" using bs(2,4) by (auto simp: normalized_def word_less_unat word_eq_unat)
    with div_digit_correct [OF inv assms(2), of v is_mod] assms(4) v show ?thesis
      by (cases is_mod) (simp_all add: ecma_big_uint_div_mod_def bs(1,3))
  next
    case False
    with long_division_correct [OF inv as(1,3,4,5) bs(1,3,4), of is_mod] as(2) bs(2) assms(4) close as(1) bs(1)
    show ?thesis by (cases is_mod) simp_all
  qed
qed

end

end
