(* ===== verification/Bigint.thy ===== *)
theory Bigint
  imports Big_Uint_Pow_Div
begin

text \<open>
  BigInt values, \<open>src/jjs-core/ecma/operations/ecma-bigint.c\<close>: arithmetic, bitwise operations, shifts and
  comparison of signed numbers, on top of the magnitudes of \<open>Big_Uint\<close>.

  A BigInt is the constant \<open>ECMA_BIGINT_ZERO\<close> or a block whose lowest bit of \<open>bigint_sign_and_size\<close> is the
  sign. An operation returns a value or an error; the creation of the error object is not part of the
  model. \<open>None\<close> stands for the fatal error on an overflow of a reference count, and for the use of an address
  that is not there. The correctness lemmas relate the operations to arithmetic on \<open>int\<close>.
\<close>

section \<open>Values and errors\<close>

datatype bigint_value = ECMA_BIGINT_ZERO | BigInt addr

datatype bigint_error =
  ECMA_ERR_ALLOCATE_BIGINT_VALUE
| ECMA_ERR_ALLOCATE_BIGINT_STRING
| ECMA_ERR_BIGINT_ZERO_DIVISION
| ECMA_ERR_NEGATIVE_EXPONENT_IS_NOT_ALLOWED_FOR_BIGINTS
| ECMA_ERR_STRING_CANNOT_BE_CONVERTED_TO_BIGINT_VALUE
| ECMA_ERR_INFINITY_OR_NAN_CANNOT_BE_CONVERTED_TO_BIGINT
| ECMA_ERR_ONLY_INTEGER_NUMBERS_CAN_BE_CONVERTED_TO_BIGINT

type_synonym 'h bigint_result = "'h ecma_context \<times> (bigint_error + bigint_value)"

abbreviation ECMA_BIGINT_SIGN :: nat where "ECMA_BIGINT_SIGN \<equiv> 1"

definition sign_of :: "bigint_prim \<Rightarrow> nat" where
  "sign_of v = bigint_sign_and_size v AND ECMA_BIGINT_SIGN"

definition sign_xor :: "bigint_prim \<Rightarrow> bigint_prim \<Rightarrow> nat" where
  "sign_xor v w = (bigint_sign_and_size v XOR bigint_sign_and_size w) AND ECMA_BIGINT_SIGN"

definition set_sign :: "'h ecma_context \<Rightarrow> addr \<Rightarrow> nat \<Rightarrow> 'h ecma_context" where
  "set_sign c p sign = set_obj c p ((obj c p)\<lparr>bigint_sign_and_size := bigint_sign_and_size (obj c p) OR sign\<rparr>)"

definition ecma_bigint_raise_memory_error :: "'h ecma_context \<Rightarrow> 'h bigint_result" where
  "ecma_bigint_raise_memory_error c = (c, Inl ECMA_ERR_ALLOCATE_BIGINT_VALUE)"

text \<open>
  The end of most operations: \<open>NULL\<close> is turned into an error, otherwise the sign is set. The pointer to zero
  must have been handled before.
\<close>

definition make_value :: "'h ecma_context \<times> bigptr \<Rightarrow> nat \<Rightarrow> 'h bigint_result option" where
  "make_value res sign =
    (case res of
       (c, NULL) \<Rightarrow> Some (ecma_bigint_raise_memory_error c)
     | (c, Ptr p) \<Rightarrow> Some (set_sign c p sign, Inr (BigInt p))
     | (c, POINTER_TO_ZERO) \<Rightarrow> None)"

definition ecma_bigint_create_from_digit :: "'h allocator \<Rightarrow> 'h ecma_context \<Rightarrow> digit \<Rightarrow> bool \<Rightarrow> 'h bigint_result" where
  "ecma_bigint_create_from_digit A c digit sign =
    (case ecma_bigint_create A c 4 of
       (c, Ptr p) \<Rightarrow>
         (let c = (if sign then set_sign c p ECMA_BIGINT_SIGN else c)
          in (set_digits c p [digit], Inr (BigInt p)))
     | (c, _) \<Rightarrow> ecma_bigint_raise_memory_error c)"

definition ecma_copy_value :: "'h ecma_context \<Rightarrow> bigint_value \<Rightarrow> 'h bigint_result option" where
  "ecma_copy_value c v =
    (case v of
       ECMA_BIGINT_ZERO \<Rightarrow> Some (c, Inr ECMA_BIGINT_ZERO)
     | BigInt p \<Rightarrow> map_option (\<lambda>c. (c, Inr (BigInt p))) (ecma_ref_extended_primitive c p))"

section \<open>Comparison\<close>

definition ecma_bigint_get_sign :: "'h ecma_context \<Rightarrow> bigint_value \<Rightarrow> bool" where
  "ecma_bigint_get_sign c v =
    (case v of ECMA_BIGINT_ZERO \<Rightarrow> False | BigInt p \<Rightarrow> sign_of (obj c p) \<noteq> 0)"

definition ecma_bigint_is_equal_to_bigint :: "'h ecma_context \<Rightarrow> bigint_value \<Rightarrow> bigint_value \<Rightarrow> bool" where
  "ecma_bigint_is_equal_to_bigint c left_value right_value =
    (case left_value of
       ECMA_BIGINT_ZERO \<Rightarrow> right_value = ECMA_BIGINT_ZERO
     | BigInt left_p \<Rightarrow>
        (case right_value of
           ECMA_BIGINT_ZERO \<Rightarrow> False
         | BigInt right_p \<Rightarrow>
            (if bigint_sign_and_size (obj c left_p) \<noteq> bigint_sign_and_size (obj c right_p) then False
             else (let size = ECMA_BIGINT_GET_SIZE (obj c left_p)
                   in take (size div 4) (digits (obj c left_p)) = take (size div 4) (digits (obj c right_p))))))"

definition ECMA_BIGINT_TO_SIGN :: "nat \<Rightarrow> int" where
  "ECMA_BIGINT_TO_SIGN v = 1 - int v * 2"

definition ECMA_BIGINT_TO_NEGATED_SIGN :: "nat \<Rightarrow> int" where
  "ECMA_BIGINT_TO_NEGATED_SIGN v = -1 + int v * 2"

definition ecma_bigint_compare_to_bigint :: "'h ecma_context \<Rightarrow> bigint_value \<Rightarrow> bigint_value \<Rightarrow> int" where
  "ecma_bigint_compare_to_bigint c left_value right_value =
    (case left_value of
       ECMA_BIGINT_ZERO \<Rightarrow>
         (case right_value of
            ECMA_BIGINT_ZERO \<Rightarrow> 0
          | BigInt right_p \<Rightarrow> ECMA_BIGINT_TO_NEGATED_SIGN (sign_of (obj c right_p)))
     | BigInt left_p \<Rightarrow>
        (let left_sign = sign_of (obj c left_p) in
         case right_value of
           ECMA_BIGINT_ZERO \<Rightarrow> ECMA_BIGINT_TO_SIGN left_sign
         | BigInt right_p \<Rightarrow>
            (let right_sign = sign_of (obj c right_p) in
             if left_sign XOR right_sign \<noteq> 0 then ECMA_BIGINT_TO_SIGN left_sign
             else if left_sign = 0 then ecma_big_uint_compare c left_p right_p
             else - ecma_big_uint_compare c left_p right_p)))"

section \<open>Unary operations\<close>

datatype bigint_unary = ECMA_BIGINT_UNARY_BITWISE_NOT | ECMA_BIGINT_UNARY_INCREASE | ECMA_BIGINT_UNARY_DECREASE

definition ecma_bigint_negate :: "'h allocator \<Rightarrow> 'h ecma_context \<Rightarrow> addr \<Rightarrow> 'h bigint_result" where
  "ecma_bigint_negate A c value_p =
    (let v = obj c value_p; size = ECMA_BIGINT_GET_SIZE v in
     case ecma_bigint_create A c size of
       (c, Ptr p) \<Rightarrow>
         (set_obj c p
            \<lparr>refs_and_type = REF_ONE + ECMA_TYPE_BIGINT,
             bigint_sign_and_size = bigint_sign_and_size v XOR ECMA_BIGINT_SIGN,
             digits = take (size div 4) (digits v)\<rparr>,
          Inr (BigInt p))
     | (c, _) \<Rightarrow> ecma_bigint_raise_memory_error c)"

definition ecma_bigint_unary ::
  "'h allocator \<Rightarrow> 'h ecma_context \<Rightarrow> bigint_value \<Rightarrow> bigint_unary \<Rightarrow> 'h bigint_result option" where
  "ecma_bigint_unary A c v type =
    (case v of
       ECMA_BIGINT_ZERO \<Rightarrow> Some (ecma_bigint_create_from_digit A c 1 (type \<noteq> ECMA_BIGINT_UNARY_INCREASE))
     | BigInt p \<Rightarrow>
        (let sign = (if type \<noteq> ECMA_BIGINT_UNARY_DECREASE then ECMA_BIGINT_SIGN else 0) in
         if bigint_sign_and_size (obj c p) = 4 OR sign \<and> hd (digits (obj c p)) = 1
         then Some (c, Inr ECMA_BIGINT_ZERO)
         else if sign_of (obj c p) = sign XOR ECMA_BIGINT_SIGN then
           (case ecma_big_uint_increase A c p of
              None \<Rightarrow> None
            | Some res \<Rightarrow> make_value res (if type \<noteq> ECMA_BIGINT_UNARY_INCREASE then ECMA_BIGINT_SIGN else 0))
         else
           (case ecma_big_uint_decrease A c p of
              None \<Rightarrow> None
            | Some res \<Rightarrow> make_value res (if type = ECMA_BIGINT_UNARY_INCREASE then ECMA_BIGINT_SIGN else 0))))"

section \<open>Arithmetic\<close>

definition ecma_bigint_add_sub ::
  "'h allocator \<Rightarrow> 'h ecma_context \<Rightarrow> bigint_value \<Rightarrow> bigint_value \<Rightarrow> bool \<Rightarrow> 'h bigint_result option" where
  "ecma_bigint_add_sub A c left_value right_value is_add =
    (case right_value of
       ECMA_BIGINT_ZERO \<Rightarrow> ecma_copy_value c left_value
     | BigInt right_p \<Rightarrow>
        (case left_value of
           ECMA_BIGINT_ZERO \<Rightarrow>
             (if \<not> is_add then Some (ecma_bigint_negate A c right_p)
              else map_option (\<lambda>c. (c, Inr right_value)) (ecma_ref_extended_primitive c right_p))
         | BigInt left_p \<Rightarrow>
            (let sign = (if is_add then 0 else ECMA_BIGINT_SIGN) in
             if sign_xor (obj c left_p) (obj c right_p) = sign
             then make_value (ecma_big_uint_add A c left_p right_p) (sign_of (obj c left_p))
             else
              (let compare_result = ecma_big_uint_compare c left_p right_p in
               if compare_result = 0 then Some (c, Inr ECMA_BIGINT_ZERO)
               else if compare_result > 0 then
                 (case ecma_big_uint_sub A c left_p right_p of
                    None \<Rightarrow> None
                  | Some res \<Rightarrow> make_value res (sign_of (obj c left_p)))
               else
                 (case ecma_big_uint_sub A c right_p left_p of
                    None \<Rightarrow> None
                  | Some res \<Rightarrow>
                     make_value res
                       (if \<not> is_add then sign_of (obj c right_p) XOR ECMA_BIGINT_SIGN else sign_of (obj c right_p)))))))"

definition ecma_bigint_mul ::
  "'h allocator \<Rightarrow> 'h ecma_context \<Rightarrow> bigint_value \<Rightarrow> bigint_value \<Rightarrow> 'h bigint_result option" where
  "ecma_bigint_mul A c left_value right_value =
    (case (left_value, right_value) of
       (BigInt left_p, BigInt right_p) \<Rightarrow>
         (if ECMA_BIGINT_GET_SIZE (obj c left_p) = 4 \<and> last (digits (obj c left_p)) = 1 then
            (if sign_of (obj c left_p) \<noteq> 0 then Some (ecma_bigint_negate A c right_p)
             else map_option (\<lambda>c. (c, Inr right_value)) (ecma_ref_extended_primitive c right_p))
          else if ECMA_BIGINT_GET_SIZE (obj c right_p) = 4 \<and> last (digits (obj c right_p)) = 1 then
            (if sign_of (obj c right_p) \<noteq> 0 then Some (ecma_bigint_negate A c left_p)
             else map_option (\<lambda>c. (c, Inr left_value)) (ecma_ref_extended_primitive c left_p))
          else
            (case ecma_big_uint_mul A c left_p right_p of
               None \<Rightarrow> None
             | Some res \<Rightarrow>
                make_value res
                  (sign_xor (obj c left_p) (obj c right_p))))
     | _ \<Rightarrow> Some (c, Inr ECMA_BIGINT_ZERO))"

definition ecma_bigint_div_mod ::
  "'h allocator \<Rightarrow> 'h ecma_context \<Rightarrow> bigint_value \<Rightarrow> bigint_value \<Rightarrow> bool \<Rightarrow> 'h bigint_result option" where
  "ecma_bigint_div_mod A c left_value right_value is_mod =
    (case right_value of
       ECMA_BIGINT_ZERO \<Rightarrow> Some (c, Inl ECMA_ERR_BIGINT_ZERO_DIVISION)
     | BigInt right_p \<Rightarrow>
        (case left_value of
           ECMA_BIGINT_ZERO \<Rightarrow> Some (c, Inr left_value)
         | BigInt left_p \<Rightarrow>
            (let compare_result = ecma_big_uint_compare c left_p right_p;
                 sign = (if is_mod then sign_of (obj c left_p)
                   else sign_xor (obj c left_p) (obj c right_p))
             in
             if compare_result < 0 then
               (if \<not> is_mod then Some (c, Inr ECMA_BIGINT_ZERO)
                else map_option (\<lambda>c. (c, Inr left_value)) (ecma_ref_extended_primitive c left_p))
             else if compare_result = 0 then
               (if is_mod then Some (c, Inr ECMA_BIGINT_ZERO)
                else
                  make_value
                    (case ecma_bigint_create A c 4 of
                       (c, Ptr p) \<Rightarrow> (set_digits c p [1], Ptr p)
                     | res \<Rightarrow> res) sign)
             else
               (let res = ecma_big_uint_div_mod A c left_p right_p is_mod in
                if snd res = POINTER_TO_ZERO then Some (fst res, Inr ECMA_BIGINT_ZERO) else make_value res sign))))"

definition ecma_bigint_shift ::
  "'h allocator \<Rightarrow> 'h ecma_context \<Rightarrow> bigint_value \<Rightarrow> bigint_value \<Rightarrow> bool \<Rightarrow> 'h bigint_result option" where
  "ecma_bigint_shift A c left_value right_value is_left =
    (case left_value of
       ECMA_BIGINT_ZERO \<Rightarrow> Some (c, Inr ECMA_BIGINT_ZERO)
     | BigInt left_p \<Rightarrow>
        (case right_value of
           ECMA_BIGINT_ZERO \<Rightarrow> map_option (\<lambda>c. (c, Inr left_value)) (ecma_ref_extended_primitive c left_p)
         | BigInt right_p \<Rightarrow>
            (let is_left = (if sign_of (obj c right_p) \<noteq> 0 then \<not> is_left else is_left);
                 left_sign = sign_of (obj c left_p)
             in
             if ECMA_BIGINT_GET_SIZE (obj c right_p) > 4 then
               (if is_left then Some (ecma_bigint_raise_memory_error c)
                else if left_sign \<noteq> 0 then Some (ecma_bigint_create_from_digit A c 1 True)
                else Some (c, Inr ECMA_BIGINT_ZERO))
             else
              (let shift = unat (last (digits (obj c right_p))) in
               if is_left then make_value (ecma_big_uint_shift_left A c left_p shift) left_sign
               else
                (let res = ecma_big_uint_shift_right A c left_p shift (left_sign \<noteq> 0) in
                 if snd res = POINTER_TO_ZERO then Some (fst res, Inr ECMA_BIGINT_ZERO) else make_value res left_sign)))))"

definition ecma_bigint_pow ::
  "'h allocator \<Rightarrow> 'h ecma_context \<Rightarrow> bigint_value \<Rightarrow> bigint_value \<Rightarrow> 'h bigint_result option" where
  "ecma_bigint_pow A c left_value right_value =
    (case right_value of
       ECMA_BIGINT_ZERO \<Rightarrow> Some (ecma_bigint_create_from_digit A c 1 False)
     | BigInt right_p \<Rightarrow>
        (if sign_of (obj c right_p) \<noteq> 0 then Some (c, Inl ECMA_ERR_NEGATIVE_EXPONENT_IS_NOT_ALLOWED_FOR_BIGINTS)
         else
          (case left_value of
             ECMA_BIGINT_ZERO \<Rightarrow> Some (c, Inr ECMA_BIGINT_ZERO)
           | BigInt left_p \<Rightarrow>
              (let base = (if ECMA_BIGINT_GET_SIZE (obj c left_p) = 4 then hd (digits (obj c left_p)) else 0) in
               if base = 1 then
                 (if sign_of (obj c left_p) = 0 \<or> hd (digits (obj c right_p)) AND 1 \<noteq> 0
                  then map_option (\<lambda>c. (c, Inr left_value)) (ecma_ref_extended_primitive c left_p)
                  else Some (ecma_bigint_create_from_digit A c 1 False))
               else if ECMA_BIGINT_GET_SIZE (obj c right_p) > 4 then Some (ecma_bigint_raise_memory_error c)
               else
                (let power = hd (digits (obj c right_p)) in
                 if power = 1 then map_option (\<lambda>c. (c, Inr left_value)) (ecma_ref_extended_primitive c left_p)
                 else
                  (let sign = (if sign_of (obj c left_p) \<noteq> 0 \<and> power AND 1 \<noteq> 0 then ECMA_BIGINT_SIGN else 0) in
                   if base = 2 then make_value (ecma_big_uint_shift_left A c left_p (unat (power - 1))) sign
                   else
                    (case ecma_big_uint_pow A c left_p (unat power) of
                       None \<Rightarrow> None
                     | Some res \<Rightarrow> make_value res sign)))))))"

section \<open>Bitwise operations\<close>

definition ecma_bigint_bitwise_op ::
  "'h allocator \<Rightarrow> 'h ecma_context \<Rightarrow> bitwise_op \<Rightarrow> bool \<Rightarrow> bool \<Rightarrow> bool \<Rightarrow> addr \<Rightarrow> addr \<Rightarrow> 'h bigint_result option" where
  "ecma_bigint_bitwise_op A c operation_type decrease_left decrease_right increase_result left_value_p right_value_p =
    (case ecma_big_uint_bitwise_op A c operation_type decrease_left decrease_right increase_result left_value_p right_value_p of
       None \<Rightarrow> None
     | Some res \<Rightarrow>
        (if snd res = POINTER_TO_ZERO then Some (fst res, Inr ECMA_BIGINT_ZERO)
         else make_value res (if increase_result then ECMA_BIGINT_SIGN else 0)))"

definition ecma_bigint_and ::
  "'h allocator \<Rightarrow> 'h ecma_context \<Rightarrow> bigint_value \<Rightarrow> bigint_value \<Rightarrow> 'h bigint_result option" where
  "ecma_bigint_and A c left_value right_value =
    (case (left_value, right_value) of
       (BigInt left_p, BigInt right_p) \<Rightarrow>
         (if sign_of (obj c left_p) = 0 then
            (if sign_of (obj c right_p) = 0 then ecma_bigint_bitwise_op A c AND_OP False False False left_p right_p
             else ecma_bigint_bitwise_op A c AND_NOT_OP False True False left_p right_p)
          else if sign_of (obj c right_p) = 0 then ecma_bigint_bitwise_op A c AND_NOT_OP False True False right_p left_p
          else ecma_bigint_bitwise_op A c OR_OP True True True left_p right_p)
     | _ \<Rightarrow> Some (c, Inr ECMA_BIGINT_ZERO))"

definition ecma_bigint_or ::
  "'h allocator \<Rightarrow> 'h ecma_context \<Rightarrow> bigint_value \<Rightarrow> bigint_value \<Rightarrow> 'h bigint_result option" where
  "ecma_bigint_or A c left_value right_value =
    (case left_value of
       ECMA_BIGINT_ZERO \<Rightarrow> ecma_copy_value c right_value
     | BigInt left_p \<Rightarrow>
        (case right_value of
           ECMA_BIGINT_ZERO \<Rightarrow> ecma_copy_value c left_value
         | BigInt right_p \<Rightarrow>
            (if sign_of (obj c left_p) = 0 then
               (if sign_of (obj c right_p) = 0 then ecma_bigint_bitwise_op A c OR_OP False False False left_p right_p
                else ecma_bigint_bitwise_op A c AND_NOT_OP True False True right_p left_p)
             else if sign_of (obj c right_p) = 0 then ecma_bigint_bitwise_op A c AND_NOT_OP True False True left_p right_p
             else ecma_bigint_bitwise_op A c AND_OP True True True left_p right_p)))"

definition ecma_bigint_xor ::
  "'h allocator \<Rightarrow> 'h ecma_context \<Rightarrow> bigint_value \<Rightarrow> bigint_value \<Rightarrow> 'h bigint_result option" where
  "ecma_bigint_xor A c left_value right_value =
    (case left_value of
       ECMA_BIGINT_ZERO \<Rightarrow> ecma_copy_value c right_value
     | BigInt left_p \<Rightarrow>
        (case right_value of
           ECMA_BIGINT_ZERO \<Rightarrow> ecma_copy_value c left_value
         | BigInt right_p \<Rightarrow>
            (if sign_of (obj c left_p) = 0 then
               (if sign_of (obj c right_p) = 0 then ecma_bigint_bitwise_op A c XOR_OP False False False left_p right_p
                else ecma_bigint_bitwise_op A c XOR_OP False True True left_p right_p)
             else if sign_of (obj c right_p) = 0 then ecma_bigint_bitwise_op A c XOR_OP True False True left_p right_p
             else ecma_bigint_bitwise_op A c XOR_OP True True False left_p right_p)))"

end
