(* ===== verification/Bigint_Correct.thy ===== *)
theory Bigint_Correct
  imports Bigint
begin

text \<open>
  Correctness of the operations of \<open>Bigint\<close>: they compute on \<open>int\<close>, and their effect on memory is exact. A result
  is a new block, a reference to an operand, or zero; an error leaves the values as they were.
\<close>

section \<open>Specification\<close>

definition int_of_prim :: "bigint_prim \<Rightarrow> int" where
  "int_of_prim v = (if odd (bigint_sign_and_size v) then - int (big_val (digits v)) else int (big_val (digits v)))"

definition bigint :: "(addr \<rightharpoonup> bigint_prim) \<Rightarrow> bigint_value \<Rightarrow> int \<Rightarrow> bool" where
  "bigint st v z \<longleftrightarrow>
    (case v of
       ECMA_BIGINT_ZERO \<Rightarrow> z = 0
     | BigInt p \<Rightarrow> (case st p of None \<Rightarrow> False
         | Some w \<Rightarrow> wf_prim w \<and> bigint_sign_and_size w mod 4 < 2 \<and> int_of_prim w = z))"

text \<open>An operand: a value whose reference count has room for one more reference.\<close>

definition operand :: "(addr \<rightharpoonup> bigint_prim) \<Rightarrow> bigint_value \<Rightarrow> int \<Rightarrow> bool" where
  "operand st v z \<longleftrightarrow> bigint st v z \<and>
    (case v of ECMA_BIGINT_ZERO \<Rightarrow> True | BigInt p \<Rightarrow> refs_and_type (the (st p)) < ECMA_EXTENDED_PRIMITIVE_MAX_REF)"

text \<open>The store after an operation that returned \<open>v\<close>: nothing new for zero, one new value, or one more reference.\<close>

definition gains :: "(addr \<rightharpoonup> bigint_prim) \<Rightarrow> bigint_value \<Rightarrow> (addr \<rightharpoonup> bigint_prim) \<Rightarrow> bool" where
  "gains st v st' \<longleftrightarrow>
    (case v of
       ECMA_BIGINT_ZERO \<Rightarrow> st' = st
     | BigInt p \<Rightarrow>
        (case st p of
           None \<Rightarrow> \<exists>w. refs_and_type w = REF_ONE + ECMA_TYPE_BIGINT \<and> st' = st(p \<mapsto> w)
         | Some w \<Rightarrow> st' = st(p \<mapsto> w\<lparr>refs_and_type := refs_and_type w + REF_ONE\<rparr>)))"

definition returns :: "('h \<Rightarrow> (addr \<rightharpoonup> nat) \<Rightarrow> bool) \<Rightarrow> ('h \<Rightarrow> bool) \<Rightarrow> (addr \<rightharpoonup> nat) \<Rightarrow> (addr \<rightharpoonup> bigint_prim) \<Rightarrow>
    bigint_error + int \<Rightarrow> 'h bigint_result option \<Rightarrow> bool" where
  "returns holds failed X st outcome ores \<longleftrightarrow>
    (\<exists>c r. ores = Some (c, r) \<and> ctx_inv holds X c \<and>
      (case outcome of
         Inl e \<Rightarrow> r = Inl e \<and> store c = st
       | Inr z \<Rightarrow>
          (case r of
             Inl e \<Rightarrow> e = ECMA_ERR_ALLOCATE_BIGINT_VALUE \<and> store c = st \<and> (failed (heap c) \<or> big_limit \<le> nat \<bar>z\<bar>)
           | Inr v \<Rightarrow> bigint (store c) v z \<and> gains st v (store c))))"

section \<open>Values\<close>

lemma sign_of_iff: "sign_of v = of_bool (odd (bigint_sign_and_size v))"
  by (simp add: sign_of_def and_one_eq mod_2_eq_odd)

lemma sign_xor_iff: "sign_xor v w = of_bool (odd (bigint_sign_and_size v) \<noteq> odd (bigint_sign_and_size w))"
proof -
  have "odd (a XOR b) \<longleftrightarrow> odd a \<noteq> odd b" for a b :: nat by (simp add: even_xor_iff)
  then show ?thesis by (simp add: sign_xor_def and_one_eq mod_2_eq_odd)
qed

lemma mod4_sign:
  assumes "(n :: nat) mod 4 < 2"
  shows "n mod 4 = of_bool (odd n)"
proof -
  have "n mod 4 = n mod 4 mod 2" using assms by simp
  also have "\<dots> = n mod 2" by (simp add: mod_mod_cancel)
  finally show ?thesis by (simp add: mod_2_eq_odd)
qed

lemma bigint_zero [simp]: "bigint st ECMA_BIGINT_ZERO z \<longleftrightarrow> z = 0"
  by (simp add: bigint_def)

lemma bigint_obj:
  assumes "bigint (store c) (BigInt p) z"
  obtains v where "store c p = Some v" "obj c p = v" "number (store c) p (nat \<bar>z\<bar>)" "odd (bigint_sign_and_size v) \<longleftrightarrow> z < 0" "z \<noteq> 0"
    "ECMA_BIGINT_GET_SIZE v = 4 * length (digits v)" "bigint_sign_and_size v = 4 * length (digits v) + of_bool (z < 0)"
    "big_val (digits v) = nat \<bar>z\<bar>" "normalized (digits v)" "length (digits v) \<le> 16384" "0 < length (digits v)"
proof -
  from assms obtain v where v: "store c p = Some v" "wf_prim v" "bigint_sign_and_size v mod 4 < 2" "int_of_prim v = z"
    by (auto simp: bigint_def split: option.splits)
  from v(2) have n: "normalized (digits v)" "length (digits v) \<le> 16384" "bigint_sign_and_size v div 4 = length (digits v)"
    by (simp_all add: wf_prim_def)
  have "(0 :: nat) < base ^ (length (digits v) - 1)" by simp
  with normalized_ge [OF n(1)] have pos: "0 < big_val (digits v)" by linarith
  have sgn: "odd (bigint_sign_and_size v) \<longleftrightarrow> z < 0" using v(4) pos by (auto simp: int_of_prim_def)
  have abs: "big_val (digits v) = nat \<bar>z\<bar>" using v(4) by (auto simp: int_of_prim_def)
  have "bigint_sign_and_size v mod 4 = of_bool (odd (bigint_sign_and_size v))"
    by (rule mod4_sign [OF v(3)])
  then have "bigint_sign_and_size v = 4 * length (digits v) + of_bool (z < 0)"
    using n(3) sgn div_mult_mod_eq [of "bigint_sign_and_size v" 4] by simp
  moreover have "number (store c) p (nat \<bar>z\<bar>)" using v abs by (simp add: number_def)
  moreover have "z \<noteq> 0" using pos abs by auto
  ultimately show thesis
    using v n sgn abs wf_prim_size [OF v(2)] by (intro that [of v]) (auto simp: obj_def normalized_def)
qed

lemma returns_Some: "returns holds failed X st out (Some (c, r)) \<longleftrightarrow> ctx_inv holds X c \<and>
      (case out of
         Inl e \<Rightarrow> r = Inl e \<and> store c = st
       | Inr z \<Rightarrow>
          (case r of
             Inl e \<Rightarrow> e = ECMA_ERR_ALLOCATE_BIGINT_VALUE \<and> store c = st \<and> (failed (heap c) \<or> big_limit \<le> nat \<bar>z\<bar>)
           | Inr v \<Rightarrow> bigint (store c) v z \<and> gains st v (store c)))"
  by (simp add: returns_def)

lemma returns_zero: "ctx_inv holds X c \<Longrightarrow> store c = st \<Longrightarrow> z = 0 \<Longrightarrow> returns holds failed X st (Inr z) (Some (c, Inr ECMA_BIGINT_ZERO))"
  by (simp add: returns_Some gains_def)

lemma returns_error: "ctx_inv holds X c \<Longrightarrow> store c = st \<Longrightarrow> returns holds failed X st (Inl e) (Some (c, Inl e))"
  by (simp add: returns_Some)

lemma returns_memory_error:
  "ctx_inv holds X c \<Longrightarrow> store c = st \<Longrightarrow> failed (heap c) \<or> big_limit \<le> nat \<bar>z\<bar> \<Longrightarrow>
    returns holds failed X st (Inr z) (Some (ecma_bigint_raise_memory_error c))"
  by (simp add: returns_Some ecma_bigint_raise_memory_error_def)

lemma signed_new_prim:
  assumes "wf_prim (new_prim ds)" "s = of_bool (z < 0)" "big_val ds = nat \<bar>z\<bar>"
  shows "bigint (st(p \<mapsto> (new_prim ds)\<lparr>bigint_sign_and_size := 4 * length ds OR s\<rparr>)) (BigInt p) z"
proof -
  have or: "4 * length ds OR s = 4 * length ds + s" by (rule nat_or_plus [of 1]) (auto simp: assms(2))
  show ?thesis using assms unfolding or
    by (auto simp: bigint_def wf_prim_def int_of_prim_def new_prim_def)
qed

lemma set_sign_inv:
  assumes "ctx_inv holds X c" "store c p = Some (new_prim ds)" "s \<le> 1"
  shows "ctx_inv holds X (set_sign c p s)"
proof -
  have or: "4 * length ds OR s = 4 * length ds + s" by (rule nat_or_plus [of 1]) (use assms(3) in auto)
  have "blocks (store (set_sign c p s)) = blocks (store c)"
    using assms(2,3) by (auto simp: set_sign_def obj_def blocks_def fun_eq_iff ECMA_BIGINT_GET_SIZE_def or)
  then show ?thesis using assms(1,2) by (auto simp: ctx_inv_def set_sign_def)
qed

text \<open>An unsigned result gets its sign.\<close>

lemma make_value_returns:
  assumes y: "yields holds failed X st n res" and z: "nat \<bar>z\<bar> = n" "z \<noteq> 0" and s: "s = of_bool (z < 0)"
  shows "returns holds failed X st (Inr z) (make_value res s)"
proof -
  obtain c r where res: "res = (c, r)" by fastforce
  show ?thesis
  proof (cases r)
    case NULL
    with y z show ?thesis unfolding res by (simp add: make_value_def returns_memory_error yields_def)
  next
    case POINTER_TO_ZERO
    with y z show ?thesis unfolding res by (auto simp: yields_def)
  next
    case (Ptr p)
    with y obtain ds where ds: "ctx_inv holds X c" "p \<notin> dom st" "store c = st(p \<mapsto> new_prim ds)" "wf_prim (new_prim ds)" "big_val ds = n"
      unfolding res by (auto simp: yields_def)
    have inv: "ctx_inv holds X (set_sign c p s)"
      using ds s by (intro set_sign_inv [where ds = ds]) simp_all
    have st: "store (set_sign c p s) = st(p \<mapsto> (new_prim ds)\<lparr>bigint_sign_and_size := 4 * length ds OR s\<rparr>)"
      using ds by (simp add: set_sign_def obj_def)
    have "bigint (store (set_sign c p s)) (BigInt p) z"
      unfolding st using ds(4,5) s z by (intro signed_new_prim) auto
    moreover have "gains st (BigInt p) (store (set_sign c p s))"
      unfolding st using ds(2) by (auto simp: gains_def dom_def intro!: exI [of _ "(new_prim ds)\<lparr>bigint_sign_and_size := 4 * length ds OR s\<rparr>"])
    ultimately show ?thesis using inv by (simp add: res Ptr make_value_def returns_Some)
  qed
qed

lemma make_value_returns_some:
  assumes "yields_some holds failed X st n ores" "nat \<bar>z\<bar> = n" "z \<noteq> 0" "s = of_bool (z < 0)"
  shows "returns holds failed X st (Inr z) (case ores of None \<Rightarrow> None | Some res \<Rightarrow> make_value res s)"
proof -
  from assms(1) obtain res where "ores = Some res" "yields holds failed X st n res" by (auto simp: yields_some_def)
  with make_value_returns [OF _ assms(2-4)] show ?thesis by simp
qed

text \<open>The same for operations that check for zero.\<close>

lemma make_value_or_zero:
  assumes y: "yields holds failed X st n res" and z: "nat \<bar>z\<bar> = n" and s: "z \<noteq> 0 \<Longrightarrow> s = of_bool (z < 0)"
  shows "returns holds failed X st (Inr z)
    (if snd res = POINTER_TO_ZERO then Some (fst res, Inr ECMA_BIGINT_ZERO) else make_value res s)"
proof (cases "snd res")
  case POINTER_TO_ZERO
  with y z show ?thesis by (cases res) (simp add: yields_def returns_zero)
next
  case NULL
  with y z show ?thesis by (cases res) (simp add: yields_def make_value_def returns_memory_error)
next
  case (Ptr p)
  with y have "n \<noteq> 0" 
    by (cases res) (auto simp: yields_def wf_new_prim dest!: normalized_ge)
  with make_value_returns [OF y z _ s] z Ptr show ?thesis by auto
qed

lemma ref_returns:
  assumes inv: "ctx_inv holds X c" and v: "operand (store c) (BigInt p) z"
  shows "returns holds failed X (store c) (Inr z) (map_option (\<lambda>c. (c, Inr (BigInt p))) (ecma_ref_extended_primitive c p))"
proof -
  obtain w where w: "store c p = Some w" "refs_and_type w < ECMA_EXTENDED_PRIMITIVE_MAX_REF"
    using v by (auto simp: operand_def bigint_def split: option.splits)
  let ?w = "w\<lparr>refs_and_type := refs_and_type w + REF_ONE\<rparr>"
  have "ecma_ref_extended_primitive c p = Some (set_obj c p ?w)"
    using w by (simp add: ecma_ref_extended_primitive_def obj_def Let_def)
  moreover have "blocks ((store c)(p \<mapsto> ?w)) = blocks (store c)"
    using w by (auto simp: blocks_def fun_eq_iff ECMA_BIGINT_GET_SIZE_def)
  then have "ctx_inv holds X (set_obj c p ?w)" using inv w(1) by (auto simp: ctx_inv_def)
  moreover have "bigint ((store c)(p \<mapsto> ?w)) (BigInt p) z"
    using v w by (auto simp: operand_def bigint_def wf_prim_def int_of_prim_def)
  ultimately show ?thesis using w(1) by (simp add: returns_Some gains_def)
qed

lemma copy_returns:
  assumes "ctx_inv holds X c" "operand (store c) v z"
  shows "returns holds failed X (store c) (Inr z) (ecma_copy_value c v)"
proof (cases v)
  case ECMA_BIGINT_ZERO
  with assms show ?thesis by (simp add: ecma_copy_value_def returns_zero operand_def)
next
  case (BigInt p)
  with assms ref_returns show ?thesis by (simp add: ecma_copy_value_def)
qed


lemma operand_facts:
  assumes "operand (store c) (BigInt p) z"
  shows "bigint (store c) (BigInt p) z" "number (store c) p (nat \<bar>z\<bar>)" "z \<noteq> 0"
    "sign_of (obj c p) = of_bool (z < 0)" "odd (bigint_sign_and_size (obj c p)) \<longleftrightarrow> z < 0"
proof -
  show b: "bigint (store c) (BigInt p) z" using assms by (simp add: operand_def)
  from b obtain v where "obj c p = v" "number (store c) p (nat \<bar>z\<bar>)" "odd (bigint_sign_and_size v) \<longleftrightarrow> z < 0" "z \<noteq> 0"
    by (rule bigint_obj)
  then show "number (store c) p (nat \<bar>z\<bar>)" "z \<noteq> 0" "sign_of (obj c p) = of_bool (z < 0)"
    "odd (bigint_sign_and_size (obj c p)) \<longleftrightarrow> z < 0" by (simp_all add: sign_of_iff)
qed

lemma operand_zero [simp]: "operand st ECMA_BIGINT_ZERO z \<longleftrightarrow> z = 0"
  by (simp add: operand_def)

section \<open>Comparison\<close>

lemma big_val_inj:
  assumes "normalized ls" "normalized rs" "big_val ls = big_val rs"
  shows "ls = rs"
proof -
  have "length ls = length rs"
    using big_val_length [of ls rs] big_val_length [of rs ls] assms by simp
  then show ?thesis using assms(3)
  proof (induction ls rs rule: list_induct2)
    case (Cons x xs y ys)
    have "unat x = unat x mod base" "unat y = unat y mod base" using unat_u32_less [of x] unat_u32_less [of y] by simp_all
    with Cons.prems have "unat x = unat y" by (metis big_val.simps(2) mod_mult_self2)
    with Cons show ?case by (simp add: word_eq_unat)
  qed simp
qed

lemma compare_greater:
  assumes "number (store c) l a" "number (store c) r b" "b < a"
  shows "ecma_big_uint_compare c l r = 1"
  using compare_correct [OF assms(1,2)] assms(3) by simp

lemma get_sign_correct: "bigint (store c) v z \<Longrightarrow> ecma_bigint_get_sign c v \<longleftrightarrow> z < 0"
  by (cases v) (auto simp: ecma_bigint_get_sign_def sign_of_iff elim!: bigint_obj)

lemma is_equal_correct:
  assumes "bigint (store c) l a" "bigint (store c) r b"
  shows "ecma_bigint_is_equal_to_bigint c l r \<longleftrightarrow> a = b"
proof (cases l; cases r)
  fix lp rp
  assume lr: "l = BigInt lp" "r = BigInt rp"
  from assms(1) [unfolded lr] obtain L where L: "obj c lp = L" "ECMA_BIGINT_GET_SIZE L = 4 * length (digits L)"
    "bigint_sign_and_size L = 4 * length (digits L) + of_bool (a < 0)" "big_val (digits L) = nat \<bar>a\<bar>" "normalized (digits L)"
    by (rule bigint_obj)
  from assms(2) [unfolded lr] obtain R where R: "obj c rp = R"
    "bigint_sign_and_size R = 4 * length (digits R) + of_bool (b < 0)" "big_val (digits R) = nat \<bar>b\<bar>" "normalized (digits R)"
    by (rule bigint_obj)
  have "(4 * length (digits L) + of_bool (a < 0) = 4 * length (digits R) + of_bool (b < 0) \<and> digits L = digits R) \<longleftrightarrow> a = b"
    using L R big_val_inj [OF L(5) R(4)] by auto
  then show ?thesis using L R by (auto simp: ecma_bigint_is_equal_to_bigint_def lr)
qed (use assms in \<open>auto simp: ecma_bigint_is_equal_to_bigint_def elim!: bigint_obj\<close>)

lemma compare_to_bigint_correct:
  assumes "bigint (store c) l a" "bigint (store c) r b"
  shows "ecma_bigint_compare_to_bigint c l r = (if a < b then -1 else if a = b then 0 else 1)"
proof (cases l; cases r)
  fix lp rp
  assume lr: "l = BigInt lp" "r = BigInt rp"
  from assms(1) [unfolded lr] obtain L where L: "obj c lp = L" "number (store c) lp (nat \<bar>a\<bar>)"
    "odd (bigint_sign_and_size L) \<longleftrightarrow> a < 0" "a \<noteq> 0" by (rule bigint_obj)
  from assms(2) [unfolded lr] obtain R where R: "obj c rp = R" "number (store c) rp (nat \<bar>b\<bar>)"
    "odd (bigint_sign_and_size R) \<longleftrightarrow> b < 0" "b \<noteq> 0" by (rule bigint_obj)
  show ?thesis
    using L(3,4) R(3,4) by (auto simp: ecma_bigint_compare_to_bigint_def lr L(1) R(1) sign_of_iff
        compare_correct [OF L(2) R(2)] ECMA_BIGINT_TO_SIGN_def)
qed (use assms in \<open>auto simp: ecma_bigint_compare_to_bigint_def ECMA_BIGINT_TO_SIGN_def ECMA_BIGINT_TO_NEGATED_SIGN_def sign_of_iff
    elim!: bigint_obj\<close>)

section \<open>Arithmetic\<close>

lemma single_digit: "normalized ds \<Longrightarrow> length ds = 1 \<longleftrightarrow> big_val ds < base"
proof -
  assume n: "normalized ds"
  have "big_val ds < base" if "length ds = 1" using big_val_less [of ds] that by simp
  moreover have "length ds = 1" if "big_val ds < base"
  proof -
    have "length ds \<le> length [of_nat (big_val ds) :: digit]"
      using n that by (intro big_val_length) (simp_all add: unat_of_nat)
    with n show ?thesis by (cases ds) (auto simp: normalized_def)
  qed
  ultimately show ?thesis by blast
qed

lemma single_digit_value: "length ds = 1 \<Longrightarrow> unat (hd ds) = big_val ds \<and> unat (last ds) = big_val ds"
  by (cases ds) auto

lemma bigint_size_4:
  assumes "bigint (store c) (BigInt p) z"
  shows "ECMA_BIGINT_GET_SIZE (obj c p) = 4 \<longleftrightarrow> nat \<bar>z\<bar> < base"
    "nat \<bar>z\<bar> < base \<Longrightarrow> unat (hd (digits (obj c p))) = nat \<bar>z\<bar>"
    "nat \<bar>z\<bar> < base \<Longrightarrow> unat (last (digits (obj c p))) = nat \<bar>z\<bar>"
    "ECMA_BIGINT_GET_SIZE (obj c p) > 4 \<longleftrightarrow> \<not> nat \<bar>z\<bar> < base"
proof -
  from assms obtain v where v: "obj c p = v" "ECMA_BIGINT_GET_SIZE v = 4 * length (digits v)" "big_val (digits v) = nat \<bar>z\<bar>"
    "normalized (digits v)" "0 < length (digits v)" by (rule bigint_obj)
  note s = single_digit [OF v(4), unfolded v(3)]
  show "ECMA_BIGINT_GET_SIZE (obj c p) = 4 \<longleftrightarrow> nat \<bar>z\<bar> < base" using s v by auto
  show "nat \<bar>z\<bar> < base \<Longrightarrow> unat (hd (digits (obj c p))) = nat \<bar>z\<bar>"
    "nat \<bar>z\<bar> < base \<Longrightarrow> unat (last (digits (obj c p))) = nat \<bar>z\<bar>"
    using s single_digit_value [of "digits v"] v by auto
  have "4 * length (digits v) > 4 \<longleftrightarrow> length (digits v) \<noteq> 1" using v(5) by presburger
  then show "ECMA_BIGINT_GET_SIZE (obj c p) > 4 \<longleftrightarrow> \<not> nat \<bar>z\<bar> < base" using s v by simp
qed

lemma bigint_one:
  assumes "bigint (store c) (BigInt p) z"
  shows "ECMA_BIGINT_GET_SIZE (obj c p) = 4 \<and> last (digits (obj c p)) = 1 \<longleftrightarrow> \<bar>z\<bar> = 1"
    "bigint_sign_and_size (obj c p) = 4 + of_bool b \<and> hd (digits (obj c p)) = 1 \<longleftrightarrow> z = (if b then -1 else 1)"
proof -
  note s = bigint_size_4 [OF assms]
  show "ECMA_BIGINT_GET_SIZE (obj c p) = 4 \<and> last (digits (obj c p)) = 1 \<longleftrightarrow> \<bar>z\<bar> = 1"
    using s(1,3) by (auto simp: word_eq_unat)
  from assms obtain v where v: "obj c p = v" "bigint_sign_and_size v = 4 * length (digits v) + of_bool (z < 0)"
    "ECMA_BIGINT_GET_SIZE v = 4 * length (digits v)" by (rule bigint_obj)
  have "bigint_sign_and_size v = 4 + of_bool b \<longleftrightarrow> length (digits v) = 1 \<and> (z < 0 \<longleftrightarrow> b)"
    unfolding v(2) by (cases "z < 0"; cases b) (simp_all, presburger+)
  then show "bigint_sign_and_size (obj c p) = 4 + of_bool b \<and> hd (digits (obj c p)) = 1 \<longleftrightarrow> z = (if b then -1 else 1)"
    using s(1,2) v by (auto simp: word_eq_unat)
qed

lemma limit_power: "big_limit = 2 ^ (32 * 16384)"
proof -
  have "big_limit = (2 ^ 32) ^ 16384" unfolding big_limit_def by (rule arg_cong [where f = "\<lambda>b. b ^ 16384"]) simp
  then show ?thesis by (simp only: power_mult)
qed

lemma limit_le_power: "base \<le> n \<Longrightarrow> big_limit \<le> 2 ^ n"
  unfolding limit_power by (intro power_increasing) simp_all

lemma number_less_limit: "number st p n \<Longrightarrow> n < big_limit"
proof -
  assume "number st p n"
  then obtain v where "wf_prim v" "n = big_val (digits v)" by (cases "st p") (simp_all add: number_def, blast)
  then have "length (digits v) \<le> 16384" "n = big_val (digits v)" by (simp_all add: wf_prim_def)
  moreover have "base ^ length (digits v) \<le> big_limit" if "length (digits v) \<le> 16384"
    unfolding big_limit_def using that by (intro power_increasing) simp_all
  ultimately show ?thesis using big_val_less [of "digits v"] by linarith
qed

lemma odd_hd: "ds \<noteq> [] \<Longrightarrow> hd ds AND 1 \<noteq> 0 \<longleftrightarrow> odd (big_val ds)" for ds :: "digit list"
proof -
  assume "ds \<noteq> []"
  then obtain d xs where ds: "ds = d # xs" by (cases ds) auto
  have "unat (d AND 1) = unat d mod 2" using unat_and_mask [of d 1] by simp
  then have "d AND 1 \<noteq> 0 \<longleftrightarrow> odd (unat d)" by (simp add: word_eq_unat mod_2_eq_odd)
  then show ?thesis unfolding ds by simp
qed

lemma floor_magnitude:
  fixes a :: int
  shows "nat \<bar>a div 2 ^ k\<bar> = nat \<bar>a\<bar> div 2 ^ k + (if a < 0 \<and> nat \<bar>a\<bar> mod 2 ^ k \<noteq> 0 then 1 else 0)"
    "a div 2 ^ k \<noteq> 0 \<Longrightarrow> a div 2 ^ k < 0 \<longleftrightarrow> a < 0"
proof -
  obtain m where m: "a = int m \<or> a = - int m" by (cases a rule: int_cases2) auto
  have p: "(0 :: int) < 2 ^ k" by simp
  have dm: "int m div 2 ^ k = int (m div 2 ^ k)" "int m mod 2 ^ k = int (m mod 2 ^ k)" by (simp_all add: zdiv_int zmod_int)
  have neg: "(- int m) div 2 ^ k = - int (m div 2 ^ k + (if m mod 2 ^ k \<noteq> 0 then 1 else 0))"
    by (simp add: zdiv_zminus1_eq_if dm)
  show "nat \<bar>a div 2 ^ k\<bar> = nat \<bar>a\<bar> div 2 ^ k + (if a < 0 \<and> nat \<bar>a\<bar> mod 2 ^ k \<noteq> 0 then 1 else 0)"
    using m
  proof
    assume "a = - int m"
    then show ?thesis by (cases "m = 0") (simp_all add: neg nat_int_add)
  qed (simp add: dm)
  show "a div 2 ^ k \<noteq> 0 \<Longrightarrow> a div 2 ^ k < 0 \<longleftrightarrow> a < 0"
    using p by (simp add: neg_imp_zdiv_neg_iff pos_imp_zdiv_neg_iff)
qed

lemma floor_small:
  fixes a :: int
  assumes "nat \<bar>a\<bar> < 2 ^ k"
  shows "a div 2 ^ k = (if a < 0 then -1 else 0)"
proof -
  have less: "\<bar>a\<bar> < 2 ^ k" using assms by (simp add: nat_less_iff)
  show ?thesis
  proof (cases "a < 0")
    case True
    have "(a + 2 ^ k) div 2 ^ k = 0" using less True by (intro div_pos_pos_trivial) auto
    then show ?thesis using True by (simp add: div_add_self2)
  next
    case False
    then show ?thesis using less by (simp add: div_pos_pos_trivial)
  qed
qed

lemma int_bit_ops:
  "int m AND NOT (int n) = int (nat_op AND_NOT_OP m n)" "NOT (int n) AND int m = int (nat_op AND_NOT_OP m n)"
  "NOT (int m) AND NOT (int n) = NOT (int (nat_op OR_OP m n))"
  "int m OR NOT (int n) = NOT (int (nat_op AND_NOT_OP n m))" "NOT (int m) OR int n = NOT (int (nat_op AND_NOT_OP m n))"
  "NOT (int m) OR NOT (int n) = NOT (int (nat_op AND_OP m n))"
  "int m XOR NOT (int n) = NOT (int (nat_op XOR_OP m n))" "NOT (int m) XOR int n = NOT (int (nat_op XOR_OP m n))"
  "NOT (int m) XOR NOT (int n) = int (nat_op XOR_OP m n)"
  "int m AND int n = int (nat_op AND_OP m n)" "int m OR int n = int (nat_op OR_OP m n)" "int m XOR int n = int (nat_op XOR_OP m n)"
  by (rule bit_eqI; auto simp: bit_simps bit_nat_op)+

lemma signed_bit_ops:
  fixes a b :: int
  defines "m \<equiv> nat \<bar>a\<bar> - of_bool (a < 0)" and "n \<equiv> nat \<bar>b\<bar> - of_bool (b < 0)"
  shows "a AND b =
      (if a < 0 then if b < 0 then NOT (int (nat_op OR_OP m n)) else int (nat_op AND_NOT_OP n m)
       else if b < 0 then int (nat_op AND_NOT_OP m n) else int (nat_op AND_OP m n))"
    "a OR b =
      (if a < 0 then if b < 0 then NOT (int (nat_op AND_OP m n)) else NOT (int (nat_op AND_NOT_OP m n))
       else if b < 0 then NOT (int (nat_op AND_NOT_OP n m)) else int (nat_op OR_OP m n))"
    "a XOR b =
      (if a < 0 then if b < 0 then int (nat_op XOR_OP m n) else NOT (int (nat_op XOR_OP m n))
       else if b < 0 then NOT (int (nat_op XOR_OP m n)) else int (nat_op XOR_OP m n))"
proof -
  have a: "a = (if a < 0 then NOT (int m) else int m)" and b: "b = (if b < 0 then NOT (int n) else int n)"
    by (simp_all add: m_def n_def not_int_def)
  then have "(a < 0 \<and> a = NOT (int m) \<or> \<not> a < 0 \<and> a = int m) \<and> (b < 0 \<and> b = NOT (int n) \<or> \<not> b < 0 \<and> b = int n)"
    by argo
  then show "a AND b =
      (if a < 0 then if b < 0 then NOT (int (nat_op OR_OP m n)) else int (nat_op AND_NOT_OP n m)
       else if b < 0 then int (nat_op AND_NOT_OP m n) else int (nat_op AND_OP m n))"
    "a OR b =
      (if a < 0 then if b < 0 then NOT (int (nat_op AND_OP m n)) else NOT (int (nat_op AND_NOT_OP m n))
       else if b < 0 then NOT (int (nat_op AND_NOT_OP n m)) else int (nat_op OR_OP m n))"
    "a XOR b =
      (if a < 0 then if b < 0 then int (nat_op XOR_OP m n) else NOT (int (nat_op XOR_OP m n))
       else if b < 0 then NOT (int (nat_op XOR_OP m n)) else int (nat_op XOR_OP m n))"
    by (elim conjE disjE; simp only: int_bit_ops if_True if_False simp_thms)+
qed

lemma sign_flip: "(4 * k + of_bool b) XOR ECMA_BIGINT_SIGN = 4 * k OR of_bool (\<not> b)" for k :: nat
proof -
  have "4 * k OR of_bool (\<not> b) = 4 * k + of_bool (\<not> b)" by (rule nat_or_plus [of 1]) auto
  then show ?thesis by (cases b) (simp_all add: xor_one_eq del: One_nat_def)
qed

lemma pow_operands:
  assumes l: "operand (store c) (BigInt lp) a" and r: "operand (store c) (BigInt rp) b" and b: "0 < b"
  shows "sign_of (obj c rp) = 0" "hd (digits (obj c rp)) AND 1 \<noteq> 0 \<longleftrightarrow> odd (nat b)"
    "nat \<bar>a ^ nat b\<bar> = nat \<bar>a\<bar> ^ nat b" "a ^ nat b \<noteq> 0"
    "(if sign_of (obj c lp) \<noteq> 0 \<and> hd (digits (obj c rp)) AND 1 \<noteq> 0 then ECMA_BIGINT_SIGN else 0) = of_bool (a ^ nat b < 0)"
    "d \<noteq> 0 \<Longrightarrow> (if ECMA_BIGINT_GET_SIZE (obj c lp) = 4 then hd (digits (obj c lp)) else 0) = d \<longleftrightarrow> nat \<bar>a\<bar> = unat d"
proof -
  note L = operand_facts [OF l] and R = operand_facts [OF r] and lsize = bigint_size_4 [OF operand_facts(1) [OF l]]
  show "sign_of (obj c rp) = 0" using b R(4) by simp
  obtain v where "obj c rp = v" "big_val (digits v) = nat b" "0 < length (digits v)"
    using R(1) b by (auto elim!: bigint_obj)
  then show odd: "hd (digits (obj c rp)) AND 1 \<noteq> 0 \<longleftrightarrow> odd (nat b)" using odd_hd [of "digits (obj c rp)"] by auto
  show "nat \<bar>a ^ nat b\<bar> = nat \<bar>a\<bar> ^ nat b" "a ^ nat b \<noteq> 0" using L(3) by (simp_all add: power_abs nat_power_eq)
  have "a ^ nat b < 0 \<longleftrightarrow> a < 0 \<and> odd (nat b)" using b by (simp add: power_less_zero_eq conj_commute)
  then show "(if sign_of (obj c lp) \<noteq> 0 \<and> hd (digits (obj c rp)) AND 1 \<noteq> 0 then ECMA_BIGINT_SIGN else 0) = of_bool (a ^ nat b < 0)"
    by (simp only: L(4) odd) simp
  show "d \<noteq> 0 \<Longrightarrow> (if ECMA_BIGINT_GET_SIZE (obj c lp) = 4 then hd (digits (obj c lp)) else 0) = d \<longleftrightarrow> nat \<bar>a\<bar> = unat d"
    using lsize unat_u32_less [of d] by (auto simp: word_eq_unat)
qed

context failing_heap
begin

lemma one_digit_yields:
  assumes inv: "ctx_inv holds X c" and d: "d \<noteq> 0"
  shows "yields holds failed X (store c) (unat d)
    (case ecma_bigint_create A c 4 of (c, Ptr p) \<Rightarrow> (set_digits c p [d], Ptr p) | res \<Rightarrow> res)"
proof -
  obtain c1 r where cr: "ecma_bigint_create A c (4 * 1) = (c1, r)" by fastforce
  consider p ds where "r = Ptr p" "owns holds X (store c) c1 p ds" "length ds = 1"
    | "r = NULL" "ctx_inv holds X c1" "store c1 = store c" "failed (heap c1)"
    using create_cases [OF inv _ cr] by auto
  then show ?thesis
  proof cases
    case 1
    have "yields holds failed X (store c) (unat d) (set_digits c1 p [d], Ptr p)"
      by (rule owns_yields [OF owns_set_digits [OF 1(2)]]) (use 1(3) d in \<open>simp_all add: normalized_def\<close>)
    with cr 1 show ?thesis by simp
  next
    case 2
    with cr show ?thesis by (simp add: yields_NULL)
  qed
qed

lemma create_from_digit_returns:
  assumes inv: "ctx_inv holds X c" and d: "d \<noteq> 0"
  shows "returns holds failed X (store c) (Inr (if sign then - int (unat d) else int (unat d)))
    (Some (ecma_bigint_create_from_digit A c d sign))"
proof -
  let ?z = "if sign then - int (unat d) else int (unat d)"
  have pos: "0 < unat d" using d by (simp add: unat_gt_0)
  then have "0 < int (unat d)" by linarith
  then have upos: "0 < uint d" by simp
  obtain c1 r where cr: "ecma_bigint_create A c (4 * 1) = (c1, r)" by fastforce
  consider p ds where "r = Ptr p" "owns holds X (store c) c1 p ds" "length ds = 1"
    | "r = NULL" "ctx_inv holds X c1" "store c1 = store c" "failed (heap c1)"
    using create_cases [OF inv _ cr] by auto
  then show ?thesis
  proof cases
    case 1
    have own: "owns holds X (store c) (set_digits c1 p [d]) p [d]" by (rule owns_set_digits [OF 1(2)]) (use 1(3) in simp)
    have y: "yields holds failed X (store c) (unat d) (set_digits c1 p [d], Ptr p)"
      by (rule owns_yields [OF own]) (use d in \<open>simp_all add: normalized_def\<close>)
    have o: "obj c1 p = new_prim ds" using 1(2) by (rule owns_obj)
    have m: "make_value (set_digits c1 p [d], Ptr p) (of_bool (?z < 0)) = Some (ecma_bigint_create_from_digit A c d sign)"
      using cr 1 o pos upos
      by (auto simp: make_value_def ecma_bigint_create_from_digit_def set_sign_def set_digits_def set_obj_def obj_def new_prim_def)
    show ?thesis unfolding m [symmetric]
      by (rule make_value_returns [OF y]) (use pos upos in auto)
  next
    case 2
    with cr show ?thesis by (simp add: ecma_bigint_create_from_digit_def returns_memory_error)
  qed
qed


lemma negate_returns:
  assumes inv: "ctx_inv holds X c" and "bigint (store c) (BigInt q) z"
  shows "returns holds failed X (store c) (Inr (- z)) (Some (ecma_bigint_negate A c q))"
proof -
  from assms(2) obtain v where v: "obj c q = v" "z \<noteq> 0" "ECMA_BIGINT_GET_SIZE v = 4 * length (digits v)"
    "bigint_sign_and_size v = 4 * length (digits v) + of_bool (z < 0)" "big_val (digits v) = nat \<bar>z\<bar>" "normalized (digits v)"
    "length (digits v) \<le> 16384" "0 < length (digits v)" by (rule bigint_obj)
  let ?k = "length (digits v)"
  obtain c1 r where cr: "ecma_bigint_create A c (4 * ?k) = (c1, r)" by fastforce
  consider p ds where "r = Ptr p" "owns holds X (store c) c1 p ds" "length ds = ?k"
    | "r = NULL" "ctx_inv holds X c1" "store c1 = store c" "failed (heap c1)"
    using create_cases [OF inv v(8) cr] v(7) by auto
  then show ?thesis
  proof cases
    case 1
    have own: "owns holds X (store c) (set_digits c1 p (digits v)) p (digits v)" by (rule owns_set_digits [OF 1(2)]) (use 1(3) in simp)
    have y: "yields holds failed X (store c) (nat \<bar>- z\<bar>) (set_digits c1 p (digits v), Ptr p)"
      by (rule owns_yields [OF own v(6,7)]) (use v(5) in simp)
    have o: "obj c1 p = new_prim ds" using 1(2) by (rule owns_obj)
    have n: "\<not> z < 0 \<longleftrightarrow> - z < 0" using v(2) by auto
    have "bigint_sign_and_size v XOR ECMA_BIGINT_SIGN = 4 * ?k OR of_bool (- z < 0)" unfolding v(4) sign_flip n ..
    then have m: "make_value (set_digits c1 p (digits v), Ptr p) (of_bool (- z < 0)) = Some (ecma_bigint_negate A c q)"
      using cr 1 o
      by (simp add: make_value_def ecma_bigint_negate_def set_sign_def set_digits_def set_obj_def obj_def new_prim_def
          v(1) [unfolded obj_def] v(3) del: One_nat_def)
    show ?thesis unfolding m [symmetric] by (rule make_value_returns [OF y]) (use v(2) in auto)
  next
    case 2
    with cr v(1,3) show ?thesis by (simp add: ecma_bigint_negate_def returns_memory_error)
  qed
qed

lemma unary_returns:
  assumes inv: "ctx_inv holds X c" and v: "bigint (store c) v z"
  shows "returns holds failed X (store c)
    (Inr (case type of ECMA_BIGINT_UNARY_BITWISE_NOT \<Rightarrow> NOT z | ECMA_BIGINT_UNARY_INCREASE \<Rightarrow> z + 1 | ECMA_BIGINT_UNARY_DECREASE \<Rightarrow> z - 1))
    (ecma_bigint_unary A c v type)"
proof (cases v)
  case ECMA_BIGINT_ZERO
  with create_from_digit_returns [OF inv, of 1 "type \<noteq> ECMA_BIGINT_UNARY_INCREASE"] v show ?thesis
    by (cases type) (simp_all add: ecma_bigint_unary_def)
next
  case (BigInt p)
  note b = v [unfolded BigInt]
  from b obtain w where w: "obj c p = w" "number (store c) p (nat \<bar>z\<bar>)" "odd (bigint_sign_and_size w) \<longleftrightarrow> z < 0" "z \<noteq> 0"
    by (rule bigint_obj)
  note one = bigint_one(2) [OF b, of True, simplified] bigint_one(2) [OF b, of False, simplified]
  have inc: "returns holds failed X (store c) (Inr y) (case ecma_big_uint_increase A c p of None \<Rightarrow> None | Some res \<Rightarrow> make_value res s)"
    if "nat \<bar>y\<bar> = nat \<bar>z\<bar> + 1" "s = of_bool (y < 0)" for y s
    by (rule make_value_returns_some [OF increase_correct [OF inv w(2)] that(1) _ that(2)]) (use that(1) in auto)
  have dec: "returns holds failed X (store c) (Inr y) (case ecma_big_uint_decrease A c p of None \<Rightarrow> None | Some res \<Rightarrow> make_value res s)"
    if "nat \<bar>y\<bar> = nat \<bar>z\<bar> - 1" "s = of_bool (y < 0)" "y \<noteq> 0" for y s
    by (rule make_value_returns_some [OF decrease_correct [OF inv w(2)] that(1) that(3,2)]) (use that(1,3) in auto)
  have zero: "returns holds failed X (store c) (Inr 0) (Some (c, Inr ECMA_BIGINT_ZERO))"
    by (rule returns_zero [OF inv]) simp_all
  show ?thesis
  proof (cases type)
    case ECMA_BIGINT_UNARY_BITWISE_NOT
    then show ?thesis using one inc [of "- z - 1"] dec [of "- z - 1"] zero w
      by (auto simp: BigInt ecma_bigint_unary_def sign_of_iff not_int_def)
  next
    case ECMA_BIGINT_UNARY_INCREASE
    then show ?thesis using one inc [of "z + 1"] dec [of "z + 1"] zero w
      by (auto simp: BigInt ecma_bigint_unary_def sign_of_iff)
  next
    case ECMA_BIGINT_UNARY_DECREASE
    then show ?thesis using one inc [of "z - 1"] dec [of "z - 1"] zero w
      by (auto simp: BigInt ecma_bigint_unary_def sign_of_iff)
  qed
qed

lemma add_sub_returns:
  assumes inv: "ctx_inv holds X c" and l: "operand (store c) l a" and r: "operand (store c) r b"
  shows "returns holds failed X (store c) (Inr (if is_add then a + b else a - b)) (ecma_bigint_add_sub A c l r is_add)"
proof (cases r)
  case ECMA_BIGINT_ZERO
  with copy_returns [OF inv l] r show ?thesis by (simp add: ecma_bigint_add_sub_def)
next
  case r: (BigInt rp)
  note R = operand_facts [OF assms(3) [unfolded r]]
  show ?thesis
  proof (cases l)
    case ECMA_BIGINT_ZERO
    with negate_returns [OF inv R(1)] ref_returns [OF inv assms(3) [unfolded r]] l show ?thesis
      by (simp add: ecma_bigint_add_sub_def r)
  next
    case l: (BigInt lp)
    note L = operand_facts [OF assms(2) [unfolded l]]
    let ?z = "if is_add then a + b else a - b"
    have sum: "returns holds failed X (store c) (Inr y) (make_value (ecma_big_uint_add A c lp rp) s)"
      if "nat \<bar>y\<bar> = nat \<bar>a\<bar> + nat \<bar>b\<bar>" "y \<noteq> 0" "s = of_bool (y < 0)" for y s
      by (rule make_value_returns [OF add_correct [OF inv L(2) R(2)] that])
    have diff: "returns holds failed X (store c) (Inr y) (case ecma_big_uint_sub A c lp rp of None \<Rightarrow> None | Some res \<Rightarrow> make_value res s)"
      if "nat \<bar>b\<bar> \<le> nat \<bar>a\<bar>" "nat \<bar>y\<bar> = nat \<bar>a\<bar> - nat \<bar>b\<bar>" "y \<noteq> 0" "s = of_bool (y < 0)" for y s
      by (rule make_value_returns_some [OF sub_correct [OF inv L(2) R(2) that(1)] that(2-4)])
    have diff': "returns holds failed X (store c) (Inr y) (case ecma_big_uint_sub A c rp lp of None \<Rightarrow> None | Some res \<Rightarrow> make_value res s)"
      if "nat \<bar>a\<bar> \<le> nat \<bar>b\<bar>" "nat \<bar>y\<bar> = nat \<bar>b\<bar> - nat \<bar>a\<bar>" "y \<noteq> 0" "s = of_bool (y < 0)" for y s
      by (rule make_value_returns_some [OF sub_correct [OF inv R(2) L(2) that(1)] that(2-4)])
    have zero: "returns holds failed X (store c) (Inr 0) (Some (c, Inr ECMA_BIGINT_ZERO))"
      by (rule returns_zero [OF inv]) simp_all
    note cmp = compare_correct [OF L(2) R(2)]
    have flip: "of_bool (b < 0) XOR ECMA_BIGINT_SIGN = of_bool (\<not> b < 0)" by (cases "b < 0") simp_all
    show ?thesis
    proof (cases "(a < 0 \<longleftrightarrow> b < 0) = is_add")
      case True
      then have "nat \<bar>?z\<bar> = nat \<bar>a\<bar> + nat \<bar>b\<bar>" "?z \<noteq> 0" "a < 0 \<longleftrightarrow> ?z < 0" using L(3) R(3) by (auto split: if_splits)
      moreover have "of_bool ((a < 0) \<noteq> (b < 0)) = (if is_add then 0 else ECMA_BIGINT_SIGN)" using True by auto
      ultimately show ?thesis using sum [of ?z "of_bool (a < 0)"]
        by (simp add: ecma_bigint_add_sub_def l r sign_xor_iff L(4,5) R(5) del: of_bool_eq_0_iff of_bool_eq_1_iff)
    next
      case False
      then have "sign_xor (obj c lp) (obj c rp) \<noteq> (if is_add then 0 else ECMA_BIGINT_SIGN)"
        by (auto simp: sign_xor_iff L(5) R(5))
      then have eq: "ecma_bigint_add_sub A c l r is_add =
         (let compare_result = ecma_big_uint_compare c lp rp in
          if compare_result = 0 then Some (c, Inr ECMA_BIGINT_ZERO)
          else if compare_result > 0
            then (case ecma_big_uint_sub A c lp rp of None \<Rightarrow> None | Some res \<Rightarrow> make_value res (sign_of (obj c lp)))
          else (case ecma_big_uint_sub A c rp lp of None \<Rightarrow> None | Some res \<Rightarrow>
            make_value res (if \<not> is_add then sign_of (obj c rp) XOR ECMA_BIGINT_SIGN else sign_of (obj c rp))))"
        by (simp only: ecma_bigint_add_sub_def l r bigint_value.case Let_def if_False)
      consider "nat \<bar>a\<bar> = nat \<bar>b\<bar>" | "nat \<bar>b\<bar> < nat \<bar>a\<bar>" | "nat \<bar>a\<bar> < nat \<bar>b\<bar>" by linarith
      then show ?thesis
      proof cases
        case 1
        then have "?z = 0" using False L(3) R(3) by (auto split: if_splits)
        with zero have "returns holds failed X (store c) (Inr ?z) (Some (c, Inr ECMA_BIGINT_ZERO))" by (simp only:)
        with 1 show ?thesis by (simp add: eq cmp)
      next
        case 2
        then have "nat \<bar>?z\<bar> = nat \<bar>a\<bar> - nat \<bar>b\<bar>" "?z \<noteq> 0" "sign_of (obj c lp) = of_bool (?z < 0)"
          using False L(3,4) R(3) by (auto split: if_splits)
        with diff [of ?z "sign_of (obj c lp)"] 2 show ?thesis by (simp add: eq compare_greater [OF L(2) R(2)])
      next
        case 3
        let ?s = "if \<not> is_add then sign_of (obj c rp) XOR ECMA_BIGINT_SIGN else sign_of (obj c rp)"
        have "nat \<bar>?z\<bar> = nat \<bar>b\<bar> - nat \<bar>a\<bar>" "?z \<noteq> 0" "(if is_add then b < 0 else \<not> b < 0) \<longleftrightarrow> ?z < 0"
          using 3 False L(3) R(3) by (auto split: if_splits)
        moreover have "?s = of_bool (if is_add then b < 0 else \<not> b < 0)" by (simp only: R(4) flip if_distrib if_not_P) auto
        ultimately show ?thesis using diff' [of ?z ?s] 3 by (simp add: eq cmp)
      qed
    qed
  qed
qed

lemma mul_returns:
  assumes inv: "ctx_inv holds X c" and l: "operand (store c) l a" and r: "operand (store c) r b"
  shows "returns holds failed X (store c) (Inr (a * b)) (ecma_bigint_mul A c l r)"
proof (cases "l = ECMA_BIGINT_ZERO \<or> r = ECMA_BIGINT_ZERO")
  case True
  then have "a * b = 0" using l r by auto
  moreover have "ecma_bigint_mul A c l r = Some (c, Inr ECMA_BIGINT_ZERO)"
    using True by (auto simp: ecma_bigint_mul_def split: bigint_value.splits)
  ultimately show ?thesis by (simp only:) (rule returns_zero [OF inv refl refl])
next
  case False
  then obtain lp rp where lr: "l = BigInt lp" "r = BigInt rp" by (cases l; cases r) auto
  note L = operand_facts [OF l [unfolded lr]] and R = operand_facts [OF r [unfolded lr]]
  note one = bigint_one(1) [OF L(1)] bigint_one(1) [OF R(1)]
  have mul: "returns holds failed X (store c) (Inr (a * b))
      (case ecma_big_uint_mul A c lp rp of None \<Rightarrow> None | Some res \<Rightarrow> make_value res (sign_xor (obj c lp) (obj c rp)))"
    unfolding sign_xor_iff L(5) R(5) by (rule make_value_returns_some [OF mul_correct [OF inv L(2) R(2)]])
      (use L(3) R(3) in \<open>auto simp: abs_mult nat_mult_distrib mult_less_0_iff\<close>)
  note units = negate_returns [OF inv L(1)] negate_returns [OF inv R(1)]
    ref_returns [OF inv l [unfolded lr(1)]] ref_returns [OF inv r [unfolded lr(2)]]
  consider "a = 1" | "a = -1" | "\<bar>a\<bar> \<noteq> 1" "b = 1" | "\<bar>a\<bar> \<noteq> 1" "b = -1" | "\<bar>a\<bar> \<noteq> 1" "\<bar>b\<bar> \<noteq> 1" by linarith
  then show ?thesis
    using mul units by cases (simp_all add: ecma_bigint_mul_def lr one L(4) R(4))
qed

lemma truncated_division:
  fixes a b :: int
  assumes "a \<noteq> 0" "b \<noteq> 0"
  shows "nat \<bar>sgn a * (\<bar>a\<bar> mod \<bar>b\<bar>)\<bar> = nat \<bar>a\<bar> mod nat \<bar>b\<bar>"
    "nat \<bar>sgn a * sgn b * (\<bar>a\<bar> div \<bar>b\<bar>)\<bar> = nat \<bar>a\<bar> div nat \<bar>b\<bar>"
    "sgn a * (\<bar>a\<bar> mod \<bar>b\<bar>) \<noteq> 0 \<Longrightarrow> sgn a * (\<bar>a\<bar> mod \<bar>b\<bar>) < 0 \<longleftrightarrow> a < 0"
    "sgn a * sgn b * (\<bar>a\<bar> div \<bar>b\<bar>) \<noteq> 0 \<Longrightarrow> sgn a * sgn b * (\<bar>a\<bar> div \<bar>b\<bar>) < 0 \<longleftrightarrow> (a < 0) \<noteq> (b < 0)"
proof -
  have nn: "0 \<le> \<bar>a\<bar> mod \<bar>b\<bar>" "0 \<le> \<bar>a\<bar> div \<bar>b\<bar>" using assms(2) by (simp_all add: pos_imp_zdiv_nonneg_iff)
  have sg: "\<bar>sgn a * m\<bar> = \<bar>m\<bar>" "\<bar>sgn a * sgn b * m\<bar> = \<bar>m\<bar>" for m using assms by (simp_all add: abs_mult)
  show "nat \<bar>sgn a * (\<bar>a\<bar> mod \<bar>b\<bar>)\<bar> = nat \<bar>a\<bar> mod nat \<bar>b\<bar>" "nat \<bar>sgn a * sgn b * (\<bar>a\<bar> div \<bar>b\<bar>)\<bar> = nat \<bar>a\<bar> div nat \<bar>b\<bar>"
    unfolding sg using nn by (simp_all add: nat_mod_distrib nat_div_distrib)
  show "sgn a * (\<bar>a\<bar> mod \<bar>b\<bar>) \<noteq> 0 \<Longrightarrow> sgn a * (\<bar>a\<bar> mod \<bar>b\<bar>) < 0 \<longleftrightarrow> a < 0"
    using nn(1) by (auto simp: mult_less_0_iff)
  show "sgn a * sgn b * (\<bar>a\<bar> div \<bar>b\<bar>) \<noteq> 0 \<Longrightarrow> sgn a * sgn b * (\<bar>a\<bar> div \<bar>b\<bar>) < 0 \<longleftrightarrow> (a < 0) \<noteq> (b < 0)"
    using nn(2) assms by (auto simp: mult_less_0_iff sgn_if)
qed

text \<open>Division truncates; the remainder has the sign of the dividend.\<close>

lemma div_mod_returns:
  assumes inv: "ctx_inv holds X c" and l: "operand (store c) l a" and r: "operand (store c) r b"
    and close: "\<And>lp rp. l = BigInt lp \<Longrightarrow> r = BigInt rp \<Longrightarrow> division_estimates_close (digits (obj c lp)) (digits (obj c rp))"
  shows "returns holds failed X (store c)
    (if b = 0 then Inl ECMA_ERR_BIGINT_ZERO_DIVISION
     else Inr (if is_mod then sgn a * (\<bar>a\<bar> mod \<bar>b\<bar>) else sgn a * sgn b * (\<bar>a\<bar> div \<bar>b\<bar>)))
    (ecma_bigint_div_mod A c l r is_mod)"
proof (cases r)
  case ECMA_BIGINT_ZERO
  with r returns_error [OF inv] show ?thesis by (simp add: ecma_bigint_div_mod_def)
next
  case rp: (BigInt rp)
  note R = operand_facts [OF r [unfolded rp]]
  show ?thesis
  proof (cases l)
    case ECMA_BIGINT_ZERO
    with l R(3) returns_zero [OF inv] show ?thesis by (simp add: ecma_bigint_div_mod_def rp)
  next
    case lp: (BigInt lp)
    note L = operand_facts [OF l [unfolded lp]]
    let ?z = "if is_mod then sgn a * (\<bar>a\<bar> mod \<bar>b\<bar>) else sgn a * sgn b * (\<bar>a\<bar> div \<bar>b\<bar>)"
    let ?sign = "if is_mod then sign_of (obj c lp) else sign_xor (obj c lp) (obj c rp)"
    have sign: "?sign = of_bool (if is_mod then a < 0 else (a < 0) \<noteq> (b < 0))" by (simp add: L(4,5) R(5) sign_xor_iff)
    note cmp = compare_correct [OF L(2) R(2)]
    have zero: "returns holds failed X (store c) (Inr 0) (Some (c, Inr ECMA_BIGINT_ZERO))"
      by (rule returns_zero [OF inv]) simp_all
    consider "nat \<bar>a\<bar> < nat \<bar>b\<bar>" | "nat \<bar>a\<bar> = nat \<bar>b\<bar>" | "nat \<bar>b\<bar> < nat \<bar>a\<bar>" by linarith
    then show ?thesis
    proof cases
      case 1
      then have "?z = (if is_mod then a else 0)" by (simp add: mod_pos_pos_trivial div_pos_pos_trivial sgn_mult_abs)
      with 1 zero ref_returns [OF inv l [unfolded lp]] R(3) show ?thesis
        by (simp add: ecma_bigint_div_mod_def lp rp cmp)
    next
      case 2
      then have ab: "\<bar>a\<bar> = \<bar>b\<bar>" by simp
      then have z: "?z = (if is_mod then 0 else if (a < 0) \<noteq> (b < 0) then -1 else 1)"
        using L(3) R(3) by (auto simp: sgn_if)
      have "returns holds failed X (store c) (Inr ?z)
          (make_value (case ecma_bigint_create A c 4 of (c, Ptr p) \<Rightarrow> (set_digits c p [1], Ptr p) | res \<Rightarrow> res) ?sign)" if "\<not> is_mod"
        using one_digit_yields [OF inv, of 1] that z unfolding sign by (intro make_value_returns) auto
      moreover have "returns holds failed X (store c) (Inr ?z) (Some (c, Inr ECMA_BIGINT_ZERO))" if "is_mod"
        using zero unfolding z by (simp add: that)
      ultimately show ?thesis using 2 R(3) by (cases is_mod) (simp_all add: ecma_bigint_div_mod_def lp rp cmp)
    next
      case 3
      have close': "division_estimates_close (digits (obj c lp)) (digits (obj c rp))" by (rule close [OF lp rp])
      have "nat \<bar>?z\<bar> = (if is_mod then nat \<bar>a\<bar> mod nat \<bar>b\<bar> else nat \<bar>a\<bar> div nat \<bar>b\<bar>)"
        by (simp only: truncated_division(1,2) [OF L(3) R(3)] split: if_split) simp
      moreover have "?z \<noteq> 0 \<Longrightarrow> ?sign = of_bool (?z < 0)"
        unfolding sign using truncated_division(3,4) [OF L(3) R(3)] by (cases is_mod) (simp_all only: if_True if_False simp_thms)
      ultimately have "returns holds failed X (store c) (Inr ?z)
        (let res = ecma_big_uint_div_mod A c lp rp is_mod
         in if snd res = POINTER_TO_ZERO then Some (fst res, Inr ECMA_BIGINT_ZERO) else make_value res ?sign)"
        unfolding Let_def by (intro make_value_or_zero [OF div_mod_correct [OF inv L(2) R(2) less_imp_le [OF 3] close']])
      with R(3) show ?thesis by (simp add: ecma_bigint_div_mod_def lp rp compare_greater [OF L(2) R(2) 3])
    qed
  qed
qed


text \<open>Shifts: a negative number of bits shifts the other way, shifting right rounds down.\<close>

lemma shift_left_returns:
  assumes inv: "ctx_inv holds X c" and l: "operand (store c) (BigInt lp) a"
  shows "returns holds failed X (store c) (Inr (a * 2 ^ k)) (make_value (ecma_big_uint_shift_left A c lp k) (sign_of (obj c lp)))"
  by (rule make_value_returns [OF shift_left_correct [OF inv operand_facts(2) [OF l]]])
    (use operand_facts(3,4) [OF l] in \<open>auto simp: abs_mult nat_mult_distrib nat_power_eq mult_less_0_iff\<close>)

lemma shift_right_returns:
  assumes inv: "ctx_inv holds X c" and l: "operand (store c) (BigInt lp) a"
  shows "returns holds failed X (store c) (Inr (a div 2 ^ k))
    (let res = ecma_big_uint_shift_right A c lp k (sign_of (obj c lp) \<noteq> 0)
     in if snd res = POINTER_TO_ZERO then Some (fst res, Inr ECMA_BIGINT_ZERO) else make_value res (sign_of (obj c lp)))"
  unfolding Let_def
  by (rule make_value_or_zero [OF shift_right_correct [OF inv operand_facts(2) [OF l]]])
    (use operand_facts(3,4) [OF l] floor_magnitude [of a k] in simp_all)

text \<open>A number of bits with more than one digit shifts every bit out, or makes the result too long.\<close>

lemma shift_far_returns:
  assumes inv: "ctx_inv holds X c" and l: "operand (store c) (BigInt lp) a" and n: "base \<le> n"
  shows "returns holds failed X (store c) (Inr (a * 2 ^ n)) (Some (ecma_bigint_raise_memory_error c))"
    "returns holds failed X (store c) (Inr (a div 2 ^ n))
      (if sign_of (obj c lp) \<noteq> 0 then Some (ecma_bigint_create_from_digit A c 1 True) else Some (c, Inr ECMA_BIGINT_ZERO))"
proof -
  note L = operand_facts [OF l] and big = limit_le_power [OF n]
  have "1 * big_limit \<le> nat \<bar>a\<bar> * 2 ^ n" using big L(3) by (intro mult_le_mono) simp_all
  then have "big_limit \<le> nat \<bar>a * 2 ^ n\<bar>" by (simp add: abs_mult nat_mult_distrib nat_power_eq)
  then show "returns holds failed X (store c) (Inr (a * 2 ^ n)) (Some (ecma_bigint_raise_memory_error c))"
    by (intro returns_memory_error [OF inv]) simp_all
  have "nat \<bar>a\<bar> < 2 ^ n" using number_less_limit [OF L(2)] big by linarith
  then have "a div 2 ^ n = (if a < 0 then -1 else 0)" by (rule floor_small)
  then show "returns holds failed X (store c) (Inr (a div 2 ^ n))
      (if sign_of (obj c lp) \<noteq> 0 then Some (ecma_bigint_create_from_digit A c 1 True) else Some (c, Inr ECMA_BIGINT_ZERO))"
    using create_from_digit_returns [OF inv, of 1 True] returns_zero [OF inv refl refl] by (simp add: L(4))
qed

lemma shift_returns:
  assumes inv: "ctx_inv holds X c" and l: "operand (store c) l a" and r: "operand (store c) r b"
    and s: "s = (if is_left then b else - b)"
  shows "returns holds failed X (store c) (Inr (if 0 \<le> s then a * 2 ^ nat s else a div 2 ^ nat (- s)))
    (ecma_bigint_shift A c l r is_left)"
proof (cases "l = ECMA_BIGINT_ZERO \<or> r = ECMA_BIGINT_ZERO")
  case True
  then show ?thesis using l r s ref_returns [OF inv] returns_zero [OF inv refl refl]
    by (cases l; cases r) (simp_all add: ecma_bigint_shift_def)
next
  case False
  then obtain lp rp where lr: "l = BigInt lp" "r = BigInt rp" by (cases l; cases r) auto
  note L = l [unfolded lr] and R = operand_facts [OF r [unfolded lr]] and size = bigint_size_4 [OF operand_facts(1) [OF r [unfolded lr]]]
  let ?n = "nat \<bar>b\<bar>"
  have dir: "(if sign_of (obj c rp) \<noteq> 0 then \<not> is_left else is_left) \<longleftrightarrow> 0 < s" "0 \<le> s \<longleftrightarrow> 0 < s"
    "0 < s \<Longrightarrow> nat s = ?n" "\<not> 0 < s \<Longrightarrow> nat (- s) = ?n"
    using R(3,4) s by auto
  show ?thesis
  proof (cases "?n < base")
    case True
    then have "\<not> ECMA_BIGINT_GET_SIZE (obj c rp) > 4" "unat (last (digits (obj c rp))) = ?n" using size by auto
    then show ?thesis using shift_left_returns [OF inv L, of ?n] shift_right_returns [OF inv L, of ?n] dir(3,4)
      by (cases "0 < s") (simp_all only: ecma_bigint_shift_def lr bigint_value.case Let_def dir(1,2) if_False if_True simp_thms)
  next
    case False
    then have "ECMA_BIGINT_GET_SIZE (obj c rp) > 4" using size(4) by simp
    moreover have "base \<le> ?n" using False by simp
    ultimately show ?thesis using shift_far_returns [OF inv L, of ?n] dir(3,4)
      by (cases "0 < s") (simp_all only: ecma_bigint_shift_def lr bigint_value.case Let_def dir(1,2) if_False if_True simp_thms)
  qed
qed

text \<open>
  The power, for operands that are not zero: a base of magnitude one, an exponent with more than one digit, and the rest.
\<close>

lemma pow_unit_returns:
  assumes inv: "ctx_inv holds X c" and l: "operand (store c) (BigInt lp) a" and r: "operand (store c) (BigInt rp) b" and b: "0 < b"
    and a: "nat \<bar>a\<bar> = 1"
  shows "returns holds failed X (store c) (Inr (a ^ nat b)) (ecma_bigint_pow A c (BigInt lp) (BigInt rp))"
proof -
  note L = operand_facts [OF l] and pow = pow_operands [OF l r b]
  have "a = 1 \<or> a = - 1" using a by linarith
  then have "a ^ nat b = (if a < 0 \<and> even (nat b) then 1 else a)" by auto
  then have "returns holds failed X (store c) (Inr (a ^ nat b))
      (if sign_of (obj c lp) = 0 \<or> hd (digits (obj c rp)) AND 1 \<noteq> 0
       then map_option (\<lambda>c. (c, Inr (BigInt lp))) (ecma_ref_extended_primitive c lp)
       else Some (ecma_bigint_create_from_digit A c 1 False))"
    using ref_returns [OF inv l] create_from_digit_returns [OF inv, of 1 False] by (simp only: pow(2) L(4)) auto
  with a pow(6) [of 1] show ?thesis
    by (simp only: ecma_bigint_pow_def bigint_value.case Let_def pow(1) if_True if_False simp_thms) simp
qed

lemma pow_large_returns:
  assumes inv: "ctx_inv holds X c" and l: "operand (store c) (BigInt lp) a" and r: "operand (store c) (BigInt rp) b" and b: "0 < b"
    and a: "nat \<bar>a\<bar> \<noteq> 1" and n: "base \<le> nat b"
  shows "returns holds failed X (store c) (Inr (a ^ nat b)) (ecma_bigint_pow A c (BigInt lp) (BigInt rp))"
proof -
  note pow = pow_operands [OF l r b]
  have two: "2 \<le> nat \<bar>a\<bar>" using operand_facts(3) [OF l] a by linarith
  have "big_limit \<le> 2 ^ nat b" using n by (rule limit_le_power)
  also have "\<dots> \<le> nat \<bar>a\<bar> ^ nat b" by (rule power_mono [OF two]) simp
  finally have "returns holds failed X (store c) (Inr (a ^ nat b)) (Some (ecma_bigint_raise_memory_error c))"
    by (intro returns_memory_error [OF inv]) (simp_all add: pow(3))
  moreover have "ECMA_BIGINT_GET_SIZE (obj c rp) > 4" using bigint_size_4(4) [OF operand_facts(1) [OF r]] n b by simp
  ultimately show ?thesis using pow(1) pow(6) [of 1] a by (simp add: ecma_bigint_pow_def Let_def)
qed

lemma pow_small_returns:
  assumes inv: "ctx_inv holds X c" and l: "operand (store c) (BigInt lp) a" and r: "operand (store c) (BigInt rp) b" and b: "0 < b"
    and a: "nat \<bar>a\<bar> \<noteq> 1" and n: "nat b < base"
  shows "returns holds failed X (store c) (Inr (a ^ nat b)) (ecma_bigint_pow A c (BigInt lp) (BigInt rp))"
proof -
  note L = operand_facts [OF l] and pow = pow_operands [OF l r b]
  let ?power = "hd (digits (obj c rp))" and ?base = "if ECMA_BIGINT_GET_SIZE (obj c lp) = 4 then hd (digits (obj c lp)) else 0"
  let ?sign = "if sign_of (obj c lp) \<noteq> 0 \<and> ?power AND 1 \<noteq> 0 then ECMA_BIGINT_SIGN else 0"
  have small: "\<not> ECMA_BIGINT_GET_SIZE (obj c rp) > 4" "unat ?power = nat b"
    using bigint_size_4 [OF operand_facts(1) [OF r]] n b by auto
  have eq: "ecma_bigint_pow A c (BigInt lp) (BigInt rp) =
     (if ?power = 1 then map_option (\<lambda>c. (c, Inr (BigInt lp))) (ecma_ref_extended_primitive c lp)
      else if ?base = 2 then make_value (ecma_big_uint_shift_left A c lp (unat (?power - 1))) ?sign
      else (case ecma_big_uint_pow A c lp (unat ?power) of None \<Rightarrow> None | Some res \<Rightarrow> make_value res ?sign))"
    using pow(6) [of 1] a small(1) by (simp only: ecma_bigint_pow_def bigint_value.case Let_def pow(1) if_False simp_thms) simp
  have one: "?power = 1 \<longleftrightarrow> nat b = 1" using small(2) by (auto simp: word_eq_unat)
  have less1: "unat (?power - 1) = nat b - 1" using small(2) b by (metis unat_minus_one unat_0 zero_less_nat_eq less_irrefl)
  have two: "returns holds failed X (store c) (Inr (a ^ nat b)) (make_value (ecma_big_uint_shift_left A c lp (nat b - 1)) ?sign)"
    if "nat \<bar>a\<bar> = 2"
  proof (rule make_value_returns [OF shift_left_correct [OF inv L(2)] _ pow(4,5)])
    have "(2 :: nat) ^ nat b = 2 * 2 ^ (nat b - 1)" using b by (cases "nat b") simp_all
    then show "nat \<bar>a ^ nat b\<bar> = nat \<bar>a\<bar> * 2 ^ (nat b - 1)" unfolding pow(3) that .
  qed
  have pow: "returns holds failed X (store c) (Inr (a ^ nat b))
      (case ecma_big_uint_pow A c lp (nat b) of None \<Rightarrow> None | Some res \<Rightarrow> make_value res ?sign)" if "nat b \<noteq> 1"
    using that b by (intro make_value_returns_some [OF pow_correct [OF inv L(2)] pow(3-5)]) linarith
  have b2: "?base = 2 \<longleftrightarrow> nat \<bar>a\<bar> = 2" using pow_operands(6) [OF l r b, of 2] by simp
  show ?thesis
  proof (cases "nat b = 1")
    case True
    with ref_returns [OF inv l] one show ?thesis unfolding eq by simp
  next
    case False
    then show ?thesis using two pow
      by (cases "nat \<bar>a\<bar> = 2") (simp_all only: eq one b2 less1 small(2) if_False if_True simp_thms)
  qed
qed

lemma pow_returns:
  assumes inv: "ctx_inv holds X c" and l: "operand (store c) l a" and r: "operand (store c) r b"
  shows "returns holds failed X (store c)
    (if b < 0 then Inl ECMA_ERR_NEGATIVE_EXPONENT_IS_NOT_ALLOWED_FOR_BIGINTS else Inr (a ^ nat b))
    (ecma_bigint_pow A c l r)"
proof (cases r)
  case ECMA_BIGINT_ZERO
  with r create_from_digit_returns [OF inv, of 1 False] show ?thesis by (simp add: ecma_bigint_pow_def)
next
  case rp: (BigInt rp)
  note R = operand_facts [OF r [unfolded rp]]
  show ?thesis
  proof (cases "b < 0 \<or> l = ECMA_BIGINT_ZERO")
    case True
    then show ?thesis using returns_error [OF inv refl] returns_zero [OF inv refl refl] R(3,4) l
      by (auto simp: ecma_bigint_pow_def rp power_0_left)
  next
    case False
    then obtain lp where lp: "l = BigInt lp" and b: "0 < b" using R(3) by (cases l) auto
    consider "nat \<bar>a\<bar> = 1" | "nat \<bar>a\<bar> \<noteq> 1" "nat b < base" | "nat \<bar>a\<bar> \<noteq> 1" "base \<le> nat b" by linarith
    then have "returns holds failed X (store c) (Inr (a ^ nat b)) (ecma_bigint_pow A c (BigInt lp) (BigInt rp))"
      using pow_unit_returns [OF inv l [unfolded lp] r [unfolded rp] b] pow_small_returns [OF inv l [unfolded lp] r [unfolded rp] b]
        pow_large_returns [OF inv l [unfolded lp] r [unfolded rp] b] by cases blast+
    with b show ?thesis by (simp add: lp rp)
  qed
qed

lemma bitwise_op_returns:
  assumes inv: "ctx_inv holds X c" and l: "operand (store c) (BigInt lp) a" and r: "operand (store c) (BigInt rp) b"
    and opts: "\<not> dl \<Longrightarrow> \<not> dr \<Longrightarrow> op \<noteq> AND_NOT_OP \<and> \<not> inc"
    and z: "nat_op op (nat \<bar>a\<bar> - of_bool dl) (nat \<bar>b\<bar> - of_bool dr) = m" "z = (if inc then NOT (int m) else int m)"
  shows "returns holds failed X (store c) (Inr z) (ecma_bigint_bitwise_op A c op dl dr inc lp rp)"
proof -
  note L = operand_facts [OF l] and R = operand_facts [OF r]
  have "yields_some holds failed X (store c) (nat_op op (nat \<bar>a\<bar> - of_bool dl) (nat \<bar>b\<bar> - of_bool dr) + of_bool inc)
    (ecma_big_uint_bitwise_op A c op dl dr inc lp rp)"
    by (rule bitwise_op_correct [OF inv L(2) R(2)]) (use opts in blast)
  then obtain res where res: "ecma_big_uint_bitwise_op A c op dl dr inc lp rp = Some res"
    "yields holds failed X (store c) (m + of_bool inc) res"
    unfolding z(1) by (auto simp: yields_some_def)
  have "returns holds failed X (store c) (Inr z)
    (if snd res = POINTER_TO_ZERO then Some (fst res, Inr ECMA_BIGINT_ZERO) else make_value res (if inc then ECMA_BIGINT_SIGN else 0))"
    by (rule make_value_or_zero [OF res(2)]) (auto simp: z(2) not_int_def)
  then show ?thesis by (simp add: ecma_bigint_bitwise_op_def res(1))
qed

lemma and_returns:
  assumes inv: "ctx_inv holds X c" and l: "operand (store c) l a" and r: "operand (store c) r b"
  shows "returns holds failed X (store c) (Inr (a AND b)) (ecma_bigint_and A c l r)"
proof (cases "l = ECMA_BIGINT_ZERO \<or> r = ECMA_BIGINT_ZERO")
  case True
  then have "a AND b = 0" using l r by auto
  moreover have "ecma_bigint_and A c l r = Some (c, Inr ECMA_BIGINT_ZERO)"
    using True by (auto simp: ecma_bigint_and_def split: bigint_value.splits)
  ultimately show ?thesis using returns_zero [OF inv refl refl] by (simp only:)
next
  case False
  then obtain lp rp where lr: "l = BigInt lp" "r = BigInt rp" by (cases l; cases r) auto
  note L = operand_facts [OF l [unfolded lr]] and R = operand_facts [OF r [unfolded lr]]
  note op = bitwise_op_returns [OF inv l [unfolded lr] r [unfolded lr]] and op' = bitwise_op_returns [OF inv r [unfolded lr] l [unfolded lr]]
  have "returns holds failed X (store c) (Inr (a AND b)) (ecma_bigint_bitwise_op A c AND_OP False False False lp rp)" if "\<not> a < 0" "\<not> b < 0"
    by (rule op [OF _ refl]) (use signed_bit_ops [of a b] that in simp_all)
  moreover have "returns holds failed X (store c) (Inr (a AND b)) (ecma_bigint_bitwise_op A c AND_NOT_OP False True False lp rp)" if "\<not> a < 0" "b < 0"
    by (rule op [OF _ refl]) (use signed_bit_ops [of a b] that in simp_all)
  moreover have "returns holds failed X (store c) (Inr (a AND b)) (ecma_bigint_bitwise_op A c AND_NOT_OP False True False rp lp)" if "a < 0" "\<not> b < 0"
    by (rule op' [OF _ refl]) (use signed_bit_ops [of a b] that in simp_all)
  moreover have "returns holds failed X (store c) (Inr (a AND b)) (ecma_bigint_bitwise_op A c OR_OP True True True lp rp)" if "a < 0" "b < 0"
    by (rule op [OF _ refl]) (use signed_bit_ops [of a b] that in simp_all)
  ultimately show ?thesis by (cases "a < 0"; cases "b < 0") (simp_all add: ecma_bigint_and_def lr L(4) R(4))
qed

lemma or_returns:
  assumes inv: "ctx_inv holds X c" and l: "operand (store c) l a" and r: "operand (store c) r b"
  shows "returns holds failed X (store c) (Inr (a OR b)) (ecma_bigint_or A c l r)"
proof (cases "l = ECMA_BIGINT_ZERO \<or> r = ECMA_BIGINT_ZERO")
  case True
  then show ?thesis using l r copy_returns [OF inv l] copy_returns [OF inv r]
    by (cases l; cases r) (simp_all add: ecma_bigint_or_def)
next
  case False
  then obtain lp rp where lr: "l = BigInt lp" "r = BigInt rp" by (cases l; cases r) auto
  note L = operand_facts [OF l [unfolded lr]] and R = operand_facts [OF r [unfolded lr]]
  note op = bitwise_op_returns [OF inv l [unfolded lr] r [unfolded lr]] and op' = bitwise_op_returns [OF inv r [unfolded lr] l [unfolded lr]]
  have "returns holds failed X (store c) (Inr (a OR b)) (ecma_bigint_bitwise_op A c OR_OP False False False lp rp)" if "\<not> a < 0" "\<not> b < 0"
    by (rule op [OF _ refl]) (use signed_bit_ops [of a b] that in simp_all)
  moreover have "returns holds failed X (store c) (Inr (a OR b)) (ecma_bigint_bitwise_op A c AND_NOT_OP True False True rp lp)" if "\<not> a < 0" "b < 0"
    by (rule op' [OF _ refl]) (use signed_bit_ops [of a b] that in simp_all)
  moreover have "returns holds failed X (store c) (Inr (a OR b)) (ecma_bigint_bitwise_op A c AND_NOT_OP True False True lp rp)" if "a < 0" "\<not> b < 0"
    by (rule op [OF _ refl]) (use signed_bit_ops [of a b] that in simp_all)
  moreover have "returns holds failed X (store c) (Inr (a OR b)) (ecma_bigint_bitwise_op A c AND_OP True True True lp rp)" if "a < 0" "b < 0"
    by (rule op [OF _ refl]) (use signed_bit_ops [of a b] that in simp_all)
  ultimately show ?thesis by (cases "a < 0"; cases "b < 0") (simp_all add: ecma_bigint_or_def lr L(4) R(4))
qed

lemma xor_returns:
  assumes inv: "ctx_inv holds X c" and l: "operand (store c) l a" and r: "operand (store c) r b"
  shows "returns holds failed X (store c) (Inr (a XOR b)) (ecma_bigint_xor A c l r)"
proof (cases "l = ECMA_BIGINT_ZERO \<or> r = ECMA_BIGINT_ZERO")
  case True
  then show ?thesis using l r copy_returns [OF inv l] copy_returns [OF inv r]
    by (cases l; cases r) (simp_all add: ecma_bigint_xor_def)
next
  case False
  then obtain lp rp where lr: "l = BigInt lp" "r = BigInt rp" by (cases l; cases r) auto
  note L = operand_facts [OF l [unfolded lr]] and R = operand_facts [OF r [unfolded lr]]
  note op = bitwise_op_returns [OF inv l [unfolded lr] r [unfolded lr]]
  have "returns holds failed X (store c) (Inr (a XOR b)) (ecma_bigint_bitwise_op A c XOR_OP False False False lp rp)" if "\<not> a < 0" "\<not> b < 0"
    by (rule op [OF _ refl]) (use signed_bit_ops [of a b] that in simp_all)
  moreover have "returns holds failed X (store c) (Inr (a XOR b)) (ecma_bigint_bitwise_op A c XOR_OP False True True lp rp)" if "\<not> a < 0" "b < 0"
    by (rule op [OF _ refl]) (use signed_bit_ops [of a b] that in simp_all)
  moreover have "returns holds failed X (store c) (Inr (a XOR b)) (ecma_bigint_bitwise_op A c XOR_OP True False True lp rp)" if "a < 0" "\<not> b < 0"
    by (rule op [OF _ refl]) (use signed_bit_ops [of a b] that in simp_all)
  moreover have "returns holds failed X (store c) (Inr (a XOR b)) (ecma_bigint_bitwise_op A c XOR_OP True True False lp rp)" if "a < 0" "b < 0"
    by (rule op [OF _ refl]) (use signed_bit_ops [of a b] that in simp_all)
  ultimately show ?thesis by (cases "a < 0"; cases "b < 0") (simp_all add: ecma_bigint_xor_def lr L(4) R(4))
qed

end

end
