(* ===== verification/Big_Uint_Theorems.thy ===== *)
theory Big_Uint_Theorems
  imports Big_Uint_Pow_Div
begin

text \<open>
  The properties of \<open>ecma-big-uint.c\<close>, for every memory manager that keeps the contract of
  \<open>Block_Heap\<close>, and their instances on a concrete memory.
\<close>

section \<open>A memory that hands out addresses in order\<close>

definition bump :: "nat allocator" where
  "bump = \<lparr>alloc_block = (\<lambda>h n. (Some (h, \<lambda>_. 0), Suc h)), free_block = (\<lambda>h p n. h)\<rparr>"

definition bump_holds :: "nat \<Rightarrow> (addr \<rightharpoonup> nat) \<Rightarrow> bool" where
  "bump_holds h B \<longleftrightarrow> (\<forall>p\<in>dom B. p < h)"

lemma bump_heap: "failing_heap bump bump_holds (\<lambda>_. False)"
  by unfold_locales (force simp: bump_def bump_holds_def intro: less_SucI split: if_splits)+

definition example :: "digit list \<Rightarrow> digit list \<Rightarrow> nat ecma_context" where
  "example l r = \<lparr>store = [0 \<mapsto> new_prim l, 1 \<mapsto> new_prim r], heap = 2\<rparr>"

lemma example_inv: "ctx_inv bump_holds Map.empty (example l r)"
  by (auto simp: example_def ctx_inv_def bump_holds_def)

lemma example_number:
  "normalized l \<Longrightarrow> length l \<le> 16384 \<Longrightarrow> number (store (example l r)) 0 (big_val l)"
  "normalized r \<Longrightarrow> length r \<le> 16384 \<Longrightarrow> number (store (example l r)) 1 (big_val r)"
  by (simp_all add: example_def number_def wf_new_prim)


lemma number_one_digit:
  assumes "number (store c) p n" "n < 2 ^ 32"
  shows "length (digits (obj c p)) = 1"
proof -
  obtain v where v: "obj c p = v" "big_val (digits v) = n" "normalized (digits v)" "0 < length (digits v)"
    using assms(1) by (rule number_obj)
  have "length (digits v) \<le> length [of_nat n :: digit]"
    using v(2,3) assms(2) by (intro big_val_length) (simp_all add: unat_of_nat)
  with v(1,4) show ?thesis by (cases "digits v") auto
qed

section \<open>Long division on concrete numbers\<close>

lemmas concrete_division = div_round_def estimate_digit_def Let_def estimate_loop.simps [of "0x80000000"]
  estimate_loop.simps [of "0xC0000000"]

lemma leading_zero_examples:
  "ecma_big_uint_count_leading_zero 0xC0000000 = 0" "ecma_big_uint_count_leading_zero 0x80000000 = 0"
  by (simp_all add: ecma_big_uint_count_leading_zero_def count_leading_zero_loop.simps)

lemma close_rounds:
  "div_round [1, 0xC0000000] [0, 1, 0] = [0, 1, 0]"
  "estimate_close [1, 0xC0000000] [0, 1, 0]" "estimate_close [1, 0xC0000000] [0, 0, 1]"
  by (simp_all add: concrete_division estimate_close_def)

lemma close_example: "division_estimates_close [0, 0, 1] [1, 0xC0000000]"
  by (simp add: division_estimates_close_def leading_zero_examples close_rounds shifted_divisor_def
      shifted_dividend_def estimates_close.simps [of _ "Suc 0"] estimates_close.simps [of _ 0])

lemma wrong_round_first: "div_round [1, 0x80000000] [0, 1, 0] = [0, 1, 0]"
  by (simp add: concrete_division)

lemma wrong_round: "div_round [1, 0x80000000] [5, 0, 1] = [4, 0x80000000, 1]"
  by (simp add: concrete_division)

lemma wrong_rounds: "div_rounds [1, 0x80000000] (Suc 0) [5, 0, 1, 0] = [4, 0x80000000, 1, 0]"
  by (simp add: div_rounds.simps Let_def wrong_round_first wrong_round)

lemma wrong_result:
  "div_mod_result True [1, 0x80000000] [5, 0, 1, 0] 0 = [4, 0x80000000]"
  "div_mod_result False [1, 0x80000000] [5, 0, 1, 0] 0 = [1]"
  by (simp_all add: div_mod_result_def Let_def wrong_rounds remainder_digits_def quotient_digits_def)

section \<open>Properties of the long division\<close>

text \<open>
  The estimate of the code is not always that good. For the dividend \<open>2^64 + 5\<close> and the divisor
  \<open>2^63 + 1\<close> the quotient returned is 1 and the remainder \<open>2^63 + 4\<close>; they should be 2 and 3. The loop
  that corrects the estimate compares with the second digit of the divisor instead of the third
  digit of the dividend.
\<close>

lemma big_uint_div_mod_wrong:
  "big_val [5, 0, 1] div big_val [1, 0x80000000] = 2 \<and>
   map_option digits (store (fst (ecma_big_uint_div_mod bump (example [5, 0, 1] [1, 0x80000000]) 0 1 False)) 3) = Some [1] \<and>
   big_val [5, 0, 1] mod big_val [1, 0x80000000] = 3 \<and>
   map_option digits (store (fst (ecma_big_uint_div_mod bump (example [5, 0, 1] [1, 0x80000000]) 0 1 True)) 3) = Some [4, 0x80000000]"
  by (simp add: ecma_big_uint_div_mod_def leading_zero_examples wrong_result Let_def example_def obj_def set_obj_def
      set_digits_def new_prim_def ECMA_BIGINT_GET_SIZE_def bump_def ecma_big_uint_div_shift_left_def div_mod_finish_def
      ecma_bigint_create_def free_buffer_def)

section \<open>Properties of the other operations\<close>

text \<open>
  Conversion to a string: the loop ends with the digits of the number in the given radix, written
  right-aligned into a buffer that is large enough for every number and radix, also while its start
  still holds the running quotient. The caller owns the buffer.
\<close>

lemma big_uint_to_string:
  assumes "failing_heap A holds failed" "ctx_inv holds X c" "number (store c) p a" "2 \<le> unat radix" "unat radix \<le> 36"
  shows "\<exists>c' res. ecma_big_uint_to_string is64 A c p radix = Some (c', res) \<and> store c' = store c \<and>
    (case res of
       None \<Rightarrow> ctx_inv holds X c' \<and> failed (heap c')
     | Some (q, str, start, char_size) \<Rightarrow> str = radix_string (unat radix) a \<and> start + length str = char_size \<and>
         q \<notin> dom X \<union> dom (store c) \<and> ctx_inv holds (X(q \<mapsto> char_size)) c')"
  by (rule failing_heap.to_string_correct [OF assms, where ?is64.0 = is64]) auto

end
