(* ===== verification/Bigint_Theorems.thy ===== *)
theory Bigint_Theorems
  imports Bigint_Correct Big_Uint_Theorems
begin

text \<open>
  The properties of the arithmetic of \<open>ecma-bigint.c\<close>, for every memory manager that keeps the contract of
  \<open>Block_Heap\<close>, and their instances on a concrete memory. Each operation is a function of the integers that its
  operands stand for; together with the digits (\<open>Big_Digits\<close>) and the magnitudes (\<open>Big_Uint\<close>) below, this is the
  refinement from integers to blocks of memory.
\<close>

section \<open>Two numbers in memory\<close>

definition signed_prim :: "bool \<Rightarrow> digit list \<Rightarrow> bigint_prim" where
  "signed_prim sign ds = (new_prim ds)\<lparr>bigint_sign_and_size := 4 * length ds + of_bool sign\<rparr>"

definition signed_example :: "bool \<Rightarrow> digit list \<Rightarrow> bool \<Rightarrow> digit list \<Rightarrow> nat ecma_context" where
  "signed_example ls l rs r = \<lparr>store = [0 \<mapsto> signed_prim ls l, 1 \<mapsto> signed_prim rs r], heap = 2\<rparr>"

lemma signed_example_inv: "ctx_inv bump_holds Map.empty (signed_example ls l rs r)"
  by (auto simp: signed_example_def ctx_inv_def bump_holds_def)

lemma signed_prim_operand:
  assumes "st p = Some (signed_prim s ds)" "normalized ds" "length ds \<le> 16384" "z = (if s then - int (big_val ds) else int (big_val ds))"
  shows "operand st (BigInt p) z"
  using assms by (auto simp: operand_def bigint_def wf_prim_def int_of_prim_def signed_prim_def)

lemma signed_example_operand:
  "normalized l \<Longrightarrow> length l \<le> 16384 \<Longrightarrow>
    operand (store (signed_example ls l rs r)) (BigInt 0) (if ls then - int (big_val l) else int (big_val l))"
  "normalized r \<Longrightarrow> length r \<le> 16384 \<Longrightarrow>
    operand (store (signed_example ls l rs r)) (BigInt 1) (if rs then - int (big_val r) else int (big_val r))"
  by (rule signed_prim_operand [OF _ _ _ refl]; simp add: signed_example_def)+

lemma operand_bigint: "operand st v z \<Longrightarrow> bigint st v z"
  by (simp add: operand_def)

section \<open>Arithmetic\<close>

text \<open>
  (C1) Addition and subtraction of BigInts compute the sum and the difference, whatever the signs. The result is
  zero, a new block, or one more reference to an operand; an error is raised only when memory ran out or the
  result has more than 16384 digits, and leaves all values as they were.
\<close>

theorem bigint_add_sub:
  assumes "failing_heap A holds failed" "ctx_inv holds X c" "operand (store c) l a" "operand (store c) r b"
  shows "returns holds failed X (store c) (Inr (if is_add then a + b else a - b)) (ecma_bigint_add_sub A c l r is_add)"
  using failing_heap.add_sub_returns [OF assms] .

theorem bigint_add_sub_witness:
  "returns bump_holds (\<lambda>_. False) Map.empty (store (signed_example True [1] False [0, 1])) (Inr (- 1 + 4294967296))
    (ecma_bigint_add_sub bump (signed_example True [1] False [0, 1]) (BigInt 0) (BigInt 1) True)"
  using bigint_add_sub [OF bump_heap signed_example_inv signed_example_operand, of "[1]" "[0, 1]" True False True]
  by (simp add: normalized_def)

text \<open>
  (C2) Multiplication of BigInts computes the product; a factor of magnitude one only takes a reference to the
  other factor or negates it.
\<close>

theorem bigint_mul:
  assumes "failing_heap A holds failed" "ctx_inv holds X c" "operand (store c) l a" "operand (store c) r b"
  shows "returns holds failed X (store c) (Inr (a * b)) (ecma_bigint_mul A c l r)"
  using failing_heap.mul_returns [OF assms] .

theorem bigint_mul_witness:
  "returns bump_holds (\<lambda>_. False) Map.empty (store (signed_example True [0xFFFFFFFF] False [2])) (Inr (- 4294967295 * 2))
    (ecma_bigint_mul bump (signed_example True [0xFFFFFFFF] False [2]) (BigInt 0) (BigInt 1))"
  using bigint_mul [OF bump_heap signed_example_inv signed_example_operand, of "[0xFFFFFFFF]" "[2]" True False]
  by (simp add: normalized_def)

text \<open>
  (C3) Division of BigInts truncates towards zero, the remainder has the sign of the dividend, and a zero divisor
  raises a range error. For divisors of more than one digit this holds when the estimate of each digit of the
  quotient is exact or one too large, which is what the correction steps of the code can repair.
\<close>

theorem bigint_div_mod:
  assumes "failing_heap A holds failed" "ctx_inv holds X c" "operand (store c) l a" "operand (store c) r b"
    and "\<And>lp rp. l = BigInt lp \<Longrightarrow> r = BigInt rp \<Longrightarrow> division_estimates_close (digits (obj c lp)) (digits (obj c rp))"
  shows "returns holds failed X (store c)
    (if b = 0 then Inl ECMA_ERR_BIGINT_ZERO_DIVISION
     else Inr (if is_mod then sgn a * (\<bar>a\<bar> mod \<bar>b\<bar>) else sgn a * sgn b * (\<bar>a\<bar> div \<bar>b\<bar>)))
    (ecma_bigint_div_mod A c l r is_mod)"
  by (rule failing_heap.div_mod_returns [OF assms(1-4)]) (rule assms(5))

theorem bigint_div_mod_witness:
  "returns bump_holds (\<lambda>_. False) Map.empty (store (signed_example True [0, 0, 1] False [1, 0xC0000000]))
    (Inr (- (18446744073709551616 mod 13835058055282163713)))
    (ecma_bigint_div_mod bump (signed_example True [0, 0, 1] False [1, 0xC0000000]) (BigInt 0) (BigInt 1) True)"
proof -
  let ?c = "signed_example True [0, 0, 1] False [1, 0xC0000000]"
  have ops: "operand (store ?c) (BigInt 0) (- 18446744073709551616)" "operand (store ?c) (BigInt 1) 13835058055282163713"
    using signed_example_operand [where l = "[0, 0, 1]" and r = "[1, 0xC0000000]" and ls = True and rs = False]
    by (simp_all add: normalized_def)
  have "division_estimates_close (digits (obj ?c lp)) (digits (obj ?c rp))"
    if "BigInt 0 = BigInt lp" "BigInt 1 = BigInt rp" for lp rp
    using close_example that by (simp add: signed_example_def signed_prim_def obj_def)
  from bigint_div_mod [OF bump_heap signed_example_inv ops this, of True] show ?thesis by simp
qed

text \<open>
  Division by a BigInt of one digit is exact without further conditions.
\<close>

lemma bigint_div_mod_digit:
  assumes "failing_heap A holds failed" "ctx_inv holds X c" "operand (store c) l a" "operand (store c) r b"
    and "b \<noteq> 0" "\<bar>b\<bar> < 2 ^ 32"
  shows "returns holds failed X (store c) (Inr (if is_mod then sgn a * (\<bar>a\<bar> mod \<bar>b\<bar>) else sgn a * sgn b * (\<bar>a\<bar> div \<bar>b\<bar>)))
    (ecma_bigint_div_mod A c l r is_mod)"
proof -
  have "division_estimates_close (digits (obj c lp)) (digits (obj c rp))" if "l = BigInt lp" "r = BigInt rp" for lp rp
  proof -
    have "number (store c) rp (nat \<bar>b\<bar>)" using operand_facts(2) [OF assms(4) [unfolded that(2)]] .
    moreover have "nat \<bar>b\<bar> < 2 ^ 32" using assms(6) by (simp add: nat_less_iff)
    ultimately have "length (digits (obj c rp)) = 1" by (rule number_one_digit)
    then show ?thesis by (simp add: division_estimates_close_def)
  qed
  from failing_heap.div_mod_returns [OF assms(1-4) this] assms(5) show ?thesis by simp
qed

text \<open>
  (C6) The power: the loop by repeated squaring ends, with \<open>a ^ b\<close>, and releases every intermediate value; a negative
  exponent raises a range error. A memory error for a large exponent is raised only when the result is too long.
\<close>

theorem bigint_pow:
  assumes "failing_heap A holds failed" "ctx_inv holds X c" "operand (store c) l a" "operand (store c) r b"
  shows "returns holds failed X (store c)
    (if b < 0 then Inl ECMA_ERR_NEGATIVE_EXPONENT_IS_NOT_ALLOWED_FOR_BIGINTS else Inr (a ^ nat b)) (ecma_bigint_pow A c l r)"
  using failing_heap.pow_returns [OF assms] .

theorem bigint_pow_witness:
  "returns bump_holds (\<lambda>_. False) Map.empty (store (signed_example True [10] False [21])) (Inr (- (10 ^ 21)))
    (ecma_bigint_pow bump (signed_example True [10] False [21]) (BigInt 0) (BigInt 1))"
  using bigint_pow [OF bump_heap signed_example_inv signed_example_operand, of "[10]" "[21]" True False]
  by (simp add: normalized_def)

text \<open>
  (C8) Shifts of BigInts multiply by a power of two or divide by it, rounding down also for negative numbers; a
  negative shift goes the other way, and a shift of any size ends with the mathematical result or a memory error
  for a result that is too long.
\<close>

theorem bigint_shift:
  assumes "failing_heap A holds failed" "ctx_inv holds X c" "operand (store c) l a" "operand (store c) r b"
    and "s = (if is_left then b else - b)"
  shows "returns holds failed X (store c) (Inr (if 0 \<le> s then a * 2 ^ nat s else a div 2 ^ nat (- s)))
    (ecma_bigint_shift A c l r is_left)"
  using failing_heap.shift_returns [OF assms] .

theorem bigint_shift_witness:
  "returns bump_holds (\<lambda>_. False) Map.empty (store (signed_example True [1, 1] False [31])) (Inr (- 4294967297 div 2147483648))
    (ecma_bigint_shift bump (signed_example True [1, 1] False [31]) (BigInt 0) (BigInt 1) False)"
  using bigint_shift [OF bump_heap signed_example_inv signed_example_operand refl, of "[1, 1]" "[31]" True False False]
  by (simp add: normalized_def)

section \<open>Bits\<close>

text \<open>
  (C7) The bitwise operations of BigInts are those of two's complement with infinitely many bits, for every
  combination of signs; the signs are folded into the loop over the digits, which subtracts one from an operand
  and adds one to the result on the way.
\<close>

theorem bigint_bitwise:
  assumes "failing_heap A holds failed" "ctx_inv holds X c" "operand (store c) l a" "operand (store c) r b"
  shows "returns holds failed X (store c) (Inr (a AND b)) (ecma_bigint_and A c l r) \<and>
    returns holds failed X (store c) (Inr (a OR b)) (ecma_bigint_or A c l r) \<and>
    returns holds failed X (store c) (Inr (a XOR b)) (ecma_bigint_xor A c l r)"
  using failing_heap.and_returns [OF assms] failing_heap.or_returns [OF assms] failing_heap.xor_returns [OF assms] by blast

theorem bigint_bitwise_witness:
  "returns bump_holds (\<lambda>_. False) Map.empty (store (signed_example True [0, 1] False [12])) (Inr (- 4294967296 AND 12))
    (ecma_bigint_and bump (signed_example True [0, 1] False [12]) (BigInt 0) (BigInt 1))"
  using bigint_bitwise [OF bump_heap signed_example_inv signed_example_operand, of "[0, 1]" "[12]" True False]
  by (simp add: normalized_def)

text \<open>
  The unary operations: bitwise complement, increment and decrement.
\<close>

lemma bigint_unary:
  assumes "failing_heap A holds failed" "ctx_inv holds X c" "bigint (store c) v z"
  shows "returns holds failed X (store c)
    (Inr (case type of ECMA_BIGINT_UNARY_BITWISE_NOT \<Rightarrow> NOT z | ECMA_BIGINT_UNARY_INCREASE \<Rightarrow> z + 1 | ECMA_BIGINT_UNARY_DECREASE \<Rightarrow> z - 1))
    (ecma_bigint_unary A c v type)"
  using failing_heap.unary_returns [OF assms] .

section \<open>Comparison\<close>

text \<open>
  (C22) Comparison, equality and sign of BigInts are those of the integers.
\<close>

theorem bigint_compare:
  assumes "bigint (store c) l a" "bigint (store c) r b"
  shows "ecma_bigint_compare_to_bigint c l r = (if a < b then -1 else if a = b then 0 else 1) \<and>
    (ecma_bigint_is_equal_to_bigint c l r \<longleftrightarrow> a = b) \<and> (ecma_bigint_get_sign c l \<longleftrightarrow> a < 0)"
  using compare_to_bigint_correct [OF assms] is_equal_correct [OF assms] get_sign_correct [OF assms(1)] by blast

theorem bigint_compare_witness:
  "ecma_bigint_compare_to_bigint (signed_example True [0, 1] True [7]) (BigInt 0) (BigInt 1) = -1"
  using bigint_compare [OF signed_example_operand [THEN operand_bigint], of "[0, 1]" "[7]" True True]
  by (simp add: normalized_def)

end
