(* ===== verification/Lit_Strings.thy ===== *)
theory Lit_Strings
  imports Jjs_Prelude "HOL-Library.List_Lexorder"
begin

text \<open>
  The text layer of the engine, \<open>src/jjs-core/lit/lit-strings.c\<close>: strings are kept as CESU-8 byte
  sequences (every UTF-16 code unit is encoded on its own, in one to three bytes), and are converted
  from UTF-16 and to UTF-8 at the borders.

  A C buffer \<open>(pointer, size)\<close> is a \<open>u8 list\<close>; a cursor into it is the rest of that list, or an
  index where the code moves backwards. The out parameter and the returned number of bytes are
  returned as a pair. \<open>None\<close> stands for a read outside the buffer, which the C code does not check
  in these functions; the theorems show that it does not happen on well-formed text. A
  \<open>JJS_ASSERT\<close> is compiled out of release builds and has no counterpart in the definitions.
\<close>

section \<open>Validation\<close>

fun lit_is_valid_utf8_string :: "u8 list \<Rightarrow> bool \<Rightarrow> bool" where
  "lit_is_valid_utf8_string [] is_strict = True"
| "lit_is_valid_utf8_string (first_byte # idx) is_strict =
    (if first_byte < 0x80 then lit_is_valid_utf8_string idx is_strict
     else if first_byte < 0xC2 then False
     else (case idx of
       [] \<Rightarrow> False
     | second_byte # idx2 \<Rightarrow>
        (if second_byte AND 0xC0 \<noteq> 0x80 then False
         else if first_byte < 0xE0 then lit_is_valid_utf8_string idx2 is_strict
         else (case idx2 of
           [] \<Rightarrow> False
         | third_byte # idx3 \<Rightarrow>
            (if third_byte AND 0xC0 \<noteq> 0x80 then False
             else if first_byte < 0xF0 then
               (if first_byte = 0xE0 \<and> second_byte AND 0xE0 = 0x80 then False
                else if is_strict \<and> first_byte = 0xED \<and> second_byte \<ge> 0xA0 \<and> second_byte \<le> 0xAF
                     \<and> 3 \<le> length idx3 \<and> idx3 ! 0 = 0xED \<and> idx3 ! 1 \<ge> 0xB0 \<and> idx3 ! 1 \<le> 0xBF
                then False
                else lit_is_valid_utf8_string idx3 is_strict)
             else (case idx3 of
               [] \<Rightarrow> False
             | fourth_byte # idx4 \<Rightarrow>
                (if first_byte > 0xF4
                    \<or> (first_byte = 0xF0 \<and> second_byte \<le> 0x80)
                    \<or> (first_byte = 0xF4 \<and> second_byte > 0x8F)
                    \<or> fourth_byte AND 0xC0 \<noteq> 0x80
                 then False
                 else lit_is_valid_utf8_string idx4 is_strict)))))))"

text \<open>
  The loop over the extra bytes of a character, as it occurs in the validators and the decoders:
  \<open>ret\<close> is shifted and extended with six bits of each of the next \<open>n\<close> bytes. The validator also
  stops at a byte that is no extra byte.
\<close>

definition extend_code_point :: "u32 \<Rightarrow> u8 \<Rightarrow> u32" where
  "extend_code_point ret c = push_bit 6 ret OR ucast (c AND 0x3F)"

fun cesu8_check_extra_bytes :: "nat \<Rightarrow> u8 list \<Rightarrow> u32 \<Rightarrow> u32 option" where
  "cesu8_check_extra_bytes 0 bs code_point = Some code_point"
| "cesu8_check_extra_bytes (Suc n) [] code_point = None"
| "cesu8_check_extra_bytes (Suc n) (c # bs) code_point =
    (if c AND 0xC0 \<noteq> 0x80 then None
     else cesu8_check_extra_bytes n bs (extend_code_point code_point c))"

function lit_is_valid_cesu8_string :: "u8 list \<Rightarrow> bool" where
  "lit_is_valid_cesu8_string [] = True"
| "lit_is_valid_cesu8_string (c # idx) =
    (if c AND 0x80 = 0 then lit_is_valid_cesu8_string idx
     else if c AND 0xE0 = 0xC0 then
       (if 1 > length idx then False
        else (case cesu8_check_extra_bytes 1 idx (ucast (c AND 0x1F)) of
          None \<Rightarrow> False
        | Some code_point \<Rightarrow>
            (if code_point < 0x80 then False else lit_is_valid_cesu8_string (drop 1 idx))))
     else if c AND 0xF0 = 0xE0 then
       (if 2 > length idx then False
        else (case cesu8_check_extra_bytes 2 idx (ucast (c AND 0x0F)) of
          None \<Rightarrow> False
        | Some code_point \<Rightarrow>
            (if code_point < 0x800 then False else lit_is_valid_cesu8_string (drop 2 idx))))
     else False)"
  by pat_completeness auto
termination
  by (relation "measure length") auto

section \<open>Surrogates\<close>

definition lit_is_code_point_utf16_low_surrogate :: "u32 \<Rightarrow> bool" where
  "lit_is_code_point_utf16_low_surrogate code_point \<longleftrightarrow> 0xDC00 \<le> code_point \<and> code_point \<le> 0xDFFF"

definition lit_is_code_point_utf16_high_surrogate :: "u32 \<Rightarrow> bool" where
  "lit_is_code_point_utf16_high_surrogate code_point \<longleftrightarrow> 0xD800 \<le> code_point \<and> code_point \<le> 0xDBFF"

definition convert_code_point_to_low_surrogate :: "u32 \<Rightarrow> u16" where
  "convert_code_point_to_low_surrogate code_point = 0xDC00 OR ucast (code_point AND 0x3FF)"

definition convert_code_point_to_high_surrogate :: "u32 \<Rightarrow> u16" where
  "convert_code_point_to_high_surrogate code_point = 0xD800 OR ucast (drop_bit 10 (code_point - 0x10000))"

definition lit_utf16_encode_code_point :: "u32 \<Rightarrow> u16 list" where
  "lit_utf16_encode_code_point cp =
    (if cp \<le> 0xFFFF then [ucast cp]
     else [convert_code_point_to_high_surrogate cp, convert_code_point_to_low_surrogate cp])"

definition lit_convert_surrogate_pair_to_code_point :: "u16 \<Rightarrow> u16 \<Rightarrow> u32" where
  "lit_convert_surrogate_pair_to_code_point high_surrogate low_surrogate =
    (let code_point = ucast (high_surrogate - 0xD800) :: u32;
         code_point = push_bit 10 code_point;
         code_point = code_point + 0x10000
     in code_point OR ucast (low_surrogate - 0xDC00))"

section \<open>Encoding\<close>

definition lit_code_unit_to_utf8 :: "u16 \<Rightarrow> u8 list" where
  "lit_code_unit_to_utf8 code_unit =
    (if code_unit \<le> 0x7F then [ucast code_unit]
     else if code_unit \<le> 0x7FF then
       (let code_unit_bits = ucast code_unit :: u32;
            second_byte_bits = ucast (code_unit_bits AND 0x3F) :: u8;
            code_unit_bits = drop_bit 6 code_unit_bits;
            first_byte_bits = ucast (code_unit_bits AND 0x1F) :: u8
        in [0xC0 OR first_byte_bits, 0x80 OR second_byte_bits])
     else
       (let code_unit_bits = ucast code_unit :: u32;
            third_byte_bits = ucast (code_unit_bits AND 0x3F) :: u8;
            code_unit_bits = drop_bit 6 code_unit_bits;
            second_byte_bits = ucast (code_unit_bits AND 0x3F) :: u8;
            code_unit_bits = drop_bit 6 code_unit_bits;
            first_byte_bits = ucast (code_unit_bits AND 0x0F) :: u8
        in [0xE0 OR first_byte_bits, 0x80 OR second_byte_bits, 0x80 OR third_byte_bits]))"

definition lit_code_point_to_cesu8 :: "u32 \<Rightarrow> u8 list" where
  "lit_code_point_to_cesu8 code_point =
    (if code_point \<le> 0xFFFF then lit_code_unit_to_utf8 (ucast code_point)
     else lit_code_unit_to_utf8 (convert_code_point_to_high_surrogate code_point)
          @ lit_code_unit_to_utf8 (convert_code_point_to_low_surrogate code_point))"

definition lit_code_point_to_utf8 :: "u32 \<Rightarrow> u8 list" where
  "lit_code_point_to_utf8 code_point =
    (if code_point \<le> 0x7F then [ucast code_point]
     else if code_point \<le> 0x7FF then
       (let second_byte_bits = ucast (code_point AND 0x3F) :: u8;
            code_point_bits = drop_bit 6 code_point;
            first_byte_bits = ucast (code_point_bits AND 0x1F) :: u8
        in [0xC0 OR first_byte_bits, 0x80 OR second_byte_bits])
     else if code_point \<le> 0xFFFF then
       (let third_byte_bits = ucast (code_point AND 0x3F) :: u8;
            code_point_bits = drop_bit 6 code_point;
            second_byte_bits = ucast (code_point_bits AND 0x3F) :: u8;
            code_point_bits = drop_bit 6 code_point_bits;
            first_byte_bits = ucast (code_point_bits AND 0x0F) :: u8
        in [0xE0 OR first_byte_bits, 0x80 OR second_byte_bits, 0x80 OR third_byte_bits])
     else
       (let fourth_byte_bits = ucast (code_point AND 0x3F) :: u8;
            code_point_bits = drop_bit 6 code_point;
            third_byte_bits = ucast (code_point_bits AND 0x3F) :: u8;
            code_point_bits = drop_bit 6 code_point_bits;
            second_byte_bits = ucast (code_point_bits AND 0x3F) :: u8;
            code_point_bits = drop_bit 6 code_point_bits;
            first_byte_bits = ucast (code_point_bits AND 0x07) :: u8
        in [0xF0 OR first_byte_bits, 0x80 OR second_byte_bits, 0x80 OR third_byte_bits,
            0x80 OR fourth_byte_bits]))"

section \<open>Decoding\<close>

fun read_extra_bytes :: "nat \<Rightarrow> u8 list \<Rightarrow> u32 \<Rightarrow> u32 option" where
  "read_extra_bytes 0 bs ret = Some ret"
| "read_extra_bytes (Suc n) [] ret = None"
| "read_extra_bytes (Suc n) (b # bs) ret =
    read_extra_bytes n bs (extend_code_point ret b)"

definition lit_read_code_point_from_utf8 :: "u8 list \<Rightarrow> (nat \<times> u32) option" where
  "lit_read_code_point_from_utf8 buf =
    (case buf of
       [] \<Rightarrow> None
     | c # bs \<Rightarrow>
        (if c AND 0x80 = 0 then Some (1, ucast (c AND 0x7F))
         else
          (let (bytes_count, ret) =
             (if c AND 0xE0 = 0xC0 then (2, ucast (c AND 0x1F))
              else if c AND 0xF0 = 0xE0 then (3, ucast (c AND 0x0F))
              else (4, ucast (c AND 0x07)))
           in map_option (Pair bytes_count) (read_extra_bytes (bytes_count - 1) bs ret))))"

text \<open>
  \<open>limit\<close> is \<open>end_p - buf_p\<close>. A malformed character yields size 0 and leaves the out parameter
  alone (\<open>None\<close> in the second component).
\<close>

definition lit_read_code_unit_from_cesu8_safe :: "u8 list \<Rightarrow> nat \<Rightarrow> (nat \<times> u16 option) option" where
  "lit_read_code_unit_from_cesu8_safe buf limit =
    (case buf of
       [] \<Rightarrow> None
     | c # bs \<Rightarrow>
        (if c AND 0x80 = 0 then Some (1, Some (ucast (c AND 0x7F)))
         else
          (let (bytes_count, ret) =
             (if c AND 0xE0 = 0xC0 then (2, ucast (c AND 0x1F)) else (3, ucast (c AND 0x0F)))
           in if bytes_count > limit then Some (0, None)
              else map_option (\<lambda>ret. (bytes_count, Some (ucast ret)))
                     (read_extra_bytes (bytes_count - 1) bs ret))))"

text \<open>The unchecked reader passes \<open>buf_p + 3\<close> as the end, so the size check never fires.\<close>

definition lit_read_code_unit_from_cesu8 :: "u8 list \<Rightarrow> (nat \<times> u16) option" where
  "lit_read_code_unit_from_cesu8 buf =
    (case lit_read_code_unit_from_cesu8_safe buf 3 of
       Some (n, Some code_unit) \<Rightarrow> Some (n, code_unit)
     | _ \<Rightarrow> None)"

text \<open>Here \<open>None\<close> is the returned \<open>false\<close>: every read is checked.\<close>

definition lit_peek_wchar_from_cesu8 :: "u8 list \<Rightarrow> nat \<Rightarrow> (nat \<times> u16) option" where
  "lit_peek_wchar_from_cesu8 buf index =
    (if index \<ge> length buf then None
     else
      (let c = buf ! index in
       if c AND 0x80 = 0 then Some (1, ucast (c AND 0x7F))
       else
        (case (if c AND 0xE0 = 0xC0 then Some (2, ucast (c AND 0x1F))
               else if c AND 0xF0 = 0xE0 then Some (3, ucast (c AND 0x0F))
               else None) of
           None \<Rightarrow> None
         | Some (bytes_count, ret) \<Rightarrow>
            (if index + bytes_count > length buf then None
             else
              (case read_extra_bytes (bytes_count - 1) (drop (index + 1) buf) ret of
                 None \<Rightarrow> None
               | Some ret \<Rightarrow> (if ret > 0xFFFF then None else Some (bytes_count, ucast ret)))))))"

definition lit_read_code_point_from_cesu8 :: "u8 list \<Rightarrow> (nat \<times> u32) option" where
  "lit_read_code_point_from_cesu8 buf =
    (case lit_read_code_unit_from_cesu8 buf of
       None \<Rightarrow> None
     | Some (unit_size, code_unit) \<Rightarrow>
        (if lit_is_code_point_utf16_high_surrogate (ucast code_unit) \<and> drop unit_size buf \<noteq> [] then
          (case lit_read_code_unit_from_cesu8 (drop unit_size buf) of
             None \<Rightarrow> None
           | Some (next_size, next_code_unit) \<Rightarrow>
              (if lit_is_code_point_utf16_low_surrogate (ucast next_code_unit)
               then Some (unit_size + next_size,
                          lit_convert_surrogate_pair_to_code_point code_unit next_code_unit)
               else Some (unit_size, ucast code_unit)))
         else Some (unit_size, ucast code_unit)))"

definition lit_get_unicode_char_size_by_utf8_first_byte :: "u8 \<Rightarrow> nat" where
  "lit_get_unicode_char_size_by_utf8_first_byte first_byte =
    (if first_byte AND 0x80 = 0 then 1 else if first_byte AND 0xE0 = 0xC0 then 2 else 3)"

section \<open>Cursor movement\<close>

text \<open>
  A cursor is an index into the whole buffer. \<open>lit_utf8_incr\<close> adds the size of the character it
  points at; \<open>lit_utf8_decr\<close> steps back over extra bytes to the start of the previous character,
  and reads in front of the buffer (\<open>None\<close>) when there is none.
\<close>

definition lit_utf8_incr :: "u8 list \<Rightarrow> nat \<Rightarrow> nat option" where
  "lit_utf8_incr buf i =
    (if i < length buf then Some (i + lit_get_unicode_char_size_by_utf8_first_byte (buf ! i)) else None)"

fun lit_utf8_decr :: "u8 list \<Rightarrow> nat \<Rightarrow> nat option" where
  "lit_utf8_decr buf 0 = None"
| "lit_utf8_decr buf (Suc i) =
    (if length buf \<le> i then None
     else if buf ! i AND 0xC0 = 0x80 then lit_utf8_decr buf i
     else Some i)"

definition lit_read_prev_code_unit_from_utf8 :: "u8 list \<Rightarrow> nat \<Rightarrow> (nat \<times> u16) option" where
  "lit_read_prev_code_unit_from_utf8 buf i =
    (case lit_utf8_decr buf i of
       None \<Rightarrow> None
     | Some j \<Rightarrow> lit_read_code_unit_from_cesu8 (drop j buf))"

text \<open>The readers that move the cursor return the new cursor with the code unit.\<close>

definition lit_cesu8_read_next :: "u8 list \<Rightarrow> nat \<Rightarrow> (nat \<times> u16) option" where
  "lit_cesu8_read_next buf i =
    (case lit_read_code_unit_from_cesu8 (drop i buf) of
       None \<Rightarrow> None
     | Some (n, ch) \<Rightarrow> Some (i + n, ch))"

definition lit_cesu8_read_prev :: "u8 list \<Rightarrow> nat \<Rightarrow> (nat \<times> u16) option" where
  "lit_cesu8_read_prev buf i =
    (case lit_utf8_decr buf i of
       None \<Rightarrow> None
     | Some j \<Rightarrow>
        (case lit_read_code_unit_from_cesu8 (drop j buf) of
           None \<Rightarrow> None
         | Some (n, ch) \<Rightarrow> Some (j, ch)))"

definition lit_cesu8_peek_next :: "u8 list \<Rightarrow> nat \<Rightarrow> u16 option" where
  "lit_cesu8_peek_next buf i = map_option snd (lit_read_code_unit_from_cesu8 (drop i buf))"

definition lit_cesu8_peek_prev :: "u8 list \<Rightarrow> nat \<Rightarrow> u16 option" where
  "lit_cesu8_peek_prev buf i = map_option snd (lit_read_prev_code_unit_from_utf8 buf i)"

section \<open>Loops over whole strings\<close>

function lit_utf8_string_length :: "u8 list \<Rightarrow> nat" where
  "lit_utf8_string_length [] = 0"
| "lit_utf8_string_length (b # bs) =
    Suc (lit_utf8_string_length (drop (lit_get_unicode_char_size_by_utf8_first_byte b) (b # bs)))"
  by pat_completeness auto
termination
  by (relation "measure length") (auto simp: lit_get_unicode_char_size_by_utf8_first_byte_def)

text \<open>
  The two counting loops keep the previous code unit; the accumulator starts at the CESU-8 size
  and loses two bytes for each surrogate pair, or counts the code points.
\<close>

function utf8_size_loop :: "u8 list \<Rightarrow> u16 \<Rightarrow> nat \<Rightarrow> nat option" where
  "utf8_size_loop cesu8_buf prev_ch utf8_buf_size =
    (if cesu8_buf = [] then Some utf8_buf_size
     else (case lit_read_code_unit_from_cesu8 cesu8_buf of
        None \<Rightarrow> None
      | Some (n, ch) \<Rightarrow>
         utf8_size_loop (drop n cesu8_buf) ch
           (if lit_is_code_point_utf16_low_surrogate (ucast ch)
               \<and> lit_is_code_point_utf16_high_surrogate (ucast prev_ch)
            then utf8_buf_size - 2 else utf8_buf_size)))"
  by pat_completeness auto
termination
  by (relation "measure (\<lambda>(bs, _, _). length bs)")
    (auto simp: lit_read_code_unit_from_cesu8_def lit_read_code_unit_from_cesu8_safe_def
          split: list.splits if_splits option.splits)

definition lit_get_utf8_size_of_cesu8_string :: "u8 list \<Rightarrow> nat option" where
  "lit_get_utf8_size_of_cesu8_string cesu8_buf = utf8_size_loop cesu8_buf 0 (length cesu8_buf)"

function utf8_length_loop :: "u8 list \<Rightarrow> u16 \<Rightarrow> nat \<Rightarrow> nat option" where
  "utf8_length_loop cesu8_buf prev_ch utf8_length =
    (if cesu8_buf = [] then Some utf8_length
     else (case lit_read_code_unit_from_cesu8 cesu8_buf of
        None \<Rightarrow> None
      | Some (n, ch) \<Rightarrow>
         utf8_length_loop (drop n cesu8_buf) ch
           (if \<not> lit_is_code_point_utf16_low_surrogate (ucast ch)
               \<or> \<not> lit_is_code_point_utf16_high_surrogate (ucast prev_ch)
            then utf8_length + 1 else utf8_length)))"
  by pat_completeness auto
termination
  by (relation "measure (\<lambda>(bs, _, _). length bs)")
    (auto simp: lit_read_code_unit_from_cesu8_def lit_read_code_unit_from_cesu8_safe_def
          split: list.splits if_splits option.splits)

definition lit_get_utf8_length_of_cesu8_string :: "u8 list \<Rightarrow> nat option" where
  "lit_get_utf8_length_of_cesu8_string cesu8_buf = utf8_length_loop cesu8_buf 0 0"

text \<open>One iteration of the UTF-16 loops: the code point at the front and the units it takes.\<close>

fun utf16_next_code_point :: "u16 list \<Rightarrow> (u32 \<times> u16 list) option" where
  "utf16_next_code_point [] = None"
| "utf16_next_code_point (u # us) =
    (if lit_is_code_point_utf16_high_surrogate (ucast u) then
       (case us of
          [] \<Rightarrow> Some (ucast u, us)
        | next # us' \<Rightarrow>
           (if \<not> lit_is_code_point_utf16_low_surrogate (ucast next) then Some (ucast u, us)
            else Some (push_bit 10 (ucast u AND 0x3FF) + (ucast next AND 0x3FF) + 0x10000, us')))
     else Some (ucast u, us))"

function utf16_measure_loop :: "u16 list \<Rightarrow> nat \<Rightarrow> nat \<Rightarrow> nat \<times> nat" where
  "utf16_measure_loop str c b =
    (case utf16_next_code_point str of
       None \<Rightarrow> (c, b)
     | Some (codepoint, str') \<Rightarrow>
        utf16_measure_loop str' (c + 1) (b + length (lit_code_point_to_cesu8 codepoint)))"
  by pat_completeness auto
termination
  by (relation "measure (\<lambda>(us, _, _). length us)")
    (auto elim!: utf16_next_code_point.elims split: if_splits list.splits)

definition lit_utf16_as_cesu8_measure :: "u16 list \<Rightarrow> nat \<times> nat" where
  "lit_utf16_as_cesu8_measure str = utf16_measure_loop str 0 0"

text \<open>
  \<open>out\<close> are the bytes written to the front of the destination so far, \<open>cesu8_size\<close> the size of the
  destination; a character that does not fit is skipped.
\<close>

function utf16_convert_loop :: "u16 list \<Rightarrow> nat \<Rightarrow> u8 list \<Rightarrow> u8 list" where
  "utf16_convert_loop str cesu8_size out =
    (case utf16_next_code_point str of
       None \<Rightarrow> out
     | Some (codepoint, str') \<Rightarrow>
        (let buf = lit_code_point_to_cesu8 codepoint in
         utf16_convert_loop str' cesu8_size
           (if buf \<noteq> [] \<and> length out + length buf \<le> cesu8_size then out @ buf else out)))"
  by pat_completeness auto
termination
  by (relation "measure (\<lambda>(us, _, _). length us)")
    (auto elim!: utf16_next_code_point.elims split: if_splits list.splits)

definition lit_convert_utf16_string_to_cesu8_string :: "u16 list \<Rightarrow> nat \<Rightarrow> u8 list" where
  "lit_convert_utf16_string_to_cesu8_string str cesu8_size = utf16_convert_loop str cesu8_size []"

text \<open>
  Conversion to UTF-8 stops at the first character that does not fit. The bytes written are the
  first component; the returned count is cast to \<open>lit_utf8_byte_t\<close>, one byte, so it is taken
  modulo 256.
\<close>

function cesu8_to_utf8_loop :: "u8 list \<Rightarrow> nat \<Rightarrow> u8 list \<Rightarrow> u8 list option" where
  "cesu8_to_utf8_loop cesu8_cursor utf8_size out =
    (if cesu8_cursor = [] then Some out
     else (case lit_read_code_point_from_cesu8 cesu8_cursor of
        None \<Rightarrow> None
      | Some (read_size, cp) \<Rightarrow>
         (let encoded_size = (if cp \<ge> 0x10000 then 4 else read_size) in
          if length out + encoded_size > utf8_size then Some out
          else cesu8_to_utf8_loop (drop read_size cesu8_cursor) utf8_size
                 (out @ (if cp \<ge> 0x10000 then lit_code_point_to_utf8 cp
                         else take encoded_size cesu8_cursor)))))"
  by pat_completeness auto
termination
  by (relation "measure (\<lambda>(bs, _, _). length bs)")
    (auto simp: lit_read_code_point_from_cesu8_def lit_read_code_unit_from_cesu8_def
            lit_read_code_unit_from_cesu8_safe_def
          split: list.splits if_splits option.splits prod.splits)

definition lit_convert_cesu8_string_to_utf8_string :: "u8 list \<Rightarrow> nat \<Rightarrow> (u8 list \<times> nat) option" where
  "lit_convert_cesu8_string_to_utf8_string cesu8_string utf8_size =
    (case cesu8_to_utf8_loop cesu8_string utf8_size [] of
       None \<Rightarrow> None
     | Some out \<Rightarrow> Some (out, length out mod 256))"

fun lit_utf8_string_code_unit_at :: "u8 list \<Rightarrow> nat \<Rightarrow> u16 option" where
  "lit_utf8_string_code_unit_at buf 0 = map_option snd (lit_read_code_unit_from_cesu8 buf)"
| "lit_utf8_string_code_unit_at buf (Suc code_unit_offset) =
    (case lit_read_code_unit_from_cesu8 buf of
       None \<Rightarrow> None
     | Some (n, code_unit) \<Rightarrow> lit_utf8_string_code_unit_at (drop n buf) code_unit_offset)"

function lit_compare_utf8_strings_relational :: "u8 list \<Rightarrow> u8 list \<Rightarrow> bool option" where
  "lit_compare_utf8_strings_relational string1 string2 =
    (if string1 \<noteq> [] \<and> string2 \<noteq> [] then
       (case lit_read_code_unit_from_cesu8 string1 of
          None \<Rightarrow> None
        | Some (n1, ch1) \<Rightarrow>
           (case lit_read_code_unit_from_cesu8 string2 of
              None \<Rightarrow> None
            | Some (n2, ch2) \<Rightarrow>
               (if ch1 < ch2 then Some True
                else if ch1 > ch2 then Some False
                else lit_compare_utf8_strings_relational (drop n1 string1) (drop n2 string2))))
     else Some (string1 = [] \<and> string2 \<noteq> []))"
  by pat_completeness auto
termination
  by (relation "measure (\<lambda>(bs, _). length bs)")
    (auto simp: lit_read_code_unit_from_cesu8_def lit_read_code_unit_from_cesu8_safe_def
          split: list.splits if_splits option.splits)

section \<open>Hash\<close>

fun lit_utf8_string_hash_combine :: "u32 \<Rightarrow> u8 list \<Rightarrow> u32" where
  "lit_utf8_string_hash_combine hash [] = hash"
| "lit_utf8_string_hash_combine hash (b # bs) =
    lit_utf8_string_hash_combine ((hash XOR ucast b) * 16777619) bs"

definition lit_utf8_string_calc_hash :: "u8 list \<Rightarrow> u32" where
  "lit_utf8_string_calc_hash bs = lit_utf8_string_hash_combine 2166136261 bs"

text \<open>\<open>strlen\<close> on a buffer that holds a terminating zero; \<open>None\<close> when it holds none.\<close>

fun lit_zt_utf8_string_size :: "u8 list \<Rightarrow> nat option" where
  "lit_zt_utf8_string_size [] = None"
| "lit_zt_utf8_string_size (b # bs) =
    (if b = 0 then Some 0 else map_option Suc (lit_zt_utf8_string_size bs))"

declare lit_is_valid_cesu8_string.simps(2) [simp del] lit_is_valid_utf8_string.simps(2) [simp del]
  utf8_size_loop.simps [simp del] utf8_length_loop.simps [simp del] utf16_measure_loop.simps [simp del]
  utf16_convert_loop.simps [simp del] cesu8_to_utf8_loop.simps [simp del]
  lit_compare_utf8_strings_relational.simps [simp del]

section \<open>Specification vocabulary\<close>

text \<open>
  What the byte strings mean. \<open>cesu8_of us\<close> is the CESU-8 string of the code units \<open>us\<close>,
  \<open>utf8_of cs\<close> the UTF-8 string of the code points \<open>cs\<close>, \<open>utf16_code_points us\<close> the code points of a
  UTF-16 string (a lone surrogate is a code point of its own), \<open>utf8_decode\<close> the reader applied to
  a whole buffer, and \<open>fits n cs k\<close> says that \<open>k\<close> is the largest number of code points of \<open>cs\<close>
  whose UTF-8 form takes at most \<open>n\<close> bytes.
\<close>

definition cesu8_of :: "u16 list \<Rightarrow> u8 list" where
  "cesu8_of us = concat (map lit_code_unit_to_utf8 us)"

definition utf8_of :: "u32 list \<Rightarrow> u8 list" where
  "utf8_of cs = concat (map lit_code_point_to_utf8 cs)"

fun utf16_code_points :: "u16 list \<Rightarrow> u32 list" where
  "utf16_code_points [] = []"
| "utf16_code_points [u] = [ucast u]"
| "utf16_code_points (u # v # us) =
    (if lit_is_code_point_utf16_high_surrogate (ucast u) \<and> lit_is_code_point_utf16_low_surrogate (ucast v)
     then lit_convert_surrogate_pair_to_code_point u v # utf16_code_points us
     else ucast u # utf16_code_points (v # us))"

function utf8_decode :: "u8 list \<Rightarrow> u32 list option" where
  "utf8_decode bs =
    (if bs = [] then Some []
     else (case lit_read_code_point_from_utf8 bs of
        None \<Rightarrow> None
      | Some (n, c) \<Rightarrow> map_option (Cons c) (utf8_decode (drop n bs))))"
  by pat_completeness auto
termination
  by (relation "measure length")
    (auto simp: lit_read_code_point_from_utf8_def split: list.splits if_splits)

definition fits :: "nat \<Rightarrow> u32 list \<Rightarrow> nat \<Rightarrow> bool" where
  "fits n cs k \<longleftrightarrow> k \<le> length cs \<and> length (utf8_of (take k cs)) \<le> n
     \<and> (k < length cs \<longrightarrow> n < length (utf8_of (take (Suc k) cs)))"

abbreviation pair_at :: "u16 \<Rightarrow> u16 \<Rightarrow> bool" where
  "pair_at u v \<equiv> lit_is_code_point_utf16_high_surrogate (ucast u)
     \<and> lit_is_code_point_utf16_low_surrogate (ucast v)"

fun surrogate_pairs :: "u16 \<Rightarrow> u16 list \<Rightarrow> nat" where
  "surrogate_pairs prev [] = 0"
| "surrogate_pairs prev (u # us) = (if pair_at prev u then 1 else 0) + surrogate_pairs u us"

declare utf8_decode.simps [simp del] push_bit_and [simp del]

section \<open>Characters as bytes\<close>

text \<open>Every mask test of the code as a range of byte values.\<close>

lemma byte_tests:
  fixes c :: u8
  shows "c AND 0x80 = 0 \<longleftrightarrow> unat c < 128"
    and "c AND 0xE0 = 0xC0 \<longleftrightarrow> 192 \<le> unat c \<and> unat c < 224"
    and "c AND 0xF0 = 0xE0 \<longleftrightarrow> 224 \<le> unat c \<and> unat c < 240"
    and "c AND 0xC0 = 0x80 \<longleftrightarrow> 128 \<le> unat c \<and> unat c < 192"
    and "c AND 0xE0 = 0x80 \<longleftrightarrow> 128 \<le> unat c \<and> unat c < 160"
  by (auto simp: word_eq_unat unat_simps)

lemma unat_extend_code_point [unat_simps]:
  "unat (extend_code_point r b) = unat r * 64 mod 4294967296 + unat b mod 64"
  unfolding extend_code_point_def
proof (subst unat_or_plus [of 6])
  show "2 ^ 6 dvd unat (push_bit 6 r)"
    by (simp add: unat_simps dvd_mod_iff)
qed (auto simp: unat_simps)

lemma marker_mods:
  "r < 64 \<Longrightarrow> (128 + r) mod 64 = (r::nat)" "q < 32 \<Longrightarrow> (192 + q) mod 32 = (q::nat)"
  "p < 16 \<Longrightarrow> (224 + p) mod 16 = (p::nat)" "p < 8 \<Longrightarrow> (240 + p) mod 8 = (p::nat)"
  using mod_mult_self4 [of 64 2 r] mod_mult_self4 [of 32 6 q] mod_mult_self4 [of 16 14 p]
    mod_mult_self4 [of 8 30 p] by simp_all

lemma base64_digits:
  "n = 4096 * (n div 4096) + 64 * (n div 64 mod 64) + n mod (64::nat)"
proof -
  have "n div 4096 = n div 64 div 64"
    using div_mult2_eq [of n 64 64] by simp
  with mult_div_mod_eq [of 64 n] mult_div_mod_eq [of 64 "n div 64"] show ?thesis
    by linarith
qed

text \<open>
  The three shapes of an encoded code unit, with the unit written in base 64; all facts about the
  encoder and the decoders below go through this rule.
\<close>

lemma code_unit_to_utf8_cases:
  obtains (one) b where "unat u < 128" "lit_code_unit_to_utf8 u = [b]" "unat b = unat u"
  | (two) q r b1 b2 where "unat u = 64 * q + r" "2 \<le> q" "q < 32" "r < 64"
      "lit_code_unit_to_utf8 u = [b1, b2]" "unat b1 = 192 + q" "unat b2 = 128 + r"
  | (three) p q r b1 b2 b3 where "unat u = 4096 * p + 64 * q + r" "32 \<le> 64 * p + q" "p < 16"
      "q < 64" "r < 64" "lit_code_unit_to_utf8 u = [b1, b2, b3]"
      "unat b1 = 224 + p" "unat b2 = 128 + q" "unat b3 = 128 + r"
proof -
  let ?n = "unat u"
  note [simp] = lit_code_unit_to_utf8_def Let_def word_le_unat unat_simps
  have n: "?n < 65536" by (rule unat_u16_less)
  consider "?n < 128" | "128 \<le> ?n" "?n < 2048" | "2048 \<le> ?n" by linarith
  then show thesis
  proof cases
    case 1
    with one [of "ucast u"] show ?thesis by simp
  next
    case 2
    with two [of "?n div 64" "?n mod 64" "0xC0 OR ucast (drop_bit 6 (ucast u :: u32) AND 0x1F)"
        "0x80 OR ucast ((ucast u :: u32) AND 0x3F)"]
    show ?thesis by simp
  next
    case 3
    note base64_digits [of ?n]
    moreover from this have "32 \<le> 64 * (?n div 4096) + ?n div 64 mod 64"
      using 3 mod_less_divisor [of 64 ?n] by linarith
    ultimately show ?thesis
      using 3 n three [of "?n div 4096" "?n div 64 mod 64" "?n mod 64"
        "0xE0 OR ucast (drop_bit 6 (drop_bit 6 (ucast u :: u32)) AND 0x0F)"
        "0x80 OR ucast (drop_bit 6 (ucast u :: u32) AND 0x3F)"
        "0x80 OR ucast ((ucast u :: u32) AND 0x3F)"]
      by simp
  qed
qed

lemma read_extra_bytes_numerals [simp]:
  "read_extra_bytes (Suc 0) bs ret =
    (case bs of [] \<Rightarrow> None | b # _ \<Rightarrow> Some (extend_code_point ret b))"
  "read_extra_bytes 2 bs ret =
    (case bs of [] \<Rightarrow> None | b # bs' \<Rightarrow> read_extra_bytes (Suc 0) bs' (extend_code_point ret b))"
  "read_extra_bytes 3 bs ret =
    (case bs of [] \<Rightarrow> None | b # bs' \<Rightarrow> read_extra_bytes 2 bs' (extend_code_point ret b))"
  by (simp_all add: numeral_2_eq_2 numeral_3_eq_3 split: list.split)

lemma read_code_unit_enc:
  "lit_read_code_unit_from_cesu8 (lit_code_unit_to_utf8 u @ rest) =
    Some (length (lit_code_unit_to_utf8 u), u)"
  by (cases u rule: code_unit_to_utf8_cases)
    (auto simp: lit_read_code_unit_from_cesu8_def lit_read_code_unit_from_cesu8_safe_def
      byte_tests word_eq_unat unat_simps marker_mods)


text \<open>
  The contract between a character encoder and its reader: reading an encoded character returns
  the character and its size, whatever bytes follow. Concatenations are then uniquely decodable.
\<close>

locale text_codec =
  fixes enc :: "'u \<Rightarrow> u8 list"
    and dec :: "u8 list \<Rightarrow> (nat \<times> 'u) option"
    and ok :: "'u \<Rightarrow> bool"
  assumes dec_enc: "ok u \<Longrightarrow> dec (enc u @ rest) = Some (length (enc u), u)"
    and enc_nonempty: "ok u \<Longrightarrow> enc u \<noteq> []"
begin

lemma dec_concat: "ok u \<Longrightarrow> dec (concat (map enc (u # us))) = Some (length (enc u), u)"
  by (simp add: dec_enc)

lemma concat_nonempty: "ok u \<Longrightarrow> concat (map enc (u # us)) \<noteq> []"
  by (simp add: enc_nonempty)

lemma concat_enc_inj:
  "list_all ok us \<Longrightarrow> list_all ok vs \<Longrightarrow> concat (map enc us) = concat (map enc vs) \<Longrightarrow> us = vs"
proof (induction us arbitrary: vs)
  case Nil
  then show ?case by (cases vs) (simp_all add: enc_nonempty)
next
  case (Cons u us)
  then obtain v vs' where vs: "vs = v # vs'"
    by (cases vs) (auto simp: enc_nonempty)
  have "dec (concat (map enc (u # us))) = dec (concat (map enc (v # vs')))"
    using Cons.prems(3) by (simp only: vs)
  with Cons.prems(1,2) vs have "u = v"
    by (simp add: dec_concat del: concat.simps list.map)
  with Cons vs show ?case by simp
qed

end

interpretation cesu8: text_codec lit_code_unit_to_utf8 lit_read_code_unit_from_cesu8 "\<lambda>_. True"
proof
  fix u rest
  show "lit_read_code_unit_from_cesu8 (lit_code_unit_to_utf8 u @ rest) =
    Some (length (lit_code_unit_to_utf8 u), u)"
    by (rule read_code_unit_enc)
  show "lit_code_unit_to_utf8 u \<noteq> []"
    by (cases u rule: code_unit_to_utf8_cases) auto
qed

text \<open>The same for the four shapes of a code point in UTF-8.\<close>

lemma code_point_to_utf8_cases:
  assumes "unat c < 0x110000"
  obtains (one) b where "unat c < 128" "lit_code_point_to_utf8 c = [b]" "unat b = unat c"
  | (two) q r b1 b2 where "unat c = 64 * q + r" "2 \<le> q" "q < 32" "r < 64"
      "lit_code_point_to_utf8 c = [b1, b2]" "unat b1 = 192 + q" "unat b2 = 128 + r"
  | (three) p q r b1 b2 b3 where "unat c = 4096 * p + 64 * q + r" "32 \<le> 64 * p + q" "p < 16"
      "q < 64" "r < 64" "lit_code_point_to_utf8 c = [b1, b2, b3]"
      "unat b1 = 224 + p" "unat b2 = 128 + q" "unat b3 = 128 + r"
  | (four) o' p q r b1 b2 b3 b4 where "unat c = 262144 * o' + 4096 * p + 64 * q + r"
      "16 \<le> 64 * o' + p" "o' < 5" "o' = 4 \<longrightarrow> p < 16" "p < 64" "q < 64" "r < 64"
      "lit_code_point_to_utf8 c = [b1, b2, b3, b4]"
      "unat b1 = 240 + o'" "unat b2 = 128 + p" "unat b3 = 128 + q" "unat b4 = 128 + r"
proof -
  let ?n = "unat c"
  note [simp] = lit_code_point_to_utf8_def Let_def word_le_unat unat_simps
  consider "?n < 128" | "128 \<le> ?n" "?n < 2048" | "2048 \<le> ?n" "?n < 65536" | "65536 \<le> ?n" by linarith
  then show thesis
  proof cases
    case 1
    with one [of "ucast c"] show ?thesis by simp
  next
    case 2
    with two [of "?n div 64" "?n mod 64" "0xC0 OR ucast (drop_bit 6 c AND 0x1F)"
        "0x80 OR ucast (c AND 0x3F)"]
    show ?thesis by simp
  next
    case 3
    note base64_digits [of ?n]
    moreover from this have "32 \<le> 64 * (?n div 4096) + ?n div 64 mod 64"
      using 3 mod_less_divisor [of 64 ?n] by linarith
    ultimately show ?thesis
      using 3 three [of "?n div 4096" "?n div 64 mod 64" "?n mod 64"
        "0xE0 OR ucast (drop_bit 6 (drop_bit 6 c) AND 0x0F)"
        "0x80 OR ucast (drop_bit 6 c AND 0x3F)" "0x80 OR ucast (c AND 0x3F)"]
      by simp
  next
    case 4
    have d: "?n div 4096 = 64 * (?n div 262144) + ?n div 4096 mod 64"
      using mult_div_mod_eq [of 64 "?n div 4096"] div_mult2_eq [of ?n 4096 64] by simp
    have n: "?n = 262144 * (?n div 262144) + 4096 * (?n div 4096 mod 64) + 64 * (?n div 64 mod 64)
      + ?n mod 64"
      using base64_digits [of ?n] d by linarith
    have b: "16 \<le> ?n div 4096" "?n div 4096 < 272" using 4 assms by auto
    have o: "?n div 262144 < 5" using assms by auto
    show ?thesis
    proof (rule four [of "?n div 262144" "?n div 4096 mod 64" "?n div 64 mod 64" "?n mod 64"
        "0xF0 OR ucast (drop_bit 6 (drop_bit 6 (drop_bit 6 c)) AND 0x07)"
        "0x80 OR ucast (drop_bit 6 (drop_bit 6 c) AND 0x3F)"
        "0x80 OR ucast (drop_bit 6 c AND 0x3F)" "0x80 OR ucast (c AND 0x3F)"])
      show "16 \<le> 64 * (?n div 262144) + ?n div 4096 mod 64"
        "?n div 262144 = 4 \<longrightarrow> ?n div 4096 mod 64 < 16"
        using b d by linarith+
    qed (use 4 o in \<open>simp_all add: n [symmetric]\<close>)
  qed
qed

lemma read_code_point_enc:
  "unat c < 0x110000 \<Longrightarrow> lit_read_code_point_from_utf8 (lit_code_point_to_utf8 c @ rest) =
    Some (length (lit_code_point_to_utf8 c), c)"
  by (cases c rule: code_point_to_utf8_cases)
    (auto simp: lit_read_code_point_from_utf8_def byte_tests word_eq_unat unat_simps marker_mods)

interpretation utf8: text_codec lit_code_point_to_utf8 lit_read_code_point_from_utf8
  "\<lambda>c. unat c < 0x110000"
proof
  fix c :: u32 and rest
  assume ok: "unat c < 0x110000"
  show "lit_read_code_point_from_utf8 (lit_code_point_to_utf8 c @ rest) =
    Some (length (lit_code_point_to_utf8 c), c)"
    using ok by (rule read_code_point_enc)
  show "lit_code_point_to_utf8 c \<noteq> []"
    using ok by (cases c rule: code_point_to_utf8_cases) auto
qed

section \<open>CESU-8 strings\<close>

lemma cesu8_of_simps [simp]:
  "cesu8_of [] = []" "cesu8_of (u # us) = lit_code_unit_to_utf8 u @ cesu8_of us"
  "cesu8_of (us @ vs) = cesu8_of us @ cesu8_of vs"
  by (simp_all add: cesu8_of_def)

lemma code_unit_bytes_nonempty [simp]: "lit_code_unit_to_utf8 u \<noteq> []"
  by (rule cesu8.enc_nonempty) simp

lemma cesu8_of_eq_Nil [simp]: "cesu8_of us = [] \<longleftrightarrow> us = []"
  by (cases us) auto

lemma read_unit [simp]:
  "lit_read_code_unit_from_cesu8 (lit_code_unit_to_utf8 u @ rest) = Some (length (lit_code_unit_to_utf8 u), u)"
  by (rule cesu8.dec_enc) simp

lemma check_extra_numerals [simp]:
  "cesu8_check_extra_bytes (Suc 0) bs cp =
    (case bs of [] \<Rightarrow> None | b # _ \<Rightarrow> if b AND 0xC0 \<noteq> 0x80 then None else Some (extend_code_point cp b))"
  "cesu8_check_extra_bytes 2 bs cp =
    (case bs of [] \<Rightarrow> None | b # bs' \<Rightarrow> if b AND 0xC0 \<noteq> 0x80 then None
       else cesu8_check_extra_bytes (Suc 0) bs' (extend_code_point cp b))"
  by (simp_all add: numeral_2_eq_2 split: list.split)

lemma valid_cesu8_enc:
  "lit_is_valid_cesu8_string (lit_code_unit_to_utf8 u @ rest) = lit_is_valid_cesu8_string rest"
  by (cases u rule: code_unit_to_utf8_cases)
    (auto simp: lit_is_valid_cesu8_string.simps byte_tests word_less_unat unat_simps marker_mods)

lemma valid_cesu8_of: "lit_is_valid_cesu8_string (cesu8_of us)"
  by (induction us) (auto simp: valid_cesu8_enc)

lemma u16_of_nat: "n < 65536 \<Longrightarrow> \<exists>u :: u16. unat u = n"
  by (rule exI [of _ "of_nat n"]) (simp add: unat_of_nat)

lemma enc_two_bytes:
  assumes "unat u = 64 * q + r" "2 \<le> q" "q < 32" "r < 64" "unat b1 = 192 + q" "unat b2 = 128 + r"
  shows "lit_code_unit_to_utf8 u = [b1, b2]"
  using assms
  by (auto simp: lit_code_unit_to_utf8_def Let_def word_unat unat_simps)

lemma base64_div_mod:
  assumes "r < 64"
  shows "(4096 * p + 64 * q + r) div 64 = 64 * p + (q :: nat)"
    and "(4096 * p + 64 * q + r) mod 64 = r"
proof -
  have n: "4096 * p + 64 * q + r = r + (64 * p + q) * 64" by simp
  show "(4096 * p + 64 * q + r) div 64 = 64 * p + q" "(4096 * p + 64 * q + r) mod 64 = r"
    unfolding n using assms by (simp_all only: mod_mult_self1 mod_less div_mult_self1 div_less)
qed

lemma enc_three_bytes:
  assumes "unat u = 4096 * p + 64 * q + r" "32 \<le> 64 * p + q" "p < 16" "q < 64" "r < 64"
    "unat b1 = 224 + p" "unat b2 = 128 + q" "unat b3 = 128 + r"
  shows "lit_code_unit_to_utf8 u = [b1, b2, b3]"
  using assms
  by (auto simp: lit_code_unit_to_utf8_def Let_def word_unat unat_simps base64_div_mod)

lemma valid_cesu8_front:
  assumes "lit_is_valid_cesu8_string (c # bs)"
  obtains u rest where "c # bs = lit_code_unit_to_utf8 u @ rest" "lit_is_valid_cesu8_string rest"
proof -
  have c: "unat c < 256" by (rule unat_u8_less)
  consider (one) "unat c < 128" "lit_is_valid_cesu8_string bs"
    | (two) b bs' where "192 \<le> unat c" "unat c < 224" "bs = b # bs'" "128 \<le> unat b" "unat b < 192"
       "128 \<le> unat c mod 32 * 64 + unat b mod 64" "lit_is_valid_cesu8_string bs'"
    | (three) b1 b2 bs' where "224 \<le> unat c" "unat c < 240" "bs = b1 # b2 # bs'"
       "128 \<le> unat b1" "unat b1 < 192" "128 \<le> unat b2" "unat b2 < 192"
       "2048 \<le> (unat c mod 16 * 64 + unat b1 mod 64) * 64 + unat b2 mod 64"
       "lit_is_valid_cesu8_string bs'"
    using assms
    by (auto simp: lit_is_valid_cesu8_string.simps byte_tests word_less_unat unat_simps
         split: if_splits list.splits)
  then show thesis
  proof cases
    case one
    then have "lit_code_unit_to_utf8 (ucast c) = [c]"
      by (auto simp: lit_code_unit_to_utf8_def word_unat unat_simps)
    then show ?thesis using one that [of "ucast c" bs] by simp
  next
    case two
    define q r where "q = unat c - 192" and "r = unat b - 128"
    have qr: "unat c = 192 + q" "unat b = 128 + r" "q < 32" "r < 64" using two by (auto simp: q_def r_def)
    from qr obtain u :: u16 where "unat u = 64 * q + r"
      using u16_of_nat [of "64 * q + r"] by auto
    with qr two have "lit_code_unit_to_utf8 u = [c, b]"
      by (intro enc_two_bytes) (auto simp: marker_mods)
    then show ?thesis using two that [of u bs'] by simp
  next
    case three
    define p q r where "p = unat c - 224" and "q = unat b1 - 128" and "r = unat b2 - 128"
    have pqr: "unat c = 224 + p" "unat b1 = 128 + q" "unat b2 = 128 + r" "p < 16" "q < 64" "r < 64"
      using three by (auto simp: p_def q_def r_def)
    from pqr obtain u :: u16 where "unat u = 4096 * p + 64 * q + r"
      using u16_of_nat [of "4096 * p + 64 * q + r"] by auto
    with pqr three have "lit_code_unit_to_utf8 u = [c, b1, b2]"
      by (intro enc_three_bytes) (auto simp: marker_mods)
    then show ?thesis using three that [of u bs'] by simp
  qed
qed

lemma valid_cesu8_iff_cesu8_of: "lit_is_valid_cesu8_string bs \<longleftrightarrow> (\<exists>us. bs = cesu8_of us)"
proof
  show "lit_is_valid_cesu8_string bs \<Longrightarrow> \<exists>us. bs = cesu8_of us"
  proof (induction bs rule: length_induct)
    case (1 bs)
    show ?case
    proof (cases bs)
      case Nil
      then show ?thesis by (intro exI [of _ "[]"]) simp
    next
      case (Cons c cs)
      with "1.prems" obtain u rest
        where r: "bs = lit_code_unit_to_utf8 u @ rest" "lit_is_valid_cesu8_string rest"
        by (metis valid_cesu8_front)
      then have "length rest < length bs" by simp
      with "1.IH" r obtain us where "rest = cesu8_of us" by blast
      with r show ?thesis by (intro exI [of _ "u # us"]) simp
    qed
  qed
qed (auto simp: valid_cesu8_of)

lemma char_size_enc [simp]:
  assumes "lit_code_unit_to_utf8 u @ rest = b # bs"
  shows "lit_get_unicode_char_size_by_utf8_first_byte b = length (lit_code_unit_to_utf8 u)"
  using assms
  by (cases u rule: code_unit_to_utf8_cases)
    (auto simp: lit_get_unicode_char_size_by_utf8_first_byte_def byte_tests)

lemma length_step: "lit_utf8_string_length (lit_code_unit_to_utf8 u @ rest) = Suc (lit_utf8_string_length rest)"
proof -
  obtain b bs where b: "lit_code_unit_to_utf8 u @ rest = b # bs"
    by (cases "lit_code_unit_to_utf8 u @ rest") auto
  have "drop (length (lit_code_unit_to_utf8 u)) (b # bs) = rest"
    by (simp flip: b)
  with b show ?thesis by simp
qed

lemma length_cesu8_of: "lit_utf8_string_length (cesu8_of us) = length us"
  by (induction us) (simp_all add: length_step)

lemma code_unit_at_cesu8_of: "i < length us \<Longrightarrow> lit_utf8_string_code_unit_at (cesu8_of us) i = Some (us ! i)"
proof (induction us arbitrary: i)
  case (Cons u us)
  then show ?case by (cases i) auto
qed simp

lemma compare_cesu8_of:
  "lit_compare_utf8_strings_relational (cesu8_of us) (cesu8_of vs) = Some (us < vs)"
proof (induction us arbitrary: vs)
  case Nil
  then show ?case by (cases vs) (auto simp: lit_compare_utf8_strings_relational.simps)
next
  case (Cons u us)
  show ?case
  proof (cases vs)
    case Nil
    then show ?thesis by (simp add: lit_compare_utf8_strings_relational.simps)
  next
    case (Cons v vs')
    then show ?thesis
      using Cons.IH [of vs'] by (auto simp: lit_compare_utf8_strings_relational.simps [of "_ @ _"])
  qed
qed

section \<open>UTF-16 strings\<close>

lemma surrogate_tests:
  "lit_is_code_point_utf16_high_surrogate (ucast (u :: u16)) \<longleftrightarrow> 0xD800 \<le> unat u \<and> unat u < 0xDC00"
  "lit_is_code_point_utf16_low_surrogate (ucast (u :: u16)) \<longleftrightarrow> 0xDC00 \<le> unat u \<and> unat u < 0xE000"
  using unat_u16_less [of u]
  by (auto simp: lit_is_code_point_utf16_high_surrogate_def lit_is_code_point_utf16_low_surrogate_def
      word_le_unat unat_simps)

lemma unat_surrogate_pair:
  assumes "0xD800 \<le> unat h" "unat h < 0xDC00" "0xDC00 \<le> unat l" "unat l < 0xE000"
  shows "unat (lit_convert_surrogate_pair_to_code_point h l) =
    0x10000 + (unat h - 0xD800) * 1024 + (unat l - 0xDC00)"
proof -
  have h: "unat (h - 0xD800) = unat h - 0xD800" and l: "unat (l - 0xDC00) = unat l - 0xDC00"
    using assms by (simp_all add: unat_sub word_le_unat)
  let ?a = "push_bit 10 (ucast (h - 0xD800) :: u32) + 0x10000"
  have a: "unat ?a = (unat h - 0xD800) * 1024 + 0x10000"
    using assms by (simp add: unat_word_ariths unat_simps h)
  have "unat (?a OR ucast (l - 0xDC00)) = unat ?a + unat (ucast (l - 0xDC00) :: u32)"
  proof (rule unat_or_plus [of 10])
    show "2 ^ 10 dvd unat ?a" unfolding a by simp
    show "unat (ucast (l - 0xDC00) :: u32) < 2 ^ 10"
      using assms by (simp add: unat_simps l)
  qed
  then show ?thesis
    using assms by (simp add: lit_convert_surrogate_pair_to_code_point_def Let_def a unat_simps l)
qed

lemma surrogate_pair_roundtrip:
  assumes "0x10000 \<le> unat c" "unat c < 0x110000"
  shows "lit_convert_surrogate_pair_to_code_point (convert_code_point_to_high_surrogate c)
    (convert_code_point_to_low_surrogate c) = c"
proof -
  have s: "unat (c - 0x10000) = unat c - 0x10000"
    using assms by (simp add: unat_sub word_le_unat)
  have h: "unat (convert_code_point_to_high_surrogate c) = 0xD800 + (unat c - 0x10000) div 1024"
    using assms by (simp add: convert_code_point_to_high_surrogate_def unat_simps s)
  have l: "unat (convert_code_point_to_low_surrogate c) = 0xDC00 + unat c mod 1024"
    by (simp add: convert_code_point_to_low_surrogate_def unat_simps)
  have m: "unat c = 0x10000 + (unat c - 0x10000) div 1024 * 1024 + unat c mod 1024"
  proof -
    obtain m where "unat c = m + 64 * 1024"
      using assms by (metis le_add_diff_inverse2 numeral_times_numeral semiring_norm(12,13,14))
    then show ?thesis
      using div_mult_mod_eq [of m 1024] mod_mult_self1 [of m 64 1024] by simp
  qed
  show ?thesis
    using assms m by (simp add: word_eq_unat unat_surrogate_pair h l)
qed

text \<open>The UTF-16 loops combine a pair and encode it again as two code units.\<close>

lemma high_low_of_pair:
  assumes "lit_is_code_point_utf16_high_surrogate (ucast h)" "lit_is_code_point_utf16_low_surrogate (ucast l)"
  defines "c \<equiv> push_bit 10 (ucast h AND 0x3FF) + (ucast l AND 0x3FF) + (0x10000 :: u32)"
  shows "convert_code_point_to_high_surrogate c = h" "convert_code_point_to_low_surrogate c = l"
    "\<not> c \<le> 0xFFFF"
proof -
  obtain i j where ij: "unat h = 0xD800 + i" "unat l = 0xDC00 + j" "i < 1024" "j < 1024"
    using assms(1,2) that [of "unat h - 0xD800" "unat l - 0xDC00"] by (auto simp: surrogate_tests)
  have ijm: "(0xD800 + i) mod 1024 = i" "(0xDC00 + j) mod 1024 = j"
    using ij mod_mult_self4 [of 1024 54 i] mod_mult_self4 [of 1024 55 j] by simp_all
  have c: "unat c = 0x10000 + (i * 1024 + j)"
    using ij by (simp add: c_def unat_word_ariths unat_simps ijm)
  have s: "unat (c - 0x10000) = i * 1024 + j"
    using c by (simp add: unat_sub word_le_unat)
  show "convert_code_point_to_high_surrogate c = h"
    using ij by (simp add: convert_code_point_to_high_surrogate_def word_eq_unat unat_simps s)
  have "(0x10000 + (i * 1024 + j)) mod 1024 = j"
    using ij mod_mult_self4 [of 1024 "64 + i" j] by (simp add: algebra_simps)
  then show "convert_code_point_to_low_surrogate c = l"
    using ij by (simp add: convert_code_point_to_low_surrogate_def word_eq_unat unat_simps c)
  show "\<not> c \<le> 0xFFFF" by (simp add: word_le_unat c)
qed

lemma utf16_code_points_single:
  "\<not> lit_is_code_point_utf16_high_surrogate (ucast u) \<Longrightarrow>
    utf16_code_points (u # us) = ucast u # utf16_code_points us"
  by (cases us) auto

lemma utf16_next_cesu8:
  assumes "utf16_next_code_point us = Some (c, us')"
  shows "cesu8_of us = lit_code_point_to_cesu8 c @ cesu8_of us'" "length us' < length us"
    and "length (utf16_code_points us) = Suc (length (utf16_code_points us'))"
proof -
  have u: "lit_code_point_to_cesu8 (ucast u) = lit_code_unit_to_utf8 u" for u :: u16
  proof -
    have "ucast (ucast u :: u32) = u" using unat_u16_less [of u] by (simp add: word_eq_unat unat_simps)
    then show ?thesis
      using unat_u16_less [of u] by (simp add: lit_code_point_to_cesu8_def word_le_unat unat_simps)
  qed
  show "cesu8_of us = lit_code_point_to_cesu8 c @ cesu8_of us'" "length us' < length us"
    "length (utf16_code_points us) = Suc (length (utf16_code_points us'))"
    using assms
    by (auto elim!: utf16_next_code_point.elims split: if_splits list.splits
        simp: u utf16_code_points_single high_low_of_pair lit_code_point_to_cesu8_def [of "push_bit 10 _ + _ + _"])
qed

lemma utf16_measure_loop_eq:
  "utf16_measure_loop us c b = (c + length (utf16_code_points us), b + length (cesu8_of us))"
proof (induction us c b rule: utf16_measure_loop.induct)
  case (1 us c b)
  show ?case
  proof (cases "utf16_next_code_point us")
    case None
    then have "us = []" by (cases us) (auto split: if_splits list.splits)
    with None show ?thesis by (simp add: utf16_measure_loop.simps)
  next
    case (Some p)
    then obtain d us' where "utf16_next_code_point us = Some (d, us')" by (cases p) auto
    with 1 utf16_next_cesu8 [OF this] show ?thesis
      by (simp add: utf16_measure_loop.simps [of us])
  qed
qed

lemma utf16_convert_loop_eq:
  "length out + length (cesu8_of us) \<le> n \<Longrightarrow> utf16_convert_loop us n out = out @ cesu8_of us"
proof (induction us n out rule: utf16_convert_loop.induct)
  case (1 us n out)
  show ?case
  proof (cases "utf16_next_code_point us")
    case None
    then have "us = []" by (cases us) (auto split: if_splits list.splits)
    with None show ?thesis by (simp add: utf16_convert_loop.simps)
  next
    case (Some p)
    then obtain d us' where d: "utf16_next_code_point us = Some (d, us')" by (cases p) auto
    have "lit_code_point_to_cesu8 d \<noteq> []" by (simp add: lit_code_point_to_cesu8_def)
    moreover have "utf16_convert_loop us' n (out @ lit_code_point_to_cesu8 d)
      = (out @ lit_code_point_to_cesu8 d) @ cesu8_of us'"
      using "1.IH" [OF d refl refl] "1.prems" calculation utf16_next_cesu8 [OF d] by simp
    ultimately show ?thesis
      using "1.prems" d utf16_next_cesu8 [OF d]
      by (simp add: utf16_convert_loop.simps [of us] Let_def)
  qed
qed

section \<open>Conversion to UTF-8\<close>

lemma utf8_unit: "lit_code_point_to_utf8 (ucast (u :: u16)) = lit_code_unit_to_utf8 u"
proof -
  have [simp]: "ucast (ucast u :: u32) = (ucast u :: u8)"
    using unat_u16_less [of u] by (simp add: word_eq_unat unat_simps)
  show ?thesis using unat_u16_less [of u]
    by (simp add: lit_code_point_to_utf8_def lit_code_unit_to_utf8_def Let_def word_le_unat unat_simps)
qed

lemma read_code_point_cesu8_of:
  "lit_read_code_point_from_cesu8 (cesu8_of [u]) = Some (length (lit_code_unit_to_utf8 u), ucast u)"
  "lit_read_code_point_from_cesu8 (cesu8_of (u # v # us)) =
    (if lit_is_code_point_utf16_high_surrogate (ucast u) \<and> lit_is_code_point_utf16_low_surrogate (ucast v)
     then Some (length (lit_code_unit_to_utf8 u) + length (lit_code_unit_to_utf8 v),
       lit_convert_surrogate_pair_to_code_point u v)
     else Some (length (lit_code_unit_to_utf8 u), ucast u))"
  using read_unit [of u "[]"]
  by (auto simp: lit_read_code_point_from_cesu8_def simp del: append_Nil2)

lemma utf8_of_simps [simp]: "utf8_of [] = []" "utf8_of (c # cs) = lit_code_point_to_utf8 c @ utf8_of cs"
  by (simp_all add: utf8_of_def)

lemma fits_Cons:
  "fits (n - length (lit_code_point_to_utf8 c)) cs k \<Longrightarrow> length (lit_code_point_to_utf8 c) \<le> n \<Longrightarrow>
    fits n (c # cs) (Suc k)"
  by (auto simp: fits_def)

lemma surrogate_pair_utf8:
  assumes "lit_is_code_point_utf16_high_surrogate (ucast h)" "lit_is_code_point_utf16_low_surrogate (ucast l)"
  shows "0x10000 \<le> lit_convert_surrogate_pair_to_code_point h l"
    and "length (lit_code_point_to_utf8 (lit_convert_surrogate_pair_to_code_point h l)) = 4"
proof -
  have "unat (lit_convert_surrogate_pair_to_code_point h l) \<ge> 0x10000"
    using assms by (simp add: surrogate_tests unat_surrogate_pair)
  then show "0x10000 \<le> lit_convert_surrogate_pair_to_code_point h l"
    and "length (lit_code_point_to_utf8 (lit_convert_surrogate_pair_to_code_point h l)) = 4"
    by (simp_all add: word_le_unat lit_code_point_to_utf8_def)
qed

text \<open>One iteration of the conversion, in terms of the code units at the cursor.\<close>

lemma cesu8_to_utf8_step:
  assumes "us \<noteq> []"
  obtains c us' read where "utf16_code_points us = c # utf16_code_points us'" "length us' < length us"
    "cesu8_to_utf8_loop (cesu8_of us) n out =
      (if length out + length (lit_code_point_to_utf8 c) > n then Some out
       else cesu8_to_utf8_loop (cesu8_of us') n (out @ lit_code_point_to_utf8 c))"
proof (cases us rule: utf16_code_points.cases)
  case 1
  with assms show ?thesis by simp
next
  case (2 u)
  have "\<not> (0x10000 :: u32) \<le> ucast u" using unat_u16_less [of u] by (simp add: word_le_unat unat_simps)
  with 2 show ?thesis
    using that [of "ucast u" "[]"] read_code_point_cesu8_of(1) [of u]
    by (simp add: cesu8_to_utf8_loop.simps [of "_ @ _"] cesu8_to_utf8_loop.simps [of "lit_code_unit_to_utf8 _"] utf8_unit Let_def)
next
  case (3 u v vs)
  have n: "\<not> (0x10000 :: u32) \<le> ucast u" using unat_u16_less [of u] by (simp add: word_le_unat unat_simps)
  show ?thesis
  proof (cases "lit_is_code_point_utf16_high_surrogate (ucast u) \<and> lit_is_code_point_utf16_low_surrogate (ucast v)")
    case True
    with 3 show ?thesis
      using that [of "lit_convert_surrogate_pair_to_code_point u v" vs] read_code_point_cesu8_of(2) [of u v vs]
        surrogate_pair_utf8 [of u v]
      by (simp add: cesu8_to_utf8_loop.simps [of "_ @ _"] Let_def)
  next
    case False
    with 3 n show ?thesis
      using that [of "ucast u" "v # vs"] read_code_point_cesu8_of(2) [of u v vs]
      by (auto simp add: cesu8_to_utf8_loop.simps [of "_ @ _ @ _"] Let_def utf8_unit)
  qed
qed

lemma cesu8_to_utf8_loop_eq:
  "\<exists>k. fits (n - length out) (utf16_code_points us) k \<and>
    cesu8_to_utf8_loop (cesu8_of us) n out = Some (out @ utf8_of (take k (utf16_code_points us)))"
  if "length out \<le> n"
  using that
proof (induction us arbitrary: out rule: length_induct)
  case (1 us)
  show ?case
  proof (cases "us = []")
    case True
    then show ?thesis by (intro exI [of _ 0]) (simp add: fits_def cesu8_to_utf8_loop.simps)
  next
    case False
    then obtain c us' where s: "utf16_code_points us = c # utf16_code_points us'" "length us' < length us"
      "cesu8_to_utf8_loop (cesu8_of us) n out =
      (if length out + length (lit_code_point_to_utf8 c) > n then Some out
       else cesu8_to_utf8_loop (cesu8_of us') n (out @ lit_code_point_to_utf8 c))"
      by (rule cesu8_to_utf8_step)
    show ?thesis
    proof (cases "length out + length (lit_code_point_to_utf8 c) > n")
      case True
      with s "1.prems" show ?thesis by (intro exI [of _ 0]) (auto simp: fits_def)
    next
      case False
      with "1.IH" s obtain k where k: "fits (n - length (out @ lit_code_point_to_utf8 c)) (utf16_code_points us') k"
        "cesu8_to_utf8_loop (cesu8_of us') n (out @ lit_code_point_to_utf8 c)
          = Some ((out @ lit_code_point_to_utf8 c) @ utf8_of (take k (utf16_code_points us')))"
        by (metis length_append not_less)
      with s False show ?thesis
        by (intro exI [of _ "Suc k"]) (auto intro: fits_Cons)
    qed
  qed
qed

lemma utf8_loop_steps [simp]:
  "utf8_size_loop [] prev n = Some n" "utf8_length_loop [] prev n = Some n"
  "utf8_size_loop (lit_code_unit_to_utf8 u @ rest) prev n =
    utf8_size_loop rest u (if pair_at prev u then n - 2 else n)"
  "utf8_length_loop (lit_code_unit_to_utf8 u @ rest) prev n =
    utf8_length_loop rest u (if pair_at prev u then n else n + 1)"
  by (subst utf8_size_loop.simps utf8_length_loop.simps, simp)+

lemma utf8_size_loop_eq:
  "utf8_size_loop (cesu8_of us) prev n = Some (n - 2 * surrogate_pairs prev us)"
  by (induction us arbitrary: prev n) auto

lemma zero_not_high [simp]: "\<not> lit_is_code_point_utf16_high_surrogate 0"
  by (simp add: lit_is_code_point_utf16_high_surrogate_def)

lemma surrogate_pairs_not_high:
  "\<not> lit_is_code_point_utf16_high_surrogate (ucast p) \<Longrightarrow> surrogate_pairs p us = surrogate_pairs 0 us"
  by (cases us) auto

lemma low_not_high: "lit_is_code_point_utf16_low_surrogate (ucast u) \<Longrightarrow>
  \<not> lit_is_code_point_utf16_high_surrogate (ucast (u :: u16))"
  by (simp add: surrogate_tests)

lemma length_enc_surrogate:
  "0xD800 \<le> unat u \<Longrightarrow> length (lit_code_unit_to_utf8 u) = 3"
  by (simp add: lit_code_unit_to_utf8_def word_le_unat Let_def)

lemma length_utf8_of_code_points:
  "length (utf8_of (utf16_code_points us)) + 2 * surrogate_pairs 0 us = length (cesu8_of us)"
proof (induction us rule: utf16_code_points.induct)
  case (3 u v us)
  show ?case
  proof (cases "pair_at u v")
    case True
    then have "length (lit_code_unit_to_utf8 u) = 3" "length (lit_code_unit_to_utf8 v) = 3"
      by (auto simp: surrogate_tests length_enc_surrogate)
    moreover have "surrogate_pairs v us = surrogate_pairs 0 us"
      using True low_not_high surrogate_pairs_not_high by blast
    moreover have "length (lit_code_point_to_utf8 (lit_convert_surrogate_pair_to_code_point u v)) = 4"
      using True surrogate_pair_utf8 by blast
    ultimately show ?thesis using True 3(1) by simp
  next
    case False
    with 3(2) surrogate_pairs_not_high [of u "v # us"] show ?thesis by (auto simp: utf8_unit)
  qed
qed (simp_all add: utf8_unit)

lemma length_code_points: "length (utf16_code_points us) + surrogate_pairs 0 us = length us"
proof (induction us rule: utf16_code_points.induct)
  case (3 u v us)
  then show ?case
    using surrogate_pairs_not_high [of v us] surrogate_pairs_not_high [of u "v # us"] low_not_high [of v]
    by auto
qed simp_all

lemma surrogate_pairs_le: "surrogate_pairs u us \<le> length us"
  by (induction us arbitrary: u) (auto simp: le_SucI)

lemma utf8_length_loop_eq:
  "utf8_length_loop (cesu8_of us) prev n = Some (n + length us - surrogate_pairs prev us)"
proof (induction us arbitrary: prev n)
  case Nil
  then show ?case by simp
next
  case (Cons u us)
  with surrogate_pairs_le [of u us] show ?case by (auto simp: Suc_diff_le)
qed

lemma utf8_size_of_cesu8:
  "lit_get_utf8_size_of_cesu8_string (cesu8_of us) = Some (length (utf8_of (utf16_code_points us)))"
  using length_utf8_of_code_points [of us]
  by (simp add: lit_get_utf8_size_of_cesu8_string_def utf8_size_loop_eq)

lemma utf8_length_of_cesu8:
  "lit_get_utf8_length_of_cesu8_string (cesu8_of us) = Some (length (utf16_code_points us))"
  using length_code_points [of us]
  by (simp add: lit_get_utf8_length_of_cesu8_string_def utf8_length_loop_eq)

section \<open>Moving a cursor\<close>

lemma extra_bytes_enc:
  "\<not> (hd (lit_code_unit_to_utf8 u) AND 0xC0 = 0x80)"
  "\<forall>b \<in> set (tl (lit_code_unit_to_utf8 u)). b AND 0xC0 = 0x80"
  by (cases u rule: code_unit_to_utf8_cases; simp add: byte_tests)+

lemma decr_over_extra:
  "\<forall>b \<in> set ys. b AND 0xC0 = 0x80 \<Longrightarrow> \<not> (x AND 0xC0 = 0x80) \<Longrightarrow>
    lit_utf8_decr (xs @ x # ys @ zs) (length xs + Suc (length ys)) = Some (length xs)"
proof (induction ys arbitrary: zs rule: rev_induct)
  case Nil
  then show ?case by simp
next
  case (snoc y ys)
  have "lit_utf8_decr (xs @ x # (ys @ [y]) @ zs) (Suc (length xs + Suc (length ys)))
    = lit_utf8_decr (xs @ x # ys @ (y # zs)) (length xs + Suc (length ys))"
    using snoc.prems(1) by (simp add: nth_append del: lit_utf8_decr.simps) (simp add: nth_append)
  also have "\<dots> = Some (length xs)"
    using snoc by (intro snoc.IH) auto
  finally show ?case by simp
qed

lemma prev_of_next:
  fixes us vs u
  defines "buf \<equiv> cesu8_of (us @ u # vs)" and "i \<equiv> length (cesu8_of us)"
  shows "lit_cesu8_read_next buf i = Some (i + length (lit_code_unit_to_utf8 u), u)"
    and "lit_cesu8_read_prev buf (i + length (lit_code_unit_to_utf8 u)) = Some (i, u)"
    and "lit_utf8_incr buf i = Some (i + length (lit_code_unit_to_utf8 u))"
proof -
  show n: "lit_cesu8_read_next buf i = Some (i + length (lit_code_unit_to_utf8 u), u)"
    by (simp add: lit_cesu8_read_next_def buf_def i_def)
  obtain x ys where x: "lit_code_unit_to_utf8 u = x # ys"
    by (cases "lit_code_unit_to_utf8 u") auto
  have "lit_utf8_decr buf (i + length (lit_code_unit_to_utf8 u)) = Some i"
    using decr_over_extra [of ys x "cesu8_of us" "cesu8_of vs"] extra_bytes_enc [of u]
    by (simp add: x buf_def i_def)
  with read_unit [of u "cesu8_of vs"]
  show "lit_cesu8_read_prev buf (i + length (lit_code_unit_to_utf8 u)) = Some (i, u)"
    by (simp add: lit_cesu8_read_prev_def buf_def i_def del: read_unit)
  show "lit_utf8_incr buf i = Some (i + length (lit_code_unit_to_utf8 u))"
    using char_size_enc [of u "cesu8_of vs"] by (simp add: lit_utf8_incr_def buf_def i_def x)
qed

section \<open>UTF-8 validation\<close>

lemma valid_utf8_enc:
  "unat c < 0x110000 \<Longrightarrow>
    lit_is_valid_utf8_string (lit_code_point_to_utf8 c @ rest) False = lit_is_valid_utf8_string rest False"
  by (cases c rule: code_point_to_utf8_cases)
    (auto simp: lit_is_valid_utf8_string.simps byte_tests word_unat unat_simps)

lemma valid_utf8_of: "list_all (\<lambda>c. unat c < 0x110000) cs \<Longrightarrow> lit_is_valid_utf8_string (utf8_of cs) False"
  by (induction cs) (auto simp: valid_utf8_enc)

lemma valid_utf8_front:
  assumes "lit_is_valid_utf8_string (c # bs) s"
  obtains n d where "lit_read_code_point_from_utf8 (c # bs) = Some (n, d)" "unat d < 0x110000" "0 < n"
    "lit_is_valid_utf8_string (drop n (c # bs)) s"
proof -
  let ?ext = extend_code_point
  have c: "unat c < 256" by (rule unat_u8_less)
  note tests = lit_is_valid_utf8_string.simps(2) byte_tests word_less_unat word_le_unat
  consider (one) "unat c < 128" "lit_is_valid_utf8_string bs s"
    | (two) b bs' where "194 \<le> unat c" "unat c < 224" "bs = b # bs'" "lit_is_valid_utf8_string bs' s"
    | (three) b1 b2 bs' where "224 \<le> unat c" "unat c < 240" "bs = b1 # b2 # bs'"
        "lit_is_valid_utf8_string bs' s"
    | (four) b1 b2 b3 bs' where "240 \<le> unat c" "unat c < 245" "unat c = 244 \<longrightarrow> unat b1 < 144"
        "128 \<le> unat b1" "unat b1 < 192" "bs = b1 # b2 # b3 # bs'" "lit_is_valid_utf8_string bs' s"
  proof (cases "unat c < 128")
    case False
    note False [simp] 
    show ?thesis
    proof (cases "unat c < 224")
      case True
      with assms False show ?thesis
        by (auto simp: tests word_eq_unat split: if_splits list.splits intro: two)
    next
      case c: False
      show ?thesis
      proof (cases "unat c < 240")
        case True
        with assms False c show ?thesis
          by (auto simp: tests word_eq_unat split: if_splits list.splits intro: three)
      next
        case d: False
        with assms False c show ?thesis
          by (auto simp: tests word_eq_unat [of c] split: if_splits list.splits) (rule four; simp)+
      qed
    qed
  qed (use assms one in \<open>simp add: tests\<close>)
  then show thesis
  proof cases
    case one
    then show ?thesis using that [of 1 "ucast (c AND 0x7F)"]
      by (simp add: lit_read_code_point_from_utf8_def byte_tests unat_simps)
  next
    case two
    then show ?thesis using that [of 2 "?ext (ucast (c AND 0x1F)) b"]
      by (simp add: lit_read_code_point_from_utf8_def byte_tests unat_simps)
  next
    case three
    then show ?thesis using that [of 3 "?ext (?ext (ucast (c AND 0x0F)) b1) b2"]
      by (simp add: lit_read_code_point_from_utf8_def byte_tests unat_simps)
  next
    case four
    define p where "p = unat c - 240"
    then have p: "unat c = 240 + p" "p < 5" "p = 4 \<longrightarrow> unat b1 < 144" using four by auto
    obtain q where q: "unat b1 = 128 + q" "q < 64" using four that [of "unat b1 - 128"] by simp
    have "262144 * p + 4096 * q + unat b2 mod 64 * 64 + unat b3 mod 64 < 0x110000"
      using p q mod_less_divisor [of 64 "unat b2"] mod_less_divisor [of 64 "unat b3"]
      by (cases "p = 4") auto
    then have "unat (?ext (?ext (?ext (ucast (c AND 7)) b1) b2) b3) < 0x110000"
      using p q by (simp add: unat_simps marker_mods)
    with four show ?thesis using that [of 4 "?ext (?ext (?ext (ucast (c AND 7)) b1) b2) b3"]
      by (simp add: lit_read_code_point_from_utf8_def byte_tests)
  qed
qed

lemma valid_utf8_decodes:
  "lit_is_valid_utf8_string bs strict \<Longrightarrow>
    \<exists>cs. utf8_decode bs = Some cs \<and> list_all (\<lambda>c. unat c < 0x110000) cs"
proof (induction bs rule: length_induct)
  case (1 bs)
  show ?case
  proof (cases bs)
    case Nil
    then show ?thesis by (simp add: utf8_decode.simps)
  next
    case (Cons c bs')
    with "1.prems" obtain n d where d: "lit_read_code_point_from_utf8 bs = Some (n, d)"
      "unat d < 0x110000" "0 < n" "lit_is_valid_utf8_string (drop n bs) strict"
      by (metis valid_utf8_front)
    with "1.IH" Cons obtain cs where "utf8_decode (drop n bs) = Some cs"
      "list_all (\<lambda>c. unat c < 0x110000) cs"
      by (metis diff_less length_drop length_greater_0_conv list.distinct(1))
    with d Cons show ?thesis by (simp add: utf8_decode.simps [of "c # bs'"])
  qed
qed

lemma utf8_decode_utf8_of:
  "list_all (\<lambda>c. unat c < 0x110000) cs \<Longrightarrow> utf8_decode (utf8_of cs) = Some cs"
proof (induction cs)
  case Nil
  then show ?case by (simp add: utf8_decode.simps)
next
  case (Cons c cs)
  then have "unat c < 0x110000" and IH: "utf8_decode (utf8_of cs) = Some cs" by simp_all
  then show ?case
    using utf8.dec_enc [of c "utf8_of cs"] utf8.enc_nonempty [of c]
    by (subst utf8_decode.simps) simp
qed

lemma peek_wchar_eq_read:
  "i < length bs \<Longrightarrow> lit_peek_wchar_from_cesu8 bs i = Some r \<Longrightarrow>
    lit_read_code_unit_from_cesu8 (drop i bs) = Some r"
  by (auto simp: lit_peek_wchar_from_cesu8_def lit_read_code_unit_from_cesu8_def
      lit_read_code_unit_from_cesu8_safe_def Let_def Cons_nth_drop_Suc [symmetric] byte_tests
      split: if_splits option.splits)

section \<open>Properties\<close>

text \<open>
  (C12) The CESU-8 validator accepts exactly the byte strings that encode a sequence of UTF-16 code
  units: nothing well-formed is rejected, and no overlong, truncated or four-byte form is accepted.
\<close>

theorem valid_cesu8_iff: "lit_is_valid_cesu8_string bs \<longleftrightarrow> (\<exists>us. bs = cesu8_of us)"
  by (rule valid_cesu8_iff_cesu8_of)

text \<open>
  (C13) On a CESU-8 string the length is the number of code units, and reading the code unit at
  any offset below the length returns that unit without leaving the buffer.
\<close>

theorem code_unit_access:
  "lit_utf8_string_length (cesu8_of us) = length us \<and>
   (\<forall>i < length us. lit_utf8_string_code_unit_at (cesu8_of us) i = Some (us ! i))"
  by (simp add: length_cesu8_of code_unit_at_cesu8_of)

theorem code_unit_access_witness:
  "lit_utf8_string_length (cesu8_of [0x41, 0xD835]) = 2 \<and>
   lit_utf8_string_code_unit_at (cesu8_of [0x41, 0xD835]) 1 = Some 0xD835"
proof -
  have "(1 :: nat) < length [0x41, 0xD835 :: u16]" by simp
  with code_unit_access [of "[0x41, 0xD835]"]
  have "lit_utf8_string_code_unit_at (cesu8_of [0x41, 0xD835]) 1 = Some ([0x41, 0xD835] ! 1)"
    by blast
  with code_unit_access [of "[0x41, 0xD835]"] show ?thesis
    by (simp del: cesu8_of_simps lit_utf8_string_code_unit_at.simps)
qed

text \<open>
  (C14) The relational comparison of two CESU-8 strings is the lexicographic order of their code
  units, a proper prefix being smaller.
\<close>

theorem compare_lexicographic:
  "lit_compare_utf8_strings_relational (cesu8_of us) (cesu8_of vs) = Some (us < vs)"
  by (rule compare_cesu8_of)

text \<open>
  (C15) Converting a UTF-16 string into a buffer of the measured size writes exactly its CESU-8
  form, lone surrogates included, and the measured character count is its number of code points.
\<close>

theorem utf16_to_cesu8:
  "lit_convert_utf16_string_to_cesu8_string us (snd (lit_utf16_as_cesu8_measure us)) = cesu8_of us \<and>
   lit_utf16_as_cesu8_measure us = (length (utf16_code_points us), length (cesu8_of us))"
  by (simp add: lit_convert_utf16_string_to_cesu8_string_def lit_utf16_as_cesu8_measure_def
      utf16_measure_loop_eq utf16_convert_loop_eq)

text \<open>
  (C16) Converting a CESU-8 string to UTF-8 writes the UTF-8 form of the longest prefix of its code
  points that fits the destination, never more than the destination holds and never half a
  character. The computed UTF-8 size is the size of the whole result, the computed length its
  number of code points.
\<close>

theorem cesu8_to_utf8:
  "(\<exists>k. fits utf8_size (utf16_code_points us) k \<and>
      map_option fst (lit_convert_cesu8_string_to_utf8_string (cesu8_of us) utf8_size)
        = Some (utf8_of (take k (utf16_code_points us)))) \<and>
   lit_get_utf8_size_of_cesu8_string (cesu8_of us) = Some (length (utf8_of (utf16_code_points us))) \<and>
   lit_get_utf8_length_of_cesu8_string (cesu8_of us) = Some (length (utf16_code_points us))"
  using cesu8_to_utf8_loop_eq [of "[]" utf8_size us]
  by (auto simp: lit_convert_cesu8_string_to_utf8_string_def utf8_size_of_cesu8 utf8_length_of_cesu8)

text \<open>
  (C17) UTF-8 round trip: reading a string of encoded Unicode code points returns the code points,
  and such a string passes the (non-strict) validator.
\<close>

theorem utf8_roundtrip:
  "list_all (\<lambda>c. unat c < 0x110000) cs \<Longrightarrow>
    utf8_decode (utf8_of cs) = Some cs \<and> lit_is_valid_utf8_string (utf8_of cs) False"
  by (simp add: utf8_decode_utf8_of valid_utf8_of)

theorem utf8_roundtrip_witness:
  "utf8_decode (utf8_of [0x24, 0xA2, 0x20AC, 0x1D700]) = Some [0x24, 0xA2, 0x20AC, 0x1D700] \<and>
   lit_is_valid_utf8_string (utf8_of [0x24, 0xA2, 0x20AC, 0x1D700]) False"
  by (rule utf8_roundtrip) simp

text \<open>
  (C18) Every string the UTF-8 validator accepts can be read to its end without leaving the buffer,
  and all its code points are at most 0x10FFFF.
\<close>

theorem valid_utf8_safe:
  "lit_is_valid_utf8_string bs is_strict \<Longrightarrow>
    \<exists>cs. utf8_decode bs = Some cs \<and> list_all (\<lambda>c. unat c < 0x110000) cs"
  by (rule valid_utf8_decodes)

theorem valid_utf8_safe_witness:
  "\<exists>cs. utf8_decode [0xE2, 0x82, 0xAC] = Some cs \<and> list_all (\<lambda>c. unat c < 0x110000) cs"
  by (rule valid_utf8_safe [of _ True]) (simp add: lit_is_valid_utf8_string.simps)

text \<open>
  The UTF-8 validator does not reject every overlong form: the four bytes F0 8D A0 80 pass,
  even in strict mode, and read as the surrogate 0xD800, whose own encoding has three bytes. The
  check for the lead byte F0 compares the second byte with 0x80 where the first non-overlong
  second byte is 0x90.
\<close>

lemma valid_utf8_accepts_overlong:
  "lit_is_valid_utf8_string [0xF0, 0x8D, 0xA0, 0x80] True \<and>
   lit_read_code_point_from_utf8 [0xF0, 0x8D, 0xA0, 0x80] = Some (4, 0xD800) \<and>
   lit_code_point_to_utf8 0xD800 \<noteq> [0xF0, 0x8D, 0xA0, 0x80]"
  by (simp add: lit_is_valid_utf8_string.simps lit_read_code_point_from_utf8_def extend_code_point_def
      lit_code_point_to_utf8_def)

text \<open>
  Cursor movement: at a character boundary, reading forwards returns the unit and the next
  boundary, and reading backwards from there returns the same unit and comes back; peeking and
  incrementing agree with it.
\<close>

lemma cursor_inverse:
  "let buf = cesu8_of (us @ u # vs); i = length (cesu8_of us);
       j = i + length (lit_code_unit_to_utf8 u)
   in lit_cesu8_read_next buf i = Some (j, u) \<and> lit_cesu8_read_prev buf j = Some (i, u) \<and>
      lit_utf8_incr buf i = Some j \<and> lit_cesu8_peek_next buf i = Some u \<and>
      lit_cesu8_peek_prev buf j = Some u"
  using prev_of_next [of us u vs]
  by (auto simp: Let_def lit_cesu8_peek_next_def lit_cesu8_peek_prev_def
      lit_read_prev_code_unit_from_utf8_def lit_cesu8_read_next_def lit_cesu8_read_prev_def
      split: option.splits)

text \<open>
  The number of bytes returned by the conversion to UTF-8 is truncated to one byte: a string
  of 256 ASCII characters is converted completely and reported as 0 bytes.
\<close>

lemma cesu8_to_utf8_count_truncated:
  "lit_convert_cesu8_string_to_utf8_string (cesu8_of (replicate 256 0x61)) 256 =
    Some (replicate 256 0x61, 0)"
proof -
  have a: "lit_code_unit_to_utf8 0x61 = [0x61]" "lit_code_point_to_utf8 0x61 = [0x61]"
    by (simp_all add: lit_code_unit_to_utf8_def lit_code_point_to_utf8_def)
  have cp: "utf16_code_points (replicate n 0x61) = replicate n 0x61" for n
    by (induction n) (simp_all add: utf16_code_points_single lit_is_code_point_utf16_high_surrogate_def)
  have u8: "utf8_of (replicate n 0x61) = replicate n 0x61" for n
    by (induction n) (simp_all add: a)
  obtain k where k: "fits 256 (replicate 256 0x61) k"
    "cesu8_to_utf8_loop (cesu8_of (replicate 256 0x61)) 256 [] = Some (utf8_of (take k (replicate 256 0x61)))"
    using cesu8_to_utf8_loop_eq [of "[]" 256 "replicate 256 0x61"] by (auto simp: cp)
  then have "k = 256"
    by (auto simp: fits_def u8 a split: if_splits)
  with k show ?thesis
    by (simp add: lit_convert_cesu8_string_to_utf8_string_def u8)
qed

end
