(* ===== verification/Lit_Chars.thy ===== *)
theory Lit_Chars
  imports Lit_Strings
begin

text \<open>
  Classification and conversion of single characters, \<open>src/jjs-core/lit/lit-char-helpers.c\<close>, and the trimming of
  white space, \<open>ecma_string_trim_front\<close> and \<open>ecma_string_trim_back\<close> of \<open>ecma-helpers-string.c\<close>.

  Code units are \<open>u16\<close>, code points \<open>u32\<close>. The indices of the binary searches are \<open>int\<close>, as in the code; the
  arrays are lists. The functions that need the generated Unicode tables for identifiers and for the conversion
  of upper and lower case are not here; the table for white space is.
\<close>

section \<open>Binary search\<close>

function search_loop :: "'a::linorder \<Rightarrow> 'a list \<Rightarrow> int \<Rightarrow> int \<Rightarrow> bool" where
  "search_loop c array bottom top' =
    (if bottom \<le> top' then
       (let middle = (bottom + top') div 2;
            current = array ! nat middle
        in if current = c then True
           else if c < current then search_loop c array bottom (middle - 1)
           else search_loop c array (middle + 1) top')
     else False)"
  by pat_completeness auto
termination
  by (relation "measure (\<lambda>(c, array, bottom, top'). nat (top' + 1 - bottom))") auto

definition lit_search_char_in_array :: "'a::linorder \<Rightarrow> 'a list \<Rightarrow> bool" where
  "lit_search_char_in_array c array = search_loop c array 0 (int (length array) - 1)"

text \<open>An interval is given by its first character and its length, which is one less than the number of characters.\<close>

function interval_loop :: "nat \<Rightarrow> nat list \<Rightarrow> nat list \<Rightarrow> int \<Rightarrow> int \<Rightarrow> bool" where
  "interval_loop c array_sp lengths bottom top' =
    (if bottom \<le> top' then
       (let middle = (bottom + top') div 2;
            current_sp = array_sp ! nat middle
        in if current_sp \<le> c \<and> c \<le> current_sp + lengths ! nat middle then True
           else if c > current_sp then interval_loop c array_sp lengths (middle + 1) top'
           else interval_loop c array_sp lengths bottom (middle - 1))
     else False)"
  by pat_completeness auto
termination
  by (relation "measure (\<lambda>(c, array_sp, lengths, bottom, top'). nat (top' + 1 - bottom))") auto

definition lit_search_char_in_interval_array :: "nat \<Rightarrow> nat list \<Rightarrow> nat list \<Rightarrow> bool" where
  "lit_search_char_in_interval_array c array_sp lengths = interval_loop c array_sp lengths 0 (int (length array_sp) - 1)"

section \<open>Classes of characters\<close>

definition lit_unicode_white_space_interval_starts :: "u16 list" where
  "lit_unicode_white_space_interval_starts = [0x2000]"

definition lit_unicode_white_space_interval_lengths :: "u8 list" where
  "lit_unicode_white_space_interval_lengths = [0x000A]"

definition lit_unicode_white_space_chars :: "u16 list" where
  "lit_unicode_white_space_chars = [0x00A0, 0x1680, 0x202F, 0x205F, 0x3000]"

definition lit_char_is_white_space :: "u32 \<Rightarrow> bool" where
  "lit_char_is_white_space c =
    (if c \<le> 0x7F then c = 0x20 \<or> (c \<ge> 0x09 \<and> c \<le> 0x0D)
     else if c = 0xFEFF \<or> c = 0x2028 \<or> c = 0x2029 then True
     else c \<le> 0xFFFF \<and>
       ((c \<ge> ucast (hd lit_unicode_white_space_interval_starts) \<and>
         c \<le> ucast (hd lit_unicode_white_space_interval_starts) + ucast (hd lit_unicode_white_space_interval_lengths)) \<or>
        lit_search_char_in_array (ucast c) lit_unicode_white_space_chars))"

definition lit_char_is_line_terminator :: "u16 \<Rightarrow> bool" where
  "lit_char_is_line_terminator c \<longleftrightarrow> c = 0x0A \<or> c = 0x0D \<or> c = 0x2028 \<or> c = 0x2029"

definition LEXER_TO_ASCII_LOWERCASE :: "'a::len word \<Rightarrow> 'a word" where
  "LEXER_TO_ASCII_LOWERCASE c = c OR 0x20"

definition lit_char_is_octal_digit :: "u16 \<Rightarrow> bool" where
  "lit_char_is_octal_digit c \<longleftrightarrow> c \<ge> 0x30 \<and> c \<le> 0x37"

definition lit_char_is_decimal_digit :: "u16 \<Rightarrow> bool" where
  "lit_char_is_decimal_digit c \<longleftrightarrow> c \<ge> 0x30 \<and> c \<le> 0x39"

definition lit_char_is_hex_digit :: "u16 \<Rightarrow> bool" where
  "lit_char_is_hex_digit c \<longleftrightarrow>
    (c \<ge> 0x30 \<and> c \<le> 0x39) \<or> (LEXER_TO_ASCII_LOWERCASE c \<ge> 0x61 \<and> LEXER_TO_ASCII_LOWERCASE c \<le> 0x66)"

definition lit_char_is_binary_digit :: "u16 \<Rightarrow> bool" where
  "lit_char_is_binary_digit c \<longleftrightarrow> c = 0x30 \<or> c = 0x31"

definition lit_char_is_word_char :: "u32 \<Rightarrow> bool" where
  "lit_char_is_word_char c \<longleftrightarrow>
    (c \<ge> 0x61 \<and> c \<le> 0x7A) \<or> (c \<ge> 0x41 \<and> c \<le> 0x5A) \<or> (c \<ge> 0x30 \<and> c \<le> 0x39) \<or> c = 0x5F"

definition lit_char_to_radix :: "u8 \<Rightarrow> u8" where
  "lit_char_to_radix c =
    (let l = LEXER_TO_ASCII_LOWERCASE c in
     if l = 0x78 then 16 else if l = 0x6F then 8 else if l = 0x62 then 2 else 10)"

section \<open>Numbers in text\<close>

text \<open>The escape sequence of a code unit, \<open>\uXXXX\<close>: the bytes that are appended to the string builder.\<close>

definition lit_char_unicode_escape :: "u16 \<Rightarrow> u8 list" where
  "lit_char_unicode_escape c =
    [0x5C, 0x75] @ map (\<lambda>i. let result_char = ucast (drop_bit (i * 4) c AND 0xF)
                           in result_char + (if result_char \<le> 9 then 0x30 else 0x61 - 10)) [3, 2, 1, 0]"

definition lit_char_hex_to_int :: "u16 \<Rightarrow> u32" where
  "lit_char_hex_to_int c = (if c \<ge> 0x30 \<and> c \<le> 0x39 then ucast (c - 0x30) else ucast (c mod 32) + (10 - 0x61 mod 32))"

fun hex_lookup_loop :: "u8 list \<Rightarrow> nat \<Rightarrow> u32 \<Rightarrow> u32" where
  "hex_lookup_loop buf 0 v = v"
| "hex_lookup_loop [] (Suc lookup) v = v"
| "hex_lookup_loop (ch # buf) (Suc lookup) v =
    (if \<not> lit_char_is_hex_digit (ucast ch) then 0xFFFFFFFF
     else hex_lookup_loop buf lookup (push_bit 4 v + lit_char_hex_to_int (ucast ch)))"

definition lit_char_hex_lookup :: "u8 list \<Rightarrow> nat \<Rightarrow> u32" where
  "lit_char_hex_lookup buf lookup = (if lookup > length buf then 0xFFFFFFFF else hex_lookup_loop buf lookup 0)"

fun parse_decimal_loop :: "u32 \<Rightarrow> u8 list \<Rightarrow> u32 \<times> u8 list" where
  "parse_decimal_loop v [] = (v, [])"
| "parse_decimal_loop v (c # buffer) =
    (if lit_char_is_decimal_digit (ucast c) then
       (let digit = ucast c - 0x30;
            new_value = v * 10 + digit
        in if v > 0xFFFFFFFF div 10 \<or> new_value < v then parse_decimal_loop 0xFFFFFFFF buffer
           else parse_decimal_loop new_value buffer)
     else (v, c # buffer))"

definition lit_parse_decimal :: "u8 list \<Rightarrow> u32 \<times> u8 list" where
  "lit_parse_decimal buffer = parse_decimal_loop (ucast (hd buffer) - 0x30) (tl buffer)"

section \<open>Code points to CESU-8\<close>

definition lit_code_point_to_cesu8_bytes :: "u32 \<Rightarrow> u8 list" where
  "lit_code_point_to_cesu8_bytes code_point =
    (if code_point < 0x80 then [ucast code_point]
     else if code_point < 0x800 then
       [ucast (0xC0 OR (drop_bit 6 code_point AND 0x1F)), ucast (0x80 OR (code_point AND 0x3F))]
     else if code_point < 0x10000 then
       [ucast (0xE0 OR (drop_bit 12 code_point AND 0x0F)), ucast (0x80 OR (drop_bit 6 code_point AND 0x3F)),
        ucast (0x80 OR (code_point AND 0x3F))]
     else
       (let code_point = code_point - 0x10000 in
        [ucast (0xE0 OR 0xD :: u32), ucast (0x80 OR 0x20 OR (drop_bit 16 code_point AND 0x0F)),
         ucast (0x80 OR (drop_bit 10 code_point AND 0x3F)),
         ucast (0xE0 OR 0xD :: u32), ucast (0x80 OR 0x30 OR (drop_bit 6 code_point AND 0x0F)),
         ucast (0x80 OR (code_point AND 0x3F))]))"

definition lit_code_point_get_cesu8_length :: "u32 \<Rightarrow> nat" where
  "lit_code_point_get_cesu8_length code_point =
    (if code_point < 0x80 then 1 else if code_point < 0x800 then 2 else if code_point < 0x10000 then 3 else 2 * 3)"

definition lit_four_byte_utf8_char_to_cesu8 :: "u8 list \<Rightarrow> u8 list" where
  "lit_four_byte_utf8_char_to_cesu8 source =
    (let code_point = push_bit 18 (ucast (source ! 0) AND 0x07) :: u32;
         code_point = code_point OR push_bit 12 (ucast (source ! 1) AND 0x3F);
         code_point = code_point OR push_bit 6 (ucast (source ! 2) AND 0x3F);
         code_point = code_point OR (ucast (source ! 3) AND 0x3F)
     in lit_code_point_to_cesu8_bytes code_point)"

section \<open>Trimming\<close>

text \<open>The reader of code units needs enough bytes; \<open>None\<close> is a read past the end.\<close>

lemma read_size_pos: "lit_read_code_unit_from_cesu8 start = Some (n, ch) \<Longrightarrow> 0 < n"
  by (auto simp: lit_read_code_unit_from_cesu8_def lit_read_code_unit_from_cesu8_safe_def Let_def
      split: option.splits list.splits if_splits prod.splits)

function ecma_string_trim_front :: "u8 list \<Rightarrow> u8 list option" where
  "ecma_string_trim_front start =
    (if start = [] then Some []
     else (case lit_read_code_unit_from_cesu8 start of
       None \<Rightarrow> None
     | Some (read_size, ch) \<Rightarrow>
        (if \<not> lit_char_is_white_space (ucast ch) then Some start
         else ecma_string_trim_front (drop read_size start))))"
  by pat_completeness auto
termination
  by (relation "measure length") (auto dest: read_size_pos)

function ecma_string_trim_back :: "u8 list \<Rightarrow> nat \<Rightarrow> nat option" where
  "ecma_string_trim_back start end_p =
    (if end_p = 0 then Some 0
     else (case lit_read_prev_code_unit_from_utf8 start end_p of
       None \<Rightarrow> None
     | Some (read_size, ch) \<Rightarrow>
        (if \<not> lit_char_is_white_space (ucast ch) then Some end_p
         else ecma_string_trim_back start (end_p - read_size))))"
  by pat_completeness auto
termination
  by (relation "measure snd") (auto simp: lit_read_prev_code_unit_from_utf8_def dest: read_size_pos split: option.splits)

definition ecma_string_trim_helper :: "u8 list \<Rightarrow> u8 list option" where
  "ecma_string_trim_helper utf8_str =
    (case ecma_string_trim_front utf8_str of
       None \<Rightarrow> None
     | Some start \<Rightarrow> map_option (\<lambda>end_p. take end_p start) (ecma_string_trim_back start (length start)))"

declare search_loop.simps [simp del] interval_loop.simps [simp del]
declare ecma_string_trim_front.simps [simp del] ecma_string_trim_back.simps [simp del]

section \<open>Correctness of the searches\<close>

text \<open>The part of the range that is left after one comparison.\<close>

lemma upper_part:
  assumes "\<And>i. int i \<le> t \<Longrightarrow> P i \<Longrightarrow> m < i" "b \<le> int m"
  shows "(\<exists>i. int m + 1 \<le> int i \<and> int i \<le> t \<and> P i) \<longleftrightarrow> (\<exists>i. b \<le> int i \<and> int i \<le> t \<and> P i)"
proof (intro iffI; elim exE conjE)
  fix i assume "int m + 1 \<le> int i" "int i \<le> t" "P i"
  then show "\<exists>i. b \<le> int i \<and> int i \<le> t \<and> P i" using assms(2) by (intro exI [of _ i]) simp
next
  fix i assume "b \<le> int i" "int i \<le> t" "P i"
  then show "\<exists>i. int m + 1 \<le> int i \<and> int i \<le> t \<and> P i" using assms(1) [of i] by (intro exI [of _ i]) simp
qed

lemma lower_part:
  assumes "\<And>i. int i \<le> t \<Longrightarrow> P i \<Longrightarrow> i < m" "int m \<le> t"
  shows "(\<exists>i. b \<le> int i \<and> int i \<le> int m - 1 \<and> P i) \<longleftrightarrow> (\<exists>i. b \<le> int i \<and> int i \<le> t \<and> P i)"
proof (intro iffI; elim exE conjE)
  fix i assume "b \<le> int i" "int i \<le> int m - 1" "P i"
  then show "\<exists>i. b \<le> int i \<and> int i \<le> t \<and> P i" using assms(2) by (intro exI [of _ i]) simp
next
  fix i assume "b \<le> int i" "int i \<le> t" "P i"
  then show "\<exists>i. b \<le> int i \<and> int i \<le> int m - 1 \<and> P i" using assms(1) [of i] by (intro exI [of _ i]) simp
qed

lemma search_loop_iff:
  assumes "sorted_wrt (<) array" "0 \<le> bottom" "top' < int (length array)"
  shows "search_loop c array bottom top' \<longleftrightarrow> (\<exists>i. bottom \<le> int i \<and> int i \<le> top' \<and> array ! i = c)"
  using assms
proof (induction c array bottom top' rule: search_loop.induct)
  case (1 c array bottom top')
  define m where "m = nat ((bottom + top') div 2)"
  show ?case
  proof (cases "bottom \<le> top'")
    case True
    have mid: "(bottom + top') div 2 = int m" "bottom \<le> int m" "int m \<le> top'" "m < length array"
      using True 1(4,5) by (auto simp: m_def)
    have less: "array ! i < array ! j" if "i < j" "j < length array" for i j
      using sorted_wrt_nth_less [OF 1(3) that] .
    consider "array ! m = c" | "c < array ! m" | "array ! m < c" by (rule linorder_cases [of "array ! m" c]) blast+
    then show ?thesis
    proof cases
      case 1
      with mid True show ?thesis by (auto simp: search_loop.simps [of c array bottom top'] Let_def)
    next
      case 2
      then have lt: "i < m" if "int i \<le> top'" "array ! i = c" for i
        using less [of m i] that 1(5) by (cases i m rule: linorder_cases) auto
      have part: "(\<exists>i. bottom \<le> int i \<and> int i \<le> int m - 1 \<and> array ! i = c) \<longleftrightarrow> (\<exists>i. bottom \<le> int i \<and> int i \<le> top' \<and> array ! i = c)"
        by (rule lower_part [OF lt mid(3)])
      moreover have "array ! m \<noteq> c" using 2 by auto
      ultimately show ?thesis using part 2 mid True 1(1) [OF True refl refl] 1(3-5)
        by (simp add: search_loop.simps [of c array bottom top'] Let_def)
    next
      case 3
      then have lt: "m < i" if "int i \<le> top'" "array ! i = c" for i
        using less [of i m] that mid(4) by (cases i m rule: linorder_cases) auto
      have part: "(\<exists>i. int m + 1 \<le> int i \<and> int i \<le> top' \<and> array ! i = c) \<longleftrightarrow> (\<exists>i. bottom \<le> int i \<and> int i \<le> top' \<and> array ! i = c)"
        by (rule upper_part [OF lt mid(2)])
      moreover have "array ! m \<noteq> c" "\<not> c < array ! m" using 3 by auto
      ultimately show ?thesis using part 3 mid True 1(2) [OF True refl refl] 1(3-5)
        by (simp add: search_loop.simps [of c array bottom top'] Let_def)
    qed
  next
    case False
    then show ?thesis by (auto simp: search_loop.simps [of c array bottom top'])
  qed
qed

lemma search_char_iff:
  assumes "sorted_wrt (<) array"
  shows "lit_search_char_in_array c array \<longleftrightarrow> c \<in> set array"
  using search_loop_iff [OF assms, of 0 "int (length array) - 1" c]
  by (auto simp: lit_search_char_in_array_def in_set_conv_nth)

text \<open>Intervals are in order and do not overlap.\<close>

definition in_interval :: "nat \<Rightarrow> nat list \<Rightarrow> nat list \<Rightarrow> nat \<Rightarrow> bool" where
  "in_interval c array_sp lengths i \<longleftrightarrow> array_sp ! i \<le> c \<and> c \<le> array_sp ! i + lengths ! i"

definition intervals_ok :: "nat list \<Rightarrow> nat list \<Rightarrow> bool" where
  "intervals_ok array_sp lengths \<longleftrightarrow> sorted_wrt (\<lambda>(s, l) (s', l'). s + l < s') (zip array_sp lengths) \<and> length lengths = length array_sp"

lemma interval_loop_iff:
  assumes "intervals_ok array_sp lengths" "0 \<le> bottom" "top' < int (length array_sp)"
  shows "interval_loop c array_sp lengths bottom top' \<longleftrightarrow> (\<exists>i. bottom \<le> int i \<and> int i \<le> top' \<and> in_interval c array_sp lengths i)"
  using assms
proof (induction c array_sp lengths bottom top' rule: interval_loop.induct)
  case (1 c array_sp lengths bottom top')
  let ?hit = "in_interval c array_sp lengths"
  define m where "m = nat ((bottom + top') div 2)"
  show ?case
  proof (cases "bottom \<le> top'")
    case True
    have mid: "(bottom + top') div 2 = int m" "bottom \<le> int m" "int m \<le> top'" "m < length array_sp"
      using True 1(4,5) by (auto simp: m_def)
    have less: "array_sp ! i + lengths ! i < array_sp ! j" if "i < j" "j < length array_sp" for i j
      using sorted_wrt_nth_less [of _ "zip array_sp lengths" i j] that 1(3) by (auto simp: intervals_ok_def)
    consider "?hit m" | "\<not> ?hit m" "c > array_sp ! m" | "\<not> ?hit m" "\<not> c > array_sp ! m" by blast
    then show ?thesis
    proof cases
      case hit: 1
      with mid True show ?thesis by (auto simp: interval_loop.simps [of c array_sp] Let_def in_interval_def)
    next
      case 2
      then have lt: "m < i" if "int i \<le> top'" "?hit i" for i
        using less [of i m] that mid(4) by (cases i m rule: linorder_cases) (auto simp: in_interval_def)
      have part: "(\<exists>i. int m + 1 \<le> int i \<and> int i \<le> top' \<and> ?hit i) \<longleftrightarrow> (\<exists>i. bottom \<le> int i \<and> int i \<le> top' \<and> ?hit i)"
        by (rule upper_part [OF lt mid(2)])
      with part 2 mid True 1(1) [OF True refl refl] 1(3-5) show ?thesis
        by (simp add: interval_loop.simps [of c array_sp lengths bottom] Let_def in_interval_def [of _ _ _ m])
    next
      case 3
      then have lt: "i < m" if "int i \<le> top'" "?hit i" for i
        using less [of m i] that 1(5) by (cases i m rule: linorder_cases) (auto simp: in_interval_def)
      have part: "(\<exists>i. bottom \<le> int i \<and> int i \<le> int m - 1 \<and> ?hit i) \<longleftrightarrow> (\<exists>i. bottom \<le> int i \<and> int i \<le> top' \<and> ?hit i)"
        by (rule lower_part [OF lt mid(3)])
      with part 3 mid True 1(2) [OF True refl refl] 1(3-5) show ?thesis
        by (simp add: interval_loop.simps [of c array_sp lengths bottom] Let_def in_interval_def [of _ _ _ m])
    qed
  next
    case False
    then show ?thesis by (auto simp: interval_loop.simps [of c array_sp])
  qed
qed

lemma search_interval_iff:
  assumes "intervals_ok array_sp lengths"
  shows "lit_search_char_in_interval_array c array_sp lengths \<longleftrightarrow> (\<exists>i < length array_sp. in_interval c array_sp lengths i)"
  using interval_loop_iff [OF assms, of 0 "int (length array_sp) - 1" c]
  by (auto simp: lit_search_char_in_interval_array_def)

section \<open>Classes of characters\<close>

lemma white_space_iff:
  "lit_char_is_white_space c \<longleftrightarrow>
    unat c \<in> {9..13} \<union> {0x20, 0xA0, 0x1680} \<union> {0x2000..0x200A} \<union> {0x2028, 0x2029, 0x202F, 0x205F, 0x3000, 0xFEFF}"
proof -
  define n where "n = unat c"
  have "lit_search_char_in_array (ucast c) lit_unicode_white_space_chars \<longleftrightarrow> (ucast c :: u16) \<in> {0x00A0, 0x1680, 0x202F, 0x205F, 0x3000}"
    by (subst search_char_iff) (simp_all add: lit_unicode_white_space_chars_def)
  then have search: "lit_search_char_in_array (ucast c) lit_unicode_white_space_chars \<longleftrightarrow>
      n = 0xA0 \<or> n = 0x1680 \<or> n = 0x202F \<or> n = 0x205F \<or> n = 0x3000" if "n \<le> 0xFFFF"
    using that by (simp add: word_eq_unat unat_ucast n_def)
  have "lit_char_is_white_space c \<longleftrightarrow>
    (if n \<le> 0x7F then n = 0x20 \<or> (9 \<le> n \<and> n \<le> 13)
     else if n = 0xFEFF \<or> n = 0x2028 \<or> n = 0x2029 then True
     else n \<le> 0xFFFF \<and> ((0x2000 \<le> n \<and> n \<le> 0x200A) \<or> n = 0xA0 \<or> n = 0x1680 \<or> n = 0x202F \<or> n = 0x205F \<or> n = 0x3000))"
    unfolding lit_char_is_white_space_def
    by (simp only: word_unat n_def [symmetric] search lit_unicode_white_space_interval_starts_def
        lit_unicode_white_space_interval_lengths_def list.sel cong: conj_cong if_cong) (simp add: search cong: conj_cong)
  also have "\<dots> \<longleftrightarrow> n \<in> {9..13} \<union> {0x20, 0xA0, 0x1680} \<union> {0x2000..0x200A} \<union> {0x2028, 0x2029, 0x202F, 0x205F, 0x3000, 0xFEFF}"
    by (simp, presburger)
  finally show ?thesis unfolding n_def .
qed

section \<open>Numbers in text\<close>

text \<open>The value of a hexadecimal digit, as a partial function on bytes.\<close>

definition hex_value :: "u8 \<Rightarrow> nat option" where
  "hex_value c =
    (let n = unat c in
     if 0x30 \<le> n \<and> n \<le> 0x39 then Some (n - 0x30)
     else if 0x41 \<le> n \<and> n \<le> 0x46 then Some (n - 0x37)
     else if 0x61 \<le> n \<and> n \<le> 0x66 then Some (n - 0x57)
     else None)"

lemma unat_lowercase: "unat (LEXER_TO_ASCII_LOWERCASE (c :: 'a::len word)) = unat c OR unat (0x20 :: 'a word)"
  by (simp add: LEXER_TO_ASCII_LOWERCASE_def unsigned_or_eq)

lemma or_32: "n OR 32 = (if odd (n div 32) then n else n + 32)" for n :: nat
  using set_bit_eq [of 5 n] by (simp add: set_bit_def bit_iff_odd)

lemma unat_ucast_u8 [simp]: "unat (ucast (c :: u8) :: u16) = unat c" "unat (ucast (c :: u8) :: u32) = unat c"
  using unat_u8_less [of c] by (simp_all add: unat_ucast)

lemma unat_lowercase_u8 [simp]: "unat (LEXER_TO_ASCII_LOWERCASE (ucast (c :: u8) :: u16)) = unat c OR 32"
  by (simp add: unat_lowercase)

lemma lowercase_hex: "0x61 \<le> n OR 32 \<and> n OR 32 \<le> 0x66 \<longleftrightarrow> (0x41 \<le> n \<and> n \<le> 0x46) \<or> (0x61 \<le> n \<and> n \<le> 0x66)" for n :: nat
proof -
  have "n div 32 = 2" if "0x41 \<le> n" "n \<le> 0x46" using that by (intro div_nat_eqI) auto
  moreover have "n div 32 = 3" if "0x61 \<le> n" "n \<le> 0x66" using that by (intro div_nat_eqI) auto
  ultimately show ?thesis unfolding or_32 by (cases "odd (n div 32)") auto
qed

lemma is_hex_digit_iff: "lit_char_is_hex_digit (ucast c) \<longleftrightarrow> hex_value c \<noteq> None" for c :: u8
  by (simp add: lit_char_is_hex_digit_def hex_value_def Let_def word_le_unat lowercase_hex)

lemma hex_to_int_value: "hex_value c = Some d \<Longrightarrow> unat (lit_char_hex_to_int (ucast c)) = d \<and> d < 16"
proof -
  assume h: "hex_value c = Some d"
  have sub: "unat (ucast (ucast c - 0x30 :: u16) :: u32) = unat c - 0x30" if "0x30 \<le> unat c"
  proof -
    have "unat (ucast c - 0x30 :: u16) = unat c - 0x30" using that by (subst unat_sub) (simp_all add: word_le_unat)
    moreover have "unat c - 0x30 < 65536" using unat_u8_less [of c] by simp
    ultimately show ?thesis by (simp add: unat_ucast)
  qed
  have letter: "unat (ucast (ucast c mod 32 :: u16) + 9 :: u32) = unat c mod 32 + 9"
    by (simp add: unat_word_ariths unat_ucast)
  have "unat c mod 32 + 9 = unat c - 0x37" if "0x41 \<le> unat c" "unat c \<le> 0x46"
    using that mod_nat_eqI [of "unat c - 64" 32 "unat c"] by (simp add: dvd_def)
  moreover have "unat c mod 32 + 9 = unat c - 0x57" if "0x61 \<le> unat c" "unat c \<le> 0x66"
    using that mod_nat_eqI [of "unat c - 96" 32 "unat c"] by (simp add: dvd_def)
  ultimately show ?thesis using h sub letter
    by (auto simp: hex_value_def Let_def lit_char_hex_to_int_def word_le_unat split: if_splits)
qed

lemma hex_lookup_loop_value:
  assumes "list_all (\<lambda>c. hex_value c \<noteq> None) (take n buf)" "n \<le> length buf" "(unat v + 1) * 16 ^ n \<le> 2 ^ 32"
  shows "unat (hex_lookup_loop buf n v) = foldl (\<lambda>m c. m * 16 + the (hex_value c)) (unat v) (take n buf)"
  using assms
proof (induction buf n v rule: hex_lookup_loop.induct)
  case (3 ch buf n v)
  then obtain d where d: "hex_value ch = Some d" by auto
  note hd = hex_to_int_value [OF d]
  have "(unat v * 16 + d + 1) * 16 ^ n \<le> (unat v * 16 + 16) * 16 ^ n" using hd by (intro mult_le_mono1) simp
  also have "\<dots> = (unat v + 1) * 16 ^ Suc n" by (simp add: algebra_simps)
  finally have bound: "(unat v * 16 + d + 1) * 16 ^ n \<le> 2 ^ 32" using 3(4) by simp
  have "(unat v * 16 + d + 1) * 1 \<le> (unat v * 16 + d + 1) * 16 ^ n" by (intro mult_le_mono2) simp
  with bound have less: "unat v * 16 + d < 2 ^ 32" by simp
  have "unat (push_bit 4 v + lit_char_hex_to_int (ucast ch)) = unat v * 16 + d"
    using hd less by (simp add: unat_word_ariths unat_push_bit)
  with 3 d bound show ?case by (simp add: is_hex_digit_iff)
qed simp_all

text \<open>The value of a sequence of decimal digits, and where it ends.\<close>

definition decimal_digit :: "u8 \<Rightarrow> bool" where
  "decimal_digit c \<longleftrightarrow> 0x30 \<le> unat c \<and> unat c \<le> 0x39"

definition decimal_value :: "nat \<Rightarrow> u8 list \<Rightarrow> nat" where
  "decimal_value n cs = foldl (\<lambda>n c. n * 10 + (unat c - 0x30)) n cs"

lemma decimal_value_mono: "m \<le> n \<Longrightarrow> decimal_value m cs \<le> decimal_value n cs"
  unfolding decimal_value_def by (induction cs arbitrary: m n) auto

lemma decimal_value_ge: "n \<le> decimal_value n cs"
proof (induction cs arbitrary: n)
  case (Cons c cs)
  from Cons [of "n * 10 + (unat c - 48)"] show ?case by (simp add: decimal_value_def)
qed (simp add: decimal_value_def)

lemma parse_decimal_loop_eq:
  assumes "list_all decimal_digit cs" "rest = [] \<or> \<not> decimal_digit (hd rest)"
    and "v = (if n < 2 ^ 32 then of_nat n else 0xFFFFFFFF)"
  shows "parse_decimal_loop v (cs @ rest) =
    (if decimal_value n cs < 2 ^ 32 then of_nat (decimal_value n cs) else 0xFFFFFFFF, rest)"
  using assms
proof (induction cs arbitrary: n v)
  case Nil
  have "lit_char_is_decimal_digit (ucast c) \<longleftrightarrow> decimal_digit c" for c :: u8
    by (simp add: lit_char_is_decimal_digit_def decimal_digit_def word_le_unat)
  with Nil show ?case by (cases rest) (auto simp: decimal_value_def)
next
  case (Cons c cs)
  let ?d = "unat c - 0x30" and ?n = "n * 10 + (unat c - 0x30)"
  have digit: "lit_char_is_decimal_digit (ucast c)" and dig: "0x30 \<le> unat c" "unat c \<le> 0x39"
    using Cons.prems(1) by (auto simp: lit_char_is_decimal_digit_def decimal_digit_def word_le_unat)
  have d: "unat (ucast c - 0x30 :: u32) = ?d" using dig by (subst unat_sub) (simp_all add: word_le_unat)
  define v' where "v' = (let new_value = v * 10 + (ucast c - 0x30) in if v > 0xFFFFFFFF div 10 \<or> new_value < v then 0xFFFFFFFF else new_value)"
  have "v' = (if ?n < 2 ^ 32 then of_nat ?n else 0xFFFFFFFF)"
  proof (cases "n < 2 ^ 32")
    case True
    then have v: "unat v = n" using Cons.prems(3) by (simp add: unat_of_nat)
    have sum: "unat (v * 10 + (ucast c - 0x30)) = ?n mod 2 ^ 32"
      by (simp add: unat_word_ariths v d mod_add_left_eq)
    show ?thesis
    proof (cases "n \<le> 429496729")
      case small: True
      show ?thesis
      proof (cases "?n < 2 ^ 32")
        case True
        then have "unat (v * 10 + (ucast c - 0x30)) = ?n" using sum by simp
        moreover have "n \<le> ?n" by simp
        ultimately have "unat v' = ?n" using small by (simp add: v'_def Let_def word_less_unat v)
        moreover have "of_nat (unat v') = v'" by simp
        ultimately have "v' = of_nat ?n" by metis
        with True show ?thesis by simp
      next
        case False
        then have "unat (v * 10 + (ucast c - 0x30)) = ?n - 2 ^ 32"
          using sum small dig mod_if [of ?n "2 ^ 32"] by (simp add: mod_if)
        moreover have "?n - 2 ^ 32 < n" using False small dig by simp
        ultimately show ?thesis using False by (simp add: v'_def Let_def word_unat v)
      qed
    next
      case False
      then show ?thesis by (simp add: v'_def Let_def word_unat v)
    qed
  next
    case False
    then have "v = 0xFFFFFFFF" "\<not> ?n < 2 ^ 32" using Cons.prems(3) by auto
    then show ?thesis by (simp add: v'_def Let_def)
  qed
  moreover have "parse_decimal_loop v ((c # cs) @ rest) = parse_decimal_loop v' (cs @ rest)"
    using digit by (simp add: v'_def Let_def)
  moreover have "decimal_value n (c # cs) = decimal_value ?n cs" by (simp add: decimal_value_def)
  ultimately show ?case using Cons.IH [of v' ?n] Cons.prems(1,2) by simp
qed

text \<open>
  Decimal numbers: \<open>lit_parse_decimal\<close> consumes exactly the digits at the front of the buffer and
  returns their value, clamped to \<open>UINT32_MAX\<close>: neither the product nor the sum of a step can wrap around unnoticed.
\<close>

lemma parse_decimal_clamps:
  assumes "list_all decimal_digit (d # ds)" "rest = [] \<or> \<not> decimal_digit (hd rest)"
  shows "map_prod unat id (lit_parse_decimal (d # ds @ rest)) = (min (decimal_value 0 (d # ds)) 0xFFFFFFFF, rest)"
proof -
  have d: "0x30 \<le> unat d" "unat d \<le> 0x39" using assms(1) by (auto simp: decimal_digit_def)
  then have u: "unat (ucast d - 0x30 :: u32) = unat d - 0x30" by (subst unat_sub) (simp_all add: word_le_unat)
  then have "ucast d - 0x30 = (of_nat (unat d - 0x30) :: u32)" unfolding u [symmetric] by simp
  moreover have "unat d - 0x30 < 2 ^ 32" using d by simp
  ultimately have "ucast d - 0x30 = (if unat d - 0x30 < 2 ^ 32 then of_nat (unat d - 0x30) else 0xFFFFFFFF :: u32)" by simp
  from parse_decimal_loop_eq [OF _ assms(2) this, of ds] assms(1)
  show ?thesis by (simp add: lit_parse_decimal_def decimal_value_def unat_of_nat min_def)
qed

section \<open>Code points to CESU-8\<close>

lemma code_unit_bytes:
  "map unat (lit_code_unit_to_utf8 u) =
    (let n = unat u in
     if n < 0x80 then [n] else if n < 0x800 then [0xC0 + n div 64, 0x80 + n mod 64]
     else [0xE0 + n div 4096, 0x80 + n div 64 mod 64, 0x80 + n mod 64])"
proof -
  have "n div 64 div 64 = n div 4096" for n :: nat by (simp add: div_mult2_eq [symmetric])
  then show ?thesis
    using unat_u16_less [of u] base64_digits [of "unat u"]
    by (auto simp: lit_code_unit_to_utf8_def Let_def word_le_unat unat_simps)
qed

lemma or_markers_u32:
  fixes x :: u32
  shows "unat x < 64 \<Longrightarrow> unat (0x80 OR x) = 0x80 + unat x" "unat x < 64 \<Longrightarrow> unat (0xC0 OR x) = 0xC0 + unat x"
    "unat x < 32 \<Longrightarrow> unat (0xE0 OR x) = 0xE0 + unat x"
    "unat x < 16 \<Longrightarrow> unat (0x80 OR 0x20 OR x) = 0xA0 + unat x" "unat x < 16 \<Longrightarrow> unat (0x80 OR 0x30 OR x) = 0xB0 + unat x"
proof -
  show "unat x < 64 \<Longrightarrow> unat (0x80 OR x) = 0x80 + unat x" "unat x < 64 \<Longrightarrow> unat (0xC0 OR x) = 0xC0 + unat x"
    by (simp_all add: unat_or_plus [of 6])
  show "unat x < 32 \<Longrightarrow> unat (0xE0 OR x) = 0xE0 + unat x" by (simp add: unat_or_plus [of 5])
  show "unat x < 16 \<Longrightarrow> unat (0x80 OR 0x20 OR x) = 0xA0 + unat x" "unat x < 16 \<Longrightarrow> unat (0x80 OR 0x30 OR x) = 0xB0 + unat x"
    by (simp_all add: or.assoc [symmetric] unat_or_plus [of 4])
qed

lemma cesu8_bytes_bmp:
  assumes "unat c < 0x10000"
  shows "map unat (lit_code_point_to_cesu8_bytes c) =
    (let n = unat c in
     if n < 0x80 then [n] else if n < 0x800 then [0xC0 + n div 64, 0x80 + n mod 64]
     else [0xE0 + n div 4096, 0x80 + n div 64 mod 64, 0x80 + n mod 64])"
  using assms by (simp add: lit_code_point_to_cesu8_bytes_def Let_def word_less_unat or_markers_u32 unat_simps)

lemma cesu8_bytes_supplementary:
  assumes "unat c = 0x10000 + m" "m < 0x100000"
  shows "map unat (lit_code_point_to_cesu8_bytes c) =
    [0xED, 0xA0 + m div 65536, 0x80 + m div 1024 mod 64, 0xED, 0xB0 + m div 64 mod 16, 0x80 + m mod 64]"
proof -
  have "unat (c - 0x10000) = m" using assms by (simp add: unat_sub word_le_unat)
  then show ?thesis
    using assms by (simp add: lit_code_point_to_cesu8_bytes_def Let_def word_less_unat or_markers_u32 unat_simps)
qed

text \<open>The digits to base 64 of a surrogate; \<open>k\<close> is 32 for a high and 48 for a low one.\<close>

lemma surrogate_digits:
  fixes i k :: nat
  assumes "i < 1024" "k = 32 \<or> k = 48"
  shows "(0xD000 + 64 * k + i) div 4096 = 13" "(0xD000 + 64 * k + i) div 64 mod 64 = k + i div 64" "(0xD000 + 64 * k + i) mod 64 = i mod 64"
proof -
  have "i div 64 < 16" using assms(1) by auto
  have s: "0xD000 + 64 * k + i = (832 + k + i div 64) * 64 + i mod 64" using div_mult_mod_eq [of i 64] by simp
  show "(0xD000 + 64 * k + i) div 4096 = 13" using assms by (intro div_nat_eqI) auto
  have d: "(0xD000 + 64 * k + i) div 64 = 832 + k + i div 64" unfolding s by simp
  have "(832 + (k + i div 64)) mod 64 = (k + i div 64) mod 64" using mod_mult_self4 [of 64 13 "k + i div 64"] by simp
  then show "(0xD000 + 64 * k + i) div 64 mod 64 = k + i div 64"
    unfolding d using assms(2) \<open>i div 64 < 16\<close> by (auto simp: add.assoc)
  show "(0xD000 + 64 * k + i) mod 64 = i mod 64"
    using mod_mult_self4 [of 64 "832 + k" i] by (simp add: algebra_simps)
qed

lemma code_point_to_cesu8_bytes_eq:
  assumes "unat c < 0x110000"
  shows "lit_code_point_to_cesu8_bytes c = lit_code_point_to_cesu8 c"
proof -
  have "map unat (lit_code_point_to_cesu8_bytes c) = map unat (lit_code_point_to_cesu8 c)"
  proof (cases "unat c < 0x10000")
    case True
    then show ?thesis
      by (simp add: cesu8_bytes_bmp lit_code_point_to_cesu8_def code_unit_bytes word_le_unat unat_ucast)
  next
    case False
    define m where "m = unat c - 0x10000"
    have m: "unat c = 0x10000 + m" "m < 0x100000" using False assms by (simp_all add: m_def)
    have h: "unat (convert_code_point_to_high_surrogate c) = 0xD800 + m div 1024"
      using m by (simp add: convert_code_point_to_high_surrogate_def unat_simps unat_sub word_le_unat)
    have l: "unat (convert_code_point_to_low_surrogate c) = 0xDC00 + m mod 1024"
      using mod_mult_self4 [of 1024 64 m] by (simp add: convert_code_point_to_low_surrogate_def unat_simps m)
    have "m div 1024 < 1024" using m by auto
    from surrogate_digits [OF this, of 32] have hd: "(0xD800 + m div 1024) div 4096 = 13" "(0xD800 + m div 1024) div 64 mod 64 = 32 + m div 65536"
        "(0xD800 + m div 1024) mod 64 = m div 1024 mod 64"
      by (simp_all add: div_mult2_eq [symmetric])
    have "m mod 1024 < 1024" by simp
    from surrogate_digits [OF this, of 48] have ld: "(0xDC00 + m mod 1024) div 4096 = 13"
        "(0xDC00 + m mod 1024) div 64 mod 64 = 48 + m div 64 mod 16" "(0xDC00 + m mod 1024) mod 64 = m mod 64"
      by (simp_all add: mod_mult2_eq [of m 64 16, simplified] mod_mod_cancel)
    show ?thesis
      using m by (simp add: cesu8_bytes_supplementary lit_code_point_to_cesu8_def code_unit_bytes word_le_unat h l hd ld)
  qed
  then show ?thesis by (rule map_injective) (simp add: inj_def word_eq_unat)
qed


lemma cesu8_bytes_length: "length (lit_code_point_to_cesu8_bytes c) = lit_code_point_get_cesu8_length c"
  by (simp add: lit_code_point_to_cesu8_bytes_def lit_code_point_get_cesu8_length_def Let_def)

lemma four_byte_code_point:
  fixes b1 b2 b3 b4 :: u8
  assumes "unat b1 = 240 + o'" "unat b2 = 128 + p" "unat b3 = 128 + q" "unat b4 = 128 + r"
    and "o' < 8" "p < 64" "q < 64" "r < 64"
  shows "unat (((push_bit 18 (ucast b1 AND 0x07) OR push_bit 12 (ucast b2 AND 0x3F)) OR
    push_bit 6 (ucast b3 AND 0x3F)) OR (ucast b4 AND 0x3F) :: u32) = 262144 * o' + 4096 * p + 64 * q + r"
proof -
  have d: "unat (push_bit 18 (ucast b1 AND 0x07) :: u32) = 262144 * o'" "unat (push_bit 12 (ucast b2 AND 0x3F) :: u32) = 4096 * p"
      "unat (push_bit 6 (ucast b3 AND 0x3F) :: u32) = 64 * q" "unat (ucast b4 AND 0x3F :: u32) = r"
    using assms mod_mult_self4 [of 8 30 o'] mod_mult_self4 [of 64 2 p] mod_mult_self4 [of 64 2 q] mod_mult_self4 [of 64 2 r]
    by (simp_all add: unat_simps)
  have 1: "unat (push_bit 18 (ucast b1 AND 0x07) OR push_bit 12 (ucast b2 AND 0x3F) :: u32) = 262144 * o' + 4096 * p"
    by (subst unat_or_plus [of 18]) (use assms in \<open>simp_all add: d\<close>)
  have 2: "unat ((push_bit 18 (ucast b1 AND 0x07) OR push_bit 12 (ucast b2 AND 0x3F)) OR push_bit 6 (ucast b3 AND 0x3F) :: u32)
      = 262144 * o' + 4096 * p + 64 * q"
    by (subst unat_or_plus [of 12]) (use assms in \<open>simp_all add: d 1\<close>)
  show ?thesis
    by (subst unat_or_plus [of 6]) (use assms in \<open>simp_all add: d 2\<close>)
qed

lemma four_byte_to_cesu8:
  assumes "0x10000 \<le> unat c" "unat c < 0x110000"
  shows "lit_four_byte_utf8_char_to_cesu8 (lit_code_point_to_utf8 c) = lit_code_point_to_cesu8_bytes c"
  using assms(2)
proof (cases c rule: code_point_to_utf8_cases)
  case (four o' p q r b1 b2 b3 b4)
  then have "((push_bit 18 (ucast b1 AND 0x07) OR push_bit 12 (ucast b2 AND 0x3F)) OR
    push_bit 6 (ucast b3 AND 0x3F)) OR (ucast b4 AND 0x3F) = c"
    unfolding word_eq_unat by (subst four_byte_code_point) auto
  then show ?thesis by (simp add: four(8) lit_four_byte_utf8_char_to_cesu8_def Let_def numeral_nat)
qed (use assms(1) in auto)

section \<open>Trimming\<close>

lemma trim_front_cesu8_of:
  "ecma_string_trim_front (cesu8_of us) = Some (cesu8_of (dropWhile (\<lambda>u. lit_char_is_white_space (ucast u)) us))"
  by (induction us) (simp_all add: ecma_string_trim_front.simps)

lemma prev_unit:
  "lit_read_prev_code_unit_from_utf8 (cesu8_of (us @ u # vs)) (length (cesu8_of (us @ [u]))) =
    Some (length (lit_code_unit_to_utf8 u), u)"
  using prev_of_next [of us u vs]
  by (auto simp: lit_read_prev_code_unit_from_utf8_def lit_cesu8_read_next_def lit_cesu8_read_prev_def split: option.splits)

lemma trim_back_cesu8_of:
  "ecma_string_trim_back (cesu8_of (us @ vs)) (length (cesu8_of us)) =
    Some (length (cesu8_of (rev (dropWhile (\<lambda>u. lit_char_is_white_space (ucast u)) (rev us)))))"
proof (induction us arbitrary: vs rule: rev_induct)
  case (snoc u us)
  from snoc [of "u # vs"] show ?case
    using prev_unit [of us u vs] by (subst ecma_string_trim_back.simps) simp
qed (simp add: ecma_string_trim_back.simps)


section \<open>Escape sequences\<close>

lemma hex_value_digit:
  "d < 16 \<Longrightarrow> unat (b :: u8) = (if d \<le> 9 then d + 0x30 else d + 0x57) \<Longrightarrow> hex_value b = Some d"
  by (auto simp: hex_value_def Let_def split: if_splits)

lemma escape_digit:
  fixes n :: nat and c :: u16
  defines "b \<equiv> (let result_char = ucast (drop_bit n c AND 0xF) in result_char + (if result_char \<le> 9 then 0x30 else 0x61 - 10)) :: u8"
  shows "hex_value b = Some (unat c div 2 ^ n mod 16)"
proof -
  let ?r = "ucast (drop_bit n c AND 0xF) :: u8" and ?d = "unat c div 2 ^ n mod 16"
  have d: "?d < 16" by simp
  have r: "unat ?r = ?d" by (simp add: unat_simps)
  have "unat b = (if ?d \<le> 9 then ?d + 0x30 else ?d + 0x57)"
    using d r by (simp add: b_def Let_def word_le_unat unat_word_ariths del: One_nat_def)
  with d show ?thesis by (rule hex_value_digit)
qed

lemma escape_cases:
  obtains b3 b2 b1 b0 where "lit_char_unicode_escape c = [0x5C, 0x75, b3, b2, b1, b0]"
    "hex_value b3 = Some (unat c div 4096)" "hex_value b2 = Some (unat c div 256 mod 16)"
    "hex_value b1 = Some (unat c div 16 mod 16)" "hex_value b0 = Some (unat c mod 16)"
proof -
  have "unat c div 4096 mod 16 = unat c div 4096" using unat_u16_less [of c] by auto
  with escape_digit [where n = 12 and c = c] escape_digit [where n = 8 and c = c]
    escape_digit [where n = 4 and c = c] escape_digit [where n = 0 and c = c]
  show thesis by (intro that) (auto simp: lit_char_unicode_escape_def)
qed

lemma base16_digits: "((n div 4096 * 16 + n div 256 mod 16) * 16 + n div 16 mod 16) * 16 + n mod 16 = n" for n :: nat
proof -
  have "n div 4096 * 16 + n div 256 mod 16 = n div 256" using div_mult_mod_eq [of "n div 256" 16] by (simp add: div_mult2_eq [symmetric])
  moreover have "n div 256 * 16 + n div 16 mod 16 = n div 16" using div_mult_mod_eq [of "n div 16" 16] by (simp add: div_mult2_eq [symmetric])
  ultimately show ?thesis by simp
qed

lemma hex_lookup_escape: "lit_char_hex_lookup (drop 2 (lit_char_unicode_escape c) @ rest) 4 = ucast c"
proof (cases c rule: escape_cases)
  case (1 b3 b2 b1 b0)
  have "unat (hex_lookup_loop ([b3, b2, b1, b0] @ rest) 4 0) = unat c"
    using 1(2-5) base16_digits [of "unat c"] hex_lookup_loop_value [of 4 "[b3, b2, b1, b0] @ rest" 0] by simp
  moreover have "unat (ucast c :: u32) = unat c" using unat_u16_less [of c] by (simp add: unat_ucast)
  ultimately show ?thesis by (simp add: lit_char_hex_lookup_def 1(1) word_eq_unat)
qed

lemma hex_lookup_loop_invalid:
  "n \<le> length buf \<Longrightarrow> \<not> list_all (\<lambda>c. hex_value c \<noteq> None) (take n buf) \<Longrightarrow> hex_lookup_loop buf n v = 0xFFFFFFFF"
  by (induction buf n v rule: hex_lookup_loop.induct) (auto simp: is_hex_digit_iff)

section \<open>Theorems\<close>

text \<open>
  (C23) Trimming: on every string of code units, \<open>ecma_string_trim_helper\<close> reads inside the string and returns
  exactly the string without the white space and line terminators of ECMA-262 at its two ends.
\<close>

theorem string_trim:
  "ecma_string_trim_helper (cesu8_of us) =
    (let space = \<lambda>u. unat u \<in> {9..13} \<union> {0x20, 0xA0, 0x1680} \<union> {0x2000..0x200A} \<union>
                      {0x2028, 0x2029, 0x202F, 0x205F, 0x3000, 0xFEFF}
     in Some (cesu8_of (rev (dropWhile space (rev (dropWhile space us))))))"
proof -
  define space where "space = (\<lambda>u :: u16. lit_char_is_white_space (ucast u))"
  define vs where "vs = dropWhile space us"
  have "vs = rev (dropWhile space (rev vs)) @ rev (takeWhile space (rev vs))"
    by (metis rev_append rev_rev_ident takeWhile_dropWhile_id)
  then have "take (length (cesu8_of (rev (dropWhile space (rev vs))))) (cesu8_of vs) = cesu8_of (rev (dropWhile space (rev vs)))"
    by (metis append_eq_conv_conj cesu8_of_simps(3))
  then have "ecma_string_trim_helper (cesu8_of us) = Some (cesu8_of (rev (dropWhile space (rev vs))))"
    using trim_back_cesu8_of [of vs "[]"]
    by (simp add: ecma_string_trim_helper_def trim_front_cesu8_of space_def [symmetric] vs_def [symmetric])
  moreover have "unat (ucast u :: u32) = unat u" for u :: u16 using unat_u16_less [of u] by (simp add: unat_ucast)
  ultimately show ?thesis by (simp only: vs_def space_def white_space_iff Let_def)
qed

text \<open>
  Escape sequences: the escape of a code unit is a backslash, \<open>u\<close> and four digits that \<open>lit_char_hex_lookup\<close>
  reads back as the unit, whatever follows. On any other buffer the lookup gives the value of its four
  first characters as hexadecimal digits in either case, and \<open>UINT32_MAX\<close> when there are fewer than four or one is not a digit.
\<close>

lemma unicode_escape_roundtrip:
  "take 2 (lit_char_unicode_escape c) = [0x5C, 0x75] \<and> length (lit_char_unicode_escape c) = 6 \<and>
   lit_char_hex_lookup (drop 2 (lit_char_unicode_escape c) @ rest) 4 = ucast c \<and>
   unat (lit_char_hex_lookup buf 4) =
     (if 4 \<le> length buf \<and> None \<notin> set (map hex_value (take 4 buf))
      then foldl (\<lambda>m c. m * 16 + the (hex_value c)) 0 (take 4 buf) else 0xFFFFFFFF)"
proof -
  have "take 2 (lit_char_unicode_escape c) = [0x5C, 0x75]" "length (lit_char_unicode_escape c) = 6"
    by (simp_all add: lit_char_unicode_escape_def)
  moreover have "unat (lit_char_hex_lookup buf 4) =
     (if 4 \<le> length buf \<and> None \<notin> set (map hex_value (take 4 buf))
      then foldl (\<lambda>m c. m * 16 + the (hex_value c)) 0 (take 4 buf) else 0xFFFFFFFF)"
  proof (cases "4 \<le> length buf \<and> None \<notin> set (map hex_value (take 4 buf))")
    case True
    then have "list_all (\<lambda>c. hex_value c \<noteq> None) (take 4 buf)" by (auto simp: list_all_iff image_iff simp flip: not_None_eq)
    then show ?thesis using True hex_lookup_loop_value [of 4 buf 0] by (simp add: lit_char_hex_lookup_def)
  next
    case False
    then have "4 \<le> length buf \<Longrightarrow> \<not> list_all (\<lambda>c. hex_value c \<noteq> None) (take 4 buf)"
      by (fastforce simp: list_all_iff image_iff)
    with False show ?thesis using hex_lookup_loop_invalid [of 4 buf 0] by (auto simp: lit_char_hex_lookup_def)
  qed
  ultimately show ?thesis using hex_lookup_escape [of c rest] by simp
qed

text \<open>
  The optimised encoder of code points to CESU-8 of the character helpers agrees with the one of the string
  helpers on every code point, the length function gives its length, and the converter of a four byte UTF-8 sequence gives
  the same bytes for every code point that has one.
\<close>

lemma cesu8_encoders_agree:
  assumes "unat c < 0x110000"
  shows "lit_code_point_to_cesu8_bytes c = lit_code_point_to_cesu8 c \<and>
    lit_code_point_get_cesu8_length c = length (lit_code_point_to_cesu8 c) \<and>
    (0x10000 \<le> unat c \<longrightarrow> lit_four_byte_utf8_char_to_cesu8 (lit_code_point_to_utf8 c) = lit_code_point_to_cesu8 c)"
  using code_point_to_cesu8_bytes_eq [OF assms] cesu8_bytes_length [of c] four_byte_to_cesu8 [OF _ assms] by auto

end
