(* ===== verification/Bigint_Text.thy ===== *)
theory Bigint_Text
  imports Bigint_Theorems Lit_Chars
begin

text \<open>
  BigInts and text: \<open>ecma_bigint_parse_string\<close> and \<open>ecma_bigint_to_string\<close> of
  \<open>src/jjs-core/ecma/operations/ecma-bigint.c\<close>. The parser is compared with the conversion of ECMA-262 on the code
  units of the string; the two agree except on strings that end in white space right after a sign, a prefix or zeros.

  The string value that \<open>ecma_bigint_to_string\<close> creates from the finished characters is represented by these
  characters. \<open>None\<close> is a read past the end of the string.
\<close>

section \<open>The parser\<close>

abbreviation (input) ECMA_BIGINT_PARSE_SET_NEGATIVE :: u32 where "ECMA_BIGINT_PARSE_SET_NEGATIVE \<equiv> 1"
abbreviation (input) ECMA_BIGINT_PARSE_DISALLOW_SYNTAX_ERROR :: u32 where "ECMA_BIGINT_PARSE_DISALLOW_SYNTAX_ERROR \<equiv> 2"
abbreviation (input) ECMA_BIGINT_PARSE_DISALLOW_MEMORY_ERROR :: u32 where "ECMA_BIGINT_PARSE_DISALLOW_MEMORY_ERROR \<equiv> 4"
abbreviation (input) ECMA_BIGINT_PARSE_ALLOW_UNDERSCORE :: u32 where "ECMA_BIGINT_PARSE_ALLOW_UNDERSCORE \<equiv> 8"

datatype parse_value = Parsed bigint_value | ECMA_VALUE_FALSE | ECMA_VALUE_NULL

type_synonym 'h parse_result = "'h ecma_context \<times> (bigint_error + parse_value)"

text \<open>Radix, sign and the rest of the string behind a prefix or a sign.\<close>

definition parse_prefix :: "nat \<Rightarrow> u8 list \<Rightarrow> digit \<times> nat \<times> u8 list" where
  "parse_prefix sign string_p =
    (if length string_p \<ge> 3 \<and> string_p ! 0 = 0x30 then
       (let radix = ucast (lit_char_to_radix (string_p ! 1))
        in if radix \<noteq> 10 then (radix, sign, drop 2 string_p) else (radix, sign, string_p))
     else if length string_p \<ge> 2 then
       (if string_p ! 0 = 0x2B then (10, sign, drop 1 string_p)
        else if string_p ! 0 = 0x2D then (10, ECMA_BIGINT_SIGN, drop 1 string_p)
        else (10, sign, string_p))
     else (10, sign, string_p))"

fun skip_zeros :: "bool \<Rightarrow> u8 list \<Rightarrow> u8 list" where
  "skip_zeros allow_underscore [] = []"
| "skip_zeros allow_underscore (ch # string_p) =
    (if ch = 0x30 \<or> (ch = 0x5F \<and> allow_underscore) then skip_zeros allow_underscore string_p else ch # string_p)"

text \<open>What the loop does with the next character: a digit (the radix itself if it is none), an underscore, or the end.\<close>

datatype parse_step = Digit digit | Skip | Stop

definition parse_char :: "digit \<Rightarrow> bool \<Rightarrow> u8 list \<Rightarrow> parse_step option" where
  "parse_char radix allow_underscore string_p =
    (let ch = hd string_p in
     if ch \<ge> 0x30 \<and> ch \<le> 0x39 then Some (Digit (ucast ch - 0x30))
     else if ch = 0x5F \<and> allow_underscore then Some Skip
     else (let character = LEXER_TO_ASCII_LOWERCASE ch in
       if character \<ge> 0x61 \<and> character \<le> 0x66 then Some (Digit (ucast character - (0x61 - 10)))
       else map_option (\<lambda>rest. if rest = [] then Stop else Digit radix) (ecma_string_trim_front string_p)))"

fun parse_loop :: "'h allocator \<Rightarrow> 'h ecma_context \<Rightarrow> digit \<Rightarrow> u32 \<Rightarrow> u8 list \<Rightarrow> bigptr \<Rightarrow>
    ('h ecma_context \<times> ((bigint_error + parse_value) + bigptr)) option" where
  "parse_loop A c radix options [] result_p = Some (c, Inr result_p)"
| "parse_loop A c radix options (ch # string_p) result_p =
    (case parse_char radix (options AND ECMA_BIGINT_PARSE_ALLOW_UNDERSCORE \<noteq> 0) (ch # string_p) of
       None \<Rightarrow> None
     | Some Skip \<Rightarrow> parse_loop A c radix options string_p result_p
     | Some Stop \<Rightarrow> Some (c, Inr result_p)
     | Some (Digit digit) \<Rightarrow>
        (if digit \<ge> radix then
           Some ((case result_p of Ptr p \<Rightarrow> ecma_deref_bigint A c p | _ \<Rightarrow> c),
             Inl (if options AND ECMA_BIGINT_PARSE_DISALLOW_SYNTAX_ERROR \<noteq> 0 then Inr ECMA_VALUE_FALSE
                  else Inl ECMA_ERR_STRING_CANNOT_BE_CONVERTED_TO_BIGINT_VALUE))
         else (case ecma_big_uint_mul_digit A c result_p radix digit of
             (c, NULL) \<Rightarrow> Some (c, Inr NULL)
           | (c, result_p) \<Rightarrow> parse_loop A c radix options string_p result_p)))"

definition ecma_bigint_parse_string :: "'h allocator \<Rightarrow> 'h ecma_context \<Rightarrow> u8 list \<Rightarrow> u32 \<Rightarrow> 'h parse_result option" where
  "ecma_bigint_parse_string A c string_p options =
    (let sign = (if options AND ECMA_BIGINT_PARSE_SET_NEGATIVE \<noteq> 0 then ECMA_BIGINT_SIGN else 0);
         allow_underscore = (options AND ECMA_BIGINT_PARSE_ALLOW_UNDERSCORE \<noteq> 0)
     in case ecma_string_trim_front string_p of
       None \<Rightarrow> None
     | Some string_p \<Rightarrow>
        (if string_p = [] then Some (c, Inr (Parsed ECMA_BIGINT_ZERO))
         else
          (let (radix, sign, string_p) = parse_prefix sign string_p;
               string_p = skip_zeros allow_underscore string_p
           in if string_p = [] then Some (c, Inr (Parsed ECMA_BIGINT_ZERO))
              else (case parse_loop A c radix options string_p NULL of
                None \<Rightarrow> None
              | Some (c, Inl r) \<Rightarrow> Some (c, r)
              | Some (c, Inr (Ptr p)) \<Rightarrow> Some (set_sign c p sign, Inr (Parsed (BigInt p)))
              | Some (c, Inr _) \<Rightarrow>
                 (if options AND ECMA_BIGINT_PARSE_DISALLOW_MEMORY_ERROR \<noteq> 0 then Some (c, Inr ECMA_VALUE_NULL)
                  else Some (c, Inl ECMA_ERR_ALLOCATE_BIGINT_VALUE))))))"

section \<open>Conversion to text\<close>

text \<open>
  The characters are right-aligned in a buffer with free space in front; writing the sign in front of its start is \<open>None\<close>.
\<close>

definition ecma_bigint_to_string ::
  "bool \<Rightarrow> 'h allocator \<Rightarrow> 'h ecma_context \<Rightarrow> bigint_value \<Rightarrow> digit \<Rightarrow> ('h ecma_context \<times> (bigint_error + u8 list)) option" where
  "ecma_bigint_to_string is64 A c v radix =
    (case v of
       ECMA_BIGINT_ZERO \<Rightarrow> Some (c, Inr [0x30])
     | BigInt bigint_p \<Rightarrow>
        (case ecma_big_uint_to_string is64 A c bigint_p radix of
           None \<Rightarrow> None
         | Some (c, None) \<Rightarrow> Some (c, Inl ECMA_ERR_ALLOCATE_BIGINT_STRING)
         | Some (c, Some (string_buffer_p, str, char_start_p, char_size_p)) \<Rightarrow>
            (let minus = sign_of (obj c bigint_p) \<noteq> 0;
                 c' = c\<lparr>heap := free_block A (heap c) string_buffer_p char_size_p\<rparr>
             in if minus \<and> char_start_p = 0 then None
                else Some (c', Inr (if minus then 0x2D # str else str)))))"

section \<open>The conversion of the standard\<close>

definition space :: "u16 \<Rightarrow> bool" where
  "space u \<longleftrightarrow> lit_char_is_white_space (ucast u)"

definition strip_back :: "u16 list \<Rightarrow> u16 list" where
  "strip_back us = rev (dropWhile space (rev us))"

definition text_digit :: "u16 \<Rightarrow> nat option" where
  "text_digit u =
    (let n = unat u in
     if 0x30 \<le> n \<and> n \<le> 0x39 then Some (n - 0x30)
     else if 0x41 \<le> n \<and> n \<le> 0x46 then Some (n - 0x37)
     else if 0x61 \<le> n \<and> n \<le> 0x66 then Some (n - 0x57)
     else None)"

fun digits_value :: "nat \<Rightarrow> nat \<Rightarrow> u16 list \<Rightarrow> nat option" where
  "digits_value R n [] = Some n"
| "digits_value R n (u # us) =
    (case text_digit u of
       None \<Rightarrow> None
     | Some d \<Rightarrow> if d < R then digits_value R (n * R + d) us else None)"

definition unit_radix :: "u16 \<Rightarrow> nat" where
  "unit_radix u =
    (if u = 0x78 \<or> u = 0x58 then 16 else if u = 0x6F \<or> u = 0x4F then 8 else if u = 0x62 \<or> u = 0x42 then 2 else 10)"

text \<open>\<open>StringToBigInt\<close> of ECMA-262: the text without the white space around it is empty, or a sign with
  decimal digits, or a prefix with digits in its radix.\<close>

definition split_prefix :: "u16 list \<Rightarrow> nat \<times> bool \<times> u16 list" where
  "split_prefix s =
    (if length s \<ge> 3 \<and> s ! 0 = 0x30 \<and> unit_radix (s ! 1) \<noteq> 10 then (unit_radix (s ! 1), False, drop 2 s)
     else if length s \<ge> 2 \<and> s ! 0 = 0x2B then (10, False, tl s)
     else if length s \<ge> 2 \<and> s ! 0 = 0x2D then (10, True, tl s)
     else (10, False, s))"

definition string_to_bigint :: "u16 list \<Rightarrow> int option" where
  "string_to_bigint us =
    (let (R, negative, s) = split_prefix (strip_back (dropWhile space us))
     in map_option (\<lambda>n. if negative then - int n else int n) (digits_value R 0 s))"

text \<open>The strings on which the parser deviates: only zeros before the white space at the end, and not only white space.\<close>

definition stray_end :: "u16 list \<Rightarrow> bool" where
  "stray_end us \<longleftrightarrow>
    (let s = dropWhile space us; (R, negative, t) = split_prefix s; t' = dropWhile (\<lambda>u. u = 0x30) t
     in s \<noteq> [] \<and> t' \<noteq> [] \<and> list_all space t')"

text \<open>The number formed by the digits at the front of the text, which memory must hold in any case.\<close>

fun prefix_value :: "nat \<Rightarrow> nat \<Rightarrow> u16 list \<Rightarrow> nat" where
  "prefix_value R n [] = n"
| "prefix_value R n (u # us) =
    (case text_digit u of
       None \<Rightarrow> n
     | Some d \<Rightarrow> if d < R then prefix_value R (n * R + d) us else n)"

definition leading_value :: "u16 list \<Rightarrow> nat" where
  "leading_value us = (let (R, negative, s) = split_prefix (dropWhile space us) in prefix_value R 0 s)"

definition parse_returns :: "('h \<Rightarrow> (addr \<rightharpoonup> nat) \<Rightarrow> bool) \<Rightarrow> ('h \<Rightarrow> bool) \<Rightarrow> (addr \<rightharpoonup> nat) \<Rightarrow> (addr \<rightharpoonup> bigint_prim) \<Rightarrow> u32 \<Rightarrow>
    nat \<Rightarrow> int option \<Rightarrow> 'h parse_result option \<Rightarrow> bool" where
  "parse_returns holds failed X st options lead outcome ores \<longleftrightarrow>
    (\<exists>c r. ores = Some (c, r) \<and> ctx_inv holds X c \<and>
      (store c = st \<and> (failed (heap c) \<or> big_limit \<le> lead) \<and>
         r = (if options AND ECMA_BIGINT_PARSE_DISALLOW_MEMORY_ERROR \<noteq> 0 then Inr ECMA_VALUE_NULL else Inl ECMA_ERR_ALLOCATE_BIGINT_VALUE) \<or>
       (case outcome of
          None \<Rightarrow> store c = st \<and>
            r = (if options AND ECMA_BIGINT_PARSE_DISALLOW_SYNTAX_ERROR \<noteq> 0 then Inr ECMA_VALUE_FALSE
                 else Inl ECMA_ERR_STRING_CANNOT_BE_CONVERTED_TO_BIGINT_VALUE)
        | Some z \<Rightarrow> (\<exists>v. r = Inr (Parsed v) \<and> bigint (store c) v z \<and> gains st v (store c)))))"


section \<open>Characters\<close>

lemma unit_first_byte:
  obtains (ascii) b where "unat u < 0x80" "lit_code_unit_to_utf8 u = [b]" "unat b = unat u"
  | (other) b bs where "0x80 \<le> unat u" "lit_code_unit_to_utf8 u = b # bs" "0xC0 \<le> unat b" "\<not> (0x61 \<le> unat b OR 32 \<and> unat b OR 32 \<le> 0x66)"
proof (cases u rule: code_unit_to_utf8_cases)
qed (auto simp: or_32 split: if_splits intro: that)

lemma unat_lowercase_byte: "unat (LEXER_TO_ASCII_LOWERCASE (b :: u8)) = unat b OR 32"
  by (simp add: unat_lowercase)

lemma digit_sub:
  fixes b :: u8
  assumes "k \<le> unat b" "k < 256"
  shows "ucast b - of_nat k = (of_nat (unat b - k) :: digit)"
proof -
  have "unat (ucast b - of_nat k :: digit) = unat b - k"
    using assms by (subst unat_sub) (simp_all add: word_le_unat unat_of_nat)
  then show ?thesis by (metis of_nat_unat ucast_id)
qed

lemma parse_char_unit:
  "parse_char radix False (cesu8_of (u # us)) =
    Some (case text_digit u of Some d \<Rightarrow> Digit (of_nat d) | None \<Rightarrow> if list_all space (u # us) then Stop else Digit radix)"
proof -
  have trim: "ecma_string_trim_front (cesu8_of (u # us)) = Some (cesu8_of (dropWhile space (u # us)))"
    by (simp only: trim_front_cesu8_of space_def [abs_def])
  have all: "dropWhile space (u # us) = [] \<longleftrightarrow> list_all space (u # us)" by (auto simp: list_all_iff)
  show ?thesis
  proof (cases u rule: unit_first_byte)
    case (ascii b)
    have "(0x30 \<le> unat b \<and> unat b \<le> 0x39) \<or> (0x41 \<le> unat b \<and> unat b \<le> 0x46) \<or> (0x61 \<le> unat b \<and> unat b \<le> 0x66)" if "text_digit u \<noteq> None"
      using that ascii(3) by (auto simp: text_digit_def Let_def split: if_splits)
    then consider (num) "0x30 \<le> unat b" "unat b \<le> 0x39" | (upper) "0x41 \<le> unat b" "unat b \<le> 0x46"
      | (lower) "0x61 \<le> unat b" "unat b \<le> 0x66" | (none) "text_digit u = None" by blast
    then show ?thesis
    proof cases
      case num
      then show ?thesis using ascii digit_sub [of "0x30" b] by (simp add: parse_char_def text_digit_def word_le_unat)
    next
      case upper
      then have "unat b div 32 = 2" by (intro div_nat_eqI) auto
      then have "unat (LEXER_TO_ASCII_LOWERCASE b) = unat b + 32" unfolding unat_lowercase_byte or_32 by simp
      then show ?thesis using ascii upper digit_sub [of "0x57" "LEXER_TO_ASCII_LOWERCASE b"]
        by (simp add: parse_char_def text_digit_def word_le_unat Let_def)
    next
      case lower
      then have "unat b div 32 = 3" by (intro div_nat_eqI) auto
      then have "unat (LEXER_TO_ASCII_LOWERCASE b) = unat b" unfolding unat_lowercase_byte or_32 by simp
      then show ?thesis using ascii lower digit_sub [of "0x57" "LEXER_TO_ASCII_LOWERCASE b"]
        by (simp add: parse_char_def text_digit_def word_le_unat Let_def)
    next
      case none
      then have n: "\<not> (0x30 \<le> unat b \<and> unat b \<le> 0x39)" "\<not> (0x61 \<le> unat b OR 32 \<and> unat b OR 32 \<le> 0x66)"
        using ascii unfolding lowercase_hex by (auto simp: text_digit_def Let_def split: if_splits)
      then show ?thesis using ascii none trim all
        by (auto simp: parse_char_def word_le_unat unat_lowercase_byte Let_def)
    qed
  next
    case (other b bs)
    moreover from other(1) have "text_digit u = None" by (simp add: text_digit_def Let_def)
    ultimately show ?thesis using trim all
      by (auto simp: parse_char_def word_le_unat unat_lowercase_byte Let_def)
  qed
qed

section \<open>The text after the prefix\<close>

text \<open>What the loop computes on code units.\<close>

fun parse_units :: "nat \<Rightarrow> nat \<Rightarrow> u16 list \<Rightarrow> nat option" where
  "parse_units R n [] = Some n"
| "parse_units R n (u # us) =
    (case text_digit u of
       Some d \<Rightarrow> if d < R then parse_units R (n * R + d) us else None
     | None \<Rightarrow> if list_all space (u # us) then Some n else None)"

lemma digit_not_space: "text_digit u = Some d \<Longrightarrow> \<not> space u"
proof -
  have "unat (ucast u :: u32) = unat u" using unat_u16_less [of u] by (simp add: unat_ucast)
  then show "text_digit u = Some d \<Longrightarrow> \<not> space u"
    by (auto simp: text_digit_def space_def white_space_iff Let_def split: if_splits)
qed

lemma strip_back_Cons: "strip_back (u # us) = (if list_all space (u # us) then [] else u # strip_back us)"
proof -
  have "dropWhile space (rev us) = [] \<longleftrightarrow> list_all space us" by (auto simp: list_all_iff)
  then show ?thesis by (auto simp: strip_back_def dropWhile_append list_all_iff)
qed

lemma strip_back_Nil [simp]: "strip_back [] = []"
  by (simp add: strip_back_def)

lemma strip_back_eq_Nil: "strip_back us = [] \<longleftrightarrow> list_all space us"
  by (cases us) (auto simp: strip_back_Cons)

lemma parse_units_eq: "parse_units R n us = digits_value R n (strip_back us)"
proof (induction us arbitrary: n)
  case (Cons u us)
  then show ?case
    using digit_not_space [of u] by (auto simp: strip_back_Cons split: option.splits)
qed simp

lemma digits_value_prefix: "parse_units R n us = Some m \<Longrightarrow> prefix_value R n us = m"
  by (induction us arbitrary: n) (auto split: option.splits if_splits)

lemma prefix_value_ge: "0 < R \<Longrightarrow> n \<le> prefix_value R n us"
proof (induction us arbitrary: n)
  case (Cons u us)
  have "n \<le> n * R + d" for d using Cons.prems by (cases R) auto
  with Cons show ?case by (auto split: option.splits intro: le_trans)
qed simp

lemma zero_digit [simp]: "text_digit 0x30 = Some 0"
  by (simp add: text_digit_def)

lemma skip_zeros_value:
  assumes "0 < R"
  shows "digits_value R 0 (strip_back (dropWhile (\<lambda>u. u = 0x30) us)) = digits_value R 0 (strip_back us)"
    and "prefix_value R 0 (dropWhile (\<lambda>u. u = 0x30) us) = prefix_value R 0 us"
  using assms digit_not_space [OF zero_digit] by (induction us) (auto simp: strip_back_Cons)

lemma skip_zeros_units: "skip_zeros False (cesu8_of us) = cesu8_of (dropWhile (\<lambda>u. u = 0x30) us)"
proof (induction us)
  case (Cons u us)
  show ?case
  proof (cases u rule: unit_first_byte)
    case (ascii b)
    then have "b = 0x30 \<longleftrightarrow> u = 0x30" by (simp add: word_eq_unat)
    with ascii Cons show ?thesis by simp
  next
    case (other b bs)
    then have "b \<noteq> 0x30" "u \<noteq> 0x30" by (auto simp: word_eq_unat)
    with other show ?thesis by simp
  qed
qed simp


section \<open>The prefix\<close>

lemma radix_of_byte:
  "unat (lit_char_to_radix b) = (if unat b = 0x78 \<or> unat b = 0x58 then 16 else if unat b = 0x6F \<or> unat b = 0x4F then 8
     else if unat b = 0x62 \<or> unat b = 0x42 then 2 else 10)"
proof -
  have or: "n OR 32 = 96 + k \<longleftrightarrow> n = 96 + k \<or> n = 64 + k" if "k < 32" for n k :: nat
  proof -
    have "(96 + k) div 32 = 3" "(64 + k) div 32 = 2" using that by (auto intro: div_nat_eqI)
    moreover have "odd (n div 32)" if "n = 96 + k" using that calculation by simp
    moreover have "even (n div 32)" if "n = 64 + k" using that calculation by simp
    ultimately show ?thesis unfolding or_32 by auto
  qed
  show ?thesis
    using or [of 24 "unat b"] or [of 15 "unat b"] or [of 2 "unat b"]
    by (simp add: lit_char_to_radix_def Let_def word_eq_unat unat_lowercase_byte)
qed

lemma nth_unit_byte:
  "cesu8_of (u # us) ! 0 = b \<longleftrightarrow> u = ucast b" if "unat b < 0x80" for b :: u8
proof (cases u rule: unit_first_byte)
  case (ascii x)
  then show ?thesis using that by (simp add: word_eq_unat)
next
  case (other x xs)
  then have "x \<noteq> b" "u \<noteq> ucast b" using that by (auto simp: word_eq_unat)
  with other show ?thesis by simp
qed


lemma radix_of_unit:
  assumes "unat b = unat u"
  shows "ucast (lit_char_to_radix b) = (of_nat (unit_radix u) :: digit)"
proof -
  have "unat (lit_char_to_radix b) = unit_radix u" using assms by (simp add: radix_of_byte unit_radix_def word_eq_unat)
  then show ?thesis by (metis of_nat_unat)
qed

lemma unit_radix_cases: "unit_radix u \<in> {2, 8, 10, 16}"
  by (simp add: unit_radix_def)

lemma unit_radix_ten: "(of_nat (unit_radix u) :: digit) = 10 \<longleftrightarrow> unit_radix u = 10"
  by (auto simp: unit_radix_def)

lemma cesu8_of_length: "Suc 0 \<le> length (cesu8_of us) \<longleftrightarrow> us \<noteq> []" "Suc 0 \<le> length us \<longleftrightarrow> us \<noteq> []"
  by (simp_all add: Suc_le_eq)

lemma parse_prefix_units:
  assumes "s \<noteq> []"
  shows "parse_prefix sign (cesu8_of s) = (case split_prefix s of (R, negative, t) \<Rightarrow> (of_nat R, if negative then 1 else sign, cesu8_of t))"
proof -
  obtain u us where s: "s = u # us" using assms by (cases s) auto
  show ?thesis
  proof (cases u rule: unit_first_byte)
    case (ascii b)
    then have b: "b = 0x30 \<longleftrightarrow> u = 0x30" "b = 0x2B \<longleftrightarrow> u = 0x2B" "b = 0x2D \<longleftrightarrow> u = 0x2D" by (simp_all add: word_eq_unat)
    show ?thesis
    proof (cases us)
      case Nil
      with ascii show ?thesis by (simp add: s parse_prefix_def split_prefix_def)
    next
      case (Cons v vs)
      show ?thesis
      proof (cases v rule: unit_first_byte)
        case vascii: (ascii x)
        then show ?thesis
          using ascii b radix_of_unit [OF vascii(3)] unit_radix_ten [of v]
          by (auto simp: s Cons parse_prefix_def split_prefix_def cesu8_of_length)
      next
        case (other x xs)
        then have "unat (lit_char_to_radix x) = 10" by (simp add: radix_of_byte)
        then have "lit_char_to_radix x = 10" by (simp add: word_eq_unat)
        moreover have "unit_radix v = 10" using other(1) by (auto simp: unit_radix_def)
        ultimately show ?thesis using ascii b other(2)
          by (auto simp: s Cons parse_prefix_def split_prefix_def)
      qed
    qed
  next
    case (other b bs)
    then have "b \<noteq> 0x30" "b \<noteq> 0x2B" "b \<noteq> 0x2D" "u \<noteq> 0x30" "u \<noteq> 0x2B" "u \<noteq> 0x2D" by auto
    with other(2) show ?thesis by (simp add: s parse_prefix_def split_prefix_def)
  qed
qed

section \<open>The loop\<close>

definition parse_ends :: "('h \<Rightarrow> (addr \<rightharpoonup> nat) \<Rightarrow> bool) \<Rightarrow> ('h \<Rightarrow> bool) \<Rightarrow> (addr \<rightharpoonup> nat) \<Rightarrow> (addr \<rightharpoonup> bigint_prim) \<Rightarrow> u32 \<Rightarrow>
    nat \<Rightarrow> nat option \<Rightarrow> ('h ecma_context \<times> ((bigint_error + parse_value) + bigptr)) option \<Rightarrow> bool" where
  "parse_ends holds failed X st options lead outcome ores \<longleftrightarrow>
    (\<exists>c r. ores = Some (c, r) \<and> ctx_inv holds X c \<and>
      (store c = st \<and> (failed (heap c) \<or> big_limit \<le> lead) \<and> r = Inr NULL \<or>
       (case outcome of
          None \<Rightarrow> store c = st \<and>
            r = Inl (if options AND ECMA_BIGINT_PARSE_DISALLOW_SYNTAX_ERROR \<noteq> 0 then Inr ECMA_VALUE_FALSE
                 else Inl ECMA_ERR_STRING_CANNOT_BE_CONVERTED_TO_BIGINT_VALUE)
        | Some m \<Rightarrow> (\<exists>p ds. r = Inr (Ptr p) \<and> owns holds X st c p ds \<and> wf_prim (new_prim ds) \<and> big_val ds = m))))"

lemma digit_unit_bytes: "text_digit u = Some d \<Longrightarrow> \<exists>b. lit_code_unit_to_utf8 u = [b]"
  by (cases u rule: unit_first_byte) (auto simp: text_digit_def Let_def split: if_splits)

lemma text_digit_less: "text_digit u = Some d \<Longrightarrow> d < 16"
  by (auto simp: text_digit_def Let_def split: if_splits)

context failing_heap
begin

lemma parse_loop_owned:
  assumes opt: "options AND ECMA_BIGINT_PARSE_ALLOW_UNDERSCORE = 0" and R: "2 \<le> R" "R \<le> 16"
    and "owns holds X st c p ds" "wf_prim (new_prim ds)"
  shows "parse_ends holds failed X st options (prefix_value R (big_val ds) us) (parse_units R (big_val ds) us)
    (parse_loop A c (of_nat R) options (cesu8_of us) (Ptr p))"
  using assms(4,5)
proof (induction us arbitrary: c p ds)
  case Nil
  then show ?case by (auto simp: parse_ends_def owns_def)
next
  case (Cons u us)
  obtain b bs where bytes: "cesu8_of (u # us) = b # bs" by (cases "cesu8_of (u # us)") auto
  have inv: "ctx_inv holds X c" and st: "store c = st(p \<mapsto> new_prim ds)" "p \<notin> dom st" using Cons.prems(1) by (simp_all add: owns_def)
  have Rw: "unat (of_nat R :: digit) = R" using R by (simp add: unat_of_nat)
  note step = parse_char_unit [of "of_nat R" u us, unfolded bytes]
  show ?case
  proof (cases "text_digit u")
    case None
    have fail: "parse_ends holds failed X st options lead None (Some (ecma_deref_bigint A c p,
        Inl (if options AND ECMA_BIGINT_PARSE_DISALLOW_SYNTAX_ERROR \<noteq> 0 then Inr ECMA_VALUE_FALSE
             else Inl ECMA_ERR_STRING_CANNOT_BE_CONVERTED_TO_BIGINT_VALUE)))" for lead
      using deref_owned [OF inv st] by (simp add: parse_ends_def)
    with None step opt Cons.prems inv show ?thesis
      unfolding bytes by (auto simp: parse_ends_def)
  next
    case (Some d)
    have dw: "unat (of_nat d :: digit) = d" using text_digit_less [OF Some] by (simp add: unat_of_nat)
    show ?thesis
    proof (cases "d < R")
      case False
      with Some step opt deref_owned [OF inv st] Rw dw show ?thesis
        unfolding bytes by (simp add: parse_ends_def word_le_unat)
    next
      case True
      obtain x where "lit_code_unit_to_utf8 u = [x]" using digit_unit_bytes [OF Some] by blast
      with bytes have bs: "bs = cesu8_of us" by simp
      have "normalized ds" "length ds \<le> 16384" using Cons.prems(2) by (simp_all add: wf_new_prim)
      then have y: "yields holds failed X st (big_val ds * R + d) (ecma_big_uint_mul_digit A c (Ptr p) (of_nat R) (of_nat d))"
        using mul_digit_correct [OF Cons.prems(1), of "of_nat R" "of_nat d"] Rw dw R by (simp add: word_less_unat)
      obtain c' r where m: "ecma_big_uint_mul_digit A c (Ptr p) (of_nat R) (of_nat d) = (c', r)" by fastforce
      have loop: "parse_loop A c (of_nat R) options (cesu8_of (u # us)) (Ptr p) =
          (case r of NULL \<Rightarrow> Some (c', Inr NULL) | _ \<Rightarrow> parse_loop A c' (of_nat R) options (cesu8_of us) r)"
        unfolding bytes using Some True step opt Rw dw by (simp add: m bs word_le_unat split: bigptr.split)
      have pos: "0 < big_val ds" using normalized_pos [OF \<open>normalized ds\<close>] .
      show ?thesis
      proof (cases r)
        case NULL
        have "big_val ds * R + d \<le> prefix_value R (big_val ds * R + d) us" using R by (intro prefix_value_ge) simp
        with y NULL Some True show ?thesis unfolding loop by (auto simp: m yields_def parse_ends_def)
      next
        case POINTER_TO_ZERO
        with y pos R show ?thesis by (simp add: m yields_def)
      next
        case (Ptr q)
        with y obtain ds' where "owns holds X st c' q ds'" "wf_prim (new_prim ds')" "big_val ds' = big_val ds * R + d"
          by (auto simp: m yields_def owns_def)
        with Cons.IH [of c' q ds'] Ptr Some True show ?thesis unfolding loop by simp
      qed
    qed
  qed
qed

lemma parse_loop_new:
  assumes opt: "options AND ECMA_BIGINT_PARSE_ALLOW_UNDERSCORE = 0" and R: "2 \<le> R" "R \<le> 16" and inv: "ctx_inv holds X c"
    and us: "us \<noteq> []" "hd us \<noteq> 0x30" "\<not> list_all space us"
  shows "parse_ends holds failed X (store c) options (prefix_value R 0 us) (parse_units R 0 us)
    (parse_loop A c (of_nat R) options (cesu8_of us) NULL)"
proof -
  obtain u vs where u: "us = u # vs" using us by (cases us) auto
  obtain b bs where bytes: "cesu8_of (u # vs) = b # bs" by (cases "cesu8_of (u # vs)") auto
  have Rw: "unat (of_nat R :: digit) = R" using R by (simp add: unat_of_nat)
  note step = parse_char_unit [of "of_nat R" u vs, unfolded bytes]
  show ?thesis
  proof (cases "\<exists>d. text_digit u = Some d \<and> d < R")
    case False
    with step opt inv us(3) Rw have "parse_loop A c (of_nat R) options (cesu8_of us) NULL = Some (c,
        Inl (if options AND ECMA_BIGINT_PARSE_DISALLOW_SYNTAX_ERROR \<noteq> 0 then Inr ECMA_VALUE_FALSE
             else Inl ECMA_ERR_STRING_CANNOT_BE_CONVERTED_TO_BIGINT_VALUE))"
      unfolding u bytes by (auto simp: word_le_unat unat_of_nat dest: text_digit_less split: option.splits)
    moreover have "parse_units R 0 us = None" using False us(3) by (auto simp: u split: option.splits)
    ultimately show ?thesis using inv by (simp add: parse_ends_def)
  next
    case True
    then obtain d where d: "text_digit u = Some d" "d < R" by blast
    have dw: "unat (of_nat d :: digit) = d" using text_digit_less [OF d(1)] by (simp add: unat_of_nat)
    have "d \<noteq> 0" using d(1) us(2) by (auto simp: u text_digit_def Let_def word_eq_unat split: if_splits)
    then have y: "yields holds failed X (store c) d (ecma_big_uint_mul_digit A c NULL (of_nat R) (of_nat d))"
      using mul_digit_new [OF inv, of "of_nat d" "of_nat R"] dw by (simp add: word_less_unat)
    obtain x where "lit_code_unit_to_utf8 u = [x]" using digit_unit_bytes [OF d(1)] by blast
    with bytes have bs: "bs = cesu8_of vs" by simp
    obtain c' r where m: "ecma_big_uint_mul_digit A c NULL (of_nat R) (of_nat d) = (c', r)" by fastforce
    have loop: "parse_loop A c (of_nat R) options (cesu8_of us) NULL =
        (case r of NULL \<Rightarrow> Some (c', Inr NULL) | _ \<Rightarrow> parse_loop A c' (of_nat R) options (cesu8_of vs) r)"
      unfolding u bytes using d step opt Rw dw by (simp add: m bs word_le_unat split: bigptr.split)
    show ?thesis
    proof (cases r)
      case NULL
      have "d \<le> prefix_value R d vs" using R by (intro prefix_value_ge) simp
      with y NULL d show ?thesis unfolding loop by (auto simp: u m yields_def parse_ends_def)
    next
      case POINTER_TO_ZERO
      with y \<open>d \<noteq> 0\<close> show ?thesis by (simp add: m yields_def)
    next
      case (Ptr q)
      with y obtain ds' where "owns holds X (store c) c' q ds'" "wf_prim (new_prim ds')" "big_val ds' = d"
        by (auto simp: m yields_def owns_def)
      with parse_loop_owned [OF opt R, of X "store c" c' q ds' vs] Ptr d show ?thesis unfolding loop by (simp add: u)
    qed
  qed
qed

text \<open>White space only: the loop ends at once without a result.\<close>

lemma parse_loop_space:
  assumes "options AND ECMA_BIGINT_PARSE_ALLOW_UNDERSCORE = 0" "us \<noteq> []" "list_all space us"
  shows "parse_loop A c radix options (cesu8_of us) NULL = Some (c, Inr NULL)"
proof -
  obtain u vs where u: "us = u # vs" using assms by (cases us) auto
  obtain b bs where bytes: "cesu8_of (u # vs) = b # bs" by (cases "cesu8_of (u # vs)") auto
  have "text_digit u = None" using assms(3) digit_not_space [of u] by (cases "text_digit u") (auto simp: u)
  with parse_char_unit [of radix u vs, unfolded bytes] assms show ?thesis unfolding u bytes by simp
qed

end

section \<open>The parser against the standard\<close>

lemma split_prefix_strip:
  assumes "split_prefix s = (R, negative, t)" "s \<noteq> []" "\<not> space (hd s)" "\<not> list_all space t"
  shows "split_prefix (strip_back s) = (R, negative, strip_back t)"
proof -
  obtain u us where s: "s = u # us" using assms by (cases s) auto
  have su: "strip_back s = u # strip_back us" using assms(3) by (simp add: s strip_back_Cons)
  show ?thesis
  proof (cases us)
    case Nil
    then show ?thesis using assms(1,3) by (auto simp: s split_prefix_def strip_back_Cons)
  next
    case (Cons v vs)
    show ?thesis
    proof (cases "strip_back us")
      case Nil
      then have "list_all space us" by (simp add: strip_back_eq_Nil)
      moreover from this have "unit_radix v = 10" 
        by (auto simp: Cons space_def white_space_iff unit_radix_def)
      ultimately show ?thesis using assms su Nil by (auto simp: s Cons split_prefix_def split: if_splits)
    next
      case sc: (Cons w ws)
      then have sv: "\<not> list_all space us" "strip_back us = v # strip_back vs"
        by (auto simp: strip_back_eq_Nil [symmetric]) (auto simp: Cons strip_back_Cons split: if_splits)
      show ?thesis
      proof (cases "strip_back vs")
        case Nil
        moreover from this have "list_all space vs" by (simp add: strip_back_eq_Nil)
        ultimately show ?thesis using assms(1,4) su sv by (auto simp: s Cons split_prefix_def split: if_splits)
      next
        case (Cons y ys)
        moreover from this have "vs \<noteq> []" by auto
        ultimately show ?thesis using assms(1) su sv
          by (auto simp: s \<open>us = v # vs\<close> split_prefix_def cesu8_of_length split: if_splits)
      qed
    qed
  qed
qed

lemma split_prefix_radix: "split_prefix s = (R, negative, t) \<Longrightarrow> 2 \<le> R \<and> R \<le> 16"
  using unit_radix_cases [of "s ! 1"] by (auto simp: split_prefix_def split: if_splits)

lemma split_prefix_nonempty: "split_prefix s = (R, negative, t) \<Longrightarrow> s \<noteq> [] \<Longrightarrow> t \<noteq> []"
  by (cases s) (auto simp: split_prefix_def Suc_le_eq split: if_splits)


context failing_heap
begin

text \<open>The end of the parser: the sign is set, or an error is raised.\<close>

lemma parse_ends_returns:
  assumes "parse_ends holds failed X st options lead outcome ores"
  shows "parse_returns holds failed X st options lead (map_option (\<lambda>n. if negative then - int n else int n) outcome)
    (case ores of
       None \<Rightarrow> None
     | Some (c, Inl r) \<Rightarrow> Some (c, r)
     | Some (c, Inr (Ptr p)) \<Rightarrow> Some (set_sign c p (if negative then 1 else 0), Inr (Parsed (BigInt p)))
     | Some (c, Inr _) \<Rightarrow>
        (if options AND ECMA_BIGINT_PARSE_DISALLOW_MEMORY_ERROR \<noteq> 0 then Some (c, Inr ECMA_VALUE_NULL)
         else Some (c, Inl ECMA_ERR_ALLOCATE_BIGINT_VALUE)))"
proof -
  from assms obtain c r where ores: "ores = Some (c, r)" and inv: "ctx_inv holds X c" and cases:
    "store c = st \<and> (failed (heap c) \<or> big_limit \<le> lead) \<and> r = Inr NULL \<or>
       (case outcome of
          None \<Rightarrow> store c = st \<and>
            r = Inl (if options AND ECMA_BIGINT_PARSE_DISALLOW_SYNTAX_ERROR \<noteq> 0 then Inr ECMA_VALUE_FALSE
                 else Inl ECMA_ERR_STRING_CANNOT_BE_CONVERTED_TO_BIGINT_VALUE)
        | Some m \<Rightarrow> (\<exists>p ds. r = Inr (Ptr p) \<and> owns holds X st c p ds \<and> wf_prim (new_prim ds) \<and> big_val ds = m))"
    by (auto simp: parse_ends_def)
  then consider (memory) "store c = st" "failed (heap c) \<or> big_limit \<le> lead" "r = Inr NULL"
    | (bad) "outcome = None" "store c = st" "r = Inl (if options AND ECMA_BIGINT_PARSE_DISALLOW_SYNTAX_ERROR \<noteq> 0 then Inr ECMA_VALUE_FALSE
                 else Inl ECMA_ERR_STRING_CANNOT_BE_CONVERTED_TO_BIGINT_VALUE)"
    | (num) m p ds where "outcome = Some m" "r = Inr (Ptr p)" "owns holds X st c p ds" "wf_prim (new_prim ds)" "big_val ds = m"
    by (auto split: option.splits)
  then show ?thesis
  proof cases
    case memory
    then show ?thesis using inv by (auto simp: ores parse_returns_def)
  next
    case bad
    then show ?thesis using inv by (auto simp: ores parse_returns_def)
  next
    case (num m p ds)
    let ?z = "if negative then - int m else int m"
    have norm: "normalized ds" "length ds \<le> 16384" using num(4) by (simp_all add: wf_new_prim)
    have "m > 0" using normalized_pos [OF norm(1)] num(5) by simp
    moreover have "yields holds failed X st m (c, Ptr p)" by (rule owns_yields [OF num(3) norm num(5)])
    ultimately have "returns holds failed X st (Inr ?z) (make_value (c, Ptr p) (if negative then 1 else 0))"
      by (intro make_value_returns) auto
    then show ?thesis using num(1,2) by (auto simp: ores parse_returns_def make_value_def returns_Some)
  qed
qed

lemma parse_string_returns:
  assumes opt: "options AND ECMA_BIGINT_PARSE_ALLOW_UNDERSCORE = 0" and inv: "ctx_inv holds X c" and stray: "\<not> stray_end us"
  shows "parse_returns holds failed X (store c) options (leading_value us)
    (map_option (\<lambda>z. if options AND ECMA_BIGINT_PARSE_SET_NEGATIVE \<noteq> 0 then - \<bar>z\<bar> else z) (string_to_bigint us))
    (ecma_bigint_parse_string A c (cesu8_of us) options)"
proof -
  define s where "s = dropWhile space us"
  have trim: "ecma_string_trim_front (cesu8_of us) = Some (cesu8_of s)"
    by (simp only: trim_front_cesu8_of space_def [abs_def] s_def)
  have zero: "parse_returns holds failed X (store c) options lead (Some 0) (Some (c, Inr (Parsed ECMA_BIGINT_ZERO)))" for lead
    using inv by (simp add: parse_returns_def gains_def)
  show ?thesis
  proof (cases "s = []")
    case True
    then have "string_to_bigint us = Some 0" by (simp add: string_to_bigint_def s_def [symmetric] split_prefix_def)
    with True zero show ?thesis by (simp add: ecma_bigint_parse_string_def trim)
  next
    case False
    have hd: "\<not> space (hd s)" using False hd_dropWhile [of space us] by (simp add: s_def)
    obtain R negative t where pre: "split_prefix s = (R, negative, t)" by (cases "split_prefix s") auto
    note R = split_prefix_radix [OF pre]
    note t = split_prefix_nonempty [OF pre False]
    define t' where "t' = dropWhile (\<lambda>u. u = 0x30) t"
    have zero_space: "\<not> space 0x30" by (rule digit_not_space [OF zero_digit])
    have not_space: "t' = [] \<or> \<not> list_all space t'"
      using stray False by (simp add: stray_end_def s_def [symmetric] pre t'_def Let_def)
    then have "\<not> list_all space t" using t zero_space by (cases t) (auto simp: t'_def split: if_splits)
    from split_prefix_strip [OF pre False hd this]
    have spec: "string_to_bigint us = map_option (\<lambda>n. if negative then - int n else int n) (parse_units R 0 t')"
      using R skip_zeros_value(1) [of R t] by (simp add: string_to_bigint_def s_def [symmetric] parse_units_eq t'_def)
    have lead: "leading_value us = prefix_value R 0 t'"
      using R skip_zeros_value(2) [of R t] by (simp add: leading_value_def s_def [symmetric] pre t'_def)
    let ?set = "options AND ECMA_BIGINT_PARSE_SET_NEGATIVE \<noteq> 0"
    have code: "ecma_bigint_parse_string A c (cesu8_of us) options =
        (if t' = [] then Some (c, Inr (Parsed ECMA_BIGINT_ZERO))
         else (case parse_loop A c (of_nat R) options (cesu8_of t') NULL of
                None \<Rightarrow> None
              | Some (c, Inl r) \<Rightarrow> Some (c, r)
              | Some (c, Inr (Ptr p)) \<Rightarrow> Some (set_sign c p (if negative \<or> ?set then 1 else 0), Inr (Parsed (BigInt p)))
              | Some (c, Inr _) \<Rightarrow>
                 (if options AND ECMA_BIGINT_PARSE_DISALLOW_MEMORY_ERROR \<noteq> 0 then Some (c, Inr ECMA_VALUE_NULL)
                  else Some (c, Inl ECMA_ERR_ALLOCATE_BIGINT_VALUE))))"
      using opt False by (auto simp: ecma_bigint_parse_string_def trim parse_prefix_units [OF False] pre skip_zeros_units t'_def [symmetric])
    show ?thesis
    proof (cases "t' = []")
      case True
      with zero show ?thesis by (simp add: code spec)
    next
      case ne: False
      have "hd t' \<noteq> 0x30" using ne hd_dropWhile [of "\<lambda>u. u = 0x30" t] by (simp add: t'_def)
      with parse_loop_new [OF opt _ _ inv ne] R ne not_space
      have ends: "parse_ends holds failed X (store c) options (prefix_value R 0 t') (parse_units R 0 t')
        (parse_loop A c (of_nat R) options (cesu8_of t') NULL)" by simp
      have "map_option (\<lambda>z. if ?set then - \<bar>z\<bar> else z) (string_to_bigint us) =
          map_option (\<lambda>n. if negative \<or> ?set then - int n else int n) (parse_units R 0 t')"
        by (auto simp: spec option.map_comp intro!: option.map_cong0)
      with parse_ends_returns [OF ends, of "negative \<or> ?set"] ne show ?thesis unfolding code lead by simp
    qed
  qed
qed

end


section \<open>Numbers as text\<close>

definition bigint_text :: "nat \<Rightarrow> int \<Rightarrow> u8 list" where
  "bigint_text R z = (if z < 0 then [0x2D] else []) @ radix_string R (nat \<bar>z\<bar>)"

definition units :: "u8 list \<Rightarrow> u16 list" where
  "units bs = map ucast bs"

lemma cesu8_of_units: "list_all (\<lambda>b. unat b < 0x80) bs \<Longrightarrow> cesu8_of (units bs) = bs"
proof (induction bs)
  case (Cons b bs)
  have "lit_code_unit_to_utf8 (ucast b) = [b]"
    using Cons.prems by (cases "ucast b :: u16" rule: unit_first_byte) (auto simp: word_eq_unat)
  with Cons show ?case by (simp add: units_def)
qed (simp add: units_def)

definition decimal_unit :: "u16 \<Rightarrow> bool" where
  "decimal_unit u \<longleftrightarrow> 0x30 \<le> unat u \<and> unat u \<le> 0x39"

lemma decimal_unit_facts:
  assumes "decimal_unit u"
  shows "\<not> space u" "unit_radix u = 10" "u \<noteq> 0x2B" "u \<noteq> 0x2D"
proof -
  obtain d where "text_digit u = Some d" using assms by (simp add: decimal_unit_def text_digit_def)
  then show "\<not> space u" by (rule digit_not_space)
  show "unit_radix u = 10" "u \<noteq> 0x2B" "u \<noteq> 0x2D" using assms by (auto simp: decimal_unit_def unit_radix_def)
qed

lemma decimal_strip: "list_all decimal_unit s \<Longrightarrow> dropWhile space s = s" "list_all decimal_unit s \<Longrightarrow> strip_back s = s"
proof -
  show "list_all decimal_unit s \<Longrightarrow> dropWhile space s = s" by (cases s) (auto dest: decimal_unit_facts)
  show "list_all decimal_unit s \<Longrightarrow> strip_back s = s" by (induction s) (auto simp: strip_back_Cons dest: decimal_unit_facts)
qed

lemma decimal_split: "list_all decimal_unit s \<Longrightarrow> split_prefix s = (10, False, s)"
  by (cases s; cases "tl s") (auto simp: split_prefix_def dest: decimal_unit_facts)

lemma digits_value_snoc: "digits_value R n (us @ [u]) = Option.bind (digits_value R n us) (\<lambda>m. digits_value R m [u])"
  by (induction us arbitrary: n) (auto split: option.splits)

lemma radix_char_unit: "d < 16 \<Longrightarrow> text_digit (ucast (radix_char d)) = Some d" "unat (radix_char d) < 0x80 \<or> 16 \<le> d"
  by (auto simp: text_digit_def radix_char_def Let_def unat_of_nat)

lemma radix_string_value:
  assumes "2 \<le> R" "R \<le> 16"
  shows "digits_value R 0 (units (radix_string R n)) = Some n"
  using assms
proof (induction R n rule: radix_string.induct)
  case (1 R n)
  show ?case
  proof (cases "n < R")
    case True
    with 1 show ?thesis by (simp add: radix_string.simps [of R n] units_def radix_char_unit)
  next
    case False
    moreover have m: "n mod R < R" using 1 by simp
    then have "text_digit (ucast (radix_char (n mod R))) = Some (n mod R)" using 1(3) by (intro radix_char_unit) simp
    ultimately show ?thesis using 1
      by (simp add: radix_string.simps [of R n] units_def digits_value_snoc)
  qed
qed

lemma radix_char_decimal: "d < 10 \<Longrightarrow> decimal_unit (ucast (radix_char d))"
  by (simp add: radix_char_def decimal_unit_def unat_word_ariths unat_of_nat)

lemma radix_string_chars: "2 \<le> R \<Longrightarrow> R \<le> 10 \<Longrightarrow> list_all decimal_unit (units (radix_string R n))"
proof (induction R n rule: radix_string.induct)
  case (1 R n)
  have "n mod R < R" using 1 by simp
  then have "n mod R < 10" using 1(3) by linarith
  with 1 show ?case by (auto simp: radix_string.simps [of R n] units_def radix_char_decimal)
qed

lemma radix_string_nonempty [simp]: "radix_string R n \<noteq> []"
  by (subst radix_string.simps) auto

lemma text_split:
  "split_prefix (units (bigint_text 10 z)) = (10, z < 0, units (radix_string 10 (nat \<bar>z\<bar>)))"
  "dropWhile space (units (bigint_text 10 z)) = units (bigint_text 10 z)"
  "strip_back (units (bigint_text 10 z)) = units (bigint_text 10 z)"
proof -
  note d = radix_string_chars [of 10 "nat \<bar>z\<bar>", simplified]
  have m: "\<not> space 0x2D" by (simp add: space_def white_space_iff)
  show "split_prefix (units (bigint_text 10 z)) = (10, z < 0, units (radix_string 10 (nat \<bar>z\<bar>)))"
  proof (cases "z < 0")
    case True
    then show ?thesis by (simp add: bigint_text_def units_def split_prefix_def Suc_le_eq)
  next
    case False
    with decimal_split [OF d] show ?thesis by (simp add: bigint_text_def)
  qed
  show "dropWhile space (units (bigint_text 10 z)) = units (bigint_text 10 z)"
    using m decimal_strip(1) [OF d] by (cases "z < 0") (simp_all add: bigint_text_def units_def)
  show "strip_back (units (bigint_text 10 z)) = units (bigint_text 10 z)"
    using m decimal_strip(2) [OF d] by (cases "z < 0") (simp_all add: bigint_text_def units_def strip_back_Cons)
qed

lemma text_value:
  "string_to_bigint (units (bigint_text 10 z)) = Some z" "leading_value (units (bigint_text 10 z)) = nat \<bar>z\<bar>"
  "\<not> stray_end (units (bigint_text 10 z))"
proof -
  note d = radix_string_chars [of 10 "nat \<bar>z\<bar>", simplified]
  note v = radix_string_value [of 10 "nat \<bar>z\<bar>", simplified]
  show "string_to_bigint (units (bigint_text 10 z)) = Some z"
    using v by (simp add: string_to_bigint_def text_split)
  show "leading_value (units (bigint_text 10 z)) = nat \<bar>z\<bar>"
    using v digits_value_prefix [of 10 0] decimal_strip(2) [OF d] by (simp add: leading_value_def text_split parse_units_eq)
  have "list_all decimal_unit (dropWhile (\<lambda>u. u = 0x30) (units (radix_string 10 (nat \<bar>z\<bar>))))"
    using d by (auto simp: list_all_iff dest: set_dropWhileD)
  then show "\<not> stray_end (units (bigint_text 10 z))"
    by (cases "dropWhile (\<lambda>u. u = 0x30) (units (radix_string 10 (nat \<bar>z\<bar>)))")
      (auto simp: stray_end_def text_split dest: decimal_unit_facts)
qed

lemma cesu8_of_text: "cesu8_of (units (bigint_text 10 z)) = bigint_text 10 z"
proof -
  have "list_all (\<lambda>b. unat b < 0x80) (radix_string 10 n)" for n
    using radix_string_chars [of 10 n] by (auto simp: list_all_iff units_def decimal_unit_def)
  then show ?thesis by (intro cesu8_of_units) (simp add: bigint_text_def)
qed

context failing_heap
begin

lemma to_string_returns:
  assumes inv: "ctx_inv holds X c" and v: "bigint (store c) v z" and R: "2 \<le> unat radix" "unat radix \<le> 36"
  shows "\<exists>c' r. ecma_bigint_to_string is64 A c v radix = Some (c', r) \<and> ctx_inv holds X c' \<and> store c' = store c \<and>
    (r = Inr (bigint_text (unat radix) z) \<or> r = Inl ECMA_ERR_ALLOCATE_BIGINT_STRING \<and> failed (heap c'))"
proof (cases v)
  case ECMA_BIGINT_ZERO
  with v R inv show ?thesis by (simp add: ecma_bigint_to_string_def bigint_text_def radix_string.simps radix_char_def)
next
  case (BigInt p)
  from v [unfolded BigInt] obtain w where w: "store c p = Some w" "number (store c) p (nat \<bar>z\<bar>)" "odd (bigint_sign_and_size w) \<longleftrightarrow> z < 0"
    by (rule bigint_obj)
  show ?thesis
  proof (cases rule: to_string_correct [OF inv w(2) R, where ?is64.0 = is64])
    case (1 c')
    then show ?thesis by (simp add: ecma_bigint_to_string_def BigInt)
  next
    case (2 c' q start n)
    let ?c = "c'\<lparr>heap := free_block A (heap c') q n\<rparr>"
    have "holds (free_block A (heap c') q n) ((X(q \<mapsto> n) ++ blocks (store c))(q := None))"
      using 2(2-4) by (intro free_holds) (auto simp: ctx_inv_def map_add_def blocks_def split: option.splits)
    moreover have "(X(q \<mapsto> n) ++ blocks (store c))(q := None) = X ++ blocks (store c)"
      using 2(3) by (auto simp: fun_eq_iff map_add_def blocks_def split: option.splits)
    ultimately have "ctx_inv holds X ?c" using inv 2(4) by (simp add: ctx_inv_def)
    moreover have "sign_of (obj c' p) \<noteq> 0 \<longleftrightarrow> z < 0" using w 2(4) by (simp add: sign_of_iff obj_def)
    ultimately show ?thesis using 2 by (auto simp: ecma_bigint_to_string_def BigInt bigint_text_def Let_def)
  qed
qed

text \<open>On a string that is a sign, a prefix or zeros followed by white space, the parser has no result and takes this for a lack of memory.\<close>

lemma parse_string_stray:
  assumes opt: "options AND ECMA_BIGINT_PARSE_ALLOW_UNDERSCORE = 0" and stray: "stray_end us"
  shows "ecma_bigint_parse_string A c (cesu8_of us) options =
    Some (c, if options AND ECMA_BIGINT_PARSE_DISALLOW_MEMORY_ERROR \<noteq> 0 then Inr ECMA_VALUE_NULL else Inl ECMA_ERR_ALLOCATE_BIGINT_VALUE)"
proof -
  define s where "s = dropWhile space us"
  have trim: "ecma_string_trim_front (cesu8_of us) = Some (cesu8_of s)"
    by (simp only: trim_front_cesu8_of space_def [abs_def] s_def)
  obtain R negative t where pre: "split_prefix s = (R, negative, t)" by (cases "split_prefix s") auto
  define t' where "t' = dropWhile (\<lambda>u. u = 0x30) t"
  have ne: "s \<noteq> []" "t' \<noteq> []" "list_all space t'" using stray by (auto simp: stray_end_def s_def [symmetric] pre t'_def Let_def)
  then show ?thesis
    using opt parse_loop_space [OF opt ne(2,3)]
    by (simp add: ecma_bigint_parse_string_def trim parse_prefix_units pre skip_zeros_units t'_def [symmetric])
qed

text \<open>Text that was made from a number is read back as this number.\<close>

lemma parse_text_returns:
  assumes inv: "ctx_inv holds X c" and small: "nat \<bar>z\<bar> < big_limit"
  shows "\<exists>c' r. ecma_bigint_parse_string A c (bigint_text 10 z) 0 = Some (c', r) \<and> ctx_inv holds X c' \<and>
    (r = Inl ECMA_ERR_ALLOCATE_BIGINT_VALUE \<and> store c' = store c \<and> failed (heap c') \<or>
     (\<exists>v. r = Inr (Parsed v) \<and> bigint (store c') v z \<and> gains (store c) v (store c')))"
proof -
  have "parse_returns holds failed X (store c) 0 (nat \<bar>z\<bar>) (Some z) (ecma_bigint_parse_string A c (bigint_text 10 z) 0)"
    using parse_string_returns [of 0 X c "units (bigint_text 10 z)"] inv by (simp add: text_value cesu8_of_text)
  with small show ?thesis by (auto simp: parse_returns_def)
qed

end

lemma big_val_limit: "length ds \<le> 16384 \<Longrightarrow> big_val ds < big_limit"
  unfolding big_limit_def by (rule less_le_trans [OF big_val_less power_increasing]) simp_all

lemma bigint_small: "bigint (store c) v z \<Longrightarrow> nat \<bar>z\<bar> < big_limit" for c :: "'h ecma_context"
proof (cases v)
  case ECMA_BIGINT_ZERO
  moreover assume "bigint (store c) v z"
  ultimately show ?thesis using big_val_limit [of "[]"] by simp
next
  case (BigInt p)
  assume "bigint (store c) v z"
  then obtain w :: bigint_prim where "big_val (digits w) = nat \<bar>z\<bar>" "length (digits w) \<le> 16384" unfolding BigInt by (rule bigint_obj)
  then show ?thesis using big_val_limit [of "digits w"] by simp
qed

section \<open>Theorems\<close>

text \<open>
  (C24) Parsing a BigInt: on every string the parser ends without a read past its end, and agrees with \<open>StringToBigInt\<close> of
  ECMA-262: the number of the text, or a syntax error (or \<open>false\<close>, as the options say). A memory error is raised only
  when memory ran out or the digits at the front of the text form a number of more than 16384 digits. The exceptions are the
  strings in which a sign, a prefix or zeros are followed by white space only, such as \<open>"0 "\<close> and \<open>"+ "\<close>: they raise a memory error
  although \<open>"0 "\<close> is zero and \<open>"+ "\<close> is not a number.
\<close>

theorem bigint_parse_string:
  assumes "failing_heap A holds failed" "ctx_inv holds X c" "options AND ECMA_BIGINT_PARSE_ALLOW_UNDERSCORE = 0"
  shows "if stray_end us then
      ecma_bigint_parse_string A c (cesu8_of us) options =
        Some (c, if options AND ECMA_BIGINT_PARSE_DISALLOW_MEMORY_ERROR \<noteq> 0 then Inr ECMA_VALUE_NULL else Inl ECMA_ERR_ALLOCATE_BIGINT_VALUE)
    else
      parse_returns holds failed X (store c) options (leading_value us)
        (map_option (\<lambda>z. if options AND ECMA_BIGINT_PARSE_SET_NEGATIVE \<noteq> 0 then - \<bar>z\<bar> else z) (string_to_bigint us))
        (ecma_bigint_parse_string A c (cesu8_of us) options)"
  using failing_heap.parse_string_returns [OF assms(1,3,2)] failing_heap.parse_string_stray [OF assms(1,3)] by simp

theorem bigint_parse_string_witness:
  "ecma_bigint_parse_string bump (example [1] [1]) [0x30, 0x20] 0 = Some (example [1] [1], Inl ECMA_ERR_ALLOCATE_BIGINT_VALUE) \<and>
   string_to_bigint [0x30, 0x20] = Some 0 \<and>
   parse_returns bump_holds (\<lambda>_. False) Map.empty (store (example [1] [1])) 0 31 (Some 31)
     (ecma_bigint_parse_string bump (example [1] [1]) [0x30, 0x58, 0x31, 0x46, 0x20] 0)"
proof -
  have sp: "space 0x20" "\<not> space 0x30" "\<not> space 0x31" "\<not> space 0x46" "\<not> space 0x58" by (simp_all add: space_def white_space_iff)
  have u: "cesu8_of [0x30, 0x20] = [0x30, 0x20]" "cesu8_of [0x30, 0x58, 0x31, 0x46, 0x20] = [0x30, 0x58, 0x31, 0x46, 0x20]"
    by (simp_all add: lit_code_unit_to_utf8_def Let_def)
  have "stray_end [0x30, 0x20]" "string_to_bigint [0x30, 0x20] = Some 0"
    using sp by (simp_all add: stray_end_def split_prefix_def string_to_bigint_def strip_back_Cons)
  moreover have "\<not> stray_end [0x30, 0x58, 0x31, 0x46, 0x20]" "string_to_bigint [0x30, 0x58, 0x31, 0x46, 0x20] = Some 31"
      "leading_value [0x30, 0x58, 0x31, 0x46, 0x20] = 31"
    using sp by (simp_all add: stray_end_def split_prefix_def string_to_bigint_def strip_back_Cons unit_radix_def leading_value_def text_digit_def)
  ultimately show ?thesis
    using bigint_parse_string [OF bump_heap example_inv, of 0 "[0x30, 0x20]" "[1]" "[1]", unfolded u]
      bigint_parse_string [OF bump_heap example_inv, of 0 "[0x30, 0x58, 0x31, 0x46, 0x20]" "[1]" "[1]", unfolded u] by simp
qed

text \<open>
  (C25) Printing and parsing: every BigInt is printed in every radix from 2 to 36 as its sign and digits without leading zeros, with
  nothing left in memory, and parsing the decimal text gives an equal BigInt; both fail only when memory ran out.
\<close>

theorem bigint_text_roundtrip:
  assumes "failing_heap A holds failed" "ctx_inv holds X c" "bigint (store c) v z" "2 \<le> unat radix" "unat radix \<le> 36"
  shows "\<exists>c' r. ecma_bigint_to_string is64 A c v radix = Some (c', r) \<and> store c' = store c \<and> ctx_inv holds X c' \<and>
    (case r of
       Inl e \<Rightarrow> e = ECMA_ERR_ALLOCATE_BIGINT_STRING \<and> failed (heap c')
     | Inr str \<Rightarrow> str = (if z < 0 then [0x2D] else []) @ radix_string (unat radix) (nat \<bar>z\<bar>) \<and>
        (radix = 10 \<longrightarrow>
          (\<exists>c'' w. ecma_bigint_parse_string A c' str 0 = Some (c'', w) \<and> ctx_inv holds X c'' \<and>
            (w = Inl ECMA_ERR_ALLOCATE_BIGINT_VALUE \<and> store c'' = store c \<and> failed (heap c'') \<or>
             (\<exists>v'. w = Inr (Parsed v') \<and> bigint (store c'') v' z \<and> gains (store c) v' (store c''))))))"
proof -
  from failing_heap.to_string_returns [OF assms, of is64] obtain c' r where
    str: "ecma_bigint_to_string is64 A c v radix = Some (c', r)" "ctx_inv holds X c'" "store c' = store c"
      "r = Inr (bigint_text (unat radix) z) \<or> r = Inl ECMA_ERR_ALLOCATE_BIGINT_STRING \<and> failed (heap c')" by blast
  from failing_heap.parse_text_returns [OF assms(1) str(2) bigint_small [OF assms(3)]] str show ?thesis
    by (auto simp: bigint_text_def)
qed

theorem bigint_text_roundtrip_witness:
  "\<exists>c' v'. ecma_bigint_to_string True bump (signed_example True [0, 1] False [1]) (BigInt 0) 10 = Some (c', Inr (0x2D # radix_string 10 4294967296)) \<and>
    bigint (store (fst (the (ecma_bigint_parse_string bump c' (0x2D # radix_string 10 4294967296) 0)))) v' (- 4294967296)"
proof -
  have "bigint (store (signed_example True [0, 1] False [1])) (BigInt 0) (- 4294967296)"
    using signed_example_operand(1) [of "[0, 1]" True False "[1]"] by (simp add: operand_def normalized_def)
  note rt = bigint_text_roundtrip [OF bump_heap signed_example_inv this, of 10 True]
  then obtain c' r where r: "ecma_bigint_to_string True bump (signed_example True [0, 1] False [1]) (BigInt 0) 10 = Some (c', r)" by auto
  with rt show ?thesis by (cases r) auto
qed

end
