(* ===== verification/Bigint_Number.thy ===== *)
theory Bigint_Number
  imports Bigint_Theorems
begin

text \<open>
  BigInts and numbers: the conversions between BigInts and IEEE 754 doubles and the comparisons of the two in
  \<open>src/jjs-core/ecma/operations/ecma-bigint.c\<close>, with the access to the parts of a double of
  \<open>ecma/base/ecma-helpers-number.c\<close> (configuration \<open>JJS_NUMBER_TYPE_FLOAT64\<close>).

  A double is its binary representation, a \<open>u64\<close>. Its magnitude as a multiple of the smallest positive
  double, \<open>2^-1074\<close>, is a natural number (\<open>number_mag\<close>), so that all claims are about integers: the integer \<open>n\<close> is \<open>n * number_one\<close>.
\<close>

section \<open>Doubles\<close>

definition ECMA_NUMBER_SIGN_BIT :: u64 where
  "ECMA_NUMBER_SIGN_BIT = 0x8000000000000000"

abbreviation (input) ECMA_NUMBER_BINARY_INF :: u64 where "ECMA_NUMBER_BINARY_INF \<equiv> 0x7FF0000000000000"

definition ecma_number_sign :: "u64 \<Rightarrow> bool" where
  "ecma_number_sign binary \<longleftrightarrow> binary AND ECMA_NUMBER_SIGN_BIT \<noteq> 0"

definition ecma_number_biased_exp :: "u64 \<Rightarrow> u32" where
  "ecma_number_biased_exp binary = ucast (drop_bit 52 (binary AND NOT ECMA_NUMBER_SIGN_BIT))"

definition ecma_number_fraction :: "u64 \<Rightarrow> u64" where
  "ecma_number_fraction binary = binary AND (push_bit 52 1 - 1)"

definition ecma_number_create :: "bool \<Rightarrow> u32 \<Rightarrow> u64 \<Rightarrow> u64" where
  "ecma_number_create sign biased_exp fraction =
    (let binary = push_bit 52 (ucast biased_exp) OR fraction
     in if sign then binary OR ECMA_NUMBER_SIGN_BIT else binary)"

definition ecma_number_make_infinity :: "bool \<Rightarrow> u64" where
  "ecma_number_make_infinity sign = (if sign then ECMA_NUMBER_BINARY_INF OR ECMA_NUMBER_SIGN_BIT else ECMA_NUMBER_BINARY_INF)"

text \<open>\<open>num != num\<close> and \<open>num == 0\<close> of the code, as the bit patterns that its debug build checks them against.\<close>

definition ecma_number_is_nan :: "u64 \<Rightarrow> bool" where
  "ecma_number_is_nan num \<longleftrightarrow> ecma_number_biased_exp num = 0x7FF \<and> ecma_number_fraction num > 0"

definition ecma_number_is_zero :: "u64 \<Rightarrow> bool" where
  "ecma_number_is_zero num \<longleftrightarrow> num AND NOT ECMA_NUMBER_SIGN_BIT = 0"

definition ecma_number_is_infinity :: "u64 \<Rightarrow> bool" where
  "ecma_number_is_infinity num \<longleftrightarrow> num AND NOT ECMA_NUMBER_SIGN_BIT = ECMA_NUMBER_BINARY_INF"

text \<open>The comparisons of a double with zero.\<close>

definition number_less_zero :: "u64 \<Rightarrow> bool" where
  "number_less_zero num \<longleftrightarrow> ecma_number_sign num \<and> \<not> ecma_number_is_zero num \<and> \<not> ecma_number_is_nan num"

definition number_greater_zero :: "u64 \<Rightarrow> bool" where
  "number_greater_zero num \<longleftrightarrow> \<not> ecma_number_sign num \<and> \<not> ecma_number_is_zero num \<and> \<not> ecma_number_is_nan num"

section \<open>Numbers to digits\<close>

definition ECMA_BIGINT_NUMBER_TO_DIGITS_GET_ZERO_SIZE :: "u32 \<Rightarrow> nat" where
  "ECMA_BIGINT_NUMBER_TO_DIGITS_GET_ZERO_SIZE value = unat (value AND 0xFFFF) * 4"

definition ECMA_BIGINT_NUMBER_TO_DIGITS_GET_DIGITS :: "u32 \<Rightarrow> nat" where
  "ECMA_BIGINT_NUMBER_TO_DIGITS_GET_DIGITS value = unat (drop_bit 20 value)"

definition ECMA_BIGINT_NUMBER_TO_DIGITS_GET_DIGITS_SIZE :: "u32 \<Rightarrow> nat" where
  "ECMA_BIGINT_NUMBER_TO_DIGITS_GET_DIGITS_SIZE value = ECMA_BIGINT_NUMBER_TO_DIGITS_GET_DIGITS value * 4"

definition ECMA_BIGINT_NUMBER_TO_DIGITS_SET_DIGITS :: "u32 \<Rightarrow> u32" where
  "ECMA_BIGINT_NUMBER_TO_DIGITS_SET_DIGITS value = push_bit 20 value"

abbreviation (input) ECMA_BIGINT_NUMBER_TO_DIGITS_HAS_FRACTION :: u32 where
  "ECMA_BIGINT_NUMBER_TO_DIGITS_HAS_FRACTION \<equiv> 0x10000"

text \<open>Returns the packed value and the digits that were written.\<close>

definition ecma_bigint_number_to_digits :: "u64 \<Rightarrow> u32 \<times> digit list" where
  "ecma_bigint_number_to_digits num =
    (if ecma_number_is_zero num then (ECMA_BIGINT_NUMBER_TO_DIGITS_SET_DIGITS 0, [])
     else
      (let biased_exp = ecma_number_biased_exp num; fraction = ecma_number_fraction num in
       if biased_exp < push_bit 10 1 - 1 then
         (ECMA_BIGINT_NUMBER_TO_DIGITS_SET_DIGITS 0 OR ECMA_BIGINT_NUMBER_TO_DIGITS_HAS_FRACTION, [])
       else
        (let biased_exp = biased_exp - (push_bit 10 1 - 1); fraction = fraction OR push_bit 52 1 in
         if biased_exp \<le> 52 then
           (let has_fraction = (if biased_exp < 52 \<and> push_bit (unat (biased_exp + (8 * 8 - 52))) fraction \<noteq> 0
                                then ECMA_BIGINT_NUMBER_TO_DIGITS_HAS_FRACTION else 0);
                fraction = drop_bit (unat (52 - biased_exp)) fraction;
                digit0 = ucast fraction; digit1 = ucast (drop_bit (8 * 4) fraction)
            in (ECMA_BIGINT_NUMBER_TO_DIGITS_SET_DIGITS (if digit1 = 0 then 1 else 2) OR has_fraction, [digit0, digit1]))
         else
          (let digit0 = ucast fraction; digit1 = ucast (drop_bit (8 * 4) fraction);
               biased_exp = biased_exp - 52;
               shift_left = biased_exp AND (8 * 4 - 1);
               biased_exp = drop_bit 5 biased_exp
           in if shift_left = 0 then (biased_exp OR ECMA_BIGINT_NUMBER_TO_DIGITS_SET_DIGITS 2, [digit0, digit1])
              else
               (let shift_right = push_bit 5 1 - shift_left;
                    digit2 = drop_bit (unat shift_right) digit1;
                    digit1 = push_bit (unat shift_left) digit1 OR drop_bit (unat shift_right) digit0;
                    digit0 = push_bit (unat shift_left) digit0
                in (biased_exp OR ECMA_BIGINT_NUMBER_TO_DIGITS_SET_DIGITS (if digit2 = 0 then 2 else 3),
                    [digit0, digit1, digit2]))))))"

definition ecma_bigint_number_to_bigint :: "'h allocator \<Rightarrow> 'h ecma_context \<Rightarrow> u64 \<Rightarrow> 'h bigint_result" where
  "ecma_bigint_number_to_bigint A c num =
    (if ecma_number_is_nan num \<or> ecma_number_is_infinity num
     then (c, Inl ECMA_ERR_INFINITY_OR_NAN_CANNOT_BE_CONVERTED_TO_BIGINT)
     else
      (let (result, digits) = ecma_bigint_number_to_digits num in
       if result AND ECMA_BIGINT_NUMBER_TO_DIGITS_HAS_FRACTION \<noteq> 0
       then (c, Inl ECMA_ERR_ONLY_INTEGER_NUMBERS_CAN_BE_CONVERTED_TO_BIGINT)
       else
        (let digits_size = ECMA_BIGINT_NUMBER_TO_DIGITS_GET_DIGITS_SIZE result in
         if digits_size = 0 then (c, Inr ECMA_BIGINT_ZERO)
         else
          (let zero_size = ECMA_BIGINT_NUMBER_TO_DIGITS_GET_ZERO_SIZE result in
           case ecma_bigint_create A c (digits_size + zero_size) of
             (c, Ptr p) \<Rightarrow>
               (let c = set_digits c p (replicate (zero_size div 4) 0 @ take (digits_size div 4) digits);
                    c = (if number_less_zero num then set_sign c p ECMA_BIGINT_SIGN else c)
                in (c, Inr (BigInt p)))
           | (c, _) \<Rightarrow> ecma_bigint_raise_memory_error c))))"

section \<open>Comparison with numbers\<close>

definition ecma_bigint_is_equal_to_number :: "'h ecma_context \<Rightarrow> bigint_value \<Rightarrow> u64 \<Rightarrow> bool" where
  "ecma_bigint_is_equal_to_number c left_value right_value =
    (if ecma_number_is_nan right_value \<or> ecma_number_is_infinity right_value then False
     else (case left_value of
       ECMA_BIGINT_ZERO \<Rightarrow> ecma_number_is_zero right_value
     | BigInt left_p \<Rightarrow>
        (if (if sign_of (obj c left_p) \<noteq> 0 then number_greater_zero right_value else number_less_zero right_value) then False
         else
          (let (result, digits') = ecma_bigint_number_to_digits right_value in
           if result AND ECMA_BIGINT_NUMBER_TO_DIGITS_HAS_FRACTION \<noteq> 0 then False
           else
            (let digits_size = ECMA_BIGINT_NUMBER_TO_DIGITS_GET_DIGITS_SIZE result;
                 zero_size = ECMA_BIGINT_NUMBER_TO_DIGITS_GET_ZERO_SIZE result
             in if ECMA_BIGINT_GET_SIZE (obj c left_p) \<noteq> digits_size + zero_size then False
                else if take (digits_size div 4) (drop (zero_size div 4) (digits (obj c left_p))) \<noteq> take (digits_size div 4) digits'
                then False
                else list_all (\<lambda>d. d = 0) (take (zero_size div 4) (digits (obj c left_p))))))))"

definition ecma_bigint_compare_to_number :: "'h ecma_context \<Rightarrow> bigint_value \<Rightarrow> u64 \<Rightarrow> int" where
  "ecma_bigint_compare_to_number c left_value right_value =
    (let right_invert_sign = ECMA_BIGINT_TO_SIGN (of_bool (number_greater_zero right_value)) in
     case left_value of
       ECMA_BIGINT_ZERO \<Rightarrow> if ecma_number_is_zero right_value then 0 else right_invert_sign
     | BigInt left_p \<Rightarrow>
        (let left_sign = ECMA_BIGINT_TO_SIGN (sign_of (obj c left_p)) in
         if ecma_number_is_zero right_value \<or> left_sign = right_invert_sign then left_sign
         else if ecma_number_is_infinity right_value then right_invert_sign
         else
          (let (result, digits') = ecma_bigint_number_to_digits right_value;
               digits_size = ECMA_BIGINT_NUMBER_TO_DIGITS_GET_DIGITS_SIZE result
           in if digits_size = 0 then left_sign
              else
               (let left_size = ECMA_BIGINT_GET_SIZE (obj c left_p);
                    zero_size = ECMA_BIGINT_NUMBER_TO_DIGITS_GET_ZERO_SIZE result;
                    right_size = digits_size + zero_size
                in if left_size \<noteq> right_size then (if left_size > right_size then left_sign else - left_sign)
                   else
                    (let cmp = compare_loop (rev (drop (zero_size div 4) (digits (obj c left_p)))) (rev (take (digits_size div 4) digits'))
                     in if cmp \<noteq> 0 then (if cmp > 0 then left_sign else - left_sign)
                        else if list_ex (\<lambda>d. d \<noteq> 0) (take (zero_size div 4) (digits (obj c left_p))) then left_sign
                        else if result AND ECMA_BIGINT_NUMBER_TO_DIGITS_HAS_FRACTION \<noteq> 0 then - left_sign
                        else 0)))))"


section \<open>The value of a double\<close>

definition number_exp :: "u64 \<Rightarrow> nat" where
  "number_exp b = unat b div 2 ^ 52 mod 2 ^ 11"

definition number_frac :: "u64 \<Rightarrow> nat" where
  "number_frac b = unat b mod 2 ^ 52"

definition number_mag :: "u64 \<Rightarrow> nat" where
  "number_mag b = (if number_exp b = 0 then number_frac b else (2 ^ 52 + number_frac b) * 2 ^ (number_exp b - 1))"

definition number_one :: nat where
  "number_one = 2 ^ 1074"

definition number_value :: "u64 \<Rightarrow> int" where
  "number_value b = (if ecma_number_sign b then - int (number_mag b) else int (number_mag b))"

lemma and_not_sign: "unat (b AND NOT ECMA_NUMBER_SIGN_BIT) = unat b mod 2 ^ 63" for b :: u64
proof -
  have "NOT ECMA_NUMBER_SIGN_BIT = mask 63" by (simp add: ECMA_NUMBER_SIGN_BIT_def mask_eq_exp_minus_1)
  then show ?thesis by (simp only: unat_and_mask)
qed

lemma number_sign_iff: "ecma_number_sign b \<longleftrightarrow> 2 ^ 63 \<le> unat b"
proof -
  have "ECMA_NUMBER_SIGN_BIT = NOT (mask 63)" by (simp add: ECMA_NUMBER_SIGN_BIT_def mask_eq_exp_minus_1)
  then have "unat (b AND ECMA_NUMBER_SIGN_BIT) = 2 ^ 63 * (unat b div 2 ^ 63)" using unat_and_not_mask [of b 63] by simp
  then show ?thesis by (simp add: ecma_number_sign_def word_eq_unat div_eq_0_iff not_less)
qed

lemma number_exp_less: "number_exp b < 2048"
  by (simp add: number_exp_def)

lemma number_frac_less: "number_frac b < 2 ^ 52"
  by (simp add: number_frac_def)

lemma mod_63_fields: "n mod 2 ^ 63 = 2 ^ 52 * (n div 2 ^ 52 mod 2 ^ 11) + n mod 2 ^ 52" for n :: nat
  using mod_mult2_eq [of n "2 ^ 52" "2 ^ 11"] by simp

lemma unat_biased_exp: "unat (ecma_number_biased_exp b) = number_exp b"
proof -
  have "unat b mod 2 ^ 63 div 2 ^ 52 = number_exp b"
    using mod_63_fields [of "unat b"] number_frac_less [of b] by (simp add: number_exp_def number_frac_def)
  then show ?thesis using number_exp_less [of b]
    by (simp only: ecma_number_biased_exp_def unat_ucast unat_drop_bit and_not_sign) simp
qed

lemma unat_fraction: "unat (ecma_number_fraction b) = number_frac b"
proof -
  have "push_bit 52 1 - 1 = (mask 52 :: u64)" by (simp add: mask_eq_exp_minus_1)
  then show ?thesis by (simp only: ecma_number_fraction_def unat_and_mask number_frac_def)
qed

lemma number_is_zero_iff: "ecma_number_is_zero b \<longleftrightarrow> number_exp b = 0 \<and> number_frac b = 0"
  using mod_63_fields [of "unat b"]
  by (simp add: ecma_number_is_zero_def word_eq_unat and_not_sign number_exp_def number_frac_def)

lemma number_is_infinity_iff: "ecma_number_is_infinity b \<longleftrightarrow> number_exp b = 2047 \<and> number_frac b = 0"
proof -
  have "2 ^ 52 * e + f = 0x7FF0000000000000 \<longleftrightarrow> e = 2047 \<and> f = 0" if "f < 2 ^ 52" for e f :: nat
  proof
    assume a: "2 ^ 52 * e + f = 0x7FF0000000000000"
    then have "(2 ^ 52 * e + f) div 2 ^ 52 = 2047" by simp
    with that have "e = 2047" by simp
    with a show "e = 2047 \<and> f = 0" by simp
  qed simp
  from this [OF number_frac_less [of b], of "number_exp b"] show ?thesis
    using mod_63_fields [of "unat b"]
    by (simp add: ecma_number_is_infinity_def word_eq_unat and_not_sign number_exp_def number_frac_def)
qed

lemma number_is_nan_iff: "ecma_number_is_nan b \<longleftrightarrow> number_exp b = 2047 \<and> number_frac b \<noteq> 0"
  by (auto simp: ecma_number_is_nan_def word_eq_unat word_less_unat unat_biased_exp unat_fraction)

lemma number_mag_eq_0: "number_mag b = 0 \<longleftrightarrow> ecma_number_is_zero b"
  by (auto simp: number_mag_def number_is_zero_iff)

section \<open>Digits of a double\<close>

lemma number_mag_small: "number_exp b < 1023 \<Longrightarrow> number_mag b < number_one"
proof -
  assume e: "number_exp b < 1023"
  show ?thesis
  proof (cases "number_exp b = 0")
    case True
    have "(2::nat) ^ 52 \<le> 2 ^ 1074" by (rule power_increasing) simp_all
    moreover have "number_mag b = number_frac b" using True by (simp add: number_mag_def)
    ultimately show ?thesis unfolding number_one_def using number_frac_less [of b] by (auto intro: less_le_trans)
  next
    case False
    have "(2 ^ 52 + number_frac b) * 2 ^ (number_exp b - 1) < 2 ^ 53 * 2 ^ (number_exp b - 1)"
      using number_frac_less [of b] by simp
    also have "\<dots> = 2 ^ (53 + (number_exp b - 1))" by (simp only: power_add)
    also have "\<dots> \<le> 2 ^ 1074" using e by (intro power_increasing) simp_all
    finally show ?thesis unfolding number_one_def by (simp only: number_mag_def False if_False)
  qed
qed

lemma number_mag_large:
  assumes "number_exp b = 1023 + e"
  shows "number_mag b div number_one = (2 ^ 52 + number_frac b) * 2 ^ e div 2 ^ 52"
    and "number_mag b mod number_one = 0 \<longleftrightarrow> (2 ^ 52 + number_frac b) * 2 ^ e mod 2 ^ 52 = 0"
proof -
  define k where "k = (2::nat) ^ 1022"
  have k: "0 < k" unfolding k_def by (rule zero_less_power) simp
  have "number_exp b - 1 = e + 1022" using assms by simp
  then have m: "number_mag b = (2 ^ 52 + number_frac b) * 2 ^ e * k"
    using assms by (simp only: number_mag_def power_add k_def mult.assoc) simp
  have "(1074::nat) = 52 + 1022" by simp
  then have o: "number_one = 2 ^ 52 * k" unfolding number_one_def k_def by (simp only: power_add)
  show "number_mag b div number_one = (2 ^ 52 + number_frac b) * 2 ^ e div 2 ^ 52"
    unfolding m o by (rule div_mult_mult2) (use k in simp)
  have "number_mag b mod number_one = (2 ^ 52 + number_frac b) * 2 ^ e mod 2 ^ 52 * k"
    unfolding m o by (rule mult_mod_left [symmetric])
  then show "number_mag b mod number_one = 0 \<longleftrightarrow> (2 ^ 52 + number_frac b) * 2 ^ e mod 2 ^ 52 = 0" using k by simp
qed


text \<open>The fields of the packed value.\<close>

lemma unpack:
  fixes r :: u32
  assumes "unat r = 2 ^ 20 * k + of_bool f * 2 ^ 16 + z" "z < 2 ^ 16"
  shows "ECMA_BIGINT_NUMBER_TO_DIGITS_GET_DIGITS r = k" "ECMA_BIGINT_NUMBER_TO_DIGITS_GET_ZERO_SIZE r = 4 * z"
    "r AND ECMA_BIGINT_NUMBER_TO_DIGITS_HAS_FRACTION \<noteq> 0 \<longleftrightarrow> f"
proof -
  have low: "of_bool f * 2 ^ 16 + z < 2 ^ 20" using assms(2) by (cases f) simp_all
  have "(2 ^ 20 * k + (of_bool f * 2 ^ 16 + z)) div 2 ^ 20 = k" using low by simp
  then show "ECMA_BIGINT_NUMBER_TO_DIGITS_GET_DIGITS r = k"
    unfolding ECMA_BIGINT_NUMBER_TO_DIGITS_GET_DIGITS_def unat_drop_bit assms(1) by (simp only: add.assoc)
  define q where "q = 16 * k + of_bool f"
  have r: "unat r = 2 ^ 16 * q + z" using assms(1) by (simp add: q_def)
  have "(0xFFFF :: u32) = mask 16" by (simp add: mask_eq_exp_minus_1)
  then have "unat (r AND 0xFFFF) = unat r mod 2 ^ 16" by (simp only: unat_and_mask)
  also have "\<dots> = z" unfolding r using assms(2) by simp
  finally show "ECMA_BIGINT_NUMBER_TO_DIGITS_GET_ZERO_SIZE r = 4 * z" by (simp add: ECMA_BIGINT_NUMBER_TO_DIGITS_GET_ZERO_SIZE_def)
  have "r AND 0x10000 \<noteq> 0 \<longleftrightarrow> bit r 16" using and_exp_eq_0_iff_not_bit [of r 16] by simp
  also have "\<dots> \<longleftrightarrow> bit (unat r) 16" by (simp add: bit_unsigned_iff)
  also have "\<dots> \<longleftrightarrow> odd (unat r div 2 ^ 16)" by (rule bit_iff_odd)
  also have "unat r div 2 ^ 16 = q" unfolding r using assms(2) by simp
  finally show "r AND ECMA_BIGINT_NUMBER_TO_DIGITS_HAS_FRACTION \<noteq> 0 \<longleftrightarrow> f" by (simp add: q_def)
qed


lemma unat_pack:
  fixes z k f :: u32
  shows "unat z < 2 ^ 16 \<Longrightarrow> unat k < 2 ^ 12 \<Longrightarrow> unat (z OR ECMA_BIGINT_NUMBER_TO_DIGITS_SET_DIGITS k) = 2 ^ 20 * unat k + unat z"
    "f = 0 \<or> f = 0x10000 \<Longrightarrow> unat k < 2 ^ 12 \<Longrightarrow> unat (ECMA_BIGINT_NUMBER_TO_DIGITS_SET_DIGITS k OR f) = 2 ^ 20 * unat k + of_bool (f \<noteq> 0) * 2 ^ 16"
proof -
  have k: "unat (push_bit 20 k) = 2 ^ 20 * unat k" if "unat k < 2 ^ 12" using that by (simp add: unat_push_bit)
  show "unat z < 2 ^ 16 \<Longrightarrow> unat k < 2 ^ 12 \<Longrightarrow> unat (z OR ECMA_BIGINT_NUMBER_TO_DIGITS_SET_DIGITS k) = 2 ^ 20 * unat k + unat z"
    unfolding ECMA_BIGINT_NUMBER_TO_DIGITS_SET_DIGITS_def by (subst unat_or_plus' [of 20]) (simp_all add: k)
  show "f = 0 \<or> f = 0x10000 \<Longrightarrow> unat k < 2 ^ 12 \<Longrightarrow> unat (ECMA_BIGINT_NUMBER_TO_DIGITS_SET_DIGITS k OR f) = 2 ^ 20 * unat k + of_bool (f \<noteq> 0) * 2 ^ 16"
    unfolding ECMA_BIGINT_NUMBER_TO_DIGITS_SET_DIGITS_def by (subst unat_or_plus [of 20]) (auto simp: k)
qed

text \<open>
  What the digits of a number mean: \<open>k\<close> digits, above \<open>z\<close> zero digits, are the integer part of the magnitude \<open>m\<close>, and the flag tells
  whether there is a fraction.
\<close>

definition splits_number :: "nat \<Rightarrow> u32 \<times> digit list \<Rightarrow> bool" where
  "splits_number m res \<longleftrightarrow> (case res of (r, ds) \<Rightarrow>
    \<exists>k z. ECMA_BIGINT_NUMBER_TO_DIGITS_GET_DIGITS r = k \<and> ECMA_BIGINT_NUMBER_TO_DIGITS_GET_ZERO_SIZE r = 4 * z \<and>
      k \<le> 3 \<and> z \<le> 31 \<and> k \<le> length ds \<and> big_val (take k ds) * base ^ z = m div number_one \<and>
      (if k = 0 then z = 0 else normalized (take k ds)) \<and>
      (r AND ECMA_BIGINT_NUMBER_TO_DIGITS_HAS_FRACTION \<noteq> 0 \<longleftrightarrow> m mod number_one \<noteq> 0))"

lemma splits_numberI:
  assumes "unat r = 2 ^ 20 * k + of_bool f * 2 ^ 16 + z" "k \<le> 3" "z \<le> 31" "k \<le> length ds"
    and "big_val (take k ds) * base ^ z = m div number_one" "if k = 0 then z = 0 else normalized (take k ds)" "f \<longleftrightarrow> m mod number_one \<noteq> 0"
  shows "splits_number m (r, ds)"
proof -
  have "z < 2 ^ 16" using assms(3) by simp
  from unpack [OF assms(1) this] assms(2-7) show ?thesis unfolding splits_number_def by blast
qed

text \<open>The digits of a word of 64 bits.\<close>

lemma two_digits_val:
  fixes w :: u64
  shows "big_val [ucast w, ucast (drop_bit 32 w)] = unat w"
proof -
  have "unat w div base < base" using unat_u64_less [of w] by (simp add: less_mult_imp_div_less)
  then show ?thesis by (simp add: unat_u32_ucast unat_drop_bit)
qed

lemma two_digits_take:
  fixes d0 d1 :: digit
  assumes "k = (if d1 = 0 then 1 else 2)" "0 < big_val [d0, d1]"
  shows "big_val (take k [d0, d1]) = big_val [d0, d1]" "normalized (take k [d0, d1])"
  using assms by (auto simp: normalized_def word_eq_unat)

lemma three_digits_take:
  fixes d0 d1 d2 :: digit
  assumes "k = (if d2 = 0 then 2 else 3)" "base \<le> big_val [d0, d1, d2]"
  shows "big_val (take k [d0, d1, d2]) = big_val [d0, d1, d2]" "normalized (take k [d0, d1, d2])"
  using assms unat_u32_less [of d0] by (auto simp: normalized_def numeral_3_eq_3)


lemma unat_significand: "unat (ecma_number_fraction b OR push_bit 52 1) = 2 ^ 52 + number_frac b"
  by (subst unat_or_plus' [of 52]) (use number_frac_less [of b] in \<open>simp_all add: unat_fraction unat_push_bit\<close>)

lemma shifted_out:
  fixes w :: u64
  assumes "e \<le> 52" "unat w = m"
  shows "push_bit (e + 12) w \<noteq> 0 \<longleftrightarrow> m mod 2 ^ (52 - e) \<noteq> 0"
proof -
  have "(2::nat) ^ 64 = 2 ^ (52 - e) * 2 ^ (e + 12)" using assms(1) by (simp only: power_add [symmetric]) simp
  then have "unat (push_bit (e + 12) w) = m mod 2 ^ (52 - e) * 2 ^ (e + 12)"
    by (simp only: unat_push_bit assms(2) mult_mod_left) simp
  then show ?thesis by (simp add: word_eq_unat)
qed

lemma div_mod_scaled:
  fixes m :: nat
  assumes "e \<le> 52"
  shows "m * 2 ^ e div 2 ^ 52 = m div 2 ^ (52 - e)" "m * 2 ^ e mod 2 ^ 52 = 0 \<longleftrightarrow> m mod 2 ^ (52 - e) = 0"
proof -
  have p: "(2::nat) ^ 52 = 2 ^ (52 - e) * 2 ^ e" using assms by (simp only: power_add [symmetric]) simp
  show "m * 2 ^ e div 2 ^ 52 = m div 2 ^ (52 - e)" unfolding p by (rule div_mult_mult2) simp
  have "m * 2 ^ e mod 2 ^ 52 = m mod 2 ^ (52 - e) * 2 ^ e" unfolding p by (rule mult_mod_left [symmetric])
  then show "m * 2 ^ e mod 2 ^ 52 = 0 \<longleftrightarrow> m mod 2 ^ (52 - e) = 0" by simp
qed

text \<open>A number between 1 and \<open>2^53\<close>.\<close>

lemma number_to_digits_small:
  assumes e: "number_exp b = 1023 + e" "e \<le> 52"
  shows "splits_number (number_mag b) (ecma_bigint_number_to_digits b)"
proof -
  let ?w = "ecma_number_fraction b OR push_bit 52 1" and ?m = "2 ^ 52 + number_frac b"
  let ?v = "drop_bit (52 - e) ?w"
  define d0 d1 where "d0 = (ucast ?v :: digit)" and "d1 = (ucast (drop_bit 32 ?v) :: digit)"
  define k where "k = (if d1 = 0 then 1 else 2 :: nat)"
  define f :: u32 where "f = (if e < 52 \<and> push_bit (e + 12) ?w \<noteq> 0 then 0x10000 else 0)"
  have exp: "unat (ecma_number_biased_exp b) = 1023 + e" using e by (simp add: unat_biased_exp)
  have sub: "unat (ecma_number_biased_exp b - 1023) = e" using exp by (subst unat_sub) (simp_all add: word_le_unat)
  have exps: "unat (ecma_number_biased_exp b - 1011) = e + 12" "unat (1075 - ecma_number_biased_exp b) = 52 - e"
    using exp e(2) by (simp_all add: unat_sub word_le_unat)
  have v: "unat ?v = ?m div 2 ^ (52 - e)" by (simp only: unat_drop_bit unat_significand)
  have "(2::nat) ^ (52 - e) \<le> 2 ^ 52" by (rule power_increasing) simp_all
  then have "2 ^ (52 - e) \<le> ?m" by linarith
  then have pos: "0 < unat ?v" unfolding v by (simp add: div_greater_zero_iff)
  have val: "big_val [d0, d1] = unat ?v" unfolding d0_def d1_def by (rule two_digits_val)
  note tk = two_digits_take [OF k_def, of d0, unfolded val, OF pos]
  have nonzero: "\<not> ecma_number_is_zero b" using e by (simp add: number_is_zero_iff)
  have code: "ecma_bigint_number_to_digits b = (ECMA_BIGINT_NUMBER_TO_DIGITS_SET_DIGITS (of_nat k) OR f, [d0, d1])"
    using nonzero exp sub e(2) exps
    by (simp add: ecma_bigint_number_to_digits_def Let_def word_less_unat word_le_unat d0_def d1_def k_def f_def)
  have f: "f \<noteq> 0 \<longleftrightarrow> ?m mod 2 ^ (52 - e) \<noteq> 0"
    using shifted_out [OF e(2) unat_significand [of b]] e(2) by (cases "e = 52") (auto simp: f_def)
  show ?thesis unfolding code
  proof (rule splits_numberI)
    show "unat (ECMA_BIGINT_NUMBER_TO_DIGITS_SET_DIGITS (of_nat k) OR f) = 2 ^ 20 * k + of_bool (f \<noteq> 0) * 2 ^ 16 + 0"
      by (subst unat_pack) (auto simp: f_def k_def unat_of_nat)
    show "big_val (take k [d0, d1]) * base ^ 0 = number_mag b div number_one"
      unfolding tk(1) number_mag_large(1) [OF e(1)] div_mod_scaled(1) [OF e(2)] val v by simp
    show "if k = 0 then 0 = (0::nat) else normalized (take k [d0, d1])" using tk(2) by simp
    show "(f \<noteq> 0) = (number_mag b mod number_one \<noteq> 0)"
      unfolding number_mag_large(2) [OF e(1)] div_mod_scaled(2) [OF e(2)] by (rule f)
  qed (simp_all add: k_def)
qed


text \<open>Three digits hold a significand that is shifted by less than a digit.\<close>

lemma shift_three:
  fixes d0 d1 :: digit
  assumes "s \<le> 32"
  shows "big_val [push_bit s d0, push_bit s d1 OR drop_bit (32 - s) d0, drop_bit (32 - s) d1] = big_val [d0, d1] * 2 ^ s"
  using shift_left_loop_spec [of s "[d0, d1]" 0 "[push_bit s d0 OR 0, push_bit s d1 OR drop_bit (32 - s) d0]" "drop_bit (32 - s) d1"] assms
  by simp

text \<open>A number of at least \<open>2^53\<close>.\<close>

lemma number_to_digits_large:
  assumes e: "number_exp b = 1023 + e" "52 < e" "e < 1024"
  shows "splits_number (number_mag b) (ecma_bigint_number_to_digits b)"
proof -
  let ?w = "ecma_number_fraction b OR push_bit 52 1" and ?m = "2 ^ 52 + number_frac b"
  define s where "s = e - 52"
  define z where "z = s div 32"
  define d0 d1 where "d0 = (ucast ?w :: digit)" and "d1 = (ucast (drop_bit 32 ?w) :: digit)"
  have s: "s \<le> 971" "0 < s" and z: "z \<le> 31" using e by (auto simp: s_def z_def)
  have exp: "unat (ecma_number_biased_exp b) = 1023 + e" using e by (simp add: unat_biased_exp)
  have sub: "unat (ecma_number_biased_exp b - 1023) = e" "unat (ecma_number_biased_exp b - 1075) = s"
    using exp e by (simp_all add: unat_sub word_le_unat s_def)
  have sl: "unat ((ecma_number_biased_exp b - 1075) AND 31) = s mod 32" by (simp add: unat_and_low_masks sub)
  have zw: "unat (drop_bit 5 (ecma_number_biased_exp b - 1075)) = z" by (simp add: unat_drop_bit sub z_def)
  have val: "big_val [d0, d1] = ?m" unfolding d0_def d1_def two_digits_val unat_significand ..
  have "(2::nat) ^ e = 2 ^ s * 2 ^ 52" using e(2) by (simp only: power_add [symmetric] s_def) simp
  then have scaled: "?m * 2 ^ e = ?m * 2 ^ s * 2 ^ 52" by simp
  have mag: "number_mag b div number_one = ?m * 2 ^ s" "number_mag b mod number_one = 0"
    unfolding number_mag_large [OF e(1)] scaled by simp_all
  have "(2::nat) ^ s = 2 ^ (s mod 32) * base ^ z"
    using mult_div_mod_eq [of 32 s] power_add [of "2::nat" "s mod 32" "32 * z"] by (simp add: z_def power_mult)
  then have split: "?m * 2 ^ s = ?m * 2 ^ (s mod 32) * base ^ z" by (simp only: mult.assoc)
  have nonzero: "\<not> ecma_number_is_zero b" using e by (simp add: number_is_zero_iff)
  have big: "base \<le> ?m * 2 ^ n" for n using mult_le_mono [of base ?m 1 "2 ^ n"] by simp
  show ?thesis
  proof (cases "s mod 32 = 0")
    case True
    then have code: "ecma_bigint_number_to_digits b =
        (drop_bit 5 (ecma_number_biased_exp b - 1075) OR ECMA_BIGINT_NUMBER_TO_DIGITS_SET_DIGITS 2, [d0, d1])"
      using nonzero exp sub sl e(2)
      by (simp add: ecma_bigint_number_to_digits_def Let_def word_less_unat word_le_unat word_eq_unat d0_def d1_def)
    have "d1 \<noteq> 0" using val big [of 0] unat_u32_less [of d0] by auto
    then show ?thesis unfolding code
      by (intro splits_numberI [where k = 2 and f = False and z = z])
        (use z zw val mag split True in \<open>simp_all add: unat_pack normalized_def\<close>)
  next
    case False
    let ?s = "s mod 32"
    define e0 e1 e2 where "e0 = push_bit ?s d0" and "e1 = push_bit ?s d1 OR drop_bit (32 - ?s) d0" and "e2 = drop_bit (32 - ?s) d1"
    define k where "k = (if e2 = 0 then 2 else 3 :: nat)"
    have "unat (32 - ((ecma_number_biased_exp b - 1075) AND 31)) = 32 - ?s" using sl by (simp add: unat_sub word_le_unat)
    then have code: "ecma_bigint_number_to_digits b =
        (drop_bit 5 (ecma_number_biased_exp b - 1075) OR ECMA_BIGINT_NUMBER_TO_DIGITS_SET_DIGITS (of_nat k), [e0, e1, e2])"
      using nonzero exp sub sl e(2) False
      by (simp add: ecma_bigint_number_to_digits_def Let_def word_less_unat word_le_unat word_eq_unat d0_def d1_def
          e0_def e1_def e2_def k_def)
    have v: "big_val [e0, e1, e2] = ?m * 2 ^ ?s"
      unfolding e0_def e1_def e2_def val [symmetric] by (rule shift_three) simp
    note t = three_digits_take [OF k_def, of e0 e1, unfolded v, OF big]
    show ?thesis unfolding code
    proof (rule splits_numberI [where k = k and f = False and z = z])
      show "unat (drop_bit 5 (ecma_number_biased_exp b - 1075) OR ECMA_BIGINT_NUMBER_TO_DIGITS_SET_DIGITS (of_nat k)) =
          2 ^ 20 * k + of_bool False * 2 ^ 16 + z"
        using z zw by (subst unat_pack) (auto simp: k_def unat_of_nat)
      show "big_val (take k [e0, e1, e2]) * base ^ z = number_mag b div number_one" unfolding t(1) mag split ..
    qed (use z t(2) mag in \<open>simp_all add: k_def\<close>)
  qed
qed

lemma number_to_digits_spec:
  assumes "number_exp b < 2047"
  shows "splits_number (number_mag b) (ecma_bigint_number_to_digits b)"
proof -
  have "0 < number_one" unfolding number_one_def by (rule zero_less_power) simp
  show ?thesis
  proof (cases "number_exp b < 1023")
    case True
    note m = number_mag_small [OF True]
    have "ecma_bigint_number_to_digits b = (if ecma_number_is_zero b then 0 else 0x10000, [])"
      using True unat_biased_exp [of b]
      by (simp add: ecma_bigint_number_to_digits_def ECMA_BIGINT_NUMBER_TO_DIGITS_SET_DIGITS_def word_less_unat)
    moreover have "splits_number (number_mag b) (if ecma_number_is_zero b then 0 else 0x10000, [])"
      by (rule splits_numberI [where k = 0 and f = "\<not> ecma_number_is_zero b" and z = 0])
        (use m in \<open>auto simp: number_mag_eq_0\<close>)
    ultimately show ?thesis by simp
  next
    case False
    then obtain e where e: "number_exp b = 1023 + e" by (metis le_add_diff_inverse not_less)
    with assms number_to_digits_small [OF e] number_to_digits_large [OF e] show ?thesis by (cases "e \<le> 52") auto
  qed
qed


section \<open>Comparison\<close>

lemma number_one_pos: "0 < number_one"
  unfolding number_one_def by (rule zero_less_power) simp

text \<open>An integer against a magnitude, through the integer part of the magnitude.\<close>

lemma scaled_compare:
  assumes "N = m div number_one"
  shows "N < n \<Longrightarrow> m < n * number_one" "n < N \<Longrightarrow> n * number_one < m"
    "n = N \<Longrightarrow> n * number_one = m - m mod number_one" "n = N \<Longrightarrow> n * number_one \<le> m"
proof -
  have m: "N * number_one + m mod number_one = m" unfolding assms by (rule div_mult_mod_eq)
  have r: "m mod number_one < number_one" using number_one_pos by simp
  show "N < n \<Longrightarrow> m < n * number_one"
  proof -
    assume "N < n"
    then have "(N + 1) * number_one \<le> n * number_one" by (intro mult_le_mono1) simp
    then show ?thesis using m r by (simp add: distrib_right)
  qed
  show "n < N \<Longrightarrow> n * number_one < m"
  proof -
    assume "n < N"
    then have "n * number_one < N * number_one" using number_one_pos by simp
    then show ?thesis using m by linarith
  qed
  show "n = N \<Longrightarrow> n * number_one = m - m mod number_one" "n = N \<Longrightarrow> n * number_one \<le> m" using m by auto
qed

text \<open>The digits of a number, from the result of the conversion.\<close>

lemma splits_numberE:
  assumes "splits_number m (r, ds)"
  obtains k z where "ECMA_BIGINT_NUMBER_TO_DIGITS_GET_DIGITS_SIZE r = 4 * k" "ECMA_BIGINT_NUMBER_TO_DIGITS_GET_ZERO_SIZE r = 4 * z"
    "k \<le> 3" "z \<le> 31" "length (take k ds) = k" "big_val (take k ds) * base ^ z = m div number_one"
    "k = 0 \<longrightarrow> z = 0" "k \<noteq> 0 \<longrightarrow> normalized (take k ds)"
    "r AND ECMA_BIGINT_NUMBER_TO_DIGITS_HAS_FRACTION \<noteq> 0 \<longleftrightarrow> m mod number_one \<noteq> 0"
proof -
  from assms obtain k z where "ECMA_BIGINT_NUMBER_TO_DIGITS_GET_DIGITS r = k" "ECMA_BIGINT_NUMBER_TO_DIGITS_GET_ZERO_SIZE r = 4 * z"
    "k \<le> 3" "z \<le> 31" "k \<le> length ds" "big_val (take k ds) * base ^ z = m div number_one"
    "if k = 0 then z = 0 else normalized (take k ds)" "r AND ECMA_BIGINT_NUMBER_TO_DIGITS_HAS_FRACTION \<noteq> 0 \<longleftrightarrow> m mod number_one \<noteq> 0"
    unfolding splits_number_def by blast
  then show thesis
    by (intro that [of k z]) (auto simp: ECMA_BIGINT_NUMBER_TO_DIGITS_GET_DIGITS_SIZE_def split: if_splits)
qed

lemma big_val_zeros: "big_val (replicate z 0 @ ds) = big_val ds * base ^ z"
  by (simp add: big_val_append)

lemma normalized_zeros: "normalized ds \<Longrightarrow> normalized (replicate z 0 @ ds)"
  by (auto simp: normalized_def)

lemma longer_greater:
  assumes "normalized ls" "length rs < length ls"
  shows "big_val rs < big_val ls"
  using big_val_length [OF assms(1), of rs] assms(2) by (meson leD leI less_or_eq_imp_le)

text \<open>The comparison of the digits with those of the number.\<close>

lemma compare_parts:
  assumes "length ls = z + length rs"
  shows "compare_loop (rev (drop z ls)) (rev rs) > 0 \<Longrightarrow> big_val rs * base ^ z < big_val ls"
    "compare_loop (rev (drop z ls)) (rev rs) < 0 \<Longrightarrow> big_val ls < big_val rs * base ^ z"
    "compare_loop (rev (drop z ls)) (rev rs) = 0 \<Longrightarrow> big_val ls = big_val rs * base ^ z + big_val (take z ls)"
proof -
  let ?h = "big_val (drop z ls)" and ?r = "big_val rs"
  have len: "length (drop z ls) = length rs" using assms by simp
  have v: "big_val ls = big_val (take z ls) + base ^ z * ?h" using big_val_take_drop [of ls z] assms by simp
  have low: "big_val (take z ls) < base ^ z" using big_val_less [of "take z ls"] assms by simp
  note c = compare_loop_val [OF len]
  have up: "base ^ z * a + base ^ z \<le> base ^ z * b" if "a < b" for a b :: nat
    using mult_le_mono2 [of "a + 1" b "base ^ z"] that by (simp add: distrib_left)
  show "compare_loop (rev (drop z ls)) (rev rs) > 0 \<Longrightarrow> ?r * base ^ z < big_val ls"
    using up [of ?r ?h] v low c by (auto simp: mult.commute split: if_splits)
  show "compare_loop (rev (drop z ls)) (rev rs) < 0 \<Longrightarrow> big_val ls < ?r * base ^ z"
    using up [of ?h ?r] v low c by (auto simp: mult.commute split: if_splits)
  show "compare_loop (rev (drop z ls)) (rev rs) = 0 \<Longrightarrow> big_val ls = ?r * base ^ z + big_val (take z ls)"
    using v c by (auto simp: mult.commute split: if_splits)
qed


text \<open>The order of a BigInt of magnitude \<open>n\<close>, given by normalized digits, and a number with magnitude \<open>m\<close>.\<close>

definition digits_compare :: "digit list \<Rightarrow> u32 \<times> digit list \<Rightarrow> int" where
  "digits_compare ls res = (case res of (result, ds) \<Rightarrow>
    (let digits_size = ECMA_BIGINT_NUMBER_TO_DIGITS_GET_DIGITS_SIZE result in
     if digits_size = 0 then 1
     else
      (let zero_size = ECMA_BIGINT_NUMBER_TO_DIGITS_GET_ZERO_SIZE result; right_size = digits_size + zero_size
       in if 4 * length ls \<noteq> right_size then (if 4 * length ls > right_size then 1 else - 1)
          else
           (let cmp = compare_loop (rev (drop (zero_size div 4) ls)) (rev (take (digits_size div 4) ds))
            in if cmp \<noteq> 0 then (if cmp > 0 then 1 else - 1)
               else if list_ex (\<lambda>d. d \<noteq> 0) (take (zero_size div 4) ls) then 1
               else if result AND ECMA_BIGINT_NUMBER_TO_DIGITS_HAS_FRACTION \<noteq> 0 then - 1
               else 0))))"

lemma list_ex_nonzero: "list_ex (\<lambda>d. d \<noteq> 0) ds \<longleftrightarrow> 0 < big_val ds"
  using big_val_eq_0_iff [of ds] by (auto simp: list_ex_iff)

lemma digits_compare_spec:
  assumes split: "splits_number m res" and norm: "normalized ls"
  shows "digits_compare ls res = (if big_val ls * number_one < m then -1 else if big_val ls * number_one = m then 0 else 1)"
proof -
  obtain r ds where res: "res = (r, ds)" by fastforce
  obtain k z where d: "ECMA_BIGINT_NUMBER_TO_DIGITS_GET_DIGITS_SIZE r = 4 * k" "ECMA_BIGINT_NUMBER_TO_DIGITS_GET_ZERO_SIZE r = 4 * z"
    "k \<le> 3" "z \<le> 31" "length (take k ds) = k" "big_val (take k ds) * base ^ z = m div number_one"
    "k = 0 \<longrightarrow> z = 0" "k \<noteq> 0 \<longrightarrow> normalized (take k ds)"
    "r AND ECMA_BIGINT_NUMBER_TO_DIGITS_HAS_FRACTION \<noteq> 0 \<longleftrightarrow> m mod number_one \<noteq> 0"
    using split unfolding res by (rule splits_numberE)
  let ?n = "big_val ls" and ?N = "big_val (take k ds) * base ^ z"
  note cmp = scaled_compare [OF d(6)]
  show ?thesis
  proof (cases "k = 0")
    case True
    then have "?N = 0" by simp
    with normalized_pos [OF norm] cmp(1) [of ?n] True d show ?thesis by (simp add: res digits_compare_def)
  next
    case False
    have R: "normalized (replicate z 0 @ take k ds)" "big_val (replicate z 0 @ take k ds) = ?N" "length (replicate z 0 @ take k ds) = z + k"
      using normalized_zeros [OF d(8) [rule_format, OF False]] d(5) by (simp_all add: big_val_zeros)
    have size: "4 * k + 4 * z = 4 * (z + k)" by simp
    consider (longer) "z + k < length ls" | (shorter) "length ls < z + k" | (same) "length ls = z + k" by linarith
    then show ?thesis
    proof cases
      case longer
      then have "?N < ?n" using longer_greater [OF norm, of "replicate z 0 @ take k ds"] R by simp
      with cmp(1) [of ?n] longer False show ?thesis by (auto simp: res digits_compare_def d size)
    next
      case shorter
      then have "?n < ?N" using longer_greater [OF R(1), of ls] R by simp
      with cmp(2) [of ?n] shorter False show ?thesis by (auto simp: res digits_compare_def d size)
    next
      case same
      then have len: "length ls = z + length (take k ds)" using d(5) by simp
      note p = compare_parts [OF len]
      let ?c = "compare_loop (rev (drop z ls)) (rev (take k ds))"
      have eq: "digits_compare ls res = (if ?c \<noteq> 0 then (if ?c > 0 then 1 else - 1) else if 0 < big_val (take z ls) then 1
          else if m mod number_one \<noteq> 0 then - 1 else 0)"
        using same False by (simp add: res digits_compare_def d size list_ex_nonzero)
      consider "?c > 0" | "?c < 0" | (tie) "?c = 0" by linarith
      then show ?thesis
      proof cases
        case 1
        with p(1) cmp(1) [of ?n] show ?thesis unfolding eq by simp
      next
        case 2
        with p(2) cmp(2) [of ?n] show ?thesis unfolding eq by simp
      next
        case tie
        show ?thesis
        proof (cases "0 < big_val (take z ls)")
          case True
          with tie p(3) cmp(1) [of ?n] show ?thesis unfolding eq by simp
        next
          case False
          then have "?n = ?N" using tie p(3) by simp
          moreover have "m mod number_one \<le> m" by (rule mod_less_eq_dividend)
          ultimately show ?thesis unfolding eq using tie False cmp(3,4) [of ?n] by auto
        qed
      qed
    qed
  qed
qed

lemma zero_value: "number_value b = 0 \<longleftrightarrow> ecma_number_is_zero b"
  by (simp add: number_value_def number_mag_eq_0 [symmetric])

lemma number_order:
  assumes "\<not> ecma_number_is_nan b"
  shows "number_greater_zero b \<longleftrightarrow> 0 < number_value b" "number_less_zero b \<longleftrightarrow> number_value b < 0"
  using assms number_mag_eq_0 [of b] by (auto simp: number_greater_zero_def number_less_zero_def number_value_def)

lemma finite_exp: "\<not> ecma_number_is_nan b \<Longrightarrow> \<not> ecma_number_is_infinity b \<Longrightarrow> number_exp b < 2047"
  using number_exp_less [of b] by (auto simp: number_is_nan_iff number_is_infinity_iff)

lemma infinity_sign: "ecma_number_is_infinity b \<Longrightarrow> \<not> ecma_number_is_zero b \<and> (0 < number_value b \<longleftrightarrow> \<not> ecma_number_sign b)"
  using number_mag_eq_0 [of b] by (auto simp: number_is_infinity_iff number_is_zero_iff number_value_def)

text \<open>The order of integers and numbers.\<close>

definition int_number_order :: "int \<Rightarrow> u64 \<Rightarrow> int" where
  "int_number_order z b =
    (if ecma_number_is_infinity b then (if ecma_number_sign b then 1 else -1)
     else (let v = z * int number_one in if v < number_value b then -1 else if v = number_value b then 0 else 1))"

lemma compare_to_number_correct:
  assumes v: "bigint (store c) v z" and nan: "\<not> ecma_number_is_nan b"
  shows "ecma_bigint_compare_to_number c v b = int_number_order z b"
proof (cases v)
  case ECMA_BIGINT_ZERO
  with v show ?thesis using infinity_sign [of b]
    by (auto simp: ecma_bigint_compare_to_number_def int_number_order_def Let_def number_order [OF nan] ECMA_BIGINT_TO_SIGN_def
        zero_value [symmetric])
next
  case (BigInt p)
  from v [unfolded BigInt] obtain w where w: "obj c p = w" "odd (bigint_sign_and_size w) \<longleftrightarrow> z < 0" "z \<noteq> 0"
    "ECMA_BIGINT_GET_SIZE w = 4 * length (digits w)" "big_val (digits w) = nat \<bar>z\<bar>" "normalized (digits w)" by (rule bigint_obj)
  let ?s = "if z < 0 then -1 else 1 :: int"
  have sign: "ECMA_BIGINT_TO_SIGN (sign_of (obj c p)) = ?s" by (simp add: sign_of_iff w ECMA_BIGINT_TO_SIGN_def)
  have code: "ecma_bigint_compare_to_number c v b =
      (if number_value b = 0 \<or> ?s = (if 0 < number_value b then -1 else 1) then ?s
       else if ecma_number_is_infinity b then (if 0 < number_value b then -1 else 1)
       else ?s * digits_compare (digits w) (ecma_bigint_number_to_digits b))"
    unfolding ecma_bigint_compare_to_number_def BigInt bigint_value.case sign Let_def number_order [OF nan] zero_value [symmetric]
    by (simp add: w digits_compare_def Let_def ECMA_BIGINT_TO_SIGN_def split: prod.split)
  let ?v = "z * int number_one"
  have one: "0 < int number_one" using number_one_pos by simp
  have vs: "?v < 0 \<longleftrightarrow> z < 0" "?v \<noteq> 0" "0 < ?v \<longleftrightarrow> \<not> z < 0" using one w(3) by (auto simp: mult_less_0_iff zero_less_mult_iff)
  show ?thesis
  proof (cases "number_value b = 0 \<or> ?s = (if 0 < number_value b then -1 else 1)")
    case True
    then have "int_number_order z b = ?s"
      using vs infinity_sign [of b] zero_value [of b] by (auto simp: int_number_order_def Let_def split: if_splits)
    with True show ?thesis by (simp only: code if_True)
  next
    case False
    then have sgn: "ecma_number_sign b \<longleftrightarrow> z < 0" using vs by (auto simp: number_value_def split: if_splits)
    show ?thesis
    proof (cases "ecma_number_is_infinity b")
      case True
      with False infinity_sign [OF True] show ?thesis unfolding code by (simp add: int_number_order_def)
    next
      case fin: False
      define a m where "a = int (nat \<bar>z\<bar> * number_one)" and "m = int (number_mag b)"
      have dc: "digits_compare (digits w) (ecma_bigint_number_to_digits b) = (if a < m then -1 else if a = m then 0 else 1)"
        using digits_compare_spec [OF number_to_digits_spec [OF finite_exp [OF nan fin]] w(6)] w(5)
        by (simp only: a_def m_def of_nat_less_iff of_nat_eq_iff)
      have "a = \<bar>?v\<bar>" using one by (simp add: abs_mult a_def)
      then have "?v = ?s * a" using vs(1,3) by (cases "z < 0") (simp_all add: abs_if)
      moreover have "number_value b = ?s * m" using sgn by (simp add: number_value_def m_def)
      ultimately show ?thesis unfolding code dc int_number_order_def Let_def using False fin by (cases "z < 0") simp_all
    qed
  qed
qed


section \<open>Equality\<close>

lemma list_all_zero: "list_all (\<lambda>d. d = 0) ds \<longleftrightarrow> big_val ds = 0"
  using big_val_eq_0_iff [of ds] by (auto simp: list_all_iff)

lemma digits_equal_spec:
  assumes split: "splits_number m (r, ds)" and norm: "normalized ls"
  shows "(r AND ECMA_BIGINT_NUMBER_TO_DIGITS_HAS_FRACTION = 0 \<and>
      4 * length ls = ECMA_BIGINT_NUMBER_TO_DIGITS_GET_DIGITS_SIZE r + ECMA_BIGINT_NUMBER_TO_DIGITS_GET_ZERO_SIZE r \<and>
      take (ECMA_BIGINT_NUMBER_TO_DIGITS_GET_DIGITS_SIZE r div 4) (drop (ECMA_BIGINT_NUMBER_TO_DIGITS_GET_ZERO_SIZE r div 4) ls) =
        take (ECMA_BIGINT_NUMBER_TO_DIGITS_GET_DIGITS_SIZE r div 4) ds \<and>
      list_all (\<lambda>d. d = 0) (take (ECMA_BIGINT_NUMBER_TO_DIGITS_GET_ZERO_SIZE r div 4) ls)) \<longleftrightarrow>
    big_val ls * number_one = m"
proof -
  obtain k z where d: "ECMA_BIGINT_NUMBER_TO_DIGITS_GET_DIGITS_SIZE r = 4 * k" "ECMA_BIGINT_NUMBER_TO_DIGITS_GET_ZERO_SIZE r = 4 * z"
    "k \<le> 3" "z \<le> 31" "length (take k ds) = k" "big_val (take k ds) * base ^ z = m div number_one"
    "k = 0 \<longrightarrow> z = 0" "k \<noteq> 0 \<longrightarrow> normalized (take k ds)"
    "r AND ECMA_BIGINT_NUMBER_TO_DIGITS_HAS_FRACTION \<noteq> 0 \<longleftrightarrow> m mod number_one \<noteq> 0"
    using split by (rule splits_numberE)
  let ?R = "replicate z 0 @ take k ds"
  have len: "length ?R = z + k" using d(5) by simp
  have zeros: "list_all (\<lambda>d. d = 0) xs \<longleftrightarrow> xs = replicate (length xs) 0" for xs :: "digit list"
    by (induction xs) auto
  have parts: "(length ls = z + k \<and> take k (drop z ls) = take k ds \<and> list_all (\<lambda>d. d = 0) (take z ls)) \<longleftrightarrow> ls = ?R"
  proof
    assume a: "length ls = z + k \<and> take k (drop z ls) = take k ds \<and> list_all (\<lambda>d. d = 0) (take z ls)"
    then have "take k (drop z ls) = drop z ls" by (intro take_all) simp
    then have "drop z ls = take k ds" "take z ls = replicate z 0" using a zeros [of "take z ls"] by simp_all
    then show "ls = ?R" using append_take_drop_id [of z ls] by metis
  next
    assume "ls = ?R"
    then show "length ls = z + k \<and> take k (drop z ls) = take k ds \<and> list_all (\<lambda>d. d = 0) (take z ls)"
      using len by (simp add: list_all_iff)
  qed
  have "ls = ?R \<longleftrightarrow> big_val ls = m div number_one"
  proof (cases "k = 0")
    case True
    with d(6,7) normalized_pos [OF norm] norm show ?thesis by (auto simp: normalized_def)
  next
    case False
    then show ?thesis using big_val_inj [OF norm normalized_zeros [OF d(8) [rule_format, OF False], of z]] d(6) by (auto simp: big_val_zeros)
  qed
  moreover have "big_val ls * number_one = m \<longleftrightarrow> big_val ls = m div number_one \<and> m mod number_one = 0"
    using number_one_pos div_mult_mod_eq [of m number_one] by auto
  moreover have "4 * length ls = 4 * k + 4 * z \<longleftrightarrow> length ls = z + k" by auto
  ultimately show ?thesis using parts d(9) by (simp only: d(1,2)) auto
qed

lemma is_equal_to_number_correct:
  assumes v: "bigint (store c) v z"
  shows "ecma_bigint_is_equal_to_number c v b \<longleftrightarrow>
    \<not> ecma_number_is_nan b \<and> \<not> ecma_number_is_infinity b \<and> z * int number_one = number_value b"
proof (cases "ecma_number_is_nan b \<or> ecma_number_is_infinity b")
  case True
  then show ?thesis by (auto simp: ecma_bigint_is_equal_to_number_def)
next
  case False
  then have fin: "\<not> ecma_number_is_nan b" "\<not> ecma_number_is_infinity b" by simp_all
  show ?thesis
  proof (cases v)
    case ECMA_BIGINT_ZERO
    with v fin zero_value [of b] show ?thesis by (auto simp: ecma_bigint_is_equal_to_number_def)
  next
    case (BigInt p)
    from v [unfolded BigInt] obtain w where w: "obj c p = w" "odd (bigint_sign_and_size w) \<longleftrightarrow> z < 0" "z \<noteq> 0"
      "ECMA_BIGINT_GET_SIZE w = 4 * length (digits w)" "big_val (digits w) = nat \<bar>z\<bar>" "normalized (digits w)" by (rule bigint_obj)
    obtain r ds where res: "ecma_bigint_number_to_digits b = (r, ds)" by fastforce
    have one: "0 < int number_one" using number_one_pos by simp
    let ?v = "z * int number_one"
    have vs: "?v < 0 \<longleftrightarrow> z < 0" "0 < ?v \<longleftrightarrow> \<not> z < 0" using one w(3) by (auto simp: mult_less_0_iff zero_less_mult_iff)
    let ?less = "if z < 0 then 0 < number_value b else number_value b < 0"
    have "ecma_bigint_is_equal_to_number c v b \<longleftrightarrow> \<not> ?less \<and> (r AND ECMA_BIGINT_NUMBER_TO_DIGITS_HAS_FRACTION = 0 \<and>
      4 * length (digits w) = ECMA_BIGINT_NUMBER_TO_DIGITS_GET_DIGITS_SIZE r + ECMA_BIGINT_NUMBER_TO_DIGITS_GET_ZERO_SIZE r \<and>
      take (ECMA_BIGINT_NUMBER_TO_DIGITS_GET_DIGITS_SIZE r div 4) (drop (ECMA_BIGINT_NUMBER_TO_DIGITS_GET_ZERO_SIZE r div 4) (digits w)) =
        take (ECMA_BIGINT_NUMBER_TO_DIGITS_GET_DIGITS_SIZE r div 4) ds \<and>
      list_all (\<lambda>d. d = 0) (take (ECMA_BIGINT_NUMBER_TO_DIGITS_GET_ZERO_SIZE r div 4) (digits w)))"
      using fin by (simp add: ecma_bigint_is_equal_to_number_def BigInt w(1,2,4) sign_of_iff number_order res Let_def)
    also have "\<dots> \<longleftrightarrow> \<not> ?less \<and> nat \<bar>z\<bar> * number_one = number_mag b"
      unfolding digits_equal_spec [OF number_to_digits_spec [OF finite_exp [OF fin], unfolded res] w(6)] w(5) ..
    finally have eq: "ecma_bigint_is_equal_to_number c v b \<longleftrightarrow> \<not> ?less \<and> nat \<bar>z\<bar> * number_one = number_mag b" .
    have abs: "int (nat \<bar>z\<bar> * number_one) = \<bar>?v\<bar>" using one by (simp add: abs_mult)
    have "nat \<bar>z\<bar> * number_one = number_mag b \<longleftrightarrow> \<bar>?v\<bar> = \<bar>number_value b\<bar>"
    proof -
      have "\<bar>number_value b\<bar> = int (number_mag b)" by (simp add: number_value_def)
      then show ?thesis by (simp only: abs [symmetric] of_nat_eq_iff)
    qed
    then show ?thesis using eq fin vs by (cases "z < 0") (auto simp: abs_if)
  qed
qed


section \<open>Numbers to BigInts\<close>

lemma set_sign_0: "store c p \<noteq> None \<Longrightarrow> set_sign c p 0 = c"
  by (auto simp: set_sign_def set_obj_def obj_def)

context failing_heap
begin

lemma number_to_bigint_returns:
  assumes inv: "ctx_inv holds X c"
  shows "returns holds failed X (store c)
    (if ecma_number_is_nan b \<or> ecma_number_is_infinity b then Inl ECMA_ERR_INFINITY_OR_NAN_CANNOT_BE_CONVERTED_TO_BIGINT
     else if number_mag b mod number_one \<noteq> 0 then Inl ECMA_ERR_ONLY_INTEGER_NUMBERS_CAN_BE_CONVERTED_TO_BIGINT
     else Inr (number_value b div int number_one))
    (Some (ecma_bigint_number_to_bigint A c b))"
proof (cases "ecma_number_is_nan b \<or> ecma_number_is_infinity b")
  case True
  then show ?thesis using inv by (simp add: ecma_bigint_number_to_bigint_def returns_error)
next
  case False
  then have fin: "\<not> ecma_number_is_nan b" "\<not> ecma_number_is_infinity b" by simp_all
  obtain r ds where res: "ecma_bigint_number_to_digits b = (r, ds)" by fastforce
  obtain k z where d: "ECMA_BIGINT_NUMBER_TO_DIGITS_GET_DIGITS_SIZE r = 4 * k" "ECMA_BIGINT_NUMBER_TO_DIGITS_GET_ZERO_SIZE r = 4 * z"
    "k \<le> 3" "z \<le> 31" "length (take k ds) = k" "big_val (take k ds) * base ^ z = number_mag b div number_one"
    "k = 0 \<longrightarrow> z = 0" "k \<noteq> 0 \<longrightarrow> normalized (take k ds)"
    "r AND ECMA_BIGINT_NUMBER_TO_DIGITS_HAS_FRACTION \<noteq> 0 \<longleftrightarrow> number_mag b mod number_one \<noteq> 0"
    using number_to_digits_spec [OF finite_exp [OF fin]] unfolding res by (rule splits_numberE)
  show ?thesis
  proof (cases "number_mag b mod number_one = 0")
    case frac: False
    then show ?thesis using False inv d(9) by (simp add: ecma_bigint_number_to_bigint_def res returns_error)
  next
    case int: True
    let ?n = "number_mag b div number_one"
    have m: "number_mag b = ?n * number_one" using int div_mult_mod_eq [of "number_mag b" number_one] by simp
    have v: "number_value b div int number_one = (if ecma_number_sign b then - int ?n else int ?n)"
      unfolding number_value_def using number_one_pos nonzero_mult_div_cancel_right [of "int number_one" "- int ?n"] by (subst (1 2) m) simp
    show ?thesis
    proof (cases "k = 0")
      case True
      then have "?n = 0" using d(6) by simp
      with True int False inv d show ?thesis
        by (simp add: ecma_bigint_number_to_bigint_def res v returns_zero del: div_eq_0_iff)
    next
      case pos: False
      let ?ds = "replicate z 0 @ take k ds"
      have norm: "normalized ?ds" "big_val ?ds = ?n" "length ?ds = k + z"
        using normalized_zeros [OF d(8) [rule_format, OF pos]] d(5,6) by (simp_all add: big_val_zeros)
      have n: "0 < ?n" using normalized_pos [OF norm(1)] norm(2) by simp
      have y: "yields holds failed X (store c) ?n
          (case ecma_bigint_create A c (4 * (k + z)) of (c1, Ptr p) \<Rightarrow> (set_digits c1 p ?ds, Ptr p) | (c1, _) \<Rightarrow> (c1, NULL))"
      proof (rule create_yields [OF inv])
        fix c1 p ds1
        assume own: "owns holds X (store c) c1 p ds1" "length ds1 = k + z" "ds1 \<noteq> []" "length ds1 \<le> 16384"
        show "yields holds failed X (store c) ?n (set_digits c1 p ?ds, Ptr p)"
          using own norm normalized_ge [OF norm(1)] by (intro store_yields [OF own(1)]) (simp_all add: add.commute)
      qed (use pos d(3,4) in auto)
      let ?z = "number_value b div int number_one"
      have "ecma_number_sign b \<longleftrightarrow> ?z < 0" "nat \<bar>?z\<bar> = ?n" "?z \<noteq> 0" using n unfolding v by auto
      with make_value_returns [OF y, of ?z "of_bool (?z < 0)"]
      have ret: "returns holds failed X (store c) (Inr ?z) (make_value
          (case ecma_bigint_create A c (4 * (k + z)) of (c1, Ptr p) \<Rightarrow> (set_digits c1 p ?ds, Ptr p) | (c1, _) \<Rightarrow> (c1, NULL))
          (of_bool (ecma_number_sign b)))" by simp
      have "number_less_zero b \<longleftrightarrow> ecma_number_sign b" using n fin number_mag_eq_0 [of b] by (auto simp: number_less_zero_def)
      then have "Some (ecma_bigint_number_to_bigint A c b) = make_value
          (case ecma_bigint_create A c (4 * (k + z)) of (c1, Ptr p) \<Rightarrow> (set_digits c1 p ?ds, Ptr p) | (c1, _) \<Rightarrow> (c1, NULL))
          (of_bool (ecma_number_sign b))"
        using False int d pos
        by (simp add: ecma_bigint_number_to_bigint_def res make_value_def set_sign_0 distrib_left Let_def split: prod.split bigptr.split)
      with ret False int show ?thesis by simp
    qed
  qed
qed

end

section \<open>Theorems\<close>

text \<open>
  (C26) Comparing a BigInt with a double is exact: the result is the order of the two numbers, with no rounding, for every finite double and
  for the infinities; the test for equality holds for exactly the double that has the value of the BigInt, if there is one, and never for NaN.
\<close>

theorem bigint_number_compare:
  assumes "bigint (store c) v z"
  shows "(\<not> ecma_number_is_nan b \<longrightarrow> ecma_bigint_compare_to_number c v b = int_number_order z b) \<and>
    (ecma_bigint_is_equal_to_number c v b \<longleftrightarrow>
      \<not> ecma_number_is_nan b \<and> \<not> ecma_number_is_infinity b \<and> z * int number_one = number_value b)"
  using compare_to_number_correct [OF assms] is_equal_to_number_correct [OF assms] by blast

theorem bigint_number_compare_witness:
  "ecma_bigint_compare_to_number (signed_example False [0, 1] False [1]) (BigInt 0) 0x41F0000000080000 = -1 \<and>
   ecma_bigint_is_equal_to_number (signed_example False [0, 1] False [1]) (BigInt 0) 0x41F0000000000000"
proof -
  have v: "bigint (store (signed_example False [0, 1] False [1])) (BigInt 0) 4294967296"
    using signed_example_operand(1) [of "[0, 1]" False False "[1]"] by (simp add: operand_def normalized_def)
  have n: "\<not> ecma_number_is_nan 0x41F0000000080000" "\<not> ecma_number_is_infinity 0x41F0000000080000"
      "\<not> ecma_number_is_nan 0x41F0000000000000" "\<not> ecma_number_is_infinity 0x41F0000000000000"
    by (simp_all add: number_is_nan_iff number_is_infinity_iff number_exp_def number_frac_def)
  have m: "number_value 0x41F0000000080000 = 4503599627894784 * 2 ^ 1054" "number_value 0x41F0000000000000 = 4503599627370496 * 2 ^ 1054"
    by (simp_all add: number_value_def number_mag_def number_exp_def number_frac_def number_sign_iff)
  have one: "int number_one = 1048576 * 2 ^ 1054" unfolding number_one_def using power_add [of "2 :: int" 20 1054] by (simp)
  have "int_number_order 4294967296 0x41F0000000080000 = -1" "4294967296 * int number_one = number_value 0x41F0000000000000"
    by (simp_all add: int_number_order_def n m one)
  with bigint_number_compare [OF v] n show ?thesis by simp
qed

text \<open>
  (C27) A double is converted to a BigInt exactly when it is an integer: its value as a new BigInt (or zero), a range error for
  infinities, NaN and numbers with a fraction, a memory error only when memory ran out.
\<close>

theorem number_to_bigint_exact:
  assumes "failing_heap A holds failed" "ctx_inv holds X c"
  shows "returns holds failed X (store c)
    (if ecma_number_is_nan b \<or> ecma_number_is_infinity b then Inl ECMA_ERR_INFINITY_OR_NAN_CANNOT_BE_CONVERTED_TO_BIGINT
     else if \<not> int number_one dvd number_value b then Inl ECMA_ERR_ONLY_INTEGER_NUMBERS_CAN_BE_CONVERTED_TO_BIGINT
     else Inr (number_value b div int number_one))
    (Some (ecma_bigint_number_to_bigint A c b))"
proof -
  have d: "int number_one dvd number_value b \<longleftrightarrow> number_mag b mod number_one = 0"
    by (simp add: number_value_def mod_eq_0_iff_dvd)
  show ?thesis unfolding d by (rule failing_heap.number_to_bigint_returns [OF assms])
qed

theorem number_to_bigint_exact_witness:
  "returns bump_holds (\<lambda>_. False) Map.empty (store (example [1] [1])) (Inr (- 1099511627776))
    (Some (ecma_bigint_number_to_bigint bump (example [1] [1]) 0xC270000000000000))"
proof -
  have n: "\<not> ecma_number_is_nan 0xC270000000000000" "\<not> ecma_number_is_infinity 0xC270000000000000"
    by (simp_all add: number_is_nan_iff number_is_infinity_iff number_exp_def number_frac_def)
  have "number_value 0xC270000000000000 = - 4503599627370496 * 2 ^ 1062"
    by (simp add: number_value_def number_mag_def number_exp_def number_frac_def number_sign_iff)
  also have "\<dots> = (- 1099511627776) * int number_one"
    unfolding number_one_def using power_add [of "2 :: int" 12 1062] by (simp)
  finally have v: "number_value 0xC270000000000000 = (- 1099511627776) * int number_one" .
  have "number_value 0xC270000000000000 div int number_one = - 1099511627776" "int number_one dvd number_value 0xC270000000000000"
    unfolding v using number_one_pos by (simp_all only: nonzero_mult_div_cancel_right dvd_triv_right)
  with number_to_bigint_exact [OF bump_heap example_inv, of "[1]" "[1]" "0xC270000000000000"] n show ?thesis by simp
qed

end
