(* ===== verification/Bigint_To_Number.thy ===== *)
theory Bigint_To_Number
  imports Bigint_Number
begin

text \<open>
  The conversion of a BigInt to a double, \<open>ecma_bigint_to_number\<close> of \<open>src/jjs-core/ecma/operations/ecma-bigint.c\<close>, against
  rounding to the nearest double with ties to even. The digits are taken from the most significant one down.
\<close>

section \<open>The conversion\<close>

abbreviation (input) ECMA_INTEGER_NUMBER_MAX :: nat where "ECMA_INTEGER_NUMBER_MAX \<equiv> 0x7FFFFFF"
abbreviation (input) ECMA_INTEGER_NUMBER_MIN :: int where "ECMA_INTEGER_NUMBER_MIN \<equiv> - 0x8000000"

text \<open>The 64 bits that follow the highest bit of the number, and the number of bits by which they are shifted.\<close>

definition leading_fraction :: "digit list \<Rightarrow> u64 \<times> u32" where
  "leading_fraction digits_p =
    (if digits_p ! 0 = 1 then
       (let fraction = push_bit (8 * 4) (ucast (digits_p ! 1));
            fraction = (if length digits_p \<ge> 3 then fraction OR ucast (digits_p ! 2) else fraction)
        in (fraction, 8 * 4))
     else
       (let shift_left = ecma_big_uint_count_leading_zero (digits_p ! 0) + 1;
            fraction = push_bit (8 * 4 + unat shift_left) (ucast (digits_p ! 0));
            fraction = (if length digits_p \<ge> 2 then fraction OR push_bit (unat shift_left) (ucast (digits_p ! 1)) else fraction);
            fraction = (if length digits_p \<ge> 3 then fraction OR drop_bit (8 * 4 - unat shift_left) (ucast (digits_p ! 2)) else fraction)
        in (fraction, shift_left)))"

definition rounding_bit :: u64 where
  "rounding_bit = push_bit (8 * 8 - 52 - 1) 1"

definition to_number_round_up :: "u64 \<Rightarrow> u32 \<Rightarrow> digit list \<Rightarrow> bool" where
  "to_number_round_up fraction shift_left digits_p =
    (if fraction AND rounding_bit \<noteq> 0 then
       (if fraction AND (push_bit 2 rounding_bit - 1) = rounding_bit then
          (if length digits_p \<ge> 3 \<and> (shift_left = 8 * 4 \<or> digits_p ! 2 AND (push_bit (unat shift_left) 1 - 1) = 0)
           then list_ex (\<lambda>d. d \<noteq> 0) (drop 3 digits_p)
           else False)
        else True)
     else False)"

text \<open>The result is a small integer or a double.\<close>

definition ecma_bigint_to_number :: "'h ecma_context \<Rightarrow> bigint_value \<Rightarrow> int + u64" where
  "ecma_bigint_to_number c v =
    (case v of
       ECMA_BIGINT_ZERO \<Rightarrow> Inl 0
     | BigInt value_p \<Rightarrow>
        (let size = ECMA_BIGINT_GET_SIZE (obj c value_p);
             digits_p = rev (take (size div 4) (digits (obj c value_p)));
             sign = sign_of (obj c value_p) \<noteq> 0
         in if size = 4 \<and> \<not> sign \<and> unat (digits_p ! 0) \<le> ECMA_INTEGER_NUMBER_MAX then Inl (int (unat (digits_p ! 0)))
            else if size = 4 \<and> sign \<and> int (unat (digits_p ! 0)) \<le> - ECMA_INTEGER_NUMBER_MIN then Inl (- int (unat (digits_p ! 0)))
            else
             (let (fraction, shift_left) = leading_fraction digits_p;
                  biased_exp = (push_bit 10 1 - 1) + (of_nat size * 8 - shift_left);
                  round_up = to_number_round_up fraction shift_left digits_p;
                  fraction = drop_bit (8 * 8 - 52) (if round_up then fraction + rounding_bit else fraction);
                  biased_exp = (if round_up \<and> fraction = 0 then biased_exp + 1 else biased_exp)
              in Inr (if biased_exp < push_bit 11 1 - 1 then ecma_number_create sign biased_exp fraction
                      else ecma_number_make_infinity sign))))"

section \<open>Rounding to a double\<close>

fun bit_length :: "nat \<Rightarrow> nat" where
  "bit_length n = (if n = 0 then 0 else Suc (bit_length (n div 2)))"

text \<open>The multiple of the last place that is nearest to \<open>n\<close>, the even one of two.\<close>

definition round_even :: "nat \<Rightarrow> nat" where
  "round_even n =
    (let u = 2 ^ (bit_length n - 53); q = n div u; r = n mod u
     in (if 2 * r > u \<or> (2 * r = u \<and> odd q) then q + 1 else q) * u)"

text \<open>
  The 65 highest bits of \<open>n\<close> (filled with zeros) and whether bits below them are set; the numbers on which the code goes wrong are exactly in the middle
  as far as the 65 bits tell, with an even last place, and have further bits below.
\<close>

definition head_bits :: "nat \<Rightarrow> nat" where
  "head_bits n = n * 2 ^ 65 div 2 ^ bit_length n"

definition tail_bits :: "nat \<Rightarrow> nat" where
  "tail_bits n = n * 2 ^ 65 mod 2 ^ bit_length n"

definition hidden_tie :: "nat \<Rightarrow> bool" where
  "hidden_tie n \<longleftrightarrow> head_bits n mod 2 ^ 13 = 2 ^ 11 \<and> tail_bits n \<noteq> 0"

declare bit_length.simps [simp del]

lemma bit_length_bounds:
  assumes "0 < n"
  shows "2 ^ (bit_length n - 1) \<le> n" "n < 2 ^ bit_length n" "0 < bit_length n"
proof -
  have "2 ^ (bit_length n - 1) \<le> n \<and> n < 2 ^ bit_length n \<and> 0 < bit_length n" using assms
  proof (induction n rule: bit_length.induct)
    case (1 n)
    show ?case
    proof (cases "n = 1")
      case True
      then show ?thesis by (simp add: bit_length.simps)
    next
      case False
      with 1 have ih: "2 ^ (bit_length (n div 2) - 1) \<le> n div 2" "n div 2 < 2 ^ bit_length (n div 2)" "0 < bit_length (n div 2)" by auto
      then have "2 * 2 ^ (bit_length (n div 2) - 1) \<le> n" by simp
      moreover have "2 * 2 ^ (bit_length (n div 2) - 1) = (2::nat) ^ bit_length (n div 2)" using ih(3) by (cases "bit_length (n div 2)") simp_all
      ultimately show ?thesis using ih(2) 1(2) by (simp add: bit_length.simps [of n])
    qed
  qed
  then show "2 ^ (bit_length n - 1) \<le> n" "n < 2 ^ bit_length n" "0 < bit_length n" by auto
qed

lemma bit_length_unique:
  assumes "2 ^ (m - 1) \<le> n" "n < 2 ^ m" "0 < m"
  shows "bit_length n = m"
proof -
  have n: "0 < n" by (rule less_le_trans [OF _ assms(1)]) simp
  note b = bit_length_bounds [OF n]
  have "m - 1 < bit_length n" using le_less_trans [OF assms(1) b(2)] by (simp add: power_less_imp_less_exp)
  moreover have "bit_length n - 1 < m" using le_less_trans [OF b(1) assms(2)] by (simp add: power_less_imp_less_exp)
  ultimately show ?thesis using b(3) assms(3) by linarith
qed

text \<open>The head has 65 bits.\<close>

lemma head_bits_bounds:
  assumes "0 < n"
  shows "2 ^ 64 \<le> head_bits n" "head_bits n < 2 ^ 65"
proof -
  note b = bit_length_bounds [OF assms]
  have "(2::nat) ^ bit_length n * 2 ^ 64 = 2 ^ (bit_length n - 1) * 2 ^ 65"
    using b(3) by (cases "bit_length n") simp_all
  also have "\<dots> \<le> n * 2 ^ 65" using b(1) by (intro mult_le_mono1)
  finally show "2 ^ 64 \<le> head_bits n" unfolding head_bits_def by (simp add: less_eq_div_iff_mult_less_eq mult.commute)
  have "n * 2 ^ 65 < 2 ^ 65 * 2 ^ bit_length n" using b(2) by simp
  then show "head_bits n < 2 ^ 65" unfolding head_bits_def by (rule less_mult_imp_div_less)
qed


lemma mult_plus_compare:
  fixes a b k t :: nat
  assumes "t < b"
  shows "k * b < a * b + t \<longleftrightarrow> k < a \<or> (a = k \<and> 0 < t)" "a * b + t = k * b \<longleftrightarrow> a = k \<and> t = 0"
proof -
  have less: "x * b + b \<le> y * b" if "x < y" for x y using mult_le_mono1 [of "x + 1" y b] that by simp
  show "k * b < a * b + t \<longleftrightarrow> k < a \<or> (a = k \<and> 0 < t)"
    using less [of a k] less [of k a] assms by (cases a k rule: linorder_cases) auto
  show "a * b + t = k * b \<longleftrightarrow> a = k \<and> t = 0"
    using less [of a k] less [of k a] assms by (cases a k rule: linorder_cases) auto
qed

lemma mult_less_cancel1_pos: "0 < k \<Longrightarrow> k * x < k * y \<longleftrightarrow> x < y" for k x y :: nat
  by simp

lemma mult_cancel1_pos: "0 < k \<Longrightarrow> k * x = k * y \<longleftrightarrow> x = y" for k x y :: nat
  by simp

text \<open>The bits below the last place, and those below the head.\<close>

lemma head_bits_round:
  assumes "53 < bit_length n"
  defines "u \<equiv> 2 ^ (bit_length n - 53)"
  shows "head_bits n div 2 ^ 12 = n div u" "n mod u * 2 ^ 65 = head_bits n mod 2 ^ 12 * 2 ^ bit_length n + tail_bits n"
    "u * 2 ^ 65 = 2 ^ 12 * 2 ^ bit_length n"
proof -
  let ?L = "bit_length n"
  show u: "u * 2 ^ 65 = 2 ^ 12 * 2 ^ ?L"
    using assms(1) power_add [of "2::nat" "?L - 53" 65] power_add [of "2::nat" 12 ?L] by (simp add: u_def)
  have "0 < u" by (simp add: u_def)
  then have "n mod u * 2 ^ 65 < u * 2 ^ 65" by simp
  then have less: "n mod u * 2 ^ 65 < 2 ^ 12 * 2 ^ ?L" unfolding u .
  have "n * 2 ^ 65 = (n div u * u + n mod u) * 2 ^ 65" by simp
  also have "\<dots> = n div u * 2 ^ 12 * 2 ^ ?L + n mod u * 2 ^ 65" using u by (simp only: distrib_right mult.assoc)
  finally have n: "n * 2 ^ 65 = n mod u * 2 ^ 65 + n div u * 2 ^ 12 * 2 ^ ?L" by (simp only: add.commute)
  have P: "head_bits n = n div u * 2 ^ 12 + n mod u * 2 ^ 65 div 2 ^ ?L" and T: "tail_bits n = n mod u * 2 ^ 65 mod 2 ^ ?L"
    unfolding head_bits_def tail_bits_def n by simp_all
  have R: "n mod u * 2 ^ 65 div 2 ^ ?L < 2 ^ 12" using less by (rule less_mult_imp_div_less)
  show "head_bits n div 2 ^ 12 = n div u" unfolding P using R by simp
  have "head_bits n mod 2 ^ 12 = n mod u * 2 ^ 65 div 2 ^ ?L" unfolding P using R by simp
  then show "n mod u * 2 ^ 65 = head_bits n mod 2 ^ 12 * 2 ^ ?L + tail_bits n" unfolding T by (simp only: div_mult_mod_eq)
qed

lemma head_bits_short:
  assumes "bit_length n \<le> 53"
  shows "head_bits n = n * 2 ^ (53 - bit_length n) * 2 ^ 12" "tail_bits n = 0"
proof -
  have "(2::nat) ^ 65 = 2 ^ (53 - bit_length n) * 2 ^ 12 * 2 ^ bit_length n"
    using assms power_add [of "2::nat" "53 - bit_length n" "12 + bit_length n"] by (simp add: power_add)
  then have "n * 2 ^ 65 = n * 2 ^ (53 - bit_length n) * 2 ^ 12 * 2 ^ bit_length n" by (simp only: mult.assoc)
  then show "head_bits n = n * 2 ^ (53 - bit_length n) * 2 ^ 12" "tail_bits n = 0"
    unfolding head_bits_def tail_bits_def by (simp_all only: nonzero_mult_div_cancel_right mod_mult_self2_is_0) simp
qed

definition head_rounds_up :: "nat \<Rightarrow> bool" where
  "head_rounds_up n \<longleftrightarrow> head_bits n mod 2 ^ 12 > 2 ^ 11 \<or>
    (head_bits n mod 2 ^ 12 = 2 ^ 11 \<and> (tail_bits n \<noteq> 0 \<or> odd (head_bits n div 2 ^ 12)))"

lemma round_even_head:
  assumes "0 < n"
  shows "round_even n * number_one = (head_bits n div 2 ^ 12 + of_bool (head_rounds_up n)) * 2 ^ (bit_length n + 1021)"
proof (cases "bit_length n \<le> 53")
  case True
  note h = head_bits_short [OF True]
  have "round_even n = n" using True by (simp add: round_even_def)
  moreover have "\<not> head_rounds_up n" by (simp add: head_rounds_up_def h)
  moreover have "(2::nat) ^ 1074 = 2 ^ (53 - bit_length n) * 2 ^ (bit_length n + 1021)"
    using True by (simp only: power_add [symmetric]) simp
  ultimately show ?thesis unfolding number_one_def by (simp only: h) (simp add: mult.assoc)
next
  case False
  then have L: "53 < bit_length n" by simp
  define u where "u = (2::nat) ^ (bit_length n - 53)"
  note h = head_bits_round [OF L, folded u_def]
  have T: "tail_bits n < 2 ^ bit_length n" by (simp add: tail_bits_def)
  have scaled: "x < y \<longleftrightarrow> x * 2 ^ 65 < y * 2 ^ 65" "x = y \<longleftrightarrow> x * 2 ^ 65 = y * 2 ^ 65" for x y :: nat by simp_all
  let ?r = "2 * (n mod u)"
  have r: "?r * 2 ^ 65 = 2 * (head_bits n mod 2 ^ 12 * 2 ^ bit_length n + tail_bits n)" unfolding h(2) [symmetric] by simp
  have u: "u * 2 ^ 65 = 2 * (2 ^ 11 * 2 ^ bit_length n)" unfolding h(3) by simp
  have "u < ?r \<longleftrightarrow> 2 ^ 11 * 2 ^ bit_length n < head_bits n mod 2 ^ 12 * 2 ^ bit_length n + tail_bits n"
    unfolding scaled(1) [of u] r u by (rule mult_less_cancel1_pos) simp
  moreover have "?r = u \<longleftrightarrow> head_bits n mod 2 ^ 12 * 2 ^ bit_length n + tail_bits n = 2 ^ 11 * 2 ^ bit_length n"
    unfolding scaled(2) [of ?r] r u by (rule mult_cancel1_pos) simp
  ultimately have "u < ?r \<or> (?r = u \<and> odd (n div u)) \<longleftrightarrow> head_rounds_up n"
    unfolding head_rounds_up_def h(1) mult_plus_compare [OF T] by auto
  then have "round_even n = (head_bits n div 2 ^ 12 + of_bool (head_rounds_up n)) * u"
    unfolding round_even_def Let_def u_def [symmetric] h(1) by simp
  moreover have "u * 2 ^ 1074 = 2 ^ (bit_length n + 1021)"
    unfolding u_def using L by (simp only: power_add [symmetric]) simp
  ultimately show ?thesis unfolding number_one_def by (simp only: mult.assoc)
qed


section \<open>The leading digits\<close>

text \<open>The digits after the first one, zero where the number has none.\<close>

definition digit_at :: "digit list \<Rightarrow> nat \<Rightarrow> digit" where
  "digit_at rs i = (if i < length rs then rs ! i else 0)"

definition leading_shift :: "digit \<Rightarrow> nat" where
  "leading_shift d = (if d = 1 then 32 else unat (ecma_big_uint_count_leading_zero d + 1))"

lemma leading_shift_bounds:
  assumes "d \<noteq> 0"
  shows "1 \<le> leading_shift d" "leading_shift d \<le> 32" "d \<noteq> 1 \<Longrightarrow> leading_shift d \<le> 31"
    "2 ^ 32 \<le> unat d * 2 ^ leading_shift d" "unat d * 2 ^ leading_shift d < 2 ^ 33"
proof -
  define z where "z = unat (ecma_big_uint_count_leading_zero d)"
  note c = count_leading_zero_spec [OF assms, folded z_def]
  have z: "leading_shift d = z + 1" if "d \<noteq> 1" using that c by (simp add: leading_shift_def unat_word_ariths z_def)
  have small: "z \<le> 30" if "d \<noteq> 1"
  proof (rule ccontr)
    assume "\<not> z \<le> 30"
    then have "z = 31" using c by simp
    moreover have "2 \<le> unat d" using assms that by (cases "unat d"; cases "unat d - 1") (auto simp: word_eq_unat)
    then have "2 * 2 ^ 31 \<le> unat d * 2 ^ 31" by (intro mult_le_mono1)
    ultimately show False using c by simp
  qed
  show "1 \<le> leading_shift d" "leading_shift d \<le> 32" "d \<noteq> 1 \<Longrightarrow> leading_shift d \<le> 31"
    using z small by (cases "d = 1"; simp add: leading_shift_def)+
  show "2 ^ 32 \<le> unat d * 2 ^ leading_shift d" "unat d * 2 ^ leading_shift d < 2 ^ 33"
    using z c by (cases "d = 1"; simp add: leading_shift_def)+
qed

lemma leading_fraction_eq:
  assumes "rs ! 0 \<noteq> 1 \<or> 2 \<le> length rs" "rs \<noteq> []" "rs ! 0 \<noteq> 0"
  defines "s \<equiv> leading_shift (rs ! 0)"
  shows "leading_fraction rs =
    ((push_bit (32 + s) (ucast (rs ! 0)) OR push_bit s (ucast (digit_at rs 1))) OR drop_bit (32 - s) (ucast (digit_at rs 2)), of_nat s)"
proof (cases "rs ! 0 = 1")
  case True
  then have s: "s = 32" by (simp add: s_def leading_shift_def)
  have z: "push_bit (32 + s) (ucast (rs ! 0)) = (0 :: u64)" by (simp add: True s word_eq_unat unat_push_bit)
  have "leading_fraction rs = (push_bit s (ucast (digit_at rs 1)) OR drop_bit (32 - s) (ucast (digit_at rs 2)), of_nat s)"
    using True assms(1) by (simp add: leading_fraction_def s digit_at_def Let_def)
  then show ?thesis by (simp only: z or.left_neutral)
next
  case False
  then have "s = unat (ecma_big_uint_count_leading_zero (rs ! 0) + 1)" by (simp add: s_def leading_shift_def)
  then show ?thesis using False assms(2) by (cases "length rs \<ge> 2"; cases "length rs \<ge> 3") (simp_all add: leading_fraction_def digit_at_def Let_def)
qed

lemma unat_leading_fraction:
  fixes d1 d2 d3 :: digit
  assumes "d1 \<noteq> 0"
  defines "s \<equiv> leading_shift d1"
  shows "2 ^ 64 + unat ((push_bit (32 + s) (ucast d1) OR push_bit s (ucast d2)) OR drop_bit (32 - s) (ucast d3) :: u64) =
    unat d1 * 2 ^ (32 + s) + unat d2 * 2 ^ s + unat d3 div 2 ^ (32 - s)"
proof -
  note b = leading_shift_bounds [OF assms(1), folded s_def]
  have e: "unat d1 * 2 ^ (32 + s) = (unat d1 * 2 ^ s) * 2 ^ 32" by (simp add: power_add)
  have "2 ^ 32 * 2 ^ 32 \<le> (unat d1 * 2 ^ s) * 2 ^ 32" "(unat d1 * 2 ^ s) * 2 ^ 32 < 2 ^ 33 * 2 ^ 32"
    using b(4,5) by simp_all
  then have r: "2 ^ 64 \<le> unat d1 * 2 ^ (32 + s)" "unat d1 * 2 ^ (32 + s) < 2 * 2 ^ 64" unfolding e by simp_all
  have u: "unat (ucast d :: u64) = unat d" for d :: digit by (rule unat_u64_ucast)
  have x1: "unat (push_bit (32 + s) (ucast d1) :: u64) = unat d1 * 2 ^ (32 + s) - 2 ^ 64"
  proof -
    have "unat d1 * 2 ^ (32 + s) mod 2 ^ 64 = unat d1 * 2 ^ (32 + s) - 2 ^ 64"
      using r by (subst le_mod_geq) simp_all
    then show ?thesis by (simp add: unat_push_bit u)
  qed
  have le: "(2::nat) ^ s * 2 ^ 32 \<le> 2 ^ 64" using power_increasing [of "s + 32" 64 "2::nat"] b(2) by (simp add: power_add)
  have "unat d2 * 2 ^ s < 2 ^ s * 2 ^ 32" using unat_u32_less [of d2] by simp
  then have d2: "unat d2 * 2 ^ s < 2 ^ (32 + s)" "unat d2 * 2 ^ s < 2 ^ 64"
    using le by (simp add: power_add, rule less_le_trans)
  then have x2: "unat (push_bit s (ucast d2) :: u64) = unat d2 * 2 ^ s"
    by (simp add: unat_push_bit u)
  have x3: "unat (drop_bit (32 - s) (ucast d3) :: u64) = unat d3 div 2 ^ (32 - s)" by (simp add: unat_drop_bit u)
  have "unat d3 < 2 ^ s * 2 ^ (32 - s)" using unat_u32_less [of d3] pow2_split [OF b(2)] by simp
  then have d3: "unat d3 div 2 ^ (32 - s) < 2 ^ s" by (rule less_mult_imp_div_less)
  have p: "(2::nat) ^ (32 + s) dvd 2 ^ 64" by (rule le_imp_power_dvd) (use b(2) in simp)
  have dvd: "2 ^ (32 + s) dvd unat d1 * 2 ^ (32 + s) - 2 ^ 64" by (rule dvd_diff_nat [OF dvd_triv_right p])
  then have o1: "unat (push_bit (32 + s) (ucast d1) OR push_bit s (ucast d2) :: u64) = unat d1 * 2 ^ (32 + s) - 2 ^ 64 + unat d2 * 2 ^ s"
    using d2 by (subst unat_or_plus [of "32 + s"]) (simp_all only: x1 x2)
  have "2 ^ s dvd unat d1 * 2 ^ (32 + s) - (2::nat) ^ 64 + unat d2 * 2 ^ s"
    by (rule dvd_add [OF dvd_trans [OF le_imp_power_dvd dvd] dvd_triv_right]) simp
  then have "unat ((push_bit (32 + s) (ucast d1) OR push_bit s (ucast d2)) OR drop_bit (32 - s) (ucast d3) :: u64) =
      unat d1 * 2 ^ (32 + s) - 2 ^ 64 + unat d2 * 2 ^ s + unat d3 div 2 ^ (32 - s)"
    using d3 by (subst unat_or_plus [of s]) (simp_all only: o1 x3)
  then show ?thesis using r(1) by linarith
qed


lemma bit_length_digits:
  assumes "d \<noteq> 0"
  shows "bit_length (big_val (rev (d # rs))) = 32 * length rs + (33 - leading_shift d)"
proof (rule bit_length_unique)
  let ?s = "leading_shift d" and ?b = "base ^ length rs"
  note b = leading_shift_bounds [OF assms]
  have v: "big_val (rev (d # rs)) = big_val (rev rs) + ?b * unat d" by (rule big_val_rev_Cons)
  have low: "big_val (rev rs) < ?b" using big_val_less [of "rev rs"] by simp
  have p: "(2::nat) ^ (32 * length rs + m) = ?b * 2 ^ m" for m by (simp add: power_add power_mult)
  have "(2::nat) ^ (32 - ?s) * 2 ^ ?s \<le> unat d * 2 ^ ?s" using b(2,4) pow2_split [of ?s] by (simp add: mult.commute)
  then have d1: "2 ^ (32 - ?s) \<le> unat d" by simp
  have "unat d * 2 ^ ?s < 2 ^ (33 - ?s) * 2 ^ ?s" using b(2,5) power_add [of "2::nat" "33 - ?s" ?s] by simp
  then have d2: "unat d + 1 \<le> 2 ^ (33 - ?s)" by simp
  have "2 ^ (32 * length rs + (32 - ?s)) \<le> ?b * unat d" unfolding p using d1 by (rule mult_le_mono2)
  moreover have "32 * length rs + (33 - ?s) - 1 = 32 * length rs + (32 - ?s)" using b(2) by simp
  ultimately show "2 ^ (32 * length rs + (33 - ?s) - 1) \<le> big_val (rev (d # rs))" unfolding v by simp
  have "?b * (unat d + 1) \<le> 2 ^ (32 * length rs + (33 - ?s))" unfolding p using d2 by (rule mult_le_mono2)
  then show "big_val (rev (d # rs)) < 2 ^ (32 * length rs + (33 - ?s))" unfolding v using low by (simp add: distrib_left)
  show "0 < 32 * length rs + (33 - ?s)" using b(2) by simp
qed

text \<open>Numbers of more than 65 bits, and of less.\<close>

lemma head_tail_long:
  assumes "bit_length n = 65 + j"
  shows "head_bits n = n div 2 ^ j" "tail_bits n = n mod 2 ^ j * 2 ^ 65"
proof -
  have p: "(2::nat) ^ bit_length n = 2 ^ j * 2 ^ 65" unfolding assms by (simp only: power_add mult.commute)
  show "head_bits n = n div 2 ^ j" unfolding head_bits_def p by (rule div_mult_mult2) simp
  show "tail_bits n = n mod 2 ^ j * 2 ^ 65" unfolding tail_bits_def p by (rule mult_mod_left [symmetric])
qed

lemma head_short:
  assumes "bit_length n + j = 65"
  shows "head_bits n = n * 2 ^ j"
proof -
  have "n * 2 ^ 65 = n * 2 ^ j * 2 ^ bit_length n"
    unfolding assms [symmetric] by (simp only: power_add mult.assoc mult.commute [of "2 ^ j"])
  then show ?thesis unfolding head_bits_def by (simp only: nonzero_mult_div_cancel_right) simp
qed

lemma head_of_digits:
  assumes "rs \<noteq> []" "rs ! 0 \<noteq> 0"
  defines "n \<equiv> big_val (rev rs)" and "s \<equiv> leading_shift (rs ! 0)"
  shows "head_bits n = unat (rs ! 0) * 2 ^ (32 + s) + unat (digit_at rs 1) * 2 ^ s + unat (digit_at rs 2) div 2 ^ (32 - s)"
    and "tail_bits n = 0 \<Longrightarrow> big_val (rev (drop 3 rs)) = 0"
proof -
  obtain d1 rs1 where rs: "rs = d1 # rs1" using assms(1) by (cases rs) auto
  note b = leading_shift_bounds [OF assms(2), folded s_def]
  have L: "bit_length n = 32 * length rs1 + (33 - s)" using bit_length_digits [of d1 rs1] assms(2) by (simp add: n_def s_def rs)
  have "head_bits n = unat (rs ! 0) * 2 ^ (32 + s) + unat (digit_at rs 1) * 2 ^ s + unat (digit_at rs 2) div 2 ^ (32 - s) \<and>
    (tail_bits n = 0 \<longrightarrow> big_val (rev (drop 3 rs)) = 0)"
  proof (cases rs1)
    case Nil
    then have "bit_length n + (32 + s) = 65" "n = unat d1" using L b(2) by (simp_all add: n_def rs)
    from head_short [OF this(1)] this(2) show ?thesis by (simp add: rs Nil digit_at_def)
  next
    case (Cons d2 rs2)
    show ?thesis
    proof (cases rs2)
      case Nil
      then have j: "bit_length n + s = 65" and n: "n = base * unat d1 + unat d2" using L b(2) Cons by (simp_all add: n_def rs)
      from head_short [OF j] show ?thesis unfolding n by (simp add: rs Cons Nil digit_at_def algebra_simps power_add)
    next
      case Cons3: (Cons d3 low)
      let ?B = "base ^ length low" and ?t = "(unat d1 * base + unat d2) * base + unat d3" and ?low = "big_val (rev low)"
      have n: "n = ?low + ?B * ?t" unfolding n_def rs Cons Cons3 big_val_rev_Cons by (simp add: algebra_simps)
      have lowless: "?low < ?B" using big_val_less [of "rev low"] by simp
      have j: "bit_length n = 65 + (32 * length low + (32 - s))" using L b(2) Cons Cons3 by simp
      have p: "(2::nat) ^ (32 * length low + (32 - s)) = ?B * 2 ^ (32 - s)" by (simp add: power_add power_mult)
      have "n div ?B = ?t" unfolding n using lowless by simp
      then have "n div (?B * 2 ^ (32 - s)) = ?t div 2 ^ (32 - s)" by (simp only: div_mult2_eq)
      also have "?t = unat d3 + (unat d1 * base + unat d2) * 2 ^ s * 2 ^ (32 - s)"
        using pow2_split [OF b(2)] by (simp only: mult.assoc add.commute)
      also have "\<dots> div 2 ^ (32 - s) = (unat d1 * base + unat d2) * 2 ^ s + unat d3 div 2 ^ (32 - s)" by simp
      finally have "head_bits n = (unat d1 * base + unat d2) * 2 ^ s + unat d3 div 2 ^ (32 - s)"
        unfolding head_tail_long(1) [OF j] p .
      moreover have "?low = 0" if "tail_bits n = 0"
      proof -
        have "n mod (?B * 2 ^ (32 - s)) = 0" using that unfolding head_tail_long(2) [OF j] p by simp
        then have "?B dvd n" using dvd_mult_left by (metis mod_eq_0_iff_dvd)
        then have "n mod ?B = 0" by simp
        then show ?thesis unfolding n using lowless by simp
      qed
      ultimately show ?thesis by (simp add: rs Cons Cons3 digit_at_def algebra_simps power_add numeral_3_eq_3)
    qed
  qed
  then show "head_bits n = unat (rs ! 0) * 2 ^ (32 + s) + unat (digit_at rs 1) * 2 ^ s + unat (digit_at rs 2) div 2 ^ (32 - s)"
    "tail_bits n = 0 \<Longrightarrow> big_val (rev (drop 3 rs)) = 0" by auto
qed


section \<open>Rounding\<close>

lemma rounding_tests:
  fixes f :: u64
  shows "f AND rounding_bit \<noteq> 0 \<longleftrightarrow> 2 ^ 11 \<le> unat f mod 2 ^ 12" "f AND (push_bit 2 rounding_bit - 1) = rounding_bit \<longleftrightarrow> unat f mod 2 ^ 13 = 2 ^ 11"
    "unat rounding_bit = 2 ^ 11"
proof -
  show r: "unat rounding_bit = 2 ^ 11" by (simp add: rounding_bit_def)
  have "rounding_bit = 2 ^ 11" by (simp add: rounding_bit_def)
  then have "f AND rounding_bit \<noteq> 0 \<longleftrightarrow> bit f 11" using and_exp_eq_0_iff_not_bit [of f 11] by (simp)
  also have "\<dots> \<longleftrightarrow> bit (unat f) 11" by (simp add: bit_unsigned_iff)
  also have "\<dots> \<longleftrightarrow> odd (unat f div 2 ^ 11)" by (rule bit_iff_odd)
  also have "\<dots> \<longleftrightarrow> 2 ^ 11 \<le> unat f mod 2 ^ 12"
  proof -
    have m: "unat f mod 2 ^ 12 = 2 ^ 11 * (unat f div 2 ^ 11 mod 2) + unat f mod 2 ^ 11" using mod_mult2_eq [of "unat f" "2 ^ 11" 2] by simp
    have "unat f mod 2 ^ 11 < 2 ^ 11" by simp
    then show ?thesis unfolding m by (cases "odd (unat f div 2 ^ 11)") (simp_all add: mod_2_eq_odd)
  qed
  finally show "f AND rounding_bit \<noteq> 0 \<longleftrightarrow> 2 ^ 11 \<le> unat f mod 2 ^ 12" .
  have e: "push_bit 2 rounding_bit - 1 = (mask 13 :: u64)" by (simp add: rounding_bit_def mask_eq_exp_minus_1)
  show "f AND (push_bit 2 rounding_bit - 1) = rounding_bit \<longleftrightarrow> unat f mod 2 ^ 13 = 2 ^ 11"
    unfolding e word_eq_unat unat_and_mask r ..
qed

lemma round_up_spec:
  assumes P: "head_bits n = 2 ^ 64 + unat f" and tie: "\<not> hidden_tie n"
    and tail: "tail_bits n = 0 \<Longrightarrow> big_val (rev (drop 3 rs)) = 0"
  shows "to_number_round_up f sl rs \<longleftrightarrow> head_rounds_up n"
proof -
  have m: "head_bits n mod 2 ^ 12 = unat f mod 2 ^ 12" "head_bits n mod 2 ^ 13 = unat f mod 2 ^ 13"
    unfolding P using mod_mult_self4 [of "2 ^ 12" "2 ^ 52" "unat f"] mod_mult_self4 [of "2 ^ 13" "2 ^ 51" "unat f"] by simp_all
  let ?R = "head_bits n mod 2 ^ 12" and ?Q = "head_bits n div 2 ^ 12"
  have R: "?R < 2 ^ 12" by simp
  have s: "head_bits n mod 2 ^ 13 = 2 ^ 12 * (?Q mod 2) + ?R" using mod_mult2_eq [of "head_bits n" "2 ^ 12" 2] by simp
  have t13: "head_bits n mod 2 ^ 13 = 2 ^ 11 \<longleftrightarrow> even ?Q \<and> ?R = 2 ^ 11" unfolding s by (cases "even ?Q") (simp_all add: mod_2_eq_odd)
  have nolow: "\<not> list_ex (\<lambda>d. d \<noteq> 0) (drop 3 rs)" if "even ?Q \<and> ?R = 2 ^ 11"
  proof -
    have "tail_bits n = 0" using tie that t13 by (simp add: hidden_tie_def)
    from tail [OF this] show ?thesis using list_ex_nonzero [of "rev (drop 3 rs)"] by simp
  qed
  have "to_number_round_up f sl rs \<longleftrightarrow> 2 ^ 11 \<le> ?R \<and> \<not> (even ?Q \<and> ?R = 2 ^ 11)"
    unfolding to_number_round_up_def rounding_tests m [symmetric] t13 using nolow by auto
  moreover have "tail_bits n = 0" if "even ?Q \<and> ?R = 2 ^ 11" using tie that t13 by (simp add: hidden_tie_def)
  ultimately show ?thesis unfolding head_rounds_up_def by auto
qed

text \<open>The fraction of the result and the carry into the exponent.\<close>

lemma rounded_fraction:
  assumes P: "head_bits n = 2 ^ 64 + unat f" and up: "up \<Longrightarrow> 2 ^ 11 \<le> head_bits n mod 2 ^ 12"
  defines "q \<equiv> head_bits n div 2 ^ 12 + of_bool up" and "g \<equiv> drop_bit 12 (if up then f + rounding_bit else f)"
  shows "q = 2 ^ 52 + unat g \<and> unat g < 2 ^ 52 \<and> \<not> (up \<and> g = 0) \<or> q = 2 ^ 53 \<and> g = 0 \<and> up"
proof -
  have f: "unat f < 2 ^ 64" using unat_u64_less [of f] by simp
  have h: "head_bits n div 2 ^ 12 = 2 ^ 52 + unat f div 2 ^ 12" "head_bits n mod 2 ^ 12 = unat f mod 2 ^ 12"
    unfolding P using div_mult_self4 [of "2 ^ 12" "2 ^ 52" "unat f"] mod_mult_self4 [of "2 ^ 12" "2 ^ 52" "unat f"] by simp_all
  have d: "unat f div 2 ^ 12 < 2 ^ 52" using f by (intro less_mult_imp_div_less) simp
  show ?thesis
  proof (cases up)
    case False
    then show ?thesis using h d by (simp add: q_def g_def unat_drop_bit)
  next
    case True
    let ?a = "unat f div 2 ^ 12" and ?r = "unat f mod 2 ^ 12"
    have r: "2 ^ 11 \<le> ?r" "?r < 2 ^ 12" using up [OF True] h(2) by simp_all
    have fa: "unat f = ?a * 2 ^ 12 + ?r" by simp
    have sum: "unat f + 2 ^ 11 = (?a + 1) * 2 ^ 12 + (?r - 2 ^ 11)" using r(1) by (subst fa) simp
    have u: "unat (f + rounding_bit) = (unat f + 2 ^ 11) mod 2 ^ 64" by (simp add: unat_word_ariths rounding_tests(3))
    show ?thesis
    proof (cases "?a + 1 = 2 ^ 52")
      case all: True
      have "(unat f + 2 ^ 11) mod 2 ^ 64 = ?r - 2 ^ 11" unfolding sum all using r(2) by simp
      then have "unat g = 0" using True r(2) by (simp add: g_def unat_drop_bit u)
      then have "g = 0" by (simp only: word_eq_unat unsigned_0)
      then show ?thesis using True all h by (simp add: q_def)
    next
      case False
      then have a: "?a + 1 < 2 ^ 52" using d by simp
      then have "(?a + 1) * 2 ^ 12 + (?r - 2 ^ 11) < 2 ^ 64" using r by (simp add: less_mult_imp_div_less)
      then have "unat (f + rounding_bit) = (?a + 1) * 2 ^ 12 + (?r - 2 ^ 11)" unfolding u sum by simp
      then have g: "unat g = ?a + 1" using True r(2) by (simp add: g_def unat_drop_bit)
      then have "g \<noteq> 0" by (auto simp: word_eq_unat)
      then show ?thesis using True a h g by (simp add: q_def)
    qed
  qed
qed


section \<open>The double\<close>

lemma unat_create:
  assumes "unat e < 2048" "unat g < 2 ^ 52"
  shows "unat (ecma_number_create sign e g) = 2 ^ 52 * (2 ^ 11 * of_bool sign + unat e) + unat g"
proof -
  have u: "unat (ucast e :: u64) = unat e" by (rule unat_u64_ucast)
  have p: "unat (push_bit 52 (ucast e) :: u64) = 2 ^ 52 * unat e" using assms(1) by (simp add: unat_push_bit u)
  have b: "unat (push_bit 52 (ucast e) OR g) = 2 ^ 52 * unat e + unat g"
    using assms(2) by (subst unat_or_plus [of 52]) (simp_all only: p dvd_triv_left)
  have "2 ^ 52 * unat e + unat g < 2 ^ 63" using assms by simp
  moreover have "unat ECMA_NUMBER_SIGN_BIT = 2 ^ 63" by (simp add: ECMA_NUMBER_SIGN_BIT_def)
  ultimately have "unat ((push_bit 52 (ucast e) OR g) OR ECMA_NUMBER_SIGN_BIT) = 2 ^ 52 * unat e + unat g + 2 ^ 63"
    by (subst unat_or_plus' [of 63]) (simp_all only: b dvd_refl)
  then show ?thesis using b by (simp add: ecma_number_create_def Let_def)
qed

lemma create_fields:
  assumes "unat e < 2048" "unat g < 2 ^ 52"
  shows "number_exp (ecma_number_create sign e g) = unat e" "number_frac (ecma_number_create sign e g) = unat g"
    "ecma_number_sign (ecma_number_create sign e g) = sign"
proof -
  note u = unat_create [OF assms, of sign]
  have d: "unat (ecma_number_create sign e g) div 2 ^ 52 = 2 ^ 11 * of_bool sign + unat e" unfolding u using assms(2) by simp
  show "number_exp (ecma_number_create sign e g) = unat e" unfolding number_exp_def d using assms(1) by simp
  show "number_frac (ecma_number_create sign e g) = unat g" unfolding number_frac_def u mod_mult_self4 using assms(2) by simp
  show "ecma_number_sign (ecma_number_create sign e g) = sign" unfolding number_sign_iff u using assms by (cases sign) simp_all
qed

lemma infinity_fields: "ecma_number_is_infinity (ecma_number_make_infinity sign)" "ecma_number_sign (ecma_number_make_infinity sign) = sign"
proof -
  have "ecma_number_make_infinity sign = ecma_number_create sign 2047 0"
    by (simp add: ecma_number_make_infinity_def ecma_number_create_def)
  with create_fields [of 2047 0 sign] show "ecma_number_is_infinity (ecma_number_make_infinity sign)"
    "ecma_number_sign (ecma_number_make_infinity sign) = sign" by (simp_all add: number_is_infinity_iff)
qed

definition double_of_int :: "int \<Rightarrow> u64 \<Rightarrow> bool" where
  "double_of_int z b \<longleftrightarrow> (ecma_number_sign b \<longleftrightarrow> z < 0) \<and>
    (if round_even (nat \<bar>z\<bar>) < 2 ^ 1024 then number_exp b < 2047 \<and> number_mag b = round_even (nat \<bar>z\<bar>) * number_one
     else ecma_number_is_infinity b)"

lemma create_rounded:
  assumes "unat g < 2 ^ 52" "0 < unat e" "sign \<longleftrightarrow> z < 0" "(2 ^ 52 + unat g) * 2 ^ (unat e - 1) = round_even (nat \<bar>z\<bar>) * number_one"
  shows "double_of_int z (if e < push_bit 11 1 - 1 then ecma_number_create sign e g else ecma_number_make_infinity sign)"
proof -
  let ?r = "round_even (nat \<bar>z\<bar>)"
  have one: "2 ^ 1024 * number_one = 2 ^ (52 + 2046)" unfolding number_one_def power_add [symmetric] by simp
  have "?r < 2 ^ 1024 \<longleftrightarrow> ?r * number_one < 2 ^ 1024 * number_one" using number_one_pos by simp
  also have "\<dots> \<longleftrightarrow> unat e < 2047"
  proof
    assume "?r * number_one < 2 ^ 1024 * number_one"
    then have "(2 ^ 52 + unat g) * 2 ^ (unat e - 1) < 2 ^ (52 + 2046)" unfolding one assms(4) [symmetric] .
    moreover have "2 ^ 52 * 2 ^ (unat e - 1) \<le> (2 ^ 52 + unat g) * 2 ^ (unat e - 1)" by (intro mult_le_mono1) simp
    ultimately have "2 ^ 52 * 2 ^ (unat e - 1) < (2::nat) ^ (52 + 2046)" by (rule le_less_trans [rotated])
    then have "52 + (unat e - 1) < 52 + 2046" unfolding power_add [symmetric] by (rule power_less_imp_less_exp [rotated]) simp
    then show "unat e < 2047" by simp
  next
    assume e: "unat e < 2047"
    have "(2 ^ 52 + unat g) * 2 ^ (unat e - 1) < 2 ^ 53 * 2 ^ (unat e - 1)" using assms(1) by simp
    also have "\<dots> = 2 ^ (53 + (unat e - 1))" by (simp only: power_add)
    also have "\<dots> \<le> 2 ^ (52 + 2046)" using e by (intro power_increasing) simp_all
    finally show "?r * number_one < 2 ^ 1024 * number_one" unfolding one assms(4) .
  qed
  finally have fin: "?r < 2 ^ 1024 \<longleftrightarrow> unat e < 2047" .
  have w: "e < push_bit 11 1 - 1 \<longleftrightarrow> unat e < 2047" by (simp add: word_less_unat)
  show ?thesis
  proof (cases "unat e < 2047")
    case True
    note c = create_fields [of e g sign, OF _ assms(1)]
    have "number_mag (ecma_number_create sign e g) = ?r * number_one"
      unfolding number_mag_def using c True assms(2) by (simp add: assms(4) [simplified])
    then show ?thesis unfolding double_of_int_def fin w using True c assms(3) by simp
  next
    case False
    then show ?thesis unfolding double_of_int_def fin w using infinity_fields assms(3) by simp
  qed
qed


text \<open>The conversion of the digits, without the integers that have a representation of their own.\<close>

lemma digits_to_double:
  fixes z :: int and ds :: "digit list"
  defines "rs \<equiv> rev ds"
  assumes ds: "normalized ds" "length ds \<le> 16384" "big_val ds = nat \<bar>z\<bar>" and one: "ds \<noteq> [1]"
    and tie: "\<not> hidden_tie (nat \<bar>z\<bar>)" and sign: "sign \<longleftrightarrow> z < 0" and lf: "leading_fraction rs = (fraction, shift_left)"
    and exp: "e = (push_bit 10 1 - 1) + (of_nat (4 * length ds) * 8 - shift_left)"
    and up: "up = to_number_round_up fraction shift_left rs"
    and g: "g = drop_bit (8 * 8 - 52) (if up then fraction + rounding_bit else fraction)"
  shows "double_of_int z (if (if up \<and> g = 0 then e + 1 else e) < push_bit 11 1 - 1
    then ecma_number_create sign (if up \<and> g = 0 then e + 1 else e) g else ecma_number_make_infinity sign)"
proof -
  let ?n = "nat \<bar>z\<bar>" and ?s = "leading_shift (rs ! 0)"
  have rs: "rs \<noteq> []" "rs ! 0 \<noteq> 0" using ds(1) by (auto simp: rs_def normalized_def rev_nth last_conv_nth)
  have two: "rs ! 0 \<noteq> 1 \<or> 2 \<le> length rs"
    using one rs(1) by (cases ds rule: rev_cases; cases "butlast ds") (auto simp: rs_def)
  have n: "big_val (rev rs) = ?n" "0 < ?n" using ds(3) normalized_pos [OF ds(1)] by (simp_all add: rs_def)
  note b = leading_shift_bounds [OF rs(2)]
  have eqs: "fraction = (push_bit (32 + ?s) (ucast (rs ! 0)) OR push_bit ?s (ucast (digit_at rs 1))) OR drop_bit (32 - ?s) (ucast (digit_at rs 2))"
      "shift_left = of_nat ?s"
    using lf leading_fraction_eq [OF two rs] by simp_all
  have P: "head_bits ?n = 2 ^ 64 + unat fraction"
    unfolding eqs(1) unat_leading_fraction [OF rs(2)] using head_of_digits(1) [OF rs] n(1) by simp
  have up_iff: "up \<longleftrightarrow> head_rounds_up ?n"
    unfolding up by (rule round_up_spec [OF P tie]) (use head_of_digits(2) [OF rs] n(1) in simp)
  obtain d rs' where cons: "rs = d # rs'" using rs(1) by (cases rs) auto
  have "length rs' + 1 = length ds" using arg_cong [OF cons, of length] by (simp add: rs_def)
  then have L: "bit_length ?n = 32 * length ds + 1 - ?s"
    using bit_length_digits [of d rs'] rs(2) n(1) b(2) by (simp add: cons)
  have e: "unat e = bit_length ?n + 1022"
  proof -
    have "0 < length ds" using ds(1) by (simp add: normalized_def)
    then have le: "?s \<le> 32 * length ds" using b(2) by linarith
    have s: "unat shift_left = ?s" unfolding eqs(2) using b(2) by (simp add: unat_of_nat)
    have size: "unat (of_nat (4 * length ds) * 8 :: u32) = 32 * length ds"
      using ds(2) by (simp add: unat_word_ariths unat_of_nat)
    have "unat (of_nat (4 * length ds) * 8 - shift_left) = 32 * length ds - ?s"
      using le by (subst unat_sub) (simp_all only: word_le_unat size s)
    then show ?thesis unfolding exp using L le ds(2) by (simp add: unat_word_ariths)
  qed
  note r = round_even_head [OF n(2), folded up_iff]
  have half: "up \<Longrightarrow> 2 ^ 11 \<le> head_bits ?n mod 2 ^ 12" unfolding up_iff head_rounds_up_def by auto
  have g': "g = drop_bit 12 (if up then fraction + rounding_bit else fraction)" using g by simp
  have "head_bits ?n div 2 ^ 12 + of_bool up = 2 ^ 52 + unat g \<and> unat g < 2 ^ 52 \<and> \<not> (up \<and> g = 0) \<or>
      head_bits ?n div 2 ^ 12 + of_bool up = 2 ^ 53 \<and> g = 0 \<and> up"
    unfolding g' by (rule rounded_fraction [OF P]) (rule half)
  then show ?thesis
  proof (elim disjE conjE)
    assume keep: "head_bits ?n div 2 ^ 12 + of_bool up = 2 ^ 52 + unat g" "unat g < 2 ^ 52" "\<not> (up \<and> g = 0)"
    have x: "unat e - 1 = bit_length ?n + 1021" using e by simp
    have "(2 ^ 52 + unat g) * 2 ^ (unat e - 1) = round_even ?n * number_one" unfolding r keep(1) x ..
    from create_rounded [OF keep(2) _ sign this] e have "double_of_int z (if e < push_bit 11 1 - 1 then ecma_number_create sign e g
        else ecma_number_make_infinity sign)" by simp
    then show ?thesis by (simp only: keep(3) if_False)
  next
    assume carry: "head_bits ?n div 2 ^ 12 + of_bool up = 2 ^ 53" "g = 0" "up"
    have e1: "unat (e + 1) = bit_length ?n + 1023" using e L ds(2) by (simp add: unat_word_ariths)
    have x: "unat (e + 1) - 1 = 1 + (bit_length ?n + 1021)" using e1 by simp
    have "(2 ^ 52 + unat g) * 2 ^ (unat (e + 1) - 1) = round_even ?n * number_one"
      unfolding r carry(1,2) x power_add by simp
    from create_rounded [OF _ _ sign this] e1 carry(2) have "double_of_int z (if e + 1 < push_bit 11 1 - 1 then ecma_number_create sign (e + 1) g
        else ecma_number_make_infinity sign)" by simp
    moreover have "up \<and> g = 0" using carry(2,3) by simp
    ultimately show ?thesis by (simp only: if_True simp_thms)
  qed
qed


lemma to_number_correct:
  assumes v: "bigint (store c) v z" and tie: "\<not> hidden_tie (nat \<bar>z\<bar>)"
  shows "case ecma_bigint_to_number c v of
      Inl i \<Rightarrow> i = z \<and> ECMA_INTEGER_NUMBER_MIN \<le> z \<and> z \<le> int ECMA_INTEGER_NUMBER_MAX
    | Inr b \<Rightarrow> double_of_int z b"
proof (cases v)
  case ECMA_BIGINT_ZERO
  then show ?thesis using v by (simp add: ecma_bigint_to_number_def)
next
  case (BigInt p)
  from v [unfolded BigInt] obtain w where w: "obj c p = w" "odd (bigint_sign_and_size w) \<longleftrightarrow> z < 0"
    "ECMA_BIGINT_GET_SIZE w = 4 * length (digits w)" "big_val (digits w) = nat \<bar>z\<bar>" "normalized (digits w)" "length (digits w) \<le> 16384"
    by (rule bigint_obj)
  let ?ds = "digits w"
  have "nat \<bar>z\<bar> = unat (rev ?ds ! 0)" if "length ?ds = 1" using that w(4) by (cases ?ds) auto
  then have single: "length ?ds = 1 \<Longrightarrow> uint (rev ?ds ! 0) = \<bar>z\<bar> \<and> nat \<bar>z\<bar> = unat (rev ?ds ! 0)" by (metis abs_ge_zero int_nat_eq uint_nat)
  let ?int = "length ?ds = 1 \<and> (if z < 0 then int (unat (rev ?ds ! 0)) \<le> - ECMA_INTEGER_NUMBER_MIN else unat (rev ?ds ! 0) \<le> ECMA_INTEGER_NUMBER_MAX)"
  show ?thesis
  proof (cases ?int)
    case True
    have "unat (rev ?ds ! 0) \<le> ECMA_INTEGER_NUMBER_MAX \<longleftrightarrow> uint (rev ?ds ! 0) \<le> int ECMA_INTEGER_NUMBER_MAX"
      unfolding uint_nat of_nat_le_iff ..
    with True show ?thesis using single by (auto simp: ecma_bigint_to_number_def BigInt w(1,2,3) sign_of_iff split: if_splits)
  next
    case False
    have one: "?ds \<noteq> [1]"
    proof
      assume "?ds = [1]"
      then have "?int" by simp
      with False show False by blast
    qed
    obtain f s where lf: "leading_fraction (rev ?ds) = (f, s)" by fastforce
    note d = digits_to_double [OF w(5,6,4) one tie refl lf refl refl refl]
    have "ecma_bigint_to_number c v = Inr (let e = (push_bit 10 1 - 1) + (of_nat (4 * length ?ds) * 8 - s); up = to_number_round_up f s (rev ?ds);
        g = drop_bit (8 * 8 - 52) (if up then f + rounding_bit else f); e = (if up \<and> g = 0 then e + 1 else e)
      in if e < push_bit 11 1 - 1 then ecma_number_create (z < 0) e g else ecma_number_make_infinity (z < 0))"
      using False by (auto simp: ecma_bigint_to_number_def BigInt w(1,2,3) sign_of_iff lf Let_def split: if_splits)
    then show ?thesis using d by (simp only: sum.case Let_def)
  qed
qed

section \<open>Theorems\<close>

text \<open>
  (C28) Converting a BigInt to a number: integers of up to 28 bits stay integers, every other BigInt becomes the double that is nearest to it,
  the one with the even significand when two are, and an infinity of the right sign when it is too large; except for the numbers of more than 65 bits whose
  first 65 bits are exactly between two doubles, the lower one being even, and that have further bits.
\<close>

theorem bigint_to_number:
  assumes "bigint (store c) v z" "\<not> hidden_tie (nat \<bar>z\<bar>)"
  shows "case ecma_bigint_to_number c v of
      Inl i \<Rightarrow> i = z \<and> - 0x8000000 \<le> z \<and> z \<le> 0x7FFFFFF
    | Inr b \<Rightarrow> double_of_int z b"
  using to_number_correct [OF assms] by (auto split: sum.splits)

theorem bigint_to_number_witness:
  "\<exists>b. ecma_bigint_to_number (signed_example True [1, 0x200000] False [1]) (BigInt 0) = Inr b \<and> ecma_number_sign b \<and>
    number_mag b = 9007199254740992 * number_one"
proof -
  let ?c = "signed_example True [1, 0x200000] False [1]"
  have v: "bigint (store ?c) (BigInt 0) (- 9007199254740993)"
    using signed_example_operand(1) [of "[1, 0x200000]" True False "[1]"] by (simp add: operand_def normalized_def)
  have l: "bit_length 9007199254740993 = 54" by (rule bit_length_unique) simp_all
  have "\<not> hidden_tie 9007199254740993" by (simp add: hidden_tie_def head_bits_def tail_bits_def l)
  moreover have "round_even 9007199254740993 = 9007199254740992" by (simp add: round_even_def l)
  moreover have "(9007199254740992::nat) < 2 ^ 1024" using power_strict_increasing [of 53 1024 "2::nat"] by simp
  ultimately show ?thesis
    using bigint_to_number [OF v] by (auto simp: double_of_int_def split: sum.splits)
qed

text \<open>
  In the excepted cases the conversion rounds down although the BigInt is closer to the next double: \<open>2^95 + 2^42 + 1\<close> becomes
  \<open>2^95\<close>, the nearest double is \<open>2^95 + 2^43\<close>. When the bits of the third digit below the 65 bits are not zero, the code does not round up.
\<close>

lemma bigint_to_number_wrong:
  "bigint (store (signed_example False [1, 0x400, 0x80000000] False [1])) (BigInt 0) (2 ^ 95 + 2 ^ 42 + 1) \<and>
   ecma_bigint_to_number (signed_example False [1, 0x400, 0x80000000] False [1]) (BigInt 0) = Inr 0x45E0000000000000 \<and>
   number_mag 0x45E0000000000000 = 2 ^ 95 * number_one \<and> round_even (2 ^ 95 + 2 ^ 42 + 1) = 2 ^ 95 + 2 ^ 43"
proof -
  have v: "bigint (store (signed_example False [1, 0x400, 0x80000000] False [1])) (BigInt 0) (2 ^ 95 + 2 ^ 42 + 1)"
    using signed_example_operand(1) [of "[1, 0x400, 0x80000000]" False False "[1]"] by (simp add: operand_def normalized_def)
  have "ecma_bigint_to_number (signed_example False [1, 0x400, 0x80000000] False [1]) (BigInt 0) = Inr 0x45E0000000000000"
    by (simp add: ecma_bigint_to_number_def signed_example_def signed_prim_def obj_def ECMA_BIGINT_GET_SIZE_def sign_of_iff new_prim_def
        leading_fraction_def leading_zero_examples to_number_round_up_def rounding_bit_def ecma_number_create_def Let_def)
  moreover have "number_mag 0x45E0000000000000 = 2 ^ 52 * 2 ^ 1117"
    by (simp add: number_mag_def number_exp_def number_frac_def)
  then have "number_mag 0x45E0000000000000 = 2 ^ 95 * number_one"
    unfolding number_one_def power_add [symmetric] by simp
  moreover have l: "bit_length (2 ^ 95 + 2 ^ 42 + 1) = 96" by (rule bit_length_unique) simp_all
  have "round_even (2 ^ 95 + 2 ^ 42 + 1) = 2 ^ 95 + 2 ^ 43" unfolding round_even_def l by simp
  ultimately show ?thesis using v by blast
qed

end
