(* ===== verification/Bigint_Digits.thy ===== *)
theory Bigint_Digits
  imports Bigint_Theorems
begin

text \<open>
  BigInts and arrays of 64-bit digits, the form in which the API of the engine passes them: \<open>ecma_bigint_create_from_digits\<close>,
  \<open>ecma_bigint_get_size_in_digits\<close> and \<open>ecma_bigint_get_digits_and_sign\<close> of \<open>src/jjs-core/ecma/operations/ecma-bigint.c\<close>.
  \<open>None\<close> is a write behind the end of the block of the new value.
\<close>

section \<open>Conversion\<close>

text \<open>The number of digits without the zeros at the end.\<close>

fun significant_digits :: "u64 list \<Rightarrow> nat \<Rightarrow> nat" where
  "significant_digits digits_p 0 = 0"
| "significant_digits digits_p (Suc n) = (if digits_p ! n = 0 then significant_digits digits_p n else Suc n)"

fun split_digits :: "u64 list \<Rightarrow> digit list" where
  "split_digits [] = []"
| "split_digits (digit # digits_p) = ucast digit # ucast (drop_bit (8 * 4) digit) # split_digits digits_p"

definition digits_byte_size :: "u64 list \<Rightarrow> nat" where
  "digits_byte_size digits_p =
    (let size = length digits_p;
         size = (if size < ECMA_BIGINT_MAX_SIZE then size * 8 else size)
     in if drop_bit (8 * 4) (last digits_p) = 0 then size - 4 else size)"

definition ecma_bigint_create_from_digits :: "'h allocator \<Rightarrow> 'h ecma_context \<Rightarrow> u64 list \<Rightarrow> bool \<Rightarrow> 'h bigint_result option" where
  "ecma_bigint_create_from_digits A c digits_p sign =
    (let digits_p = take (significant_digits digits_p (length digits_p)) digits_p in
     if digits_p = [] then Some (c, Inr ECMA_BIGINT_ZERO)
     else
      (let size = digits_byte_size digits_p in
       case ecma_bigint_create A c size of
         (c, Ptr p) \<Rightarrow>
           (let c = (if sign then set_sign c p ECMA_BIGINT_SIGN else c)
            in if 4 * length (split_digits digits_p) > ECMA_BIGINT_GET_BYTE_SIZE size then None
               else Some (set_digits c p (take (size div 4) (split_digits digits_p)), Inr (BigInt p)))
       | (c, _) \<Rightarrow> Some (ecma_bigint_raise_memory_error c)))"

definition ecma_bigint_get_size_in_digits :: "'h ecma_context \<Rightarrow> bigint_value \<Rightarrow> nat" where
  "ecma_bigint_get_size_in_digits c v =
    (case v of ECMA_BIGINT_ZERO \<Rightarrow> 0 | BigInt value_p \<Rightarrow> (ECMA_BIGINT_GET_SIZE (obj c value_p) + 4) div 8)"

fun join_digits :: "nat \<Rightarrow> digit list \<Rightarrow> u64 list" where
  "join_digits (Suc n) (lo # hi # source_p) = (ucast lo OR push_bit (8 * 4) (ucast hi)) # join_digits n source_p"
| "join_digits n source_p = []"

text \<open>The digits of the buffer of the given size, and the sign.\<close>

definition ecma_bigint_get_digits_and_sign :: "'h ecma_context \<Rightarrow> bigint_value \<Rightarrow> nat \<Rightarrow> u64 list \<times> bool" where
  "ecma_bigint_get_digits_and_sign c v count =
    (case v of
       ECMA_BIGINT_ZERO \<Rightarrow> (replicate count 0, False)
     | BigInt value_p \<Rightarrow>
        (let sign = sign_of (obj c value_p) \<noteq> 0;
             bigint_size = ECMA_BIGINT_GET_SIZE (obj c value_p);
             copy_size = (if bigint_size div 8 > count then count else bigint_size div 8);
             source_p = digits (obj c value_p);
             digits_p = join_digits copy_size source_p;
             count = count - copy_size
         in if count = 0 then (digits_p, sign)
            else if ECMA_BIGINT_SIZE_IS_ODD bigint_size
            then (digits_p @ [ucast (source_p ! (2 * copy_size))] @ replicate (count - 1) 0, sign)
            else (digits_p @ replicate count 0, sign)))"

section \<open>Values\<close>

fun big_val64 :: "u64 list \<Rightarrow> nat" where
  "big_val64 [] = 0"
| "big_val64 (d # ds) = unat d + 2 ^ 64 * big_val64 ds"

lemma split_digits_facts: "big_val (split_digits ds) = big_val64 ds" "length (split_digits ds) = 2 * length ds"
proof -
  have digit: "unat (ucast d :: digit) + base * unat (ucast (drop_bit 32 d) :: digit) = unat d" for d :: u64
  proof -
    have "unat d div base < base" using unat_u64_less [of d] by (simp add: less_mult_imp_div_less)
    then show ?thesis by (simp add: unat_u32_ucast unat_drop_bit)
  qed
  show "big_val (split_digits ds) = big_val64 ds" 
  proof (induction ds)
    case (Cons d ds)
    with digit [of d] show ?case by (simp add: algebra_simps)
  qed simp
  show "length (split_digits ds) = 2 * length ds" by (induction ds) auto
qed

lemma big_val64_append: "big_val64 (xs @ ys) = big_val64 xs + (2 ^ 64) ^ length xs * big_val64 ys"
  by (induction xs) (simp_all add: algebra_simps)

lemma big_val64_zeros [simp]: "big_val64 (replicate n 0) = 0"
  by (induction n) simp_all

lemma significant_digits_spec:
  assumes "n \<le> length ds"
  defines "k \<equiv> significant_digits ds n"
  shows "k \<le> n" "big_val64 (take k ds) = big_val64 (take n ds)" "k = 0 \<or> last (take k ds) \<noteq> 0"
proof -
  have "k \<le> n \<and> big_val64 (take k ds) = big_val64 (take n ds) \<and> (k = 0 \<or> last (take k ds) \<noteq> 0)"
    using assms(1) unfolding k_def
    by (induction n) (auto simp: take_Suc_conv_app_nth big_val64_append)
  then show "k \<le> n" "big_val64 (take k ds) = big_val64 (take n ds)" "k = 0 \<or> last (take k ds) \<noteq> 0" by auto
qed

lemma join_digits_facts:
  "2 * n \<le> length ds \<Longrightarrow> length (join_digits n ds) = n \<and> big_val64 (join_digits n ds) = big_val (take (2 * n) ds)"
proof (induction n ds rule: join_digits.induct)
  case (1 n lo hi source)
  have "unat (ucast lo OR push_bit 32 (ucast hi) :: u64) = unat lo + base * unat hi"
  proof (subst unat_or_plus' [of 32])
    show "2 ^ 32 dvd unat (push_bit 32 (ucast hi) :: u64)" using unat_u32_less [of hi] by (simp add: unat_push_bit unat_u64_ucast)
    show "unat (ucast lo :: u64) < 2 ^ 32" using unat_u32_less [of lo] by (simp add: unat_u64_ucast)
    show "unat (ucast lo :: u64) + unat (push_bit 32 (ucast hi) :: u64) = unat lo + base * unat hi"
      using unat_u32_less [of hi] by (simp add: unat_push_bit unat_u64_ucast)
  qed
  with 1 show ?case by (simp add: algebra_simps)
qed (auto simp: take_Cons')


lemma split_digits_append [simp]: "split_digits (xs @ ys) = split_digits xs @ split_digits ys"
  by (induction xs) simp_all

text \<open>Leaving out the upper half of the last digit when it is zero gives the digits of the value.\<close>

lemma split_digits_take:
  assumes "ds \<noteq> []" "last ds \<noteq> 0"
  defines "k \<equiv> 2 * length ds - of_bool (drop_bit 32 (last ds) = 0)"
  shows "normalized (take k (split_digits ds))" "big_val (take k (split_digits ds)) = big_val64 ds"
proof -
  obtain xs d where ds: "ds = xs @ [d]" "d \<noteq> 0" using assms by (cases ds rule: rev_cases) auto
  let ?lo = "ucast d :: digit" and ?hi = "ucast (drop_bit 32 d) :: digit"
  have hi: "unat ?hi = unat d div base"
  proof -
    have "unat d div base < base" using unat_u64_less [of d] by (simp add: less_mult_imp_div_less)
    then show ?thesis by (simp add: unat_u32_ucast unat_drop_bit)
  qed
  have hi0: "drop_bit 32 d = 0 \<longleftrightarrow> unat d div base = 0" 
    using unat_eq_0 [of "drop_bit 32 d"] by (simp add: unat_drop_bit)
  have val: "big_val (split_digits ds) = big_val64 ds" by (rule split_digits_facts)
  show "normalized (take k (split_digits ds))" "big_val (take k (split_digits ds)) = big_val64 ds"
  proof (atomize (full), cases "unat d div base = 0")
    case True
    have lo: "unat ?lo = unat d" using True by (simp add: unat_u32_ucast div_eq_0_iff)
    then have "?lo \<noteq> 0" using ds(2) by (metis unat_0 unat_eq_zero)
    moreover have "?hi = 0" using hi True by (metis unat_eq_0)
    ultimately show "normalized (take k (split_digits ds)) \<and> big_val (take k (split_digits ds)) = big_val64 ds"
      using True val by (simp add: k_def ds hi0 split_digits_facts normalized_def big_val_append)
  next
    case False
    then have "?hi \<noteq> 0" using hi by (metis unat_0)
    with False val show "normalized (take k (split_digits ds)) \<and> big_val (take k (split_digits ds)) = big_val64 ds"
      by (simp add: k_def ds hi0 split_digits_facts normalized_def)
  qed
qed


definition digit_count :: "u64 list \<Rightarrow> nat" where
  "digit_count ds = 2 * length ds - of_bool (drop_bit 32 (last ds) = 0)"

lemma digit_count_byte_size:
  "ds \<noteq> [] \<Longrightarrow> length ds < ECMA_BIGINT_MAX_SIZE \<Longrightarrow> digits_byte_size ds = 4 * digit_count ds"
  "ds \<noteq> [] \<Longrightarrow> 0 < digit_count ds"
  "ds \<noteq> [] \<Longrightarrow> ECMA_BIGINT_GET_BYTE_SIZE (4 * digit_count ds) = 8 * length ds"
  by (cases ds; simp add: digits_byte_size_def digit_count_def ECMA_BIGINT_GET_BYTE_SIZE_def; fail)+

context failing_heap
begin

lemma create_from_significant:
  assumes inv: "ctx_inv holds X c" and ds: "ds \<noteq> []" "last ds \<noteq> 0" "length ds < ECMA_BIGINT_MAX_SIZE"
    and k: "significant_digits ds0 (length ds0) = length ds" "take (length ds) ds0 = ds"
  shows "returns holds failed X (store c) (Inr (if sign then - int (big_val64 ds) else int (big_val64 ds)))
    (ecma_bigint_create_from_digits A c ds0 sign)"
proof -
  let ?k = "digit_count ds" and ?L = "take (digit_count ds) (split_digits ds)"
  let ?z = "if sign then - int (big_val64 ds) else int (big_val64 ds)"
  note sz = digit_count_byte_size [OF ds(1)]
  have L: "normalized ?L" "big_val ?L = big_val64 ds" "length ?L = ?k"
    using split_digits_take [OF ds(1,2)] by (simp_all add: digit_count_def split_digits_facts)
  have "(0 :: nat) < base ^ (?k - 1)" by simp
  then have pos: "0 < big_val64 ds" using normalized_ge [OF L(1)] unfolding L by linarith
  obtain c1 r where cr: "ecma_bigint_create A c (4 * ?k) = (c1, r)" by fastforce
  consider p gs where "r = Ptr p" "owns holds X (store c) c1 p gs" "length gs = ?k" "?k \<le> 16384"
    | "r = NULL" "ctx_inv holds X c1" "store c1 = store c" "failed (heap c1) \<or> 16384 < ?k"
    using create_cases [OF inv sz(2) cr] by auto
  then show ?thesis
  proof cases
    case 1
    have own: "owns holds X (store c) (set_digits c1 p ?L) p ?L" by (rule owns_set_digits [OF 1(2)]) (use 1(3) L(3) in simp)
    have y: "yields holds failed X (store c) (nat \<bar>?z\<bar>) (set_digits c1 p ?L, Ptr p)"
      by (rule owns_yields [OF own L(1)]) (use L(2,3) 1(4) in simp_all)
    have o: "obj c1 p = new_prim gs" using 1(2) by (rule owns_obj)
    have m: "make_value (set_digits c1 p ?L, Ptr p) (of_bool (?z < 0)) = ecma_bigint_create_from_digits A c ds0 sign"
      using cr 1(1) o pos sz(1) [OF ds(3)] sz(3) ds(1)
      by (auto simp: make_value_def ecma_bigint_create_from_digits_def k split_digits_facts
          set_sign_def set_digits_def set_obj_def obj_def new_prim_def)
    show ?thesis unfolding m [symmetric] by (rule make_value_returns [OF y]) (use pos in auto)
  next
    case 2
    have "big_limit \<le> nat \<bar>?z\<bar>" if "16384 < ?k"
    proof -
      have "big_limit \<le> base ^ (?k - 1)" unfolding big_limit_def by (rule power_increasing) (use that in auto)
      also have "\<dots> \<le> big_val64 ds" using normalized_ge [OF L(1)] unfolding L by simp
      finally show ?thesis by simp
    qed
    with 2 cr sz(1) [OF ds(3)] ds(1) show ?thesis
      by (auto simp: ecma_bigint_create_from_digits_def k returns_memory_error)
  qed
qed

end

text \<open>The value of any digits, zeros at the end included.\<close>

lemma significant_cases:
  obtains "significant_digits ds (length ds) = 0" "big_val64 ds = 0"
  | ds' where "significant_digits ds (length ds) = length ds'" "take (length ds') ds = ds'" "ds' \<noteq> []" "last ds' \<noteq> 0" "big_val64 ds' = big_val64 ds"
proof -
  let ?k = "significant_digits ds (length ds)"
  have k: "?k \<le> length ds" "big_val64 (take ?k ds) = big_val64 ds" "?k = 0 \<or> last (take ?k ds) \<noteq> 0"
    using significant_digits_spec [of "length ds" ds] by simp_all
  show thesis
  proof (cases "?k = 0")
    case True
    with k(2) that(1) show ?thesis by simp
  next
    case False
    with k show ?thesis by (intro that(2) [of "take ?k ds"]) auto
  qed
qed

lemma pow64: "18446744073709551616 ^ k = base ^ (2 * k)"
  by (simp add: power_mult)

lemma big_val_take_mod: "k \<le> length ds \<Longrightarrow> big_val (take k ds) = big_val ds mod base ^ k"
proof -
  assume "k \<le> length ds"
  have "big_val ds = big_val (take k ds) + base ^ length (take k ds) * big_val (drop k ds)"
    using big_val_append [of "take k ds" "drop k ds"] by simp
  with \<open>k \<le> length ds\<close> big_val_less [of "take k ds"] show ?thesis by simp
qed

lemma get_digits_correct:
  assumes "bigint (store c) v z" and res: "ecma_bigint_get_digits_and_sign c v n = (ds, sign)"
  shows "length ds = n" "big_val64 ds = nat \<bar>z\<bar> mod (2 ^ 64) ^ n" "sign \<longleftrightarrow> z < 0"
proof -
  have "length ds = n \<and> big_val64 ds = nat \<bar>z\<bar> mod (2 ^ 64) ^ n \<and> (sign \<longleftrightarrow> z < 0)"
  proof (cases v)
    case ECMA_BIGINT_ZERO
    with assms show ?thesis by (auto simp: ecma_bigint_get_digits_and_sign_def)
  next
    case (BigInt p)
    from assms(1) [unfolded BigInt] obtain w where w: "obj c p = w" "odd (bigint_sign_and_size w) \<longleftrightarrow> z < 0"
      "ECMA_BIGINT_GET_SIZE w = 4 * length (digits w)" "big_val (digits w) = nat \<bar>z\<bar>" by (rule bigint_obj)
    let ?L = "length (digits w)"
    let ?h = "?L div 2"
    have sq: "(2 ^ 64) ^ k = base ^ (2 * k)" for k by (simp add: power_mult)
    have j: "length (join_digits k (digits w)) = k" "big_val64 (join_digits k (digits w)) = big_val (take (2 * k) (digits w))"
      if "k \<le> ?h" for k using join_digits_facts [of k "digits w"] that by auto
    show ?thesis
    proof (cases "n \<le> ?h")
      case True
      have "ds = join_digits n (digits w)" "sign = (sign_of w \<noteq> 0)"
        using res True by (auto simp: BigInt ecma_bigint_get_digits_and_sign_def w Let_def split: if_splits)
      moreover have "big_val (take (2 * n) (digits w)) = nat \<bar>z\<bar> mod base ^ (2 * n)"
        using big_val_take_mod [of "2 * n" "digits w"] True w(4) by auto
      ultimately show ?thesis using j [OF True] w(2) unfolding sq by (simp add: sign_of_iff)
    next
      case False
      have "nat \<bar>z\<bar> < base ^ ?L" using big_val_less [of "digits w"] w(4) by simp
      also have "\<dots> \<le> base ^ (2 * n)" by (rule power_increasing) (use False in auto)
      finally have small: "nat \<bar>z\<bar> mod (2 ^ 64) ^ n = nat \<bar>z\<bar>" unfolding sq by simp
      show ?thesis
      proof (cases "odd ?L")
        case odd: True
        then have L: "?L = Suc (2 * ?h)" by presburger
        have "take (2 * ?h) (digits w) @ [digits w ! (2 * ?h)] = digits w"
          using L by (simp add: take_Suc_conv_app_nth [symmetric])
        then have "big_val (take (2 * ?h) (digits w)) + base ^ (2 * ?h) * unat (digits w ! (2 * ?h)) = nat \<bar>z\<bar>"
          using w(4) big_val_append [of "take (2 * ?h) (digits w)" "[digits w ! (2 * ?h)]"] L by simp
        moreover have "ds = join_digits ?h (digits w) @ [ucast (digits w ! (2 * ?h))] @ replicate (n - ?h - 1) 0" "sign = (sign_of w \<noteq> 0)"
          using res False odd by (auto simp: BigInt ecma_bigint_get_digits_and_sign_def w Let_def split: if_splits)
        ultimately show ?thesis using j [of ?h] w(2) small False unat_u32_less [of "digits w ! (2 * ?h)"]
          by (simp add: sign_of_iff big_val64_append pow64 unat_u64_ucast)
      next
        case even: False
        then have L: "?L = 2 * ?h" by presburger
        have "ds = join_digits ?h (digits w) @ replicate (n - ?h) 0" "sign = (sign_of w \<noteq> 0)"
          using res False even by (auto simp: BigInt ecma_bigint_get_digits_and_sign_def w Let_def split: if_splits)
        then show ?thesis using j [of ?h] w(2,4) small False L by (simp add: sign_of_iff big_val64_append)
      qed
    qed
  qed
  then show "length ds = n" "big_val64 ds = nat \<bar>z\<bar> mod (2 ^ 64) ^ n" "sign \<longleftrightarrow> z < 0" by simp_all
qed

lemma get_size_correct:
  assumes "bigint (store c) v z"
  defines "n \<equiv> ecma_bigint_get_size_in_digits c v"
  shows "nat \<bar>z\<bar> < (2 ^ 64) ^ n" "m < n \<Longrightarrow> (2 ^ 64) ^ m \<le> nat \<bar>z\<bar>" "n < ECMA_BIGINT_MAX_SIZE"
proof -
  have "nat \<bar>z\<bar> < (2 ^ 64) ^ n \<and> (m < n \<longrightarrow> (2 ^ 64) ^ m \<le> nat \<bar>z\<bar>) \<and> n < ECMA_BIGINT_MAX_SIZE"
  proof (cases v)
    case ECMA_BIGINT_ZERO
    with assms show ?thesis by (simp add: ecma_bigint_get_size_in_digits_def)
  next
    case (BigInt p)
    from assms(1) [unfolded BigInt] obtain w where w: "obj c p = w" "ECMA_BIGINT_GET_SIZE w = 4 * length (digits w)"
      "big_val (digits w) = nat \<bar>z\<bar>" "normalized (digits w)" "length (digits w) \<le> 16384" by (rule bigint_obj)
    let ?L = "length (digits w)"
    have n: "n = (?L + 1) div 2" unfolding n_def using w(1,2) by (simp add: BigInt ecma_bigint_get_size_in_digits_def)
    have sq: "(2 ^ 64) ^ k = base ^ (2 * k)" for k by (simp add: power_mult)
    have "base ^ ?L \<le> base ^ (2 * n)" by (rule power_increasing) (use n in auto)
    with big_val_less [of "digits w", unfolded w(3)] have "nat \<bar>z\<bar> < base ^ (2 * n)" by (rule less_le_trans)
    moreover have "base ^ (2 * m) \<le> nat \<bar>z\<bar>" if "m < n"
    proof -
      have "base ^ (2 * m) \<le> base ^ (?L - 1)" by (rule power_increasing) (use n that in auto)
      from this normalized_ge [OF w(4), unfolded w(3)] show ?thesis by (rule order_trans)
    qed
    ultimately show ?thesis unfolding sq using n w(5) by auto
  qed
  then show "nat \<bar>z\<bar> < (2 ^ 64) ^ n" "m < n \<Longrightarrow> (2 ^ 64) ^ m \<le> nat \<bar>z\<bar>" "n < ECMA_BIGINT_MAX_SIZE" by blast+
qed

context failing_heap
begin

lemma create_from_digits_returns:
  assumes inv: "ctx_inv holds X c" and k: "significant_digits ds (length ds) < ECMA_BIGINT_MAX_SIZE"
  shows "returns holds failed X (store c) (Inr (if sign then - int (big_val64 ds) else int (big_val64 ds)))
    (ecma_bigint_create_from_digits A c ds sign)"
proof (cases ds rule: significant_cases)
  case 1
  with inv show ?thesis by (simp add: ecma_bigint_create_from_digits_def returns_zero)
next
  case (2 ds')
  from create_from_significant [OF inv 2(3,4) _ 2(1,2), of sign] k 2(1,5) show ?thesis by (cases sign) simp_all
qed

text \<open>From 65536 digits on, the block is too small for the digits unless the request is refused.\<close>

lemma create_from_digits_overflow:
  assumes "ECMA_BIGINT_MAX_SIZE \<le> significant_digits ds (length ds)"
    and k: "k = significant_digits ds (length ds) - 4 * of_bool (drop_bit 32 (ds ! (significant_digits ds (length ds) - 1)) = 0)"
  shows "ecma_bigint_create_from_digits A c ds sign =
    (case ecma_bigint_create A c k of (c', Ptr p) \<Rightarrow> None | (c', _) \<Rightarrow> Some (ecma_bigint_raise_memory_error c'))"
proof (cases ds rule: significant_cases)
  case 1
  with assms show ?thesis by simp
next
  case (2 ds')
  have "last ds' = ds ! (length ds' - 1)" using 2(2,3) by (metis diff_less last_conv_nth length_greater_0_conv nth_take zero_less_one)
  then have "digits_byte_size ds' = k" using assms 2(1) by (simp add: digits_byte_size_def)
  moreover have "ECMA_BIGINT_GET_BYTE_SIZE k < 8 * length ds'" using assms 2(1) by (auto simp: ECMA_BIGINT_GET_BYTE_SIZE_def)
  ultimately show ?thesis using 2(1-3)
    by (auto simp: ecma_bigint_create_from_digits_def split_digits_facts split: prod.splits bigptr.splits)
qed

end

section \<open>Properties\<close>

text \<open>
  (C29) A BigInt made from 64-bit digits has their value and the given sign, without the zeros at the end; an error
  means that memory ran out or the value is too long. From 65536 digits on the code computes the size of the
  block wrongly: when such a block is available, the digits are written behind its end.
\<close>

theorem bigint_create_from_digits:
  assumes "failing_heap A holds failed" "ctx_inv holds X c" and "n = significant_digits ds (length ds)"
  shows "if n < ECMA_BIGINT_MAX_SIZE
    then returns holds failed X (store c) (Inr (if sign then - int (big_val64 ds) else int (big_val64 ds)))
      (ecma_bigint_create_from_digits A c ds sign)
    else ecma_bigint_create_from_digits A c ds sign =
      (case ecma_bigint_create A c (n - 4 * of_bool (drop_bit 32 (ds ! (n - 1)) = 0)) of
         (c', Ptr p) \<Rightarrow> None
       | (c', _) \<Rightarrow> Some (ecma_bigint_raise_memory_error c'))"
  using failing_heap.create_from_digits_returns [OF assms(1,2), of ds sign] failing_heap.create_from_digits_overflow [OF assms(1) _ refl, of ds c sign] assms(3)
  by simp

theorem bigint_create_from_digits_witness:
  "returns bump_holds (\<lambda>_. False) Map.empty (store (example [1] [1])) (Inr (- 18446744073709551617))
    (ecma_bigint_create_from_digits bump (example [1] [1]) [1, 1, 0] True) \<and>
   ecma_bigint_create_from_digits bump (example [1] [1]) (replicate 65536 (2 ^ 63)) False = None"
proof
  show "returns bump_holds (\<lambda>_. False) Map.empty (store (example [1] [1])) (Inr (- 18446744073709551617))
    (ecma_bigint_create_from_digits bump (example [1] [1]) [1, 1, 0] True)"
    using bigint_create_from_digits [OF bump_heap example_inv, of 2 "[1, 1, 0]" "[1]" "[1]" True] by simp
  let ?ds = "replicate 65536 (2 ^ 63 :: u64)"
  have n: "65536 = significant_digits ?ds (length ?ds)"
    using significant_digits.simps(2) [of ?ds 65535] by (simp del: significant_digits.simps)
  have d: "drop_bit 32 (?ds ! (65536 - 1)) \<noteq> 0" by simp
  show "ecma_bigint_create_from_digits bump (example [1] [1]) ?ds False = None"
    using bigint_create_from_digits [OF bump_heap example_inv n, of "[1]" "[1]" False] d
    by (simp add: ecma_bigint_create_def bump_def del: significant_digits.simps)
qed

text \<open>
  (C30) The number of digits of a BigInt is the least that is enough, the digits are those of its magnitude, cut off
  or filled up with zeros at the size of the buffer, and creating a BigInt from as many digits as it has gives an
  equal value.
\<close>

theorem bigint_digits_roundtrip:
  assumes "failing_heap A holds failed" "ctx_inv holds X c" "bigint (store c) v z"
  shows "case ecma_bigint_get_digits_and_sign c v n of (ds, sign) \<Rightarrow>
      length ds = n \<and> big_val64 ds = nat \<bar>z\<bar> mod (2 ^ 64) ^ n \<and> (sign \<longleftrightarrow> z < 0) \<and>
      (nat \<bar>z\<bar> < (2 ^ 64) ^ n \<longleftrightarrow> ecma_bigint_get_size_in_digits c v \<le> n) \<and>
      (n = ecma_bigint_get_size_in_digits c v \<longrightarrow> returns holds failed X (store c) (Inr z) (ecma_bigint_create_from_digits A c ds sign))"
proof -
  obtain ds sign where r: "ecma_bigint_get_digits_and_sign c v n = (ds, sign)" by fastforce
  note g = get_digits_correct [OF assms(3) r] and s = get_size_correct [OF assms(3)]
  have "nat \<bar>z\<bar> < (2 ^ 64) ^ n \<longleftrightarrow> ecma_bigint_get_size_in_digits c v \<le> n"
  proof
    assume "ecma_bigint_get_size_in_digits c v \<le> n"
    then have "(2 ^ 64 :: nat) ^ ecma_bigint_get_size_in_digits c v \<le> (2 ^ 64) ^ n" by (intro power_increasing) auto
    with s(1) show "nat \<bar>z\<bar> < (2 ^ 64) ^ n" by (rule less_le_trans)
  qed (use s(2) [of n] in fastforce)
  moreover have "returns holds failed X (store c) (Inr z) (ecma_bigint_create_from_digits A c ds sign)"
    if "n = ecma_bigint_get_size_in_digits c v"
  proof -
    have v: "big_val64 ds = nat \<bar>z\<bar>" using s(1) g(2) that by (simp del: of_nat_power)
    have "significant_digits ds (length ds) \<le> length ds" using significant_digits_spec(1) [of "length ds" ds] by simp
    then have "significant_digits ds (length ds) < ECMA_BIGINT_MAX_SIZE" using s(3) g(1) that by linarith
    from failing_heap.create_from_digits_returns [OF assms(1,2) this, of sign] v g(3) show ?thesis by (cases "z < 0") auto
  qed
  ultimately show ?thesis unfolding r using g by simp
qed

theorem bigint_digits_roundtrip_witness:
  "ecma_bigint_get_digits_and_sign (signed_example True [7, 0, 1] False [1]) (BigInt 0) 2 = ([7, 1], True) \<and>
   returns bump_holds (\<lambda>_. False) Map.empty (store (signed_example True [7, 0, 1] False [1])) (Inr (- 18446744073709551623))
     (ecma_bigint_create_from_digits bump (signed_example True [7, 0, 1] False [1]) [7, 1] True)"
proof -
  let ?c = "signed_example True [7, 0, 1] False [1]"
  have b: "bigint (store ?c) (BigInt 0) (- 18446744073709551623)"
    using signed_example_operand(1) [of "[7, 0, 1]" True False "[1]"] by (simp add: operand_def normalized_def)
  then obtain w where w: "obj ?c 0 = w" "ECMA_BIGINT_GET_SIZE w = 4 * length (digits w)" "odd (bigint_sign_and_size w) \<longleftrightarrow> - 18446744073709551623 < (0 :: int)"
    by (rule bigint_obj)
  have d: "digits w = [7, 0, 1]" using w(1) by (auto simp: obj_def signed_example_def signed_prim_def new_prim_def)
  have e: "ecma_bigint_get_digits_and_sign ?c (BigInt 0) 2 = ([7, 1], True)" "ecma_bigint_get_size_in_digits ?c (BigInt 0) = 2"
    using w(3) by (simp_all add: ecma_bigint_get_digits_and_sign_def ecma_bigint_get_size_in_digits_def w(1,2) d sign_of_iff
        ECMA_BIGINT_SIZE_IS_ODD_def numeral_2_eq_2 [symmetric])
  with bigint_digits_roundtrip [OF bump_heap signed_example_inv b, of 2] show ?thesis by simp
qed

end
