(* ===== verification/Merge_Sort.thy ===== *)
theory Merge_Sort
  imports Bigint_Number "HOL-Library.Multiset"
begin

text \<open>
  The merge sort behind the sort methods of arrays and typed arrays,
  \<open>src/jjs-core/ecma/builtin-objects/ecma-builtin-helpers-sort.c\<close>.

  A buffer is a list, its indices are 32-bit numbers as in the code. The comparison is a callback that may run
  script code: it changes the context, and \<open>None\<close> is an error. As the outermost result, \<open>None\<close> is an access outside of
  a buffer or a loop that does not end.
\<close>

section \<open>Code\<close>

type_synonym ('c, 'v) sort_compare = "'c \<Rightarrow> 'v \<Rightarrow> 'v \<Rightarrow> 'c \<times> u64 option"

text \<open>The test \<open>number <= 0\<close> on doubles, which is false for NaN.\<close>

definition number_le_zero :: "u64 \<Rightarrow> bool" where
  "number_le_zero num \<longleftrightarrow> \<not> ecma_number_is_nan num \<and> \<not> number_greater_zero num"

definition read_at :: "'v list \<Rightarrow> nat \<Rightarrow> 'v option" where
  "read_at xs i = (if i < length xs then Some (xs ! i) else None)"

definition write_at :: "'v list \<Rightarrow> nat \<Rightarrow> 'v \<Rightarrow> 'v list option" where
  "write_at xs i v = (if i < length xs then Some (xs[i := v]) else None)"

definition copy_at :: "'v list \<Rightarrow> nat \<Rightarrow> 'v list \<Rightarrow> nat \<Rightarrow> 'v list option" where
  "copy_at source_p i output_p k = Option.bind (read_at source_p i) (write_at output_p k)"

text \<open>The value of a comparison of two elements: zero when one of the runs is used up, \<open>None\<close> on an error.\<close>

definition compare_heads :: "('c, 'v) sort_compare \<Rightarrow> 'c \<Rightarrow> 'v list \<Rightarrow> nat \<Rightarrow> nat \<Rightarrow> nat \<Rightarrow> nat \<Rightarrow> ('c \<times> u64 option) option" where
  "compare_heads sort_cb c source_p i j right_idx end_idx =
    (if i < right_idx \<and> j < end_idx
     then Option.bind (read_at source_p i) (\<lambda>a. Option.bind (read_at source_p j) (\<lambda>b. Some (sort_cb c a b)))
     else Some (c, Some 0))"

function merge_loop :: "('c, 'v) sort_compare \<Rightarrow> 'c \<Rightarrow> 'v list \<Rightarrow> nat \<Rightarrow> nat \<Rightarrow> nat \<Rightarrow> nat \<Rightarrow> nat \<Rightarrow> 'v list \<Rightarrow>
    ('c \<times> 'v list \<times> bool) option" where
  "merge_loop sort_cb c source_p i j k right_idx end_idx output_p =
    (if k < end_idx then
       (case compare_heads sort_cb c source_p i j right_idx end_idx of
          None \<Rightarrow> None
        | Some (c, None) \<Rightarrow> Some (c, output_p, False)
        | Some (c, Some compare_value) \<Rightarrow>
           (if i < right_idx \<and> number_le_zero compare_value
            then (case copy_at source_p i output_p k of
                    None \<Rightarrow> None
                  | Some output_p \<Rightarrow> merge_loop sort_cb c source_p (i + 1) j (k + 1) right_idx end_idx output_p)
            else (case copy_at source_p j output_p k of
                    None \<Rightarrow> None
                  | Some output_p \<Rightarrow> merge_loop sort_cb c source_p i (j + 1) (k + 1) right_idx end_idx output_p)))
     else Some (c, output_p, True))"
  by pat_completeness auto
termination by (relation "measure (\<lambda>(sort_cb, c, source_p, i, j, k, right_idx, end_idx, output_p). end_idx - k)") auto

text \<open>Returns the output array, and false on an error.\<close>

definition ecma_builtin_helper_array_merge_sort_bottom_up :: "('c, 'v) sort_compare \<Rightarrow> 'c \<Rightarrow> 'v list \<Rightarrow> nat \<Rightarrow> nat \<Rightarrow> nat \<Rightarrow> 'v list \<Rightarrow>
    ('c \<times> 'v list \<times> bool) option" where
  "ecma_builtin_helper_array_merge_sort_bottom_up sort_cb c source_p left_idx right_idx end_idx output_p =
    merge_loop sort_cb c source_p left_idx right_idx left_idx right_idx end_idx output_p"

abbreviation u32_wrap :: "nat \<Rightarrow> nat" where "u32_wrap n \<equiv> n mod 2 ^ 32"

text \<open>The inner and the outer loop of the sort. Arithmetic on the indices wraps around.\<close>

partial_function (option) merge_pass :: "('c, 'v) sort_compare \<Rightarrow> 'c \<Rightarrow> 'v list \<Rightarrow> nat \<Rightarrow> nat \<Rightarrow> nat \<Rightarrow> 'v list \<Rightarrow>
    ('c \<times> 'v list \<times> bool) option" where
  "merge_pass sort_cb c array_p i w len dest_p =
    (if i < len then
       (case ecma_builtin_helper_array_merge_sort_bottom_up sort_cb c array_p i
               (if u32_wrap (i + w) > len then len else u32_wrap (i + w))
               (if u32_wrap (i + 2 * w) > len then len else u32_wrap (i + 2 * w)) dest_p of
          None \<Rightarrow> None
        | Some (c, dest_p, ok) \<Rightarrow>
           if ok then merge_pass sort_cb c array_p (u32_wrap (i + 2 * w)) w len dest_p else Some (c, dest_p, False))
     else Some (c, dest_p, True))"

text \<open>The arrays are swapped after each pass; the flag tells whether \<open>dest_array_p\<close> is the array of the caller.\<close>

partial_function (option) merge_passes :: "('c, 'v) sort_compare \<Rightarrow> 'c \<Rightarrow> nat \<Rightarrow> nat \<Rightarrow> 'v list \<Rightarrow> 'v list \<Rightarrow> bool \<Rightarrow>
    ('c \<times> 'v list \<times> 'v list \<times> bool \<times> bool) option" where
  "merge_passes sort_cb c w len array_p dest_p swapped =
    (if w < len then
       (case merge_pass sort_cb c array_p 0 w len dest_p of
          None \<Rightarrow> None
        | Some (c, dest_p, ok) \<Rightarrow>
           if ok then merge_passes sort_cb c (u32_wrap (2 * w)) len dest_p array_p (\<not> swapped)
           else Some (c, array_p, dest_p, swapped, False))
     else Some (c, array_p, dest_p, swapped, True))"

text \<open>The loop that copies the local array back: the elements from \<open>index\<close> on.\<close>

fun copy_back :: "nat \<Rightarrow> nat \<Rightarrow> 'v list \<Rightarrow> 'v list \<Rightarrow> 'v list option" where
  "copy_back index 0 dest_p array_p = Some array_p"
| "copy_back index (Suc n) dest_p array_p =
    (case copy_at dest_p index array_p index of None \<Rightarrow> None | Some array_p \<Rightarrow> copy_back (index + 1) n dest_p array_p)"

text \<open>
  The contents of the array of the caller after sorting, and false on an error. \<open>fresh_p\<close> is the contents of the local
  array, memory that is not initialised.
\<close>

definition ecma_builtin_helper_array_merge_sort_helper :: "('c, 'v) sort_compare \<Rightarrow> 'c \<Rightarrow> 'v list \<Rightarrow> 'v list \<Rightarrow> ('c \<times> 'v list \<times> bool) option" where
  "ecma_builtin_helper_array_merge_sort_helper sort_cb c fresh_p array_p =
    (case merge_passes sort_cb c 1 (length array_p) array_p fresh_p False of
       None \<Rightarrow> None
     | Some (c, array_p, dest_p, swapped, ok) \<Rightarrow>
        (if swapped then map_option (\<lambda>array_p. (c, array_p, ok)) (copy_back 0 (length dest_p) array_p dest_p)
         else Some (c, array_p, ok)))"

section \<open>Merging\<close>

text \<open>The reference: merging two lists.\<close>

fun merge_ref :: "('c, 'v) sort_compare \<Rightarrow> 'c \<Rightarrow> 'v list \<Rightarrow> 'v list \<Rightarrow> 'c \<times> 'v list option" where
  "merge_ref sort_cb c [] ys = (c, Some ys)"
| "merge_ref sort_cb c (x # xs) [] = (c, Some (x # xs))"
| "merge_ref sort_cb c (x # xs) (y # ys) =
    (case sort_cb c x y of
       (c, None) \<Rightarrow> (c, None)
     | (c, Some v) \<Rightarrow>
        if number_le_zero v then apsnd (map_option ((#) x)) (merge_ref sort_cb c xs (y # ys))
        else apsnd (map_option ((#) y)) (merge_ref sort_cb c (x # xs) ys))"

lemma merge_ref_Nil [simp]: "merge_ref sort_cb c xs [] = (c, Some xs)"
  by (cases xs) simp_all

definition slice :: "'v list \<Rightarrow> nat \<Rightarrow> nat \<Rightarrow> 'v list" where
  "slice xs a b = take (b - a) (drop a xs)"

lemma slice_empty [simp]: "b \<le> a \<Longrightarrow> slice xs a b = []"
  by (simp add: slice_def)

lemma slice_step: "a < b \<Longrightarrow> b \<le> length xs \<Longrightarrow> slice xs a b = xs ! a # slice xs (Suc a) b"
  by (simp add: slice_def Cons_nth_drop_Suc [symmetric] take_Suc_Cons [symmetric] Suc_diff_Suc del: take_Suc_Cons)

lemma copy_at_in_range: "i < length xs \<Longrightarrow> k < length ys \<Longrightarrow> copy_at xs i ys k = Some (ys[k := xs ! i])"
  by (simp add: copy_at_def read_at_def write_at_def)

lemma compare_heads_in_range:
  "right_idx \<le> length xs \<Longrightarrow> end_idx \<le> length xs \<Longrightarrow> compare_heads sort_cb c xs i j right_idx end_idx =
    Some (if i < right_idx \<and> j < end_idx then sort_cb c (xs ! i) (xs ! j) else (c, Some 0))"
  by (auto simp: compare_heads_def read_at_def)

lemma number_le_zero_0 [simp]: "number_le_zero 0"
  by (simp add: number_le_zero_def number_greater_zero_def ecma_number_is_zero_def number_is_nan_iff number_frac_def)

definition merges :: "'v list \<Rightarrow> nat \<Rightarrow> nat \<Rightarrow> 'c \<times> 'v list option \<Rightarrow> ('c \<times> 'v list \<times> bool) option \<Rightarrow> bool" where
  "merges dest k e spec res \<longleftrightarrow> (\<exists>out. res = Some (fst spec, out, snd spec \<noteq> None) \<and> length out = length dest \<and>
    (\<forall>m. snd spec = Some m \<longrightarrow> out = take k dest @ m @ drop e dest))"

lemma merges_step:
  assumes "merges (dest[k := v]) (Suc k) e spec res" "k < e" "k < length dest"
  shows "merges dest k e (apsnd (map_option ((#) v)) spec) res"
proof -
  have "take (Suc k) (dest[k := v]) = take k dest @ [v]" using assms(3) by (simp add: take_Suc_conv_app_nth)
  with assms show ?thesis by (cases spec) (auto simp: merges_def)
qed

declare merge_loop.simps [simp del]

lemma merge_loop_merges:
  assumes "i \<le> right_idx" "right_idx \<le> j" "j \<le> e" "e \<le> length source" "length dest = length source" "i + j = k + right_idx"
  shows "merges dest k e (merge_ref sort_cb c (slice source i right_idx) (slice source j e)) (merge_loop sort_cb c source i j k right_idx e dest)"
  using assms
proof (induction sort_cb c source i j k right_idx e dest rule: merge_loop.induct)
  case (1 sort_cb c source i j k r e dest)
  note pre = "1.prems"
  have cmp: "compare_heads sort_cb c source i j r e = Some (if i < r \<and> j < e then sort_cb c (source ! i) (source ! j) else (c, Some 0))"
    using pre by (intro compare_heads_in_range) auto
  show ?case
  proof (cases "k < e")
    case False
    with pre have "i = r" "j = e" "k = e" by auto
    with False show ?thesis by (subst merge_loop.simps) (simp add: merges_def)
  next
    case k: True
    have left: ?thesis if "i < r" and eq: "merge_ref sort_cb c (slice source i r) (slice source j e) =
        apsnd (map_option ((#) (source ! i))) (merge_ref sort_cb c1 (slice source (Suc i) r) (slice source j e))"
      and heads: "compare_heads sort_cb c source i j r e = Some (c1, Some v)" "number_le_zero v" for c1 v
    proof -
      have cp: "copy_at source i dest k = Some (dest[k := source ! i])" using pre that(1) k by (intro copy_at_in_range) auto
      have "merges (dest[k := source ! i]) (Suc k) e (merge_ref sort_cb c1 (slice source (Suc i) r) (slice source j e))
          (merge_loop sort_cb c1 source (Suc i) j (Suc k) r e (dest[k := source ! i]))"
        using "1.IH"(1) [OF k heads(1) refl _ _ cp] heads(2) that(1) pre by simp
      from merges_step [OF this k] k pre show ?thesis unfolding eq
        by (subst merge_loop.simps) (simp add: heads that(1) cp)
    qed
    have right: ?thesis if "j < e" and eq: "merge_ref sort_cb c (slice source i r) (slice source j e) =
        apsnd (map_option ((#) (source ! j))) (merge_ref sort_cb c1 (slice source i r) (slice source (Suc j) e))"
      and heads: "compare_heads sort_cb c source i j r e = Some (c1, Some v)" "\<not> (i < r \<and> number_le_zero v)" for c1 v
    proof -
      have cp: "copy_at source j dest k = Some (dest[k := source ! j])" using pre that(1) k by (intro copy_at_in_range) auto
      have "merges (dest[k := source ! j]) (Suc k) e (merge_ref sort_cb c1 (slice source i r) (slice source (Suc j) e))
          (merge_loop sort_cb c1 source i (Suc j) (Suc k) r e (dest[k := source ! j]))"
        using "1.IH"(2) [OF k heads(1) refl _ heads(2) cp] that(1) pre by simp
      from merges_step [OF this k] k pre show ?thesis unfolding eq
        by (subst merge_loop.simps) (simp add: heads cp)
    qed
    show ?thesis
    proof (cases "i < r \<and> j < e")
      case True
      have sl: "slice source i r = source ! i # slice source (Suc i) r" "slice source j e = source ! j # slice source (Suc j) e"
        using True pre by (auto intro!: slice_step)
      obtain c1 res where cb: "sort_cb c (source ! i) (source ! j) = (c1, res)" by fastforce
      show ?thesis
      proof (cases res)
        case None
        with k True cmp cb show ?thesis unfolding sl by (subst merge_loop.simps) (simp add: merges_def)
      next
        case (Some v)
        show ?thesis
        proof (cases "number_le_zero v")
          case le: True
          show ?thesis by (rule left [of c1 v]) (use le True cmp cb Some sl in auto)
        next
          case gt: False
          show ?thesis by (rule right [of c1 v]) (use gt True cmp cb Some sl in auto)
        qed
      qed
    next
      case False
      show ?thesis
      proof (cases "i < r")
        case True
        show ?thesis by (rule left [of c 0]) (use False True cmp pre slice_step [of i r source] in auto)
      next
        case i: False
        show ?thesis by (rule right [of c 0]) (use False i cmp pre k slice_step [of j e source] in auto)
      qed
    qed
  qed
qed

lemma merge_ref_mset: "snd (merge_ref sort_cb c xs ys) = Some m \<Longrightarrow> mset m = mset xs + mset ys"
  by (induction sort_cb c xs ys arbitrary: m rule: merge_ref.induct) (fastforce split: prod.splits option.splits if_splits)+

section \<open>Passes\<close>

text \<open>The reference: merging neighbouring runs of width \<open>w\<close>.\<close>

function pass_ref :: "('c, 'v) sort_compare \<Rightarrow> 'c \<Rightarrow> nat \<Rightarrow> 'v list \<Rightarrow> 'c \<times> 'v list option" where
  "pass_ref sort_cb c w xs =
    (if w = 0 \<or> xs = [] then (c, Some xs)
     else (case merge_ref sort_cb c (take w xs) (take w (drop w xs)) of
       (c, None) \<Rightarrow> (c, None)
     | (c, Some m) \<Rightarrow> apsnd (map_option ((@) m)) (pass_ref sort_cb c w (drop (2 * w) xs))))"
  by pat_completeness auto
termination by (relation "measure (\<lambda>(sort_cb, c, w, xs). length xs)") auto

declare pass_ref.simps [simp del]

lemma pass_ref_mset: "snd (pass_ref sort_cb c w xs) = Some ys \<Longrightarrow> mset ys = mset xs"
proof (induction sort_cb c w xs arbitrary: ys rule: pass_ref.induct)
  case (1 sort_cb c w xs)
  show ?case
  proof (cases "w = 0 \<or> xs = []")
    case True
    with "1.prems" show ?thesis by (subst (asm) pass_ref.simps) simp
  next
    case False
    obtain c1 r where m: "merge_ref sort_cb c (take w xs) (take w (drop w xs)) = (c1, r)" by fastforce
    with "1.prems" False obtain m' zs where r: "r = Some m'" "snd (pass_ref sort_cb c1 w (drop (2 * w) xs)) = Some zs" "ys = m' @ zs"
      by (subst (asm) pass_ref.simps) (auto split: option.splits)
    have "mset m' = mset (take w xs) + mset (take w (drop w xs))" using merge_ref_mset [of sort_cb c "take w xs"] m r(1) by simp
    moreover have "mset zs = mset (drop (2 * w) xs)" using "1.IH" [OF False m [symmetric] r(1) r(2)] .
    moreover have "xs = take w xs @ take w (drop w xs) @ drop (2 * w) xs" by (simp add: mult_2 flip: drop_drop)
    ultimately show ?thesis unfolding r(3) by (metis mset_append union_assoc)
  qed
qed

lemma merge_pass_merges:
  assumes "0 < w" "len + 2 * w \<le> 2 ^ 32" "length array = len" "length dest = len" "i \<le> len \<or> drop i array = []"
  shows "merges dest i len (pass_ref sort_cb c w (drop i array)) (merge_pass sort_cb c array i w len dest)"
  using assms
proof (induction "len - i" arbitrary: i c dest rule: less_induct)
  case less
  note pre = less.prems
  show ?case
  proof (cases "i < len")
    case False
    with pre show ?thesis by (subst merge_pass.simps, subst pass_ref.simps) (simp add: merges_def)
  next
    case i: True
    let ?r = "if u32_wrap (i + w) > len then len else u32_wrap (i + w)" and ?e = "if u32_wrap (i + 2 * w) > len then len else u32_wrap (i + 2 * w)"
    have wr: "u32_wrap (i + w) = i + w" "u32_wrap (i + 2 * w) = i + 2 * w" using i pre(2) by simp_all
    have sl: "slice array i ?r = take w (drop i array)" "slice array ?r ?e = take w (drop w (drop i array))"
      unfolding wr using pre(3) by (auto simp: slice_def add.commute)
    have ne: "\<not> (w = 0 \<or> drop i array = [])" using i pre(1,3) by simp
    have m: "merges dest i ?e (merge_ref sort_cb c (take w (drop i array)) (take w (drop w (drop i array))))
        (ecma_builtin_helper_array_merge_sort_bottom_up sort_cb c array i ?r ?e dest)"
      unfolding ecma_builtin_helper_array_merge_sort_bottom_up_def sl [symmetric]
      by (rule merge_loop_merges) (use i pre wr in auto)
    obtain c1 mo where mr: "merge_ref sort_cb c (take w (drop i array)) (take w (drop w (drop i array))) = (c1, mo)" by fastforce
    from m obtain out where out: "ecma_builtin_helper_array_merge_sort_bottom_up sort_cb c array i ?r ?e dest = Some (c1, out, mo \<noteq> None)"
      "length out = len" "\<And>m. mo = Some m \<Longrightarrow> out = take i dest @ m @ drop ?e dest" using mr pre(4) by (auto simp: merges_def)
    show ?thesis
    proof (cases mo)
      case None
      with mr out i ne pre(4) show ?thesis by (subst merge_pass.simps, subst pass_ref.simps) (simp add: merges_def)
    next
      case (Some m')
      have "mset m' = mset (take w (drop i array)) + mset (take w (drop w (drop i array)))"
        by (rule merge_ref_mset [of sort_cb c]) (simp only: mr Some snd_conv)
      from arg_cong [OF this, of size] have len: "length m' = ?e - i" using pre(3) wr i by auto
      have "merges out (i + 2 * w) len (pass_ref sort_cb c1 w (drop (i + 2 * w) array)) (merge_pass sort_cb c1 array (i + 2 * w) w len out)"
        by (rule less.hyps) (use i pre out(2) in auto)
      moreover have "take (i + 2 * w) out = take i dest @ m'" "i + 2 * w \<le> len \<or> drop ?e dest = []"
        using out(3) [OF Some] len pre(4) i wr by auto
      ultimately show ?thesis
        using ne i mr out(1,2) pre(4) Some wr(2)
        by (subst merge_pass.simps, subst pass_ref.simps) (auto simp: merges_def add.commute)
    qed
  qed
qed

function passes_ref :: "('c, 'v) sort_compare \<Rightarrow> 'c \<Rightarrow> nat \<Rightarrow> 'v list \<Rightarrow> 'c \<times> 'v list \<times> bool" where
  "passes_ref sort_cb c w xs =
    (if w = 0 \<or> length xs \<le> w then (c, xs, True)
     else (case pass_ref sort_cb c w xs of
       (c, None) \<Rightarrow> (c, xs, False)
     | (c, Some ys) \<Rightarrow> passes_ref sort_cb c (2 * w) ys))"
  by pat_completeness auto
termination
proof (relation "measure (\<lambda>(sort_cb, c, w, xs). length xs - w)", goal_cases)
  case (2 sort_cb c w xs c1 r ys)
  then have "mset ys = mset xs" by (intro pass_ref_mset [of sort_cb c w]) (metis snd_conv)
  then have "length ys = length xs" by (rule mset_eq_length)
  with 2 show ?case by (auto intro: diff_less_mono2)
qed simp

declare passes_ref.simps [simp del]

lemma passes_ref_mset: "passes_ref sort_cb c w xs = (c', ys, ok) \<Longrightarrow> mset ys = mset xs"
proof (induction sort_cb c w xs arbitrary: c' ys ok rule: passes_ref.induct)
  case (1 sort_cb c w xs)
  show ?case
  proof (cases "w = 0 \<or> length xs \<le> w")
    case True
    with "1.prems" show ?thesis by (subst (asm) passes_ref.simps) simp
  next
    case False
    obtain c1 r where p: "pass_ref sort_cb c w xs = (c1, r)" by fastforce
    show ?thesis
    proof (cases r)
      case None
      with False p "1.prems" show ?thesis by (subst (asm) passes_ref.simps) simp
    next
      case (Some zs)
      with False p "1.prems" have "passes_ref sort_cb c1 (2 * w) zs = (c', ys, ok)" by (subst (asm) passes_ref.simps) simp
      from "1.IH" [OF False p [symmetric] Some this] pass_ref_mset [of sort_cb c w xs zs] p Some show ?thesis by simp
    qed
  qed
qed

lemma merge_passes_eq:
  assumes "w = 2 ^ n" "len \<le> 2 ^ 31" "length array = len" "length dest = len"
  shows "\<exists>dest' s. length dest' = len \<and> merge_passes sort_cb c w len array dest swapped =
    (case passes_ref sort_cb c w array of (c', ys, ok) \<Rightarrow> Some (c', ys, dest', s, ok))"
  using assms
proof (induction "len - w" arbitrary: w n c array dest swapped rule: less_induct)
  case less
  note pre = less.prems
  show ?case
  proof (cases "w < len")
    case False
    with pre show ?thesis by (subst merge_passes.simps, subst passes_ref.simps) auto
  next
    case w: True
    have "(2 :: nat) ^ n < 2 ^ 31" using w pre by linarith
    then have "n < 31" by (rule power_less_imp_less_exp [rotated]) simp
    then have "(2 :: nat) ^ n \<le> 2 ^ 30" by (intro power_increasing) simp_all
    then have small: "len + 2 * w \<le> 2 ^ 32" "u32_wrap (2 * w) = 2 * w" using pre by simp_all
    have nz: "\<not> (w = 0 \<or> length array \<le> w)" using w pre by simp
    have m: "merges dest 0 len (pass_ref sort_cb c w array) (merge_pass sort_cb c array 0 w len dest)"
      using merge_pass_merges [of w len array dest 0 sort_cb c] pre small(1) nz by simp
    obtain c1 r where p: "pass_ref sort_cb c w array = (c1, r)" by fastforce
    from m p pre obtain out where out: "merge_pass sort_cb c array 0 w len dest = Some (c1, out, r \<noteq> None)" "length out = len"
      "\<And>m. r = Some m \<Longrightarrow> out = m" by (auto simp: merges_def)
    show ?thesis
    proof (cases r)
      case None
      with p out w nz show ?thesis by (subst merge_passes.simps, subst passes_ref.simps) simp
    next
      case (Some ys)
      have "\<exists>dest' s. length dest' = len \<and> merge_passes sort_cb c1 (2 * w) len out array (\<not> swapped) =
          (case passes_ref sort_cb c1 (2 * w) out of (c', ys, ok) \<Rightarrow> Some (c', ys, dest', s, ok))"
        by (rule less.hyps [of "2 * w" "Suc n"]) (use w nz pre out(2) in \<open>auto intro: diff_less_mono2\<close>)
      with p out w nz Some small(2) show ?thesis by (subst merge_passes.simps, subst passes_ref.simps) simp
    qed
  qed
qed

lemma copy_back_all:
  "index + n = length xs \<Longrightarrow> length ys = length xs \<Longrightarrow> copy_back index n xs ys = Some (take index ys @ drop index xs)"
proof (induction n arbitrary: index ys)
  case (Suc n)
  have "take (Suc index) (ys[index := xs ! index]) @ drop (Suc index) xs = take index ys @ drop index xs"
    using Suc.prems by (simp add: take_Suc_conv_app_nth Cons_nth_drop_Suc)
  with Suc show ?case by (simp add: copy_at_in_range)
qed simp

text \<open>The sort is the reference, whatever the comparison does.\<close>

lemma merge_sort_eq:
  assumes "length array \<le> 2 ^ 31" "length fresh = length array"
  shows "ecma_builtin_helper_array_merge_sort_helper sort_cb c fresh array = Some (passes_ref sort_cb c 1 array)"
proof -
  obtain c' ys ok where p: "passes_ref sort_cb c 1 array = (c', ys, ok)" by (cases "passes_ref sort_cb c 1 array") auto
  have len: "length ys = length array" using mset_eq_length [OF passes_ref_mset [OF p]] .
  obtain dest' s where "length dest' = length array" "merge_passes sort_cb c 1 (length array) array fresh False = Some (c', ys, dest', s, ok)"
    using merge_passes_eq [of 1 0 "length array" array fresh sort_cb c False] assms p by auto
  then show ?thesis using len p by (simp add: ecma_builtin_helper_array_merge_sort_helper_def copy_back_all)
qed

text \<open>A comparison that raises no error leads to no error.\<close>

lemma merge_ref_total: "(\<And>c a b. snd (sort_cb c a b) \<noteq> None) \<Longrightarrow> snd (merge_ref sort_cb c xs ys) \<noteq> None"
proof (induction sort_cb c xs ys rule: merge_ref.induct)
  case (3 sort_cb c x xs y ys)
  obtain c1 v where cb: "sort_cb c x y = (c1, Some v)" using "3.prems" [of c x y] by (cases "sort_cb c x y") auto
  with "3.IH" [OF cb [symmetric] refl _ "3.prems"] show ?case by (cases "number_le_zero v") simp_all
qed simp_all

lemma pass_ref_total:
  assumes "\<And>c a b. snd (sort_cb c a b) \<noteq> None"
  shows "snd (pass_ref sort_cb c w xs) \<noteq> None"
  using assms
proof (induction sort_cb c w xs rule: pass_ref.induct)
  case (1 sort_cb c w xs)
  show ?case
  proof (cases "w = 0 \<or> xs = []")
    case True
    then show ?thesis by (subst pass_ref.simps) simp
  next
    case False
    obtain c1 m where m: "merge_ref sort_cb c (take w xs) (take w (drop w xs)) = (c1, Some m)"
      using merge_ref_total [of sort_cb c "take w xs" "take w (drop w xs)"] "1.prems" by (metis not_None_eq prod.collapse)
    from "1.IH" [OF False m [symmetric] refl "1.prems"] False m show ?thesis by (subst pass_ref.simps) auto
  qed
qed

lemma passes_ref_total:
  assumes "\<And>c a b. snd (sort_cb c a b) \<noteq> None"
  shows "snd (snd (passes_ref sort_cb c w xs))"
  using assms
proof (induction sort_cb c w xs rule: passes_ref.induct)
  case (1 sort_cb c w xs)
  show ?case
  proof (cases "w = 0 \<or> length xs \<le> w")
    case True
    then show ?thesis by (subst passes_ref.simps) simp
  next
    case False
    obtain c1 ys where p: "pass_ref sort_cb c w xs = (c1, Some ys)"
      using pass_ref_total [of sort_cb c w xs] "1.prems" by (metis not_None_eq prod.collapse)
    from "1.IH" [OF False p [symmetric] refl "1.prems"] False p show ?thesis by (subst passes_ref.simps) simp
  qed
qed

section \<open>Order\<close>

text \<open>
  What a comparison must promise: on the elements \<open>V\<close> and in the contexts \<open>I\<close>, its sign is that of a total preorder \<open>le\<close>. Two
  elements that are equal may be reported in either order; a \<open>strict_comparison\<close> reports them as equal.
\<close>

locale comparison =
  fixes sort_cb :: "('c, 'v) sort_compare" and I :: "'c \<Rightarrow> bool" and V :: "'v set" and le :: "'v \<Rightarrow> 'v \<Rightarrow> bool"
  assumes total: "a \<in> V \<Longrightarrow> b \<in> V \<Longrightarrow> le a b \<or> le b a"
    and trans: "a \<in> V \<Longrightarrow> b \<in> V \<Longrightarrow> z \<in> V \<Longrightarrow> le a b \<Longrightarrow> le b z \<Longrightarrow> le a z"
    and keeps: "I c \<Longrightarrow> a \<in> V \<Longrightarrow> b \<in> V \<Longrightarrow> sort_cb c a b = (c', r) \<Longrightarrow> I c'"
    and not_greater: "I c \<Longrightarrow> a \<in> V \<Longrightarrow> b \<in> V \<Longrightarrow> sort_cb c a b = (c', Some v) \<Longrightarrow> number_le_zero v \<Longrightarrow> le a b"
    and greater: "I c \<Longrightarrow> a \<in> V \<Longrightarrow> b \<in> V \<Longrightarrow> sort_cb c a b = (c', Some v) \<Longrightarrow> \<not> number_le_zero v \<Longrightarrow> le b a"
begin

lemma merge_ref_sorted:
  assumes "I c" "set xs \<subseteq> V" "set ys \<subseteq> V" "sorted_wrt le xs" "sorted_wrt le ys" "merge_ref sort_cb c xs ys = (c', r)"
  shows "I c' \<and> (\<forall>m. r = Some m \<longrightarrow> sorted_wrt le m)"
  using assms
proof (induction "length xs + length ys" arbitrary: c xs ys r rule: less_induct)
  case less
  note pre = less.prems
  show ?case
  proof (cases "xs = [] \<or> ys = []")
    case True
    with pre show ?thesis by auto
  next
    case False
    then obtain x xt y yt where xs: "xs = x # xt" and ys: "ys = y # yt" by (meson neq_Nil_conv)
    have V: "x \<in> V" "y \<in> V" "set xt \<subseteq> V" "set yt \<subseteq> V" using pre xs ys by auto
    obtain c1 o1 where cb: "sort_cb c x y = (c1, o1)" by fastforce
    have c1: "I c1" using keeps [OF pre(1) V(1,2) cb] .
    show ?thesis
    proof (cases o1)
      case None
      with cb c1 pre show ?thesis by (simp add: xs ys)
    next
      case (Some v)
      show ?thesis
      proof (cases "number_le_zero v")
        case True
        obtain r' where m: "merge_ref sort_cb c1 xt ys = (c', r')" "r = map_option ((#) x) r'"
          using pre(6) True Some cb by (cases "merge_ref sort_cb c1 xt ys") (auto simp: xs ys)
        have "I c' \<and> (\<forall>m. r' = Some m \<longrightarrow> sorted_wrt le m)" by (rule less.hyps [OF _ c1 _ _ _ _ m(1)]) (use pre V xs in auto)
        moreover have "le x z" if "r' = Some m'" "z \<in> set m'" for m' z
        proof -
          have "mset m' = mset xt + mset ys" using merge_ref_mset [of sort_cb c1 xt ys m'] m(1) that(1) by simp
          from arg_cong [OF this, of set_mset] that(2) have "z \<in> set xt \<or> z \<in> set ys" by auto
          moreover have "le x y" using not_greater [OF pre(1) V(1,2) cb [unfolded Some] True] .
          ultimately show ?thesis using pre(4,5) V trans [OF V(1,2), of z] by (auto simp: xs ys)
        qed
        ultimately show ?thesis using m(2) by auto
      next
        case False
        obtain r' where m: "merge_ref sort_cb c1 xs yt = (c', r')" "r = map_option ((#) y) r'"
          using pre(6) False Some cb by (cases "merge_ref sort_cb c1 xs yt") (auto simp: xs ys)
        have "I c' \<and> (\<forall>m. r' = Some m \<longrightarrow> sorted_wrt le m)" by (rule less.hyps [OF _ c1 _ _ _ _ m(1)]) (use pre V ys in auto)
        moreover have "le y z" if "r' = Some m'" "z \<in> set m'" for m' z
        proof -
          have "mset m' = mset xs + mset yt" using merge_ref_mset [of sort_cb c1 xs yt m'] m(1) that(1) by simp
          from arg_cong [OF this, of set_mset] that(2) have "z \<in> set xs \<or> z \<in> set yt" by auto
          moreover have "le y x" using greater [OF pre(1) V(1,2) cb [unfolded Some] False] .
          ultimately show ?thesis using pre(4,5) V trans [OF V(2,1), of z] by (auto simp: xs ys)
        qed
        ultimately show ?thesis using m(2) by auto
      qed
    qed
  qed
qed

text \<open>All runs of width \<open>w\<close> are sorted.\<close>

definition runs :: "nat \<Rightarrow> 'v list \<Rightarrow> bool" where
  "runs w xs \<longleftrightarrow> (\<forall>q. sorted_wrt le (take w (drop (q * w) xs)))"

lemma runs_1: "runs 1 xs"
proof -
  have "sorted_wrt le (take 1 ys)" for ys by (cases ys) simp_all
  then show ?thesis by (simp add: runs_def)
qed

lemma runs_drop: "runs w xs \<Longrightarrow> runs w (drop (2 * w) xs)"
  unfolding runs_def
proof
  fix q assume "\<forall>q. sorted_wrt le (take w (drop (q * w) xs))"
  then have "sorted_wrt le (take w (drop ((q + 2) * w) xs))" by blast
  moreover have "(q + 2) * w = q * w + 2 * w" by (rule distrib_right)
  ultimately show "sorted_wrt le (take w (drop (q * w) (drop (2 * w) xs)))" by (simp only: drop_drop)
qed

lemma runs_append:
  assumes "sorted_wrt le m" "runs w zs" "length m = w \<or> length m \<le> w \<and> zs = []"
  shows "runs w (m @ zs)"
  unfolding runs_def
proof
  fix q
  show "sorted_wrt le (take w (drop (q * w) (m @ zs)))"
  proof (cases q)
    case 0
    with assms(1,3) show ?thesis by auto
  next
    case (Suc p)
    from assms(3) show ?thesis
    proof
      assume "length m = w"
      then show ?thesis using Suc assms(2) by (simp add: runs_def)
    next
      assume "length m \<le> w \<and> zs = []"
      then show ?thesis using Suc by simp
    qed
  qed
qed

text \<open>What a pass and the whole sort make of sorted runs.\<close>

lemma pass_ref_runs:
  assumes "0 < w" "I c" "set xs \<subseteq> V" "runs w xs" "pass_ref sort_cb c w xs = (c', r)"
  shows "I c' \<and> (\<forall>ys. r = Some ys \<longrightarrow> runs (2 * w) ys)"
  using assms
proof (induction "length xs" arbitrary: c xs r rule: less_induct)
  case less
  note pre = less.prems
  show ?case
  proof (cases "xs = []")
    case True
    with pre show ?thesis by (subst (asm) pass_ref.simps) (auto simp: runs_def)
  next
    case False
    obtain c1 o1 where m: "merge_ref sort_cb c (take w xs) (take w (drop w xs)) = (c1, o1)" by fastforce
    have srt: "sorted_wrt le (take w xs)" "sorted_wrt le (take w (drop w xs))"
      using pre(4) [unfolded runs_def, rule_format, of 0] pre(4) [unfolded runs_def, rule_format, of 1] by simp_all
    have sub: "set (take w xs) \<subseteq> V" "set (take w (drop w xs)) \<subseteq> V" "set (drop (2 * w) xs) \<subseteq> V"
      using pre(3) by (meson set_drop_subset set_take_subset order_trans)+
    note mm = merge_ref_sorted [OF pre(2) sub(1,2) srt m]
    show ?thesis
    proof (cases o1)
      case None
      with mm m False pre(1,5) show ?thesis by (subst (asm) pass_ref.simps) simp
    next
      case (Some m')
      have "mset m' = mset (take w xs) + mset (take w (drop w xs))"
        by (rule merge_ref_mset [of sort_cb c]) (simp only: m Some snd_conv)
      from arg_cong [OF this, of size] have len: "length m' = min (2 * w) (length xs)" by auto
      obtain r' where p: "pass_ref sort_cb c1 w (drop (2 * w) xs) = (c', r')" "r = map_option ((@) m') r'"
        using pre(1,5) False m Some by (subst (asm) pass_ref.simps) (auto simp: apsnd_def map_prod_def split: prod.splits)
      have "I c' \<and> (\<forall>ys. r' = Some ys \<longrightarrow> runs (2 * w) ys)"
        by (rule less.hyps [OF _ pre(1) _ sub(3) runs_drop [OF pre(4)] p(1)]) (use mm False pre(1) in auto)
      moreover have "ys = []" if "r' = Some ys" "length xs \<le> 2 * w" for ys
        using pass_ref_mset [of sort_cb c1 w "drop (2 * w) xs" ys] p(1) that by simp
      ultimately show ?thesis using mm Some len p(2)
        by (auto intro!: runs_append simp: min_def split: if_splits)
    qed
  qed
qed

lemma passes_ref_sorted:
  assumes "0 < w" "I c" "set xs \<subseteq> V" "runs w xs" "passes_ref sort_cb c w xs = (c', ys, True)"
  shows "I c' \<and> sorted_wrt le ys"
  using assms
proof (induction "length xs - w" arbitrary: w c xs rule: less_induct)
  case less
  note pre = less.prems
  show ?case
  proof (cases "length xs \<le> w")
    case True
    with pre(5) have "ys = xs" "c' = c" by (subst (asm) passes_ref.simps; simp)+
    with True pre(2) pre(4) [unfolded runs_def, rule_format, of 0] show ?thesis by simp
  next
    case False
    obtain c1 r where p: "pass_ref sort_cb c w xs = (c1, r)" by fastforce
    with False pre(1,5) obtain zs where zs: "r = Some zs" "passes_ref sort_cb c1 (2 * w) zs = (c', ys, True)"
      by (subst (asm) passes_ref.simps) (auto split: option.splits)
    have ms: "mset zs = mset xs" using pass_ref_mset [of sort_cb c w xs zs] p zs(1) by simp
    have "length zs = length xs" "set zs = set xs" using mset_eq_length [OF ms] mset_eq_setD [OF ms] by simp_all
    with less.hyps [of zs "2 * w", OF _ _ _ _ _ zs(2)] pass_ref_runs [OF pre(1-4) p] pre(1,3) False zs(1) show ?thesis
      by (auto intro: diff_less_mono2)
  qed
qed

text \<open>The result is sorted, for every length of a buffer that fits into memory.\<close>

lemma merge_sort_sorts:
  assumes "length array \<le> 2 ^ 31" "length fresh = length array" "I c" "set array \<subseteq> V"
    and "ecma_builtin_helper_array_merge_sort_helper sort_cb c fresh array = Some (c', ys, True)"
  shows "I c' \<and> sorted_wrt le ys"
proof -
  have "passes_ref sort_cb c 1 array = (c', ys, True)" using assms(5) unfolding merge_sort_eq [OF assms(1,2)] by simp
  from passes_ref_sorted [OF _ assms(3,4) runs_1 this] show ?thesis by simp
qed

end

text \<open>A comparison that tells equal elements apart from greater ones gives a stable sort.\<close>

locale strict_comparison = comparison sort_cb I V le
  for sort_cb :: "('c, 'v) sort_compare" and I V le +
  assumes strict: "I c \<Longrightarrow> a \<in> V \<Longrightarrow> b \<in> V \<Longrightarrow> sort_cb c a b = (c', Some v) \<Longrightarrow> \<not> number_le_zero v \<Longrightarrow> \<not> le a b"
begin

text \<open>A class of equal elements.\<close>

definition alike :: "('v \<Rightarrow> bool) \<Rightarrow> bool" where
  "alike P \<longleftrightarrow> (\<forall>a\<in>V. \<forall>b\<in>V. P a \<longrightarrow> P b \<longrightarrow> le a b)"

lemma merge_ref_stable:
  assumes "alike P" "I c" "set xs \<subseteq> V" "set ys \<subseteq> V" "sorted_wrt le xs" "merge_ref sort_cb c xs ys = (c', Some m)"
  shows "filter P m = filter P xs @ filter P ys"
  using assms
proof (induction "length xs + length ys" arbitrary: c xs ys m rule: less_induct)
  case less
  note pre = less.prems
  show ?case
  proof (cases "xs = [] \<or> ys = []")
    case True
    with pre show ?thesis by auto
  next
    case False
    then obtain x xt y yt where xs: "xs = x # xt" and ys: "ys = y # yt" by (meson neq_Nil_conv)
    have V: "x \<in> V" "y \<in> V" "set xt \<subseteq> V" "set yt \<subseteq> V" using pre xs ys by auto
    obtain c1 v where cb: "sort_cb c x y = (c1, Some v)" using pre(6) unfolding xs ys
      by (cases "sort_cb c x y"; cases "snd (sort_cb c x y)") auto
    have c1: "I c1" using keeps [OF pre(2) V(1,2) cb] .
    show ?thesis
    proof (cases "number_le_zero v")
      case True
      then obtain m' where m: "merge_ref sort_cb c1 xt ys = (c', Some m')" "m = x # m'"
        using pre(6) cb by (cases "merge_ref sort_cb c1 xt ys") (auto simp: xs ys)
      have "filter P m' = filter P xt @ filter P ys" by (rule less.hyps [OF _ pre(1) c1 _ _ _ m(1)]) (use pre V xs in auto)
      then show ?thesis by (simp add: m(2) xs)
    next
      case False
      then obtain m' where m: "merge_ref sort_cb c1 xs yt = (c', Some m')" "m = y # m'"
        using pre(6) cb by (cases "merge_ref sort_cb c1 xs yt") (auto simp: xs ys)
      have IH: "filter P m' = filter P xs @ filter P yt" by (rule less.hyps [OF _ pre(1) c1 _ _ _ m(1)]) (use pre V ys in auto)
      have gt: "\<not> le x y" using strict [OF pre(2) V(1,2) cb False] .
      have "filter P xs = []" if "P y"
      proof (rule ccontr)
        assume "filter P xs \<noteq> []"
        then obtain z where z: "z \<in> set xs" "P z" by (auto simp: filter_empty_conv)
        then have "le z y" "z \<in> V" using pre(1,3) V(2) that by (auto simp: alike_def)
        moreover have "z = x \<or> le x z" using z(1) pre(5) by (auto simp: xs)
        ultimately show False using gt trans [OF V(1) _ V(2), of z] by auto
      qed
      with IH show ?thesis by (auto simp: m(2) ys)
    qed
  qed
qed

lemma pass_ref_stable:
  assumes "alike P" "0 < w" "I c" "set xs \<subseteq> V" "runs w xs" "pass_ref sort_cb c w xs = (c', Some ys)"
  shows "filter P ys = filter P xs"
  using assms
proof (induction "length xs" arbitrary: c xs ys rule: less_induct)
  case less
  note pre = less.prems
  show ?case
  proof (cases "xs = []")
    case True
    with pre show ?thesis by (subst (asm) pass_ref.simps) auto
  next
    case False
    obtain c1 o1 where m: "merge_ref sort_cb c (take w xs) (take w (drop w xs)) = (c1, o1)" by fastforce
    have srt: "sorted_wrt le (take w xs)" "sorted_wrt le (take w (drop w xs))"
      using pre(5) [unfolded runs_def, rule_format, of 0] pre(5) [unfolded runs_def, rule_format, of 1] by simp_all
    have sub: "set (take w xs) \<subseteq> V" "set (take w (drop w xs)) \<subseteq> V" "set (drop (2 * w) xs) \<subseteq> V"
      using pre(4) by (meson set_drop_subset set_take_subset order_trans)+
    obtain m' zs where p: "o1 = Some m'" "pass_ref sort_cb c1 w (drop (2 * w) xs) = (c', Some zs)" "ys = m' @ zs"
      using pre(2,6) False m by (subst (asm) pass_ref.simps) (auto simp: apsnd_def map_prod_def split: prod.splits option.splits)
    have "filter P m' = filter P (take w xs) @ filter P (take w (drop w xs))"
      by (rule merge_ref_stable [OF pre(1,3) sub(1,2) srt(1) m [unfolded p(1)]])
    moreover have "filter P zs = filter P (drop (2 * w) xs)"
      by (rule less.hyps [OF _ pre(1,2) _ sub(3) runs_drop [OF pre(5)] p(2)])
        (use merge_ref_sorted [OF pre(3) sub(1,2) srt m] False pre(2) in auto)
    moreover have "xs = take w xs @ take w (drop w xs) @ drop (2 * w) xs" by (simp add: mult_2 flip: drop_drop)
    ultimately show ?thesis unfolding p(3) by (metis filter_append append.assoc)
  qed
qed

lemma passes_ref_stable:
  assumes "alike P" "0 < w" "I c" "set xs \<subseteq> V" "runs w xs" "passes_ref sort_cb c w xs = (c', ys, ok)"
  shows "filter P ys = filter P xs"
  using assms
proof (induction "length xs - w" arbitrary: w c xs rule: less_induct)
  case less
  note pre = less.prems
  obtain c1 r where p: "pass_ref sort_cb c w xs = (c1, r)" by fastforce
  show ?case
  proof (cases "length xs \<le> w \<or> r = None")
    case True
    with p pre(6) have "ys = xs" by (subst (asm) passes_ref.simps) (auto split: if_splits)
    then show ?thesis by simp
  next
    case False
    then obtain zs where zs: "r = Some zs" "passes_ref sort_cb c1 (2 * w) zs = (c', ys, ok)"
      using pre(2,6) p by (subst (asm) passes_ref.simps) auto
    have ms: "mset zs = mset xs" using pass_ref_mset [of sort_cb c w xs zs] p zs(1) by simp
    have len: "length zs = length xs" "set zs = set xs" using mset_eq_length [OF ms] mset_eq_setD [OF ms] by simp_all
    have "filter P ys = filter P zs"
      by (rule less.hyps [of zs "2 * w", OF _ pre(1) _ _ _ _ zs(2)])
        (use len pass_ref_runs [OF pre(2-5) p] pre(2,4) False zs(1) in \<open>auto intro: diff_less_mono2\<close>)
    with pass_ref_stable [OF pre(1-5) p [unfolded zs(1)]] show ?thesis by simp
  qed
qed

lemma merge_sort_stable:
  assumes "alike P" "length array \<le> 2 ^ 31" "length fresh = length array" "I c" "set array \<subseteq> V"
    and "ecma_builtin_helper_array_merge_sort_helper sort_cb c fresh array = Some (c', ys, ok)"
  shows "filter P ys = filter P array"
proof -
  have "passes_ref sort_cb c 1 array = (c', ys, ok)" using assms(6) unfolding merge_sort_eq [OF assms(2,3)] by simp
  from passes_ref_stable [OF assms(1) _ assms(4,5) runs_1 this] show ?thesis by simp
qed

end

end
