(* ===== verification/Sort_Compare.thy ===== *)
theory Sort_Compare
  imports Merge_Sort Bigint_Theorems Lit_Strings
begin

text \<open>
  The comparison callbacks of the sort methods: \<open>ecma_builtin_typedarray_prototype_sort_compare_helper\<close> of
  \<open>ecma-builtin-typedarray-prototype.c\<close> and \<open>ecma_builtin_array_prototype_object_sort_compare_helper\<close> of
  \<open>ecma-builtin-array-prototype.c\<close>.

  What they call of the engine (function calls, conversions, comparison of string values) is the record \<open>engine\<close>. The context
  holds the BigInts and the state of the script.
\<close>

section \<open>Code\<close>

datatype 'o ecma_value = Undefined | Number u64 | Bigint bigint_value | Other 'o

record ('h, 's) script_context =
  bigints :: "'h ecma_context"
  script :: 's

record ('c, 'v, 'f, 't) engine =
  ecma_op_function_call :: "'c \<Rightarrow> 'f \<Rightarrow> 'v \<Rightarrow> 'v \<Rightarrow> 'c \<times> 'v option"
  ecma_op_to_number :: "'c \<Rightarrow> 'v \<Rightarrow> 'c \<times> u64 option"
  ecma_op_to_string :: "'c \<Rightarrow> 'v \<Rightarrow> 'c \<times> 't option"
  ecma_compare_ecma_strings_relational :: "'t \<Rightarrow> 't \<Rightarrow> bool"
  ecma_compare_ecma_strings :: "'t \<Rightarrow> 't \<Rightarrow> bool"
  ecma_arraybuffer_is_detached :: "'c \<Rightarrow> bool"

abbreviation (input) ECMA_NUMBER_ZERO :: u64 where "ECMA_NUMBER_ZERO \<equiv> 0"
abbreviation (input) ECMA_NUMBER_ONE :: u64 where "ECMA_NUMBER_ONE \<equiv> 0x3FF0000000000000"
abbreviation (input) ECMA_NUMBER_MINUS_ONE :: u64 where "ECMA_NUMBER_MINUS_ONE \<equiv> 0xBFF0000000000000"

text \<open>The double of an integer between -1 and 1, and the order of doubles in C.\<close>

definition number_of_sign :: "int \<Rightarrow> u64" where
  "number_of_sign z = (if z < 0 then ECMA_NUMBER_MINUS_ONE else if z = 0 then ECMA_NUMBER_ZERO else ECMA_NUMBER_ONE)"

definition number_less :: "u64 \<Rightarrow> u64 \<Rightarrow> bool" where
  "number_less a b \<longleftrightarrow> \<not> ecma_number_is_nan a \<and> \<not> ecma_number_is_nan b \<and> number_value a < number_value b"

text \<open>Only used on numbers.\<close>

definition ecma_get_number_from_value :: "'o ecma_value \<Rightarrow> u64" where
  "ecma_get_number_from_value v = (case v of Number num \<Rightarrow> num | _ \<Rightarrow> ECMA_NUMBER_ZERO)"

definition typedarray_default_compare :: "('h, 's) script_context \<Rightarrow> 'o ecma_value \<Rightarrow> 'o ecma_value \<Rightarrow> u64" where
  "typedarray_default_compare c lhs rhs =
    (case (lhs, rhs) of
       (Bigint l, Bigint r) \<Rightarrow> number_of_sign (ecma_bigint_compare_to_bigint (bigints c) l r)
     | _ \<Rightarrow>
        (let lhs_value = ecma_get_number_from_value lhs; rhs_value = ecma_get_number_from_value rhs in
         if ecma_number_is_nan lhs_value then ECMA_NUMBER_ONE
         else if ecma_number_is_nan rhs_value then ECMA_NUMBER_MINUS_ONE
         else if number_less lhs_value rhs_value then ECMA_NUMBER_MINUS_ONE
         else if number_less rhs_value lhs_value \<or> ecma_number_is_zero rhs_value \<and> ecma_number_sign rhs_value then ECMA_NUMBER_ONE
         else ECMA_NUMBER_ZERO))"

definition ecma_builtin_typedarray_prototype_sort_compare_helper ::
  "(('h, 's) script_context, 'o ecma_value, 'f, 't) engine \<Rightarrow> 'f option \<Rightarrow> (('h, 's) script_context, 'o ecma_value) sort_compare" where
  "ecma_builtin_typedarray_prototype_sort_compare_helper E compare_func c lhs rhs =
    (case compare_func of
       None \<Rightarrow> (c, Some (typedarray_default_compare c lhs rhs))
     | Some comparefn_obj_p \<Rightarrow>
        (case ecma_op_function_call E c comparefn_obj_p lhs rhs of
           (c, None) \<Rightarrow> (c, None)
         | (c, Some (Number num)) \<Rightarrow> (c, Some num)
         | (c, Some call_value) \<Rightarrow>
            (case ecma_op_to_number E c call_value of
               (c, None) \<Rightarrow> (c, None)
             | (c, Some ret_num) \<Rightarrow>
                if ecma_arraybuffer_is_detached E c then (c, None)
                else if ecma_number_is_nan ret_num then (c, Some ECMA_NUMBER_ZERO)
                else (c, Some ret_num))))"

definition ecma_builtin_array_prototype_object_sort_compare_helper ::
  "('c, 'o ecma_value, 'f, 't) engine \<Rightarrow> 'f option \<Rightarrow> ('c, 'o ecma_value) sort_compare" where
  "ecma_builtin_array_prototype_object_sort_compare_helper E compare_func c lhs rhs =
    (if lhs = Undefined then (c, Some (number_of_sign (if rhs = Undefined then 0 else 1)))
     else if rhs = Undefined then (c, Some (number_of_sign (-1)))
     else case compare_func of
       None \<Rightarrow>
        (case ecma_op_to_string E c lhs of
           (c, None) \<Rightarrow> (c, None)
         | (c, Some lhs_str_p) \<Rightarrow>
            (case ecma_op_to_string E c rhs of
               (c, None) \<Rightarrow> (c, None)
             | (c, Some rhs_str_p) \<Rightarrow>
                (c, Some (if ecma_compare_ecma_strings_relational E lhs_str_p rhs_str_p then ECMA_NUMBER_MINUS_ONE
                          else if \<not> ecma_compare_ecma_strings E lhs_str_p rhs_str_p then ECMA_NUMBER_ONE
                          else ECMA_NUMBER_ZERO))))
     | Some comparefn_obj_p \<Rightarrow>
        (case ecma_op_function_call E c comparefn_obj_p lhs rhs of
           (c, None) \<Rightarrow> (c, None)
         | (c, Some (Number num)) \<Rightarrow> (c, Some num)
         | (c, Some call_value) \<Rightarrow> ecma_op_to_number E c call_value))"

section \<open>Typed arrays of numbers\<close>

lemma number_sign_tests [simp]:
  "number_le_zero 0xBFF0000000000000" "\<not> number_le_zero 0x3FF0000000000000"
  by (simp_all add: number_le_zero_def number_greater_zero_def number_is_nan_iff number_exp_def number_frac_def number_sign_iff number_is_zero_iff)

lemma number_of_sign_le_zero [simp]: "number_le_zero (number_of_sign z) \<longleftrightarrow> z \<le> 0"
  by (simp add: number_of_sign_def)

text \<open>The order of ECMA-262 for typed arrays: -0 comes before +0, and NaN last.\<close>

definition typed_le :: "u64 \<Rightarrow> u64 \<Rightarrow> bool" where
  "typed_le a b \<longleftrightarrow> ecma_number_is_nan b \<or>
    \<not> ecma_number_is_nan a \<and>
      (number_value a < number_value b \<or> number_value a = number_value b \<and> (ecma_number_sign a \<or> \<not> ecma_number_sign b))"

lemma value_sign: "number_value a < 0 \<Longrightarrow> ecma_number_sign a" "0 < number_value a \<Longrightarrow> \<not> ecma_number_sign a"
  by (auto simp: number_value_def split: if_splits)

interpretation typed_numbers: comparison "ecma_builtin_typedarray_prototype_sort_compare_helper E None" I "range Number"
  "\<lambda>a b. typed_le (ecma_get_number_from_value a) (ecma_get_number_from_value b)"
proof (unfold_locales, goal_cases)
  case (1 a b)
  then show ?case by (auto simp: typed_le_def)
next
  case (2 a b z)
  then show ?case by (auto simp: typed_le_def)
next
  case (4 c a b c' v)
  have "number_value x = 0 \<longleftrightarrow> ecma_number_is_zero x" for x using zero_value [of x] by simp
  with 4 value_sign show ?case
    by (auto simp: ecma_builtin_typedarray_prototype_sort_compare_helper_def typedarray_default_compare_def
        ecma_get_number_from_value_def typed_le_def number_less_def Let_def split: if_splits) (metis linorder_neqE)+
next
  case (5 c a b c' v)
  with zero_value show ?case
    by (auto simp: ecma_builtin_typedarray_prototype_sort_compare_helper_def typedarray_default_compare_def
        ecma_get_number_from_value_def typed_le_def number_less_def Let_def split: if_splits)
qed (simp add: ecma_builtin_typedarray_prototype_sort_compare_helper_def)

section \<open>Typed arrays of BigInts\<close>

definition bigint_int :: "(addr \<rightharpoonup> bigint_prim) \<Rightarrow> bigint_value \<Rightarrow> int" where
  "bigint_int st v = (case v of ECMA_BIGINT_ZERO \<Rightarrow> 0 | BigInt p \<Rightarrow> int_of_prim (the (st p)))"

definition element_int :: "(addr \<rightharpoonup> bigint_prim) \<Rightarrow> 'o ecma_value \<Rightarrow> int" where
  "element_int st v = (case v of Bigint b \<Rightarrow> bigint_int st b | _ \<Rightarrow> 0)"

lemma bigint_intD: "bigint st v z \<Longrightarrow> bigint_int st v = z"
  by (auto simp: bigint_def bigint_int_def split: bigint_value.splits option.splits)

lemma typed_bigint_compare:
  assumes "a \<in> Bigint ` {v. \<exists>z. bigint (store (bigints c)) v z}" "b \<in> Bigint ` {v. \<exists>z. bigint (store (bigints c)) v z}"
  shows "number_le_zero (typedarray_default_compare c a b) \<longleftrightarrow> element_int (store (bigints c)) a \<le> element_int (store (bigints c)) b"
proof -
  obtain l r x y where "a = Bigint l" "b = Bigint r" "bigint (store (bigints c)) l x" "bigint (store (bigints c)) r y" using assms by auto
  then show ?thesis
    by (simp add: typedarray_default_compare_def compare_to_bigint_correct element_int_def bigint_intD)
qed

interpretation typed_bigints: strict_comparison "ecma_builtin_typedarray_prototype_sort_compare_helper E None"
  "\<lambda>c. store (bigints c) = st" "Bigint ` {v. \<exists>z. bigint st v z}" "\<lambda>a b. element_int st a \<le> element_int st b"
  by unfold_locales (auto simp: ecma_builtin_typedarray_prototype_sort_compare_helper_def typed_bigint_compare)

section \<open>Arrays\<close>

text \<open>
  The default order of arrays rests on what the engine promises for strings: the conversion of the elements is a function of the
  element, and the comparisons of string values are those of their texts.
\<close>

locale string_order =
  fixes E :: "('c, 'o ecma_value, 'f, 't) engine" and V :: "'o ecma_value set" and text_of :: "'o ecma_value \<Rightarrow> u16 list" and content :: "'t \<Rightarrow> u16 list"
  assumes to_string: "v \<in> V \<Longrightarrow> ecma_op_to_string E c v = (c', Some t) \<Longrightarrow> content t = text_of v"
    and relational: "ecma_compare_ecma_strings_relational E s t \<longleftrightarrow> content s < content t"
    and equal: "ecma_compare_ecma_strings E s t \<longleftrightarrow> content s = content t"
begin

text \<open>Undefined comes last.\<close>

definition default_le :: "'o ecma_value \<Rightarrow> 'o ecma_value \<Rightarrow> bool" where
  "default_le a b \<longleftrightarrow> b = Undefined \<or> a \<noteq> Undefined \<and> text_of a \<le> text_of b"

lemma default_compare:
  assumes "a \<in> V" "b \<in> V" "ecma_builtin_array_prototype_object_sort_compare_helper E None c a b = (c', Some v)"
  shows "number_le_zero v \<longleftrightarrow> default_le a b"
proof (cases "a = Undefined \<or> b = Undefined")
  case True
  with assms(3) show ?thesis by (auto simp: ecma_builtin_array_prototype_object_sort_compare_helper_def default_le_def split: if_splits)
next
  case False
  with assms(3) obtain c1 s t where st: "ecma_op_to_string E c a = (c1, Some s)" "ecma_op_to_string E c1 b = (c', Some t)"
    "v = (if ecma_compare_ecma_strings_relational E s t then ECMA_NUMBER_MINUS_ONE
          else if \<not> ecma_compare_ecma_strings E s t then ECMA_NUMBER_ONE else ECMA_NUMBER_ZERO)"
    by (auto simp: ecma_builtin_array_prototype_object_sort_compare_helper_def split: prod.splits option.splits)
  from to_string [OF assms(1) st(1)] to_string [OF assms(2) st(2)] False show ?thesis
    by (auto simp: st(3) relational equal default_le_def)
qed

end

sublocale string_order \<subseteq> default: strict_comparison "ecma_builtin_array_prototype_object_sort_compare_helper E None" "\<lambda>_. True" V default_le
proof unfold_locales
  fix a b z :: "'o ecma_value"
  show "default_le a b \<or> default_le b a" by (auto simp: default_le_def)
  show "default_le a z" if "default_le a b" "default_le b z" using that by (auto simp: default_le_def)
  show "default_le b a" if "a \<in> V" "b \<in> V" "ecma_builtin_array_prototype_object_sort_compare_helper E None c a b = (c', Some v)"
    "\<not> number_le_zero v" for c c' v
    using default_compare [OF that(1-3)] that(4) by (auto simp: default_le_def)
qed (simp_all add: default_compare)

text \<open>An engine whose values are texts, compared by the functions of \<open>Lit_Strings\<close>.\<close>

definition text_engine :: "(unit, u16 list ecma_value, unit, u16 list) engine" where
  "text_engine =
    \<lparr>ecma_op_function_call = (\<lambda>c f a b. (c, Some (Number 0x7FF8000000000000))),
     ecma_op_to_number = (\<lambda>c v. (c, None)),
     ecma_op_to_string = (\<lambda>c v. (c, case v of Other us \<Rightarrow> Some us | _ \<Rightarrow> None)),
     ecma_compare_ecma_strings_relational = (\<lambda>s t. lit_compare_utf8_strings_relational (cesu8_of s) (cesu8_of t) = Some True),
     ecma_compare_ecma_strings = (=),
     ecma_arraybuffer_is_detached = (\<lambda>c. False)\<rparr>"

interpretation texts: string_order text_engine UNIV "\<lambda>v. case v of Other us \<Rightarrow> us | _ \<Rightarrow> []" id
  by unfold_locales (auto simp: text_engine_def compare_cesu8_of split: ecma_value.splits)

section \<open>Properties\<close>

text \<open>
  (C31) The merge sort never leaves its buffers and always ends, for buffers that fit into memory. Whatever the
  comparison answers, also if it is inconsistent or raises an error in the middle, the array holds the same values afterwards as
  before, each as often: no value is lost or released twice.
\<close>

theorem merge_sort_permutation:
  assumes "length array \<le> 2 ^ 31" "length fresh = length array"
  shows "\<exists>c' ys ok. ecma_builtin_helper_array_merge_sort_helper sort_cb c fresh array = Some (c', ys, ok) \<and> mset ys = mset array"
  unfolding merge_sort_eq [OF assms] using passes_ref_mset [of sort_cb c 1 array] by (metis prod.exhaust)

theorem merge_sort_permutation_witness:
  "\<exists>c' ys ok. ecma_builtin_helper_array_merge_sort_helper (\<lambda>c a b. (c, None)) () [0, 0] [1, 2 :: nat] = Some (c', ys, ok) \<and> mset ys = mset [1, 2]"
  by (rule merge_sort_permutation) simp_all

text \<open>
  (C32) With a consistent comparison the merge sort sorts, and keeps the order of elements that compare equal.
\<close>

theorem merge_sort_sorted_stable:
  assumes "strict_comparison sort_cb I V le" "length array \<le> 2 ^ 31" "length fresh = length array" "I c" "set array \<subseteq> V" "a \<in> V"
    and res: "ecma_builtin_helper_array_merge_sort_helper sort_cb c fresh array = Some (c', ys, True)"
  shows "sorted_wrt le ys \<and> filter (\<lambda>b. le a b \<and> le b a) ys = filter (\<lambda>b. le a b \<and> le b a) array"
proof -
  have cmp: "comparison sort_cb I V le" using assms(1) by (simp add: strict_comparison_def)
  have "strict_comparison.alike V le (\<lambda>b. le a b \<and> le b a)"
    unfolding strict_comparison.alike_def [OF assms(1)] using comparison.trans [OF cmp _ assms(6)] by blast
  from comparison.merge_sort_sorts [OF cmp assms(2-5) res] strict_comparison.merge_sort_stable [OF assms(1) this assms(2-5) res]
  show ?thesis by blast
qed

theorem merge_sort_sorted_stable_witness:
  "ecma_builtin_helper_array_merge_sort_helper (ecma_builtin_array_prototype_object_sort_compare_helper text_engine None) ()
      [Undefined, Undefined, Undefined] [Undefined, Other [0x62], Other [0x61]] = Some ((), [Other [0x61], Other [0x62], Undefined], True) \<and>
    sorted_wrt texts.default_le [Other [0x61], Other [0x62], Undefined]"
proof -
  have "ecma_builtin_helper_array_merge_sort_helper (ecma_builtin_array_prototype_object_sort_compare_helper text_engine None) ()
      [Undefined, Undefined, Undefined] [Undefined, Other [0x62], Other [0x61]] = Some ((), [Other [0x61], Other [0x62], Undefined], True)"
    by (simp add: merge_sort_eq passes_ref.simps pass_ref.simps ecma_builtin_array_prototype_object_sort_compare_helper_def
        text_engine_def compare_cesu8_of)
  with merge_sort_sorted_stable [OF texts.default.strict_comparison_axioms _ _ _ _ _ this] show ?thesis by simp
qed

text \<open>
  (C33) Sorting a typed array of numbers without a comparison function succeeds, calls no script code, and orders the numbers as
  ECMA-262 asks for: by value, -0 before +0, and all NaNs at the end.
\<close>

theorem typed_array_default_sort:
  assumes "length nums \<le> 2 ^ 31" "length fresh = length nums"
  shows "\<exists>ys. ecma_builtin_helper_array_merge_sort_helper (ecma_builtin_typedarray_prototype_sort_compare_helper E None) c fresh (map Number nums) =
      Some (c, map Number ys, True) \<and> mset ys = mset nums \<and> sorted_wrt typed_le ys"
proof -
  let ?cb = "ecma_builtin_typedarray_prototype_sort_compare_helper E None"
  obtain c' zs ok where p: "passes_ref ?cb c 1 (map Number nums) = (c', zs, ok)" by (metis prod.exhaust)
  have tot: "\<And>c a b. snd (?cb c a b) \<noteq> None" by (simp add: ecma_builtin_typedarray_prototype_sort_compare_helper_def)
  have ok: ok using passes_ref_total [of ?cb c 1 "map Number nums"] tot p by simp
  have res: "ecma_builtin_helper_array_merge_sort_helper ?cb c fresh (map Number nums) = Some (c', zs, True)"
    using merge_sort_eq [of "map Number nums" fresh ?cb c] assms p ok by simp
  have ms: "mset zs = mset (map Number nums)" by (rule passes_ref_mset [OF p])
  have srt: "c' = c \<and> sorted_wrt (\<lambda>a b. typed_le (ecma_get_number_from_value a) (ecma_get_number_from_value b)) zs"
    by (rule typed_numbers.merge_sort_sorts [OF _ _ _ _ res]) (use assms in auto)
  let ?ys = "map ecma_get_number_from_value zs"
  have zs: "map Number ?ys = zs"
    using mset_eq_setD [OF ms] by (auto simp: ecma_get_number_from_value_def intro!: map_idI)
  moreover have "mset ?ys = mset nums"
    using arg_cong [OF ms, of "image_mset ecma_get_number_from_value"] by (simp add: multiset.map_comp comp_def ecma_get_number_from_value_def)
  moreover have "sorted_wrt typed_le ?ys" using srt by (simp add: sorted_wrt_map)
  ultimately show ?thesis unfolding res using srt by (intro exI [of _ ?ys]) simp
qed

theorem typed_array_default_sort_witness:
  "\<forall>E c. \<exists>ys. ecma_builtin_helper_array_merge_sort_helper (ecma_builtin_typedarray_prototype_sort_compare_helper E None) c [Undefined, Undefined]
      (map Number [0, 0x8000000000000000]) = Some (c, map Number ys, True) \<and> mset ys = mset [0, 0x8000000000000000] \<and> sorted_wrt typed_le ys"
  by (intro allI typed_array_default_sort) simp_all

text \<open>
  A comparison function that returns NaN does not count as zero: both helpers pass NaN on, which the merge
  takes for greater, and elements that should keep their order are swapped.
\<close>

lemma sort_nan_comparison:
  assumes "\<And>a b. ecma_op_function_call E c f a b = (c, Some (Number 0x7FF8000000000000))" "x \<noteq> Undefined" "y \<noteq> Undefined"
    and "\<And>a b. ecma_op_function_call E' c' f' a b = (c', Some (Number 0x7FF8000000000000))"
  shows "ecma_builtin_helper_array_merge_sort_helper (ecma_builtin_array_prototype_object_sort_compare_helper E (Some f)) c [u, v] [x, y] =
      Some (c, [y, x], True) \<and>
    ecma_builtin_helper_array_merge_sort_helper (ecma_builtin_typedarray_prototype_sort_compare_helper E' (Some f')) c' [u', v'] [x', y'] =
      Some (c', [y', x'], True)"
proof -
  have nan: "\<not> number_le_zero 0x7FF8000000000000" by (simp add: number_le_zero_def number_is_nan_iff number_exp_def number_frac_def)
  have swap: "ecma_builtin_helper_array_merge_sort_helper cb d [s, t] [a, b] = Some (d, [b, a], True)"
    if "cb d a b = (d, Some 0x7FF8000000000000)" for cb :: "('x, 'y) sort_compare" and d s t a b
    using that nan by (simp add: merge_sort_eq passes_ref.simps pass_ref.simps)
  show ?thesis
    using assms by (intro conjI swap)
      (simp_all add: ecma_builtin_array_prototype_object_sort_compare_helper_def ecma_builtin_typedarray_prototype_sort_compare_helper_def)
qed

end
