(* ===== verification/Global_Uri.thy ===== *)
theory Global_Uri
  imports Lit_Chars
begin

text \<open>
  The string functions of the global object, \<open>src/jjs-core/ecma/builtin-objects/ecma-builtin-global.c\<close>: \<open>encodeURI\<close>,
  \<open>encodeURIComponent\<close>, \<open>decodeURI\<close>, \<open>decodeURIComponent\<close>, \<open>escape\<close> and \<open>unescape\<close>.

  The input is the rest of the buffer from \<open>input_char_p\<close> on. The string builder is the list of bytes that were appended;
  errors are values. As the outermost result, \<open>None\<close> is a read behind the end of the input.
\<close>

section \<open>Code\<close>

datatype uri_error =
  ECMA_ERR_INVALID_HEXADECIMAL_VALUE
| ECMA_ERR_INVALID_UTF8_CHARACTER
| ECMA_ERR_INVALID_UTF8_STRING
| ECMA_ERR_INVALID_UTF8_CODEPOINT
| ECMA_ERR_UNICODE_SURROGATE_PAIR_MISSING

type_synonym uri_result = "uri_error + u8 list"

definition ecma_builtin_global_object_character_is_in :: "u32 \<Rightarrow> u8 list \<Rightarrow> bool" where
  "ecma_builtin_global_object_character_is_in character bitset \<longleftrightarrow>
    (ucast (bitset ! unat (drop_bit 3 character)) :: u32) AND push_bit (unat (character AND 0x7)) 1 \<noteq> 0"

definition unescaped_uri_set :: "u8 list" where
  "unescaped_uri_set = [0x0, 0x0, 0x0, 0x0, 0xda, 0xff, 0xff, 0xaf, 0xff, 0xff, 0xff, 0x87, 0xfe, 0xff, 0xff, 0x47]"

definition unescaped_uri_component_set :: "u8 list" where
  "unescaped_uri_component_set = [0x0, 0x0, 0x0, 0x0, 0x82, 0x67, 0xff, 0x3, 0xfe, 0xff, 0xff, 0x87, 0xfe, 0xff, 0xff, 0x47]"

definition ecma_escape_set :: "u8 list" where
  "ecma_escape_set = [0x0, 0x0, 0x0, 0x0, 0x0, 0xec, 0xff, 0x3, 0xff, 0xff, 0xff, 0x87, 0xfe, 0xff, 0xff, 0x7]"

abbreviation (input) LIT_CHAR_PERCENT :: u8 where "LIT_CHAR_PERCENT \<equiv> 0x25"
abbreviation (input) LIT_CHAR_LOWERCASE_U :: u8 where "LIT_CHAR_LOWERCASE_U \<equiv> 0x75"

definition ecma_stringbuilder_append_char :: "u8 list \<Rightarrow> u16 \<Rightarrow> u8 list" where
  "ecma_stringbuilder_append_char builder c = builder @ lit_code_point_to_cesu8_bytes (ucast c)"

subsection \<open>Decoding\<close>

text \<open>The loop over the bytes of a character after the first; \<open>None\<close> is \<open>is_valid = false\<close>.\<close>

fun decode_octets :: "nat \<Rightarrow> u8 list \<Rightarrow> (u8 list \<times> u8 list) option" where
  "decode_octets 0 input = Some ([], input)"
| "decode_octets (Suc n) input =
    (case input of
       [] \<Rightarrow> None
     | c # input \<Rightarrow>
        if c \<noteq> LIT_CHAR_PERCENT then None
        else
         (let hex_value = lit_char_hex_lookup input 2 in
          if hex_value = 0xFFFFFFFF \<or> hex_value AND 0xC0 \<noteq> 0x80 then None
          else map_option (apfst ((#) (ucast hex_value))) (decode_octets n (drop 2 input))))"

text \<open>The character whose first byte is given: its bytes in CESU-8 and the rest of the input.\<close>

definition decode_character :: "u16 \<Rightarrow> u8 list \<Rightarrow> (uri_error + u8 list \<times> u8 list) option" where
  "decode_character decoded_byte input =
    (case (if decoded_byte AND 0xE0 = 0xC0 then Some 2 else if decoded_byte AND 0xF0 = 0xE0 then Some 3
           else if decoded_byte AND 0xF8 = 0xF0 then Some (4 :: nat) else None) of
       None \<Rightarrow> Some (Inl ECMA_ERR_INVALID_UTF8_CHARACTER)
     | Some bytes_count \<Rightarrow>
        (case decode_octets (bytes_count - 1) input of
           None \<Rightarrow> Some (Inl ECMA_ERR_INVALID_UTF8_STRING)
         | Some (octets, input) \<Rightarrow>
            (let octets = ucast decoded_byte # octets in
             if \<not> lit_is_valid_utf8_string octets True then Some (Inl ECMA_ERR_INVALID_UTF8_STRING)
             else (case lit_read_code_point_from_utf8 octets of
               None \<Rightarrow> None
             | Some (_, cp) \<Rightarrow>
                if lit_is_code_point_utf16_high_surrogate cp \<or> lit_is_code_point_utf16_low_surrogate cp
                then Some (Inl ECMA_ERR_INVALID_UTF8_CODEPOINT)
                else Some (Inr (lit_code_point_to_cesu8 cp, input))))))"

lemma decode_octets_length: "decode_octets n input = Some (os, rest) \<Longrightarrow> length rest \<le> length input"
  by (induction n input arbitrary: os rest rule: decode_octets.induct) (fastforce simp: Let_def split: list.splits if_splits)+

lemma decode_character_length: "decode_character d input = Some (Inr (bs, rest)) \<Longrightarrow> length rest \<le> length input"
  by (auto simp: decode_character_def Let_def simp del: decode_octets.simps split: option.splits if_splits prod.splits dest!: decode_octets_length)

function decode_uri_loop :: "u8 list \<Rightarrow> u8 list \<Rightarrow> u8 list \<Rightarrow> uri_result option" where
  "decode_uri_loop reserved_uri_bitset builder [] = Some (Inr builder)"
| "decode_uri_loop reserved_uri_bitset builder (c # input) =
    (if c \<noteq> LIT_CHAR_PERCENT then decode_uri_loop reserved_uri_bitset (builder @ [c]) input
     else
      (let hex_value = lit_char_hex_lookup input 2 in
       if hex_value = 0xFFFFFFFF then Some (Inl ECMA_ERR_INVALID_HEXADECIMAL_VALUE)
       else
        (let decoded_byte = ucast hex_value :: u16 in
         if decoded_byte \<le> 0x7F then
           (if ecma_builtin_global_object_character_is_in (ucast decoded_byte) reserved_uri_bitset \<and>
               \<not> ecma_builtin_global_object_character_is_in (ucast decoded_byte) unescaped_uri_component_set
            then decode_uri_loop reserved_uri_bitset (ecma_stringbuilder_append_char builder (ucast LIT_CHAR_PERCENT)) input
            else decode_uri_loop reserved_uri_bitset (builder @ [ucast decoded_byte]) (drop 2 input))
         else
           (case decode_character decoded_byte (drop 2 input) of
              None \<Rightarrow> None
            | Some (Inl e) \<Rightarrow> Some (Inl e)
            | Some (Inr (result_chars, rest)) \<Rightarrow>
               decode_uri_loop reserved_uri_bitset (builder @ result_chars) rest))))"
  by pat_completeness auto
termination
  by (relation "measure (\<lambda>(s, builder, input). length input)") (auto dest!: decode_character_length)

definition ecma_builtin_global_object_decode_uri_helper :: "u8 list \<Rightarrow> u8 list \<Rightarrow> uri_result option" where
  "ecma_builtin_global_object_decode_uri_helper input reserved_uri_bitset = decode_uri_loop reserved_uri_bitset [] input"

subsection \<open>Encoding\<close>

definition ecma_builtin_global_object_byte_to_hex :: "u32 \<Rightarrow> u8 list" where
  "ecma_builtin_global_object_byte_to_hex byte =
    (let hex_digit1 = ucast (drop_bit 4 byte) :: u16;
         hex_digit2 = ucast (ucast (byte AND 0xf) :: u8) :: u16
     in [LIT_CHAR_PERCENT,
         ucast (if hex_digit1 > 9 then hex_digit1 + (0x41 - 10) else hex_digit1 + 0x30),
         ucast (if hex_digit2 > 9 then hex_digit2 + (0x41 - 10) else hex_digit2 + 0x30)])"

text \<open>The bytes of a code point, escaped unless it is one of the given characters.\<close>

definition encode_code_point :: "u8 list \<Rightarrow> u32 \<Rightarrow> u8 list" where
  "encode_code_point unescaped_uri_bitset cp =
    (case lit_code_point_to_utf8 cp of
       [b] \<Rightarrow> if ecma_builtin_global_object_character_is_in (ucast b) unescaped_uri_bitset then [b]
             else ecma_builtin_global_object_byte_to_hex (ucast b)
     | octets \<Rightarrow> concat (map (\<lambda>b. ecma_builtin_global_object_byte_to_hex (ucast b)) octets))"

function encode_uri_loop :: "u8 list \<Rightarrow> u8 list \<Rightarrow> u8 list \<Rightarrow> uri_result option" where
  "encode_uri_loop unescaped_uri_bitset builder input =
    (if input = [] then Some (Inr builder)
     else (case lit_read_code_unit_from_cesu8 input of
       None \<Rightarrow> None
     | Some (n, ch) \<Rightarrow>
        (if n = 0 then None
         else if lit_is_code_point_utf16_low_surrogate (ucast ch) then Some (Inl ECMA_ERR_UNICODE_SURROGATE_PAIR_MISSING)
         else if lit_is_code_point_utf16_high_surrogate (ucast ch) then
           (if drop n input = [] then Some (Inl ECMA_ERR_UNICODE_SURROGATE_PAIR_MISSING)
            else (case lit_read_code_unit_from_cesu8 (drop n input) of
              None \<Rightarrow> None
            | Some (read_size, next_ch) \<Rightarrow>
               (if lit_is_code_point_utf16_low_surrogate (ucast next_ch)
                then encode_uri_loop unescaped_uri_bitset
                  (builder @ encode_code_point unescaped_uri_bitset (lit_convert_surrogate_pair_to_code_point ch next_ch))
                  (drop (n + read_size) input)
                else Some (Inl ECMA_ERR_UNICODE_SURROGATE_PAIR_MISSING))))
         else encode_uri_loop unescaped_uri_bitset (builder @ encode_code_point unescaped_uri_bitset (ucast ch)) (drop n input))))"
  by pat_completeness auto
termination by (relation "measure (\<lambda>(s, builder, input). length input)") auto

definition ecma_builtin_global_object_encode_uri_helper :: "u8 list \<Rightarrow> u8 list \<Rightarrow> uri_result option" where
  "ecma_builtin_global_object_encode_uri_helper input unescaped_uri_bitset = encode_uri_loop unescaped_uri_bitset [] input"

subsection \<open>The functions \<open>escape\<close> and \<open>unescape\<close>\<close>

definition escape_char :: "u16 \<Rightarrow> u8 list" where
  "escape_char chr =
    (if chr \<le> 0x7F then
       (if ecma_builtin_global_object_character_is_in (ucast chr) ecma_escape_set then lit_code_point_to_cesu8_bytes (ucast chr)
        else ecma_builtin_global_object_byte_to_hex (ucast chr))
     else if chr > 255 then
       lit_code_point_to_cesu8_bytes (ucast LIT_CHAR_PERCENT) @ lit_code_point_to_cesu8_bytes (ucast LIT_CHAR_LOWERCASE_U) @
       drop 1 (ecma_builtin_global_object_byte_to_hex (ucast (drop_bit 8 chr))) @
       drop 1 (ecma_builtin_global_object_byte_to_hex (ucast (chr AND 0xff)))
     else ecma_builtin_global_object_byte_to_hex (ucast chr))"

function escape_loop :: "u8 list \<Rightarrow> u8 list \<Rightarrow> u8 list option" where
  "escape_loop builder input =
    (if input = [] then Some builder
     else (case lit_cesu8_read_next input 0 of
       None \<Rightarrow> None
     | Some (n, chr) \<Rightarrow> if n = 0 then None else escape_loop (builder @ escape_char chr) (drop n input)))"
  by pat_completeness auto
termination by (relation "measure (\<lambda>(builder, input). length input)") auto

definition ecma_builtin_global_object_escape :: "u8 list \<Rightarrow> u8 list option" where
  "ecma_builtin_global_object_escape input = escape_loop [] input"

text \<open>The hexadecimal digits from \<open>i\<close> on, or \<open>None\<close> when one is none.\<close>

fun resolve_digits :: "u8 list \<Rightarrow> nat \<Rightarrow> u16 \<Rightarrow> u16 option option" where
  "resolve_digits buffer 0 unescaped_chr = Some (Some unescaped_chr)"
| "resolve_digits [] (Suc n) unescaped_chr = None"
| "resolve_digits (current_char # buffer) (Suc n) unescaped_chr =
    (if \<not> lit_char_is_hex_digit (ucast current_char) then Some None
     else resolve_digits buffer n (push_bit 4 unescaped_chr + ucast (lit_char_hex_to_int (ucast current_char))))"

text \<open>Returns the number of processed characters, and the character when it is not 0.\<close>

definition ecma_builtin_global_object_unescape_resolve_escape :: "u8 list \<Rightarrow> bool \<Rightarrow> u16 \<Rightarrow> (nat \<times> u16) option" where
  "ecma_builtin_global_object_unescape_resolve_escape buffer unicode_sequence out_result =
    (let sequence_length = (if unicode_sequence then 5 else 2); start = (if unicode_sequence then 1 else 0) in
     map_option (\<lambda>r. case r of None \<Rightarrow> (0, out_result) | Some unescaped_chr \<Rightarrow> (sequence_length, unescaped_chr))
       (resolve_digits (drop start buffer) (sequence_length - start) 0))"

definition unescape_char :: "u16 \<Rightarrow> u8 list \<Rightarrow> (nat \<times> u16) option" where
  "unescape_char chr input =
    (if chr = ucast LIT_CHAR_PERCENT then
       (if length input \<ge> 5 \<and> input ! 0 = LIT_CHAR_LOWERCASE_U
        then ecma_builtin_global_object_unescape_resolve_escape input True chr
        else if length input \<ge> 2 then ecma_builtin_global_object_unescape_resolve_escape input False chr
        else Some (0, chr))
     else Some (0, chr))"

function unescape_loop :: "u8 list \<Rightarrow> u8 list \<Rightarrow> u8 list option" where
  "unescape_loop builder input =
    (if input = [] then Some builder
     else (case lit_cesu8_read_next input 0 of
       None \<Rightarrow> None
     | Some (n, chr) \<Rightarrow>
        if n = 0 then None
        else (case unescape_char chr (drop n input) of
          None \<Rightarrow> None
        | Some (k, chr) \<Rightarrow> unescape_loop (ecma_stringbuilder_append_char builder chr) (drop (n + k) input))))"
  by pat_completeness auto
termination by (relation "measure (\<lambda>(builder, input). length input)") auto

definition ecma_builtin_global_object_unescape :: "u8 list \<Rightarrow> u8 list option" where
  "ecma_builtin_global_object_unescape input = (if input = [] then Some [] else unescape_loop [] input)"

text \<open>The part of the dispatcher for functions on strings.\<close>

datatype global_routine =
  ECMA_GLOBAL_DECODE_URI | ECMA_GLOBAL_DECODE_URI_COMPONENT | ECMA_GLOBAL_ENCODE_URI | ECMA_GLOBAL_ENCODE_URI_COMPONENT
| ECMA_GLOBAL_ESCAPE | ECMA_GLOBAL_UNESCAPE

definition ecma_builtin_global_dispatch_routine :: "global_routine \<Rightarrow> u8 list \<Rightarrow> uri_result option" where
  "ecma_builtin_global_dispatch_routine builtin_routine_id input =
    (case builtin_routine_id of
       ECMA_GLOBAL_ESCAPE \<Rightarrow> map_option Inr (ecma_builtin_global_object_escape input)
     | ECMA_GLOBAL_UNESCAPE \<Rightarrow> map_option Inr (ecma_builtin_global_object_unescape input)
     | ECMA_GLOBAL_DECODE_URI \<Rightarrow> ecma_builtin_global_object_decode_uri_helper input unescaped_uri_set
     | ECMA_GLOBAL_DECODE_URI_COMPONENT \<Rightarrow> ecma_builtin_global_object_decode_uri_helper input unescaped_uri_component_set
     | ECMA_GLOBAL_ENCODE_URI \<Rightarrow> ecma_builtin_global_object_encode_uri_helper input unescaped_uri_set
     | ECMA_GLOBAL_ENCODE_URI_COMPONENT \<Rightarrow> ecma_builtin_global_object_encode_uri_helper input unescaped_uri_component_set)"

section \<open>Escape sequences\<close>

abbreviation pct :: "u8 \<Rightarrow> u8 list" where
  "pct b \<equiv> ecma_builtin_global_object_byte_to_hex (ucast b)"

lemma hex_value_upper:
  "d < 16 \<Longrightarrow> unat (b :: u8) = (if d \<le> 9 then d + 0x30 else d + 0x37) \<Longrightarrow> hex_value b = Some d"
  by (auto simp: hex_value_def Let_def split: if_splits)

lemma byte_to_hex_digits:
  assumes "unat n < 256"
  obtains h1 h2 where "ecma_builtin_global_object_byte_to_hex n = [0x25, h1, h2]" "hex_value h1 = Some (unat n div 16)" "hex_value h2 = Some (unat n mod 16)"
proof -
  let ?d1 = "ucast (drop_bit 4 n) :: u16" and ?d2 = "ucast (ucast (n AND 0xf) :: u8) :: u16"
  let ?h = "\<lambda>d :: u16. ucast (if d > 9 then d + (0x41 - 10) else d + 0x30) :: u8"
  have d: "unat ?d1 = unat n div 16" "unat ?d2 = unat n mod 16" using assms by (simp_all add: unat_simps)
  have h: "unat (?h d) = (if unat d \<le> 9 then unat d + 0x30 else unat d + 0x37)" if "unat d < 16" for d
    using that by (auto simp: unat_simps word_less_unat unat_word_ariths)
  have "hex_value (?h ?d1) = Some (unat n div 16)" "hex_value (?h ?d2) = Some (unat n mod 16)"
    using h [of ?d1] h [of ?d2] assms unfolding d by (intro hex_value_upper; simp)+
  then show thesis by (intro that) (simp_all add: ecma_builtin_global_object_byte_to_hex_def Let_def)
qed

lemma hex_lookup_two:
  assumes "hex_value h1 = Some d1" "hex_value h2 = Some d2"
  shows "unat (lit_char_hex_lookup (h1 # h2 # rest) 2) = 16 * d1 + d2"
  using assms hex_lookup_loop_value [of 2 "h1 # h2 # rest" 0] by (simp add: lit_char_hex_lookup_def)

lemma pct_lookup: "\<exists>h1 h2. pct b = [0x25, h1, h2] \<and> lit_char_hex_lookup (h1 # h2 # rest) 2 = ucast b"
proof -
  have b: "unat (ucast b :: u32) = unat b" using unat_u8_less [of b] by (simp add: unat_ucast)
  then have "unat (ucast b :: u32) < 256" using unat_u8_less [of b] by simp
  then obtain h1 h2 where "pct b = [0x25, h1, h2]" "hex_value h1 = Some (unat b div 16)" "hex_value h2 = Some (unat b mod 16)"
    by (rule byte_to_hex_digits) (simp add: b)
  with hex_lookup_two [of h1 "unat b div 16" h2 "unat b mod 16" rest] b show ?thesis by (auto simp: word_eq_unat)
qed

lemma ucast_byte_max: "(ucast b :: u32) \<noteq> 0xFFFFFFFF" for b :: u8
  using unat_u8_less [of b] by (simp add: word_eq_unat unat_ucast)

lemma ucast_ucast_byte [simp]: "ucast (ucast b :: u32) = b" "ucast (ucast (ucast b :: u32) :: u16) = b" for b :: u8
  using unat_u8_less [of b] by (simp_all add: word_eq_unat unat_ucast)

lemma decode_octets_pct:
  "list_all (\<lambda>b. b AND 0xC0 = 0x80) bs \<Longrightarrow> decode_octets (length bs) (concat (map pct bs) @ rest) = Some (bs, rest)"
proof (induction bs)
  case (Cons b bs)
  obtain h1 h2 where h: "pct b = [0x25, h1, h2]" "lit_char_hex_lookup (h1 # h2 # concat (map pct bs) @ rest) 2 = ucast b"
    using pct_lookup [of b "concat (map pct bs) @ rest"] by blast
  have "(ucast b :: u32) AND 0xC0 = ucast (b AND 0xC0)" by (simp add: unsigned_and_eq)
  with Cons h ucast_byte_max [of b] show ?case by (simp add: Let_def)
qed simp

declare decode_octets.simps(2) [simp del]

section \<open>Encoding\<close>

definition surrogate :: "u32 \<Rightarrow> bool" where
  "surrogate cp \<longleftrightarrow> lit_is_code_point_utf16_high_surrogate cp \<or> lit_is_code_point_utf16_low_surrogate cp"

definition well_formed :: "u16 list \<Rightarrow> bool" where
  "well_formed us \<longleftrightarrow> list_all (\<lambda>cp. \<not> surrogate cp) (utf16_code_points us)"

lemma pair_code_point:
  assumes "pair_at u v"
  shows "0x10000 \<le> unat (lit_convert_surrogate_pair_to_code_point u v)" "unat (lit_convert_surrogate_pair_to_code_point u v) < 0x110000"
    "\<not> surrogate (lit_convert_surrogate_pair_to_code_point u v)"
proof -
  from assms have b: "0xD800 \<le> unat u" "unat u < 0xDC00" "0xDC00 \<le> unat v" "unat v < 0xE000" by (simp_all add: surrogate_tests)
  note c = unat_surrogate_pair [OF this]
  show lower: "0x10000 \<le> unat (lit_convert_surrogate_pair_to_code_point u v)" and "unat (lit_convert_surrogate_pair_to_code_point u v) < 0x110000"
    using b by (simp_all add: c)
  show "\<not> surrogate (lit_convert_surrogate_pair_to_code_point u v)" using lower
    by (auto simp: surrogate_def lit_is_code_point_utf16_high_surrogate_def lit_is_code_point_utf16_low_surrogate_def word_le_unat)
qed

lemma well_formed_simps:
  "well_formed []"
  "surrogate (ucast u) \<Longrightarrow> \<not> well_formed [u]"
  "pair_at u v \<Longrightarrow> well_formed (u # v # us) = well_formed us"
  "lit_is_code_point_utf16_low_surrogate (ucast u) \<Longrightarrow> \<not> well_formed (u # us)"
  "lit_is_code_point_utf16_high_surrogate (ucast u) \<Longrightarrow> \<not> lit_is_code_point_utf16_low_surrogate (ucast v) \<Longrightarrow> \<not> well_formed (u # v # us)"
  "\<not> surrogate (ucast u) \<Longrightarrow> well_formed (u # us) = well_formed us"
  using pair_code_point [of u v] low_not_high [of u]
  by (cases us; auto simp: well_formed_def surrogate_def; fail)+

declare encode_uri_loop.simps [simp del]

lemma encode_uri_loop_units:
  "encode_uri_loop bitset builder (cesu8_of us) =
    Some (if well_formed us then Inr (builder @ concat (map (encode_code_point bitset) (utf16_code_points us)))
          else Inl ECMA_ERR_UNICODE_SURROGATE_PAIR_MISSING)"
proof (induction us arbitrary: builder rule: length_induct)
  case (1 us)
  show ?case
  proof (cases us)
    case Nil
    then show ?thesis by (subst encode_uri_loop.simps) (simp add: well_formed_simps)
  next
    case (Cons u vs)
    have rd: "lit_read_code_unit_from_cesu8 (cesu8_of us) = Some (length (lit_code_unit_to_utf8 u), u)" "cesu8_of us \<noteq> []"
      "drop (length (lit_code_unit_to_utf8 u)) (cesu8_of us) = cesu8_of vs" by (simp_all add: Cons)
    consider (low) "lit_is_code_point_utf16_low_surrogate (ucast u)"
      | (high) "lit_is_code_point_utf16_high_surrogate (ucast u)" "\<not> lit_is_code_point_utf16_low_surrogate (ucast u)"
      | (single) "\<not> surrogate (ucast u)" by (auto simp: surrogate_def)
    then show ?thesis
    proof cases
      case low
      then show ?thesis using rd by (subst encode_uri_loop.simps) (simp add: Cons well_formed_simps)
    next
      case single
      then show ?thesis using rd "1.IH" [rule_format, of vs]
        by (subst encode_uri_loop.simps) (simp add: Cons well_formed_simps surrogate_def utf16_code_points_single)
    next
      case high
      show ?thesis
      proof (cases vs)
        case Nil
        then show ?thesis using high rd by (subst encode_uri_loop.simps) (simp add: Cons well_formed_simps surrogate_def)
      next
        case (Cons v ws)
        have rd2: "lit_read_code_unit_from_cesu8 (cesu8_of vs) = Some (length (lit_code_unit_to_utf8 v), v)" "cesu8_of vs \<noteq> []"
          "drop (length (lit_code_unit_to_utf8 u) + length (lit_code_unit_to_utf8 v)) (cesu8_of us) = cesu8_of ws"
          by (simp_all add: \<open>us = u # vs\<close> Cons)
        have "pair_at u v \<Longrightarrow> ?thesis" using high rd rd2 "1.IH" [rule_format, of ws]
          by (subst encode_uri_loop.simps) (simp add: \<open>us = u # vs\<close> Cons well_formed_simps)
        moreover have "\<not> pair_at u v \<Longrightarrow> ?thesis" using high rd rd2
          by (subst encode_uri_loop.simps) (simp add: \<open>us = u # vs\<close> Cons well_formed_simps)
        ultimately show ?thesis by blast
      qed
    qed
  qed
qed

section \<open>Decoding\<close>

lemma append_percent [simp]: "ecma_stringbuilder_append_char builder 0x25 = builder @ [0x25]"
  by (simp add: ecma_stringbuilder_append_char_def lit_code_point_to_cesu8_bytes_def)

lemma decode_plain: "0x25 \<notin> set bs \<Longrightarrow> decode_uri_loop bitset builder (bs @ rest) = decode_uri_loop bitset (builder @ bs) rest"
  by (induction bs arbitrary: builder) auto

lemma wide_byte_tests:
  fixes b :: u8
  shows "(ucast b :: u16) AND 0xE0 = 0xC0 \<longleftrightarrow> 192 \<le> unat b \<and> unat b < 224"
    "(ucast b :: u16) AND 0xF0 = 0xE0 \<longleftrightarrow> 224 \<le> unat b \<and> unat b < 240"
    "(ucast b :: u16) AND 0xF8 = 0xF0 \<longleftrightarrow> 240 \<le> unat b \<and> unat b < 248"
proof -
  have "(ucast b :: u16) AND 0xE0 = ucast (b AND 0xE0)" "(ucast b :: u16) AND 0xF0 = ucast (b AND 0xF0)" "(ucast b :: u16) AND 0xF8 = ucast (b AND 0xF8)"
    by (simp_all add: unsigned_and_eq)
  then show "(ucast b :: u16) AND 0xE0 = 0xC0 \<longleftrightarrow> 192 \<le> unat b \<and> unat b < 224"
    "(ucast b :: u16) AND 0xF0 = 0xE0 \<longleftrightarrow> 224 \<le> unat b \<and> unat b < 240"
    "(ucast b :: u16) AND 0xF8 = 0xF0 \<longleftrightarrow> 240 \<le> unat b \<and> unat b < 248"
    using unat_u8_less [of b] by (auto simp: word_eq_unat unat_simps)
qed

text \<open>The UTF-8 form of a code point above ASCII: a first byte that tells the size, and extra bytes.\<close>

lemma code_point_to_utf8_shape:
  assumes "unat c < 0x110000" "\<not> unat c < 128"
  obtains b bs where "lit_code_point_to_utf8 c = b # bs" "bs \<noteq> []" "list_all (\<lambda>b. b AND 0xC0 = 0x80) bs" "128 \<le> unat b"
    "(if 192 \<le> unat b \<and> unat b < 224 then Some 2 else if 224 \<le> unat b \<and> unat b < 240 then Some 3
      else if 240 \<le> unat b \<and> unat b < 248 then Some (4 :: nat) else None) = Some (Suc (length bs))"
    "lit_is_valid_utf8_string (b # bs) True"
  using assms(1)
proof (cases rule: code_point_to_utf8_cases)
  case one
  with assms(2) show ?thesis by simp
next
  case (two q r b1 b2)
  then show ?thesis by (intro that [of b1 "[b2]"]) (auto simp: lit_is_valid_utf8_string.simps byte_tests word_unat unat_simps)
next
  case (three p q r b1 b2 b3)
  then show ?thesis by (intro that [of b1 "[b2, b3]"]) (auto simp: lit_is_valid_utf8_string.simps byte_tests word_unat unat_simps)
next
  case (four o' p q r b1 b2 b3 b4)
  then show ?thesis by (intro that [of b1 "[b2, b3, b4]"]) (auto simp: lit_is_valid_utf8_string.simps byte_tests word_unat unat_simps)
qed

lemma decode_encoded:
  assumes "unat c < 0x110000" "\<not> surrogate c" "\<not> ecma_builtin_global_object_character_is_in 0x25 bitset"
  shows "decode_uri_loop bitset builder (encode_code_point bitset c @ rest) = decode_uri_loop bitset (builder @ lit_code_point_to_cesu8 c) rest"
proof (cases "unat c < 128")
  case True
  let ?b = "ucast c :: u8"
  have u: "unat ?b = unat c" using True by (simp add: unat_ucast)
  have enc: "lit_code_point_to_utf8 c = [?b]" "lit_code_point_to_cesu8 c = [?b]"
    using True by (auto simp: lit_code_point_to_utf8_def lit_code_point_to_cesu8_def lit_code_unit_to_utf8_def word_le_unat unat_ucast word_eq_unat)
  have small: "(ucast (ucast ?b :: u32) :: u16) \<le> 0x7F" "(ucast (ucast (ucast ?b :: u32) :: u16) :: u32) = ucast ?b"
    using True u by (simp_all add: word_le_unat unat_ucast word_eq_unat)
  show ?thesis
  proof (cases "ecma_builtin_global_object_character_is_in (ucast ?b) bitset")
    case in_set: True
    have "?b \<noteq> 0x25" using in_set assms(3) by auto
    with in_set show ?thesis by (simp add: encode_code_point_def enc)
  next
    case False
    obtain h1 h2 where h: "pct ?b = [0x25, h1, h2]" "lit_char_hex_lookup (h1 # h2 # rest) 2 = ucast ?b"
      using pct_lookup [of ?b rest] by blast
    have "decode_uri_loop bitset builder (pct ?b @ rest) = decode_uri_loop bitset (builder @ [?b]) rest"
      using False ucast_byte_max [of ?b] small by (simp add: h Let_def)
    with False show ?thesis by (simp add: encode_code_point_def enc)
  qed
next
  case False
  obtain b bs where s: "lit_code_point_to_utf8 c = b # bs" "bs \<noteq> []" "list_all (\<lambda>b. b AND 0xC0 = 0x80) bs" "128 \<le> unat b"
    "(if 192 \<le> unat b \<and> unat b < 224 then Some 2 else if 224 \<le> unat b \<and> unat b < 240 then Some 3
      else if 240 \<le> unat b \<and> unat b < 248 then Some (4 :: nat) else None) = Some (Suc (length bs))"
    "lit_is_valid_utf8_string (b # bs) True"
    by (rule code_point_to_utf8_shape [OF assms(1) False])
  have enc: "encode_code_point bitset c = pct b @ concat (map pct bs)"
    using s(2) by (cases bs) (simp_all add: encode_code_point_def s(1))
  obtain h1 h2 where h: "pct b = [0x25, h1, h2]" "lit_char_hex_lookup (h1 # h2 # concat (map pct bs) @ rest) 2 = ucast b"
    using pct_lookup [of b "concat (map pct bs) @ rest"] by blast
  have w: "(ucast (ucast b :: u32) :: u16) = ucast b" using unat_u8_less [of b] by (simp add: word_eq_unat unat_ucast)
  have big: "\<not> (ucast b :: u16) \<le> 0x7F" using s(4) unat_u8_less [of b] by (simp add: word_le_unat unat_ucast)
  have rd: "lit_read_code_point_from_utf8 (b # bs) = Some (length (b # bs), c)"
    using read_code_point_enc [OF assms(1), of "[]"] s(1) by simp
  have bb: "ucast (ucast b :: u16) = b" using ucast_ucast_byte(2) [of b] unfolding w .
  have "decode_character (ucast b) (concat (map pct bs) @ rest) = Some (Inr (lit_code_point_to_cesu8 c, rest))"
    unfolding decode_character_def wide_byte_tests s(5) using decode_octets_pct [OF s(3), of rest] s(6) rd assms(2)
    by (simp add: bb surrogate_def)
  then show ?thesis using ucast_byte_max [of b] big by (simp add: enc h w Let_def)
qed

lemma code_unit_cesu8: "lit_code_point_to_cesu8 (ucast u) = lit_code_unit_to_utf8 u" for u :: u16
proof -
  have "ucast (ucast u :: u32) = u" using unat_u16_less [of u] by (simp add: word_eq_unat unat_ucast)
  then show ?thesis using unat_u16_less [of u] by (simp add: lit_code_point_to_cesu8_def word_le_unat unat_ucast)
qed

lemma cesu8_of_code_points: "concat (map lit_code_point_to_cesu8 (utf16_code_points us)) = cesu8_of us"
proof -
  have pair: "lit_code_point_to_cesu8 (lit_convert_surrogate_pair_to_code_point u v) = lit_code_unit_to_utf8 u @ lit_code_unit_to_utf8 v"
    if "pair_at u v" for u v
  proof -
    let ?c = "lit_convert_surrogate_pair_to_code_point u v"
    define i j where "i = unat u - 0xD800" and "j = unat v - 0xDC00"
    then have ij: "unat u = 0xD800 + i" "unat v = 0xDC00 + j" "i < 1024" "j < 1024" using that by (auto simp: surrogate_tests)
    have c: "unat ?c = 0x10000 + (i * 1024 + j)" using ij unat_surrogate_pair [of u v] by simp
    then have s: "unat (?c - 0x10000) = i * 1024 + j" by (simp add: unat_sub word_le_unat)
    have "convert_code_point_to_high_surrogate ?c = u"
      using ij by (simp add: convert_code_point_to_high_surrogate_def word_eq_unat unat_simps s)
    moreover have "(0x10000 + (i * 1024 + j)) mod 1024 = j"
      using ij mod_mult_self4 [of 1024 "64 + i" j] by (simp add: algebra_simps)
    then have "convert_code_point_to_low_surrogate ?c = v"
      using ij by (simp add: convert_code_point_to_low_surrogate_def word_eq_unat unat_simps c)
    ultimately show ?thesis using c by (simp add: lit_code_point_to_cesu8_def word_le_unat)
  qed
  show ?thesis by (induction us rule: utf16_code_points.induct) (auto simp: code_unit_cesu8 pair)
qed

lemma code_points_less: "list_all (\<lambda>c. unat c < 0x110000) (utf16_code_points us)"
proof -
  have "unat (ucast u :: u32) < 0x110000" for u :: u16 using unat_u16_less [of u] by (simp add: unat_ucast)
  then show ?thesis by (induction us rule: utf16_code_points.induct) (auto simp: pair_code_point(2))
qed

lemma decode_encode:
  assumes "\<not> ecma_builtin_global_object_character_is_in 0x25 bitset" "list_all (\<lambda>c. unat c < 0x110000 \<and> \<not> surrogate c) cs"
  shows "decode_uri_loop bitset builder (concat (map (encode_code_point bitset) cs)) = Some (Inr (builder @ concat (map lit_code_point_to_cesu8 cs)))"
  using assms(2)
proof (induction cs arbitrary: builder)
  case (Cons c cs)
  then show ?case using decode_encoded [of c bitset builder "concat (map (encode_code_point bitset) cs)"] assms(1) by simp
qed simp

text \<open>Decoding keeps strings valid: the units of the result.\<close>

lemma cesu8_of_ascii:
  assumes "cesu8_of us = x # bs" "unat x < 128"
  obtains us' where "us = ucast x # us'" "bs = cesu8_of us'"
proof (cases us)
  case Nil
  with assms show ?thesis by simp
next
  case (Cons u us')
  show ?thesis
  proof (cases u rule: code_unit_to_utf8_cases)
    case (one b)
    with assms Cons have "b = x" "bs = cesu8_of us'" by simp_all
    moreover have "u = ucast b" using one unat_u8_less [of b] by (simp add: word_eq_unat unat_ucast)
    ultimately show ?thesis using Cons that by simp
  qed (use assms Cons in auto)
qed

lemma hex_lookup_digits:
  assumes "lit_char_hex_lookup input 2 \<noteq> 0xFFFFFFFF"
  obtains x y rest d where "input = x # y # rest" "unat x < 128" "unat y < 128" "unat (lit_char_hex_lookup input 2) = d" "d < 256"
proof -
  have len: "2 \<le> length input" using assms by (auto simp: lit_char_hex_lookup_def split: if_splits)
  then obtain x y rest where i: "input = x # y # rest" by (metis Suc_le_length_iff numeral_2_eq_2)
  have "\<not> (hex_value x = None \<or> hex_value y = None)"
    using assms len hex_lookup_loop_invalid [of 2 input 0] by (force simp: lit_char_hex_lookup_def i)
  then obtain d1 d2 where d: "hex_value x = Some d1" "hex_value y = Some d2" by auto
  have small: "unat z < 128 \<and> d < 16" if "hex_value z = Some d" for z d using that by (auto simp: hex_value_def Let_def split: if_splits)
  show thesis using small [OF d(1)] small [OF d(2)] hex_lookup_two [OF d, of rest] i by (intro that) auto
qed

lemma escape_units:
  assumes "cesu8_of us = 0x25 # input" "lit_char_hex_lookup input 2 \<noteq> 0xFFFFFFFF"
  obtains u x y vs where "us = u # x # y # vs" "drop 2 input = cesu8_of vs" "input = cesu8_of (x # y # vs)"
proof -
  obtain us1 where us1: "us = 0x25 # us1" "input = cesu8_of us1" using cesu8_of_ascii [OF assms(1)] by auto
  obtain x y r where i: "input = x # y # r" "unat x < 128" "unat y < 128" using hex_lookup_digits [OF assms(2)] by metis
  obtain us2 where us2: "us1 = ucast x # us2" "y # r = cesu8_of us2" using cesu8_of_ascii [of us1 x "y # r"] i us1 by metis
  obtain us3 where us3: "us2 = ucast y # us3" "r = cesu8_of us3" using cesu8_of_ascii [of us2 y r] i us2 by metis
  show thesis by (rule that [of "0x25" "ucast x" "ucast y" us3]) (use us1 us2 us3 i in auto)
qed

lemma decode_octets_units:
  "decode_octets n (cesu8_of us) = Some (os, rest) \<Longrightarrow> \<exists>vs. rest = cesu8_of vs \<and> length vs \<le> length us"
proof (induction n arbitrary: us os)
  case (Suc n)
  then obtain input os' where c: "cesu8_of us = 0x25 # input" "lit_char_hex_lookup input 2 \<noteq> 0xFFFFFFFF"
    "decode_octets n (drop 2 input) = Some (os', rest)"
    by (auto simp: decode_octets.simps(2) Let_def split: list.splits if_splits)
  from c(1,2) obtain u x y vs where "us = u # x # y # vs" "drop 2 input = cesu8_of vs" by (rule escape_units)
  with Suc.IH [of vs] c(3) show ?case by auto
qed auto

lemma code_point_units: "\<exists>vs. lit_code_point_to_cesu8 c = cesu8_of vs"
  by (cases "c \<le> 0xFFFF") (auto simp: lit_code_point_to_cesu8_def cesu8_of_def intro: exI [of _ "[_]"] exI [of _ "[_, _]"])

lemma decode_character_units:
  obtains e where "decode_character d (cesu8_of us) = Some (Inl e)"
  | ws vs where "decode_character d (cesu8_of us) = Some (Inr (cesu8_of ws, cesu8_of vs))" "length vs \<le> length us"
proof -
  obtain k where k: "(if d AND 0xE0 = 0xC0 then Some 2 else if d AND 0xF0 = 0xE0 then Some 3
      else if d AND 0xF8 = 0xF0 then Some (4 :: nat) else None) = k" by blast
  have "(\<exists>e. decode_character d (cesu8_of us) = Some (Inl e)) \<or>
    (\<exists>ws vs. decode_character d (cesu8_of us) = Some (Inr (cesu8_of ws, cesu8_of vs)) \<and> length vs \<le> length us)"
  proof (cases k)
    case None
    then show ?thesis unfolding decode_character_def k by simp
  next
    case (Some n)
    show ?thesis
    proof (cases "decode_octets (n - 1) (cesu8_of us)")
      case None
      with Some show ?thesis unfolding decode_character_def k by simp
    next
      case (Some r)
      obtain os rest where r: "r = (os, rest)" by fastforce
      with Some obtain vs where vs: "rest = cesu8_of vs" "length vs \<le> length us" using decode_octets_units by blast
      show ?thesis
      proof (cases "lit_is_valid_utf8_string (ucast d # os) True")
        case False
        with Some \<open>k = Some n\<close> r show ?thesis unfolding decode_character_def k by simp
      next
        case True
        then obtain m cp where cp: "lit_read_code_point_from_utf8 (ucast d # os) = Some (m, cp)" by (rule valid_utf8_front)
        obtain ws where "lit_code_point_to_cesu8 cp = cesu8_of ws" using code_point_units by blast
        with True Some \<open>k = Some n\<close> r vs cp show ?thesis unfolding decode_character_def k by auto
      qed
    qed
  qed
  then show thesis using that by blast
qed

lemma decode_units:
  "\<exists>r. decode_uri_loop bitset (cesu8_of ws) (cesu8_of us) = Some r \<and> (\<forall>out. r = Inr out \<longrightarrow> (\<exists>vs. out = cesu8_of vs))"
proof (induction us arbitrary: ws rule: length_induct)
  case (1 us)
  have IH: "\<exists>r. decode_uri_loop bitset (cesu8_of ws @ cesu8_of xs) (cesu8_of vs) = Some r \<and> (\<forall>out. r = Inr out \<longrightarrow> (\<exists>vs. out = cesu8_of vs))"
    if "length vs < length us" for vs ws xs
    using "1.IH" [rule_format, OF that, of "ws @ xs"] by (simp add: cesu8_of_def)
  show ?case
  proof (cases us)
    case Nil
    then show ?thesis by auto
  next
    case (Cons u vs)
    have us: "cesu8_of us = lit_code_unit_to_utf8 u @ cesu8_of vs" "length vs < length us" by (simp_all add: Cons)
    show ?thesis
    proof (cases "u = 0x25")
      case False
      then have "0x25 \<notin> set (lit_code_unit_to_utf8 u)"
        by (cases u rule: code_unit_to_utf8_cases) (auto simp: word_eq_unat)
      from decode_plain [OF this] IH [OF us(2), of ws "[u]"] show ?thesis by (simp add: us(1))
    next
      case True
      have u: "cesu8_of us = 0x25 # cesu8_of vs" by (simp add: us(1) True lit_code_unit_to_utf8_def)
      let ?h = "lit_char_hex_lookup (cesu8_of vs) 2"
      show ?thesis
      proof (cases "?h = 0xFFFFFFFF")
        case True
        then show ?thesis by (simp add: u Let_def)
      next
        case h: False
        obtain x y ts where ts: "us = u # x # y # ts" "drop 2 (cesu8_of vs) = cesu8_of ts"
          using escape_units [OF u h] by (metis Cons list.inject)
        have short: "length ts < length us" by (simp add: ts(1))
        have pc: "[0x25] = cesu8_of [0x25]" by (simp add: lit_code_unit_to_utf8_def)
        have byte: "[ucast (ucast ?h :: u16)] = cesu8_of [ucast ?h]" if "(ucast ?h :: u16) \<le> 0x7F"
          using that by (simp add: lit_code_unit_to_utf8_def)
        show ?thesis
        proof (cases "(ucast ?h :: u16) \<le> 0x7F")
          case True
          then show ?thesis using h IH [OF us(2), of ws "[0x25]"] IH [OF short, of ws "[ucast ?h]"]
            by (simp add: u Let_def ts(2) pc [symmetric] byte [symmetric] del: cesu8_of_simps)
        next
          case False
          show ?thesis
          proof (cases "ucast ?h :: u16" ts rule: decode_character_units)
            case (1 e)
            with False h show ?thesis by (simp add: u Let_def ts(2))
          next
            case (2 ps qs)
            with False h IH [of qs ws ps] short show ?thesis by (simp add: u Let_def ts(2))
          qed
        qed
      qed
    qed
  qed
qed

section \<open>The functions \<open>escape\<close> and \<open>unescape\<close>\<close>

declare escape_loop.simps [simp del] unescape_loop.simps [simp del]

lemma code_unit_cesu8_bytes: "lit_code_point_to_cesu8_bytes (ucast u) = lit_code_unit_to_utf8 u" for u :: u16
proof -
  have "unat (ucast u :: u32) < 0x110000" using unat_u16_less [of u] by (simp add: unat_ucast)
  then show ?thesis by (simp add: code_point_to_cesu8_bytes_eq code_unit_cesu8)
qed

lemma append_char_unit: "ecma_stringbuilder_append_char builder u = builder @ lit_code_unit_to_utf8 u"
  by (simp add: ecma_stringbuilder_append_char_def code_unit_cesu8_bytes)

lemma read_next_unit: "lit_cesu8_read_next (lit_code_unit_to_utf8 u @ rest) 0 = Some (length (lit_code_unit_to_utf8 u), u)"
  by (simp add: lit_cesu8_read_next_def)

lemma escape_loop_units: "escape_loop builder (cesu8_of us) = Some (builder @ concat (map escape_char us))"
proof (induction us arbitrary: builder)
  case Nil
  then show ?case by (simp add: escape_loop.simps)
next
  case (Cons u us)
  then show ?case by (subst escape_loop.simps) (simp add: read_next_unit)
qed

lemma resolve_digits_value:
  assumes "list_all (\<lambda>c. hex_value c \<noteq> None) (take n buf)" "n \<le> length buf" "(unat v + 1) * 16 ^ n \<le> 2 ^ 16"
  shows "\<exists>w. resolve_digits buf n v = Some (Some w) \<and> unat w = foldl (\<lambda>m c. m * 16 + the (hex_value c)) (unat v) (take n buf)"
  using assms
proof (induction buf n v rule: resolve_digits.induct)
  case (3 c buf n v)
  then obtain d where d: "hex_value c = Some d" by auto
  note hd = hex_to_int_value [OF d]
  let ?v = "push_bit 4 v + ucast (lit_char_hex_to_int (ucast c)) :: u16"
  have lim: "(unat v * 16 + 16) * 16 ^ n \<le> 2 ^ 16" using "3.prems"(3) by (simp add: algebra_simps)
  have "(unat v * 16 + 16) * 1 \<le> (unat v * 16 + 16) * 16 ^ n" by (intro mult_le_mono2) simp
  also note lim
  finally have small: "unat v * 16 + 16 \<le> 2 ^ 16" by simp
  have v: "unat ?v = unat v * 16 + d" using small hd by (simp add: unat_word_ariths unat_simps)
  have "(unat v * 16 + d + 1) * 16 ^ n \<le> (unat v * 16 + 16) * 16 ^ n" using hd by (intro mult_le_mono1) simp
  then have "(unat ?v + 1) * 16 ^ n \<le> 2 ^ 16" unfolding v using lim by (rule order_trans)
  with "3.IH" "3.prems" d v show ?case by (simp add: is_hex_digit_iff)
qed simp_all

lemma unescape_two:
  assumes "hex_value h1 = Some (unat u div 16)" "hex_value h2 = Some (unat u mod 16)" "unat u < 256"
  shows "unescape_char 0x25 (h1 # h2 # rest) = Some (2, u)"
proof -
  have "h1 \<noteq> 0x75" using assms(1) by (auto simp: hex_value_def)
  moreover obtain w where "resolve_digits (h1 # h2 # rest) 2 0 = Some (Some w)" "unat w = unat u"
    using resolve_digits_value [of 2 "h1 # h2 # rest" 0] assms by auto
  ultimately show ?thesis
    by (auto simp: unescape_char_def ecma_builtin_global_object_unescape_resolve_escape_def Let_def word_eq_unat)
qed

lemma unescape_four:
  assumes "hex_value h1 = Some (unat u div 256 div 16)" "hex_value h2 = Some (unat u div 256 mod 16)"
    "hex_value h3 = Some (unat u mod 256 div 16)" "hex_value h4 = Some (unat u mod 256 mod 16)"
  shows "unescape_char 0x25 (0x75 # h1 # h2 # h3 # h4 # rest) = Some (5, u)"
proof -
  have n: "((unat u div 256 div 16 * 16 + unat u div 256 mod 16) * 16 + unat u mod 256 div 16) * 16 + unat u mod 256 mod 16 = unat u"
    by (simp add: algebra_simps)
  obtain w where "resolve_digits (h1 # h2 # h3 # h4 # rest) 4 0 = Some (Some w)" "unat w = unat u"
    using resolve_digits_value [of 4 "h1 # h2 # h3 # h4 # rest" 0] assms n by auto
  then show ?thesis
    by (auto simp: unescape_char_def ecma_builtin_global_object_unescape_resolve_escape_def Let_def word_eq_unat)
qed

lemma unescape_escaped:
  "unescape_loop builder (escape_char u @ rest) = unescape_loop (builder @ lit_code_unit_to_utf8 u) rest"
proof -
  have step: "unescape_loop builder (0x25 # xs @ rest) = unescape_loop (builder @ lit_code_unit_to_utf8 u) rest"
    if "unescape_char 0x25 (xs @ rest) = Some (length xs, u)" for xs
  proof -
    have "lit_cesu8_read_next (0x25 # xs @ rest) 0 = Some (1, 0x25)"
      using read_next_unit [of "0x25" "xs @ rest"] by (simp add: lit_code_unit_to_utf8_def)
    with that show ?thesis by (subst unescape_loop.simps) (simp add: append_char_unit)
  qed
  have two: ?thesis if esc: "escape_char u = ecma_builtin_global_object_byte_to_hex (ucast u)" and lt: "unat u < 256"
  proof -
    have u: "unat (ucast u :: u32) = unat u" using lt by (simp add: unat_ucast)
    then obtain h1 h2 where h: "ecma_builtin_global_object_byte_to_hex (ucast u) = [0x25, h1, h2]"
      "hex_value h1 = Some (unat u div 16)" "hex_value h2 = Some (unat u mod 16)"
      using byte_to_hex_digits [of "ucast u"] lt by metis
    with step [of "[h1, h2]"] unescape_two [OF h(2,3) lt, of rest] esc show ?thesis by simp
  qed
  consider (plain) "u \<le> 0x7F" "ecma_builtin_global_object_character_is_in (ucast u) ecma_escape_set"
    | (byte) "u \<le> 255" "escape_char u = ecma_builtin_global_object_byte_to_hex (ucast u)"
    | (wide) "u > 255"
    by (cases "u > 255"; cases "u \<le> 0x7F"; cases "ecma_builtin_global_object_character_is_in (ucast u) ecma_escape_set")
      (auto simp: escape_char_def not_less)
  then show ?thesis
  proof cases
    case plain
    have "u \<noteq> 0x25" using plain(2) by (auto simp: ecma_builtin_global_object_character_is_in_def ecma_escape_set_def)
    then have "unescape_char u rest = Some (0, u)" by (simp add: unescape_char_def)
    moreover have "escape_char u = lit_code_unit_to_utf8 u" using plain by (simp add: escape_char_def code_unit_cesu8_bytes)
    ultimately show ?thesis by (subst unescape_loop.simps) (simp add: read_next_unit append_char_unit)
  next
    case byte
    then show ?thesis by (intro two) (simp_all add: word_le_unat)
  next
    case wide
    let ?hi = "ucast (drop_bit 8 u) :: u32" and ?lo = "ucast (u AND 0xff) :: u32"
    have "0xff = (mask 8 :: u16)" by (simp add: mask_eq_exp_minus_1)
    then have "unat (u AND 0xff) = unat u mod 2 ^ 8" by (simp only: unat_and_mask)
    then have n: "unat ?hi = unat u div 256" "unat ?lo = unat u mod 256" using unat_u16_less [of u] by (simp_all add: unat_simps)
    have lt: "unat ?hi < 256" "unat ?lo < 256" unfolding n using unat_u16_less [of u] by (simp_all add: less_mult_imp_div_less)
    obtain h1 h2 where h: "ecma_builtin_global_object_byte_to_hex ?hi = [0x25, h1, h2]"
      "hex_value h1 = Some (unat u div 256 div 16)" "hex_value h2 = Some (unat u div 256 mod 16)"
      by (rule byte_to_hex_digits [OF lt(1)]) (simp add: n)
    obtain h3 h4 where l: "ecma_builtin_global_object_byte_to_hex ?lo = [0x25, h3, h4]"
      "hex_value h3 = Some (unat u mod 256 div 16)" "hex_value h4 = Some (unat u mod 256 mod 16)"
      by (rule byte_to_hex_digits [OF lt(2)]) (simp add: n)
    have "lit_code_point_to_cesu8_bytes 0x25 = [0x25]" "lit_code_point_to_cesu8_bytes 0x75 = [0x75]"
      by (simp_all add: lit_code_point_to_cesu8_bytes_def)
    then have "escape_char u = 0x25 # [0x75, h1, h2, h3, h4]"
      using wide h(1) l(1) by (simp add: escape_char_def word_less_unat word_le_unat)
    with step [of "[0x75, h1, h2, h3, h4]"] unescape_four [OF h(2,3) l(2,3), of rest] show ?thesis by simp
  qed
qed

lemma unescape_loop_escaped: "unescape_loop builder (concat (map escape_char us)) = Some (builder @ cesu8_of us)"
proof (induction us arbitrary: builder)
  case Nil
  then show ?case by (simp add: unescape_loop.simps)
next
  case (Cons u us)
  then show ?case using unescape_escaped [of builder u "concat (map escape_char us)"] by simp
qed

section \<open>Character classes\<close>

text \<open>The characters that ECMA-262 leaves alone, and the tables of the code.\<close>

definition uri_alphanumeric :: string where
  "uri_alphanumeric = ''ABCDEFGHIJKLMNOPQRSTUVWXYZabcdefghijklmnopqrstuvwxyz0123456789''"

definition uri_unescaped :: string where
  "uri_unescaped = uri_alphanumeric @ ''-_.!~*()'' @ [CHR 0x27]"

definition uri_reserved :: string where
  "uri_reserved = '';/?:@&=+$,#''"

definition char_codes :: "string \<Rightarrow> nat list" where
  "char_codes s = map of_char s"

lemma bitset_tables:
  "filter (\<lambda>n. ecma_builtin_global_object_character_is_in (word_of_nat n) unescaped_uri_component_set) [0..<128] = sort (char_codes uri_unescaped)"
  "filter (\<lambda>n. ecma_builtin_global_object_character_is_in (word_of_nat n) unescaped_uri_set) [0..<128] = sort (char_codes (uri_unescaped @ uri_reserved))"
  "filter (\<lambda>n. ecma_builtin_global_object_character_is_in (word_of_nat n) ecma_escape_set) [0..<128] = sort (char_codes (uri_alphanumeric @ ''@*_+-./''))"
  by code_simp+

lemma bitset_member:
  assumes "filter (\<lambda>n. ecma_builtin_global_object_character_is_in (word_of_nat n) bitset) [0..<128] = sort (char_codes s)" "unat c < 128"
  shows "ecma_builtin_global_object_character_is_in c bitset \<longleftrightarrow> unat c \<in> set (char_codes s)"
proof -
  have "unat c \<in> set (filter (\<lambda>n. ecma_builtin_global_object_character_is_in (word_of_nat n) bitset) [0..<128]) \<longleftrightarrow> unat c \<in> set (char_codes s)"
    unfolding assms(1) by (simp only: set_sort)
  then show ?thesis using assms(2) by simp
qed

lemmas bitset_iff = bitset_tables [THEN bitset_member]

lemma char_codes_less: "n \<in> set (char_codes s) \<Longrightarrow> n < 256"
  by (auto simp: char_codes_def)

lemma char_codes_ascii: "list_all (\<lambda>n. n < 128) (char_codes (uri_unescaped @ uri_reserved @ uri_alphanumeric))"
  by code_simp

text \<open>The escape of ECMA-262: a percent sign and two upper case digits for each byte of the UTF-8 form.\<close>

definition upper_digits :: string where
  "upper_digits = ''0123456789ABCDEF''"

definition percent :: "u8 \<Rightarrow> u8 list" where
  "percent b = [0x25, of_char (upper_digits ! (unat b div 16)), of_char (upper_digits ! (unat b mod 16))]"

definition uri_encode :: "string \<Rightarrow> u32 list \<Rightarrow> u8 list" where
  "uri_encode unescaped cs = concat (map (\<lambda>c.
    if unat c \<in> set (char_codes unescaped) then [ucast c] else concat (map percent (lit_code_point_to_utf8 c))) cs)"

lemma hex_char:
  assumes "d < 16"
  shows "of_char (upper_digits ! d) = (if d \<le> 9 then word_of_nat (d + 0x30) else word_of_nat (d + 0x37) :: u8)"
proof -
  have "map of_char upper_digits = map (\<lambda>d. if d \<le> 9 then word_of_nat (d + 0x30) else word_of_nat (d + 0x37) :: u8) [0..<16]"
    by code_simp
  then have "map of_char upper_digits ! d = map (\<lambda>d. if d \<le> 9 then word_of_nat (d + 0x30) else word_of_nat (d + 0x37) :: u8) [0..<16] ! d"
    by (rule arg_cong)
  moreover have "length upper_digits = 16" by (simp add: upper_digits_def)
  ultimately show ?thesis using assms by simp
qed

lemma pct_percent: "pct b = percent b"
proof -
  let ?d1 = "ucast (drop_bit 4 (ucast b :: u32)) :: u16" and ?d2 = "ucast (ucast ((ucast b :: u32) AND 0xf) :: u8) :: u16"
  let ?h = "\<lambda>d :: u16. ucast (if d > 9 then d + (0x41 - 10) else d + 0x30) :: u8"
  have h: "?h d = (if unat d \<le> 9 then word_of_nat (unat d + 0x30) else word_of_nat (unat d + 0x37))" if "unat d < 16" for d
    using that by (auto simp: unat_simps word_less_unat unat_word_ariths word_eq_unat unat_of_nat)
  have d: "unat ?d1 = unat b div 16" "unat ?d2 = unat b mod 16" "unat b div 16 < 16" "unat b mod 16 < 16"
    using unat_u8_less [of b] by (simp_all add: unat_simps)
  show ?thesis using h [of ?d1] h [of ?d2] d hex_char [OF d(3)] hex_char [OF d(4)]
    by (simp add: ecma_builtin_global_object_byte_to_hex_def percent_def Let_def del: of_nat_add)
qed

lemma encode_code_point_uri:
  assumes "\<And>c. unat c < 128 \<Longrightarrow> ecma_builtin_global_object_character_is_in c bitset \<longleftrightarrow> unat c \<in> set (char_codes s)"
    and "list_all (\<lambda>n. n < 128) (char_codes s)"
  shows "concat (map (encode_code_point bitset) cs) = uri_encode s cs"
proof -
  have "encode_code_point bitset c = (if unat c \<in> set (char_codes s) then [ucast c] else concat (map percent (lit_code_point_to_utf8 c)))" for c
  proof (cases "unat c < 128")
    case True
    then have "lit_code_point_to_utf8 c = [ucast c]" "(ucast (ucast c :: u8) :: u32) = c"
      by (auto simp: lit_code_point_to_utf8_def word_le_unat word_eq_unat unat_ucast)
    then show ?thesis using assms(1) [OF True] by (simp add: encode_code_point_def pct_percent [symmetric])
  next
    case False
    then have n: "unat c \<notin> set (char_codes s)" using assms(2) by (auto simp: list_all_iff)
    have "2 \<le> length (lit_code_point_to_utf8 c)" using False by (simp add: lit_code_point_to_utf8_def Let_def word_le_unat)
    then obtain b b' bs where "lit_code_point_to_utf8 c = b # b' # bs" by (metis Suc_le_length_iff numeral_2_eq_2)
    then show ?thesis using n by (simp add: encode_code_point_def pct_percent)
  qed
  then have "encode_code_point bitset = (\<lambda>c. if unat c \<in> set (char_codes s) then [ucast c] else concat (map percent (lit_code_point_to_utf8 c)))"
    by (rule ext)
  then show ?thesis by (simp only: uri_encode_def)
qed

lemma escape_char_plain:
  "if unat u \<in> set (char_codes (uri_alphanumeric @ ''@*_+-./'')) then escape_char u = lit_code_unit_to_utf8 u
   else length (lit_code_unit_to_utf8 u) < length (escape_char u)"
proof (cases "unat u < 128")
  case True
  then have "unat (ucast u :: u32) < 128" "unat (ucast u :: u32) = unat u" by (simp_all add: unat_ucast)
  with bitset_iff(3) [of "ucast u"] True show ?thesis
    by (auto simp: escape_char_def code_unit_cesu8_bytes lit_code_unit_to_utf8_def word_le_unat
        ecma_builtin_global_object_byte_to_hex_def Let_def)
next
  case False
  have "list_all (\<lambda>n. n < 128) (char_codes (uri_alphanumeric @ ''@*_+-./''))" by code_simp
  then have "unat u \<notin> set (char_codes (uri_alphanumeric @ ''@*_+-./''))" using False by (auto simp: list_all_iff)
  moreover have "length (lit_code_unit_to_utf8 u) < length (escape_char u)" using False
    by (simp add: escape_char_def lit_code_unit_to_utf8_def word_le_unat word_less_unat
        ecma_builtin_global_object_byte_to_hex_def Let_def lit_code_point_to_cesu8_bytes_def)
  ultimately show ?thesis by simp
qed

lemma escape_plain:
  "list_all (\<lambda>u. unat u \<in> set (char_codes (uri_alphanumeric @ ''@*_+-./''))) us \<longleftrightarrow> concat (map escape_char us) = cesu8_of us"
proof -
  let ?P = "\<lambda>u :: u16. unat u \<in> set (char_codes (uri_alphanumeric @ ''@*_+-./''))"
  have "length (cesu8_of us) \<le> length (concat (map escape_char us)) \<and>
    (\<not> list_all ?P us \<longrightarrow> length (cesu8_of us) < length (concat (map escape_char us)))"
  proof (induction us)
    case (Cons u us)
    with escape_char_plain [of u] show ?case by (cases "?P u") simp_all
  qed simp
  moreover have "list_all ?P us \<Longrightarrow> concat (map escape_char us) = cesu8_of us"
  proof (induction us)
    case (Cons u us)
    with escape_char_plain [of u] show ?case by simp
  qed simp
  ultimately show ?thesis by auto
qed

section \<open>Properties\<close>

text \<open>
  (C35) \<open>encodeURI\<close> and \<open>encodeURIComponent\<close> on any string: code points outside of the characters that ECMA-262 leaves alone are
  written as the bytes of their UTF-8 form, each as a percent sign and two digits, and a surrogate without its partner is an error.
\<close>

theorem uri_encode_correct:
  "ecma_builtin_global_dispatch_routine ECMA_GLOBAL_ENCODE_URI (cesu8_of us) =
     Some (if well_formed us then Inr (uri_encode (uri_unescaped @ uri_reserved) (utf16_code_points us))
           else Inl ECMA_ERR_UNICODE_SURROGATE_PAIR_MISSING) \<and>
   ecma_builtin_global_dispatch_routine ECMA_GLOBAL_ENCODE_URI_COMPONENT (cesu8_of us) =
     Some (if well_formed us then Inr (uri_encode uri_unescaped (utf16_code_points us))
           else Inl ECMA_ERR_UNICODE_SURROGATE_PAIR_MISSING)"
proof -
  have ascii: "list_all (\<lambda>n. n < 128) (char_codes (uri_unescaped @ uri_reserved))" "list_all (\<lambda>n. n < 128) (char_codes uri_unescaped)"
    using char_codes_ascii by (simp_all add: char_codes_def)
  show ?thesis
    using encode_code_point_uri [OF bitset_iff(2) ascii(1)] encode_code_point_uri [OF bitset_iff(1) ascii(2)]
    by (simp add: ecma_builtin_global_dispatch_routine_def ecma_builtin_global_object_encode_uri_helper_def encode_uri_loop_units)
qed

text \<open>
  (C34) Decoding inverts encoding: \<open>decodeURI\<close> after \<open>encodeURI\<close>, and \<open>decodeURIComponent\<close> after \<open>encodeURIComponent\<close>, return every
  string without lone surrogates unchanged.
\<close>

theorem uri_roundtrip:
  assumes "well_formed us" "(enc, dec) \<in> {(ECMA_GLOBAL_ENCODE_URI, ECMA_GLOBAL_DECODE_URI), (ECMA_GLOBAL_ENCODE_URI_COMPONENT, ECMA_GLOBAL_DECODE_URI_COMPONENT)}"
  shows "\<exists>out. ecma_builtin_global_dispatch_routine enc (cesu8_of us) = Some (Inr out) \<and>
    ecma_builtin_global_dispatch_routine dec out = Some (Inr (cesu8_of us))"
proof -
  have cs: "list_all (\<lambda>c. unat c < 0x110000 \<and> \<not> surrogate c) (utf16_code_points us)"
    using assms(1) code_points_less [of us] by (auto simp: well_formed_def list_all_iff)
  have pc: "\<not> ecma_builtin_global_object_character_is_in 0x25 unescaped_uri_set" "\<not> ecma_builtin_global_object_character_is_in 0x25 unescaped_uri_component_set"
    by (simp_all add: ecma_builtin_global_object_character_is_in_def unescaped_uri_set_def unescaped_uri_component_set_def)
  show ?thesis using assms(2) decode_encode [OF pc(1) cs, of "[]"] decode_encode [OF pc(2) cs, of "[]"] assms(1)
    by (auto simp: ecma_builtin_global_dispatch_routine_def ecma_builtin_global_object_encode_uri_helper_def
        ecma_builtin_global_object_decode_uri_helper_def encode_uri_loop_units cesu8_of_code_points)
qed

theorem uri_roundtrip_witness:
  "\<exists>out. ecma_builtin_global_dispatch_routine ECMA_GLOBAL_ENCODE_URI (cesu8_of [0x2F, 0x20AC, 0xD83D, 0xDE00]) = Some (Inr out) \<and>
    ecma_builtin_global_dispatch_routine ECMA_GLOBAL_DECODE_URI out = Some (Inr (cesu8_of [0x2F, 0x20AC, 0xD83D, 0xDE00]))"
  by (rule uri_roundtrip)
    (simp_all add: well_formed_def surrogate_def surrogate_tests lit_is_code_point_utf16_high_surrogate_def lit_is_code_point_utf16_low_surrogate_def
      lit_convert_surrogate_pair_to_code_point_def)

text \<open>
  (C36) Decoding keeps the representation of strings: on every valid string \<open>decodeURI\<close> and \<open>decodeURIComponent\<close> stay inside of the input, and what they
  return is again valid CESU-8, whatever bytes the escape sequences stand for.
\<close>

theorem uri_decode_valid:
  "\<exists>r. ecma_builtin_global_object_decode_uri_helper (cesu8_of us) bitset = Some r \<and>
    (case r of Inl e \<Rightarrow> True | Inr out \<Rightarrow> lit_is_valid_cesu8_string out)"
proof -
  obtain r where "decode_uri_loop bitset [] (cesu8_of us) = Some r" "\<forall>out. r = Inr out \<longrightarrow> (\<exists>vs. out = cesu8_of vs)"
    using decode_units [of bitset "[]" us] by auto
  then show ?thesis
    by (auto simp: ecma_builtin_global_object_decode_uri_helper_def valid_cesu8_iff_cesu8_of split: sum.splits)
qed

text \<open>
  Overlong forms are decoded: \<open>decodeURIComponent\<close> turns the four bytes F0 82 82 AC into the euro sign, whose UTF-8 form has three bytes,
  where ECMA-262 asks for a \<open>URIError\<close>.
\<close>

lemma uri_decode_overlong:
  "ecma_builtin_global_object_decode_uri_helper (concat (map percent [0xF0, 0x82, 0x82, 0xAC])) unescaped_uri_component_set =
     Some (Inr (cesu8_of [0x20AC])) \<and> lit_code_point_to_utf8 0x20AC = [0xE2, 0x82, 0xAC]"
  by code_simp

text \<open>
  (C37) \<open>unescape\<close> inverts \<open>escape\<close> on every string, lone surrogates included, and the characters that \<open>escape\<close> leaves alone are those of ECMA-262.
\<close>

theorem escape_roundtrip:
  "\<exists>out. ecma_builtin_global_object_escape (cesu8_of us) = Some out \<and> ecma_builtin_global_object_unescape out = Some (cesu8_of us) \<and>
    (list_all (\<lambda>u. unat u \<in> set (char_codes (uri_alphanumeric @ ''@*_+-./''))) us \<longleftrightarrow> out = cesu8_of us)"
proof -
  have "ecma_builtin_global_object_escape (cesu8_of us) = Some (concat (map escape_char us))"
    by (simp add: ecma_builtin_global_object_escape_def escape_loop_units)
  moreover have "ecma_builtin_global_object_unescape (concat (map escape_char us)) = Some (cesu8_of us)"
    using unescape_loop_escaped [of "[]" us]
    by (auto simp: ecma_builtin_global_object_unescape_def unescape_loop.simps)
  ultimately show ?thesis using escape_plain [of us] by blast
qed

end
