(* ===== verification/Jmem_Heap.thy ===== *)
theory Jmem_Heap
  imports Block_Heap "HOL-Library.Monad_Syntax"
begin

text \<open>
  The memory manager, \<open>src/jjs-core/jmem/jmem-heap.c\<close> and \<open>jmem-cellocator.c\<close>.

  The heap is one area. Its free regions form a list in address order; the node of a region (the offset
  of the next region and the size) is stored in the region itself. Blocks of at most 32 bytes
  are cells of pages, which are blocks of the area.

  Addresses are relative to the start of the heap: the list head \<open>heap_p->first\<close> has address 0 and
  \<open>heap_p->area\<close> address 8. \<open>nodes\<close> gives the node stored at an address; \<open>bytes\<close> is the contents of
  the allocated memory. The list of pages and the list of free cells, which are linked through the
  pages and the cells, are lists here.

  Sizes and offsets are natural numbers: the area is smaller than 4 GB, so the 32-bit arithmetic of the
  code does not wrap around (the size of a page is the exception, see below). A function that does not return,
  because a loop does not end or the engine stops with a fatal error, gives \<open>None\<close>.

  \<open>ecma_free_unused_memory\<close> runs the garbage collector. Its effect on the heap is a sequence of
  calls of \<open>jmem_heap_free_block\<close>; which blocks these are is decided by a parameter \<open>gc\<close>, from the state
  \<open>collector\<close> of the rest of the engine and the memory pressure.
\<close>

section \<open>State\<close>

abbreviation (input) JMEM_ALIGNMENT :: nat where "JMEM_ALIGNMENT \<equiv> 8"
abbreviation (input) JMEM_HEAP_END_OF_LIST :: nat where "JMEM_HEAP_END_OF_LIST \<equiv> 0xffffffff"
abbreviation (input) JMEM_CELLOCATOR_CELL_SIZE :: nat where "JMEM_CELLOCATOR_CELL_SIZE \<equiv> 32"

abbreviation (input) JMEM_PRESSURE_NONE :: nat where "JMEM_PRESSURE_NONE \<equiv> 0"
abbreviation (input) JMEM_PRESSURE_LOW :: nat where "JMEM_PRESSURE_LOW \<equiv> 1"
abbreviation (input) JMEM_PRESSURE_HIGH :: nat where "JMEM_PRESSURE_HIGH \<equiv> 2"
abbreviation (input) JMEM_PRESSURE_FULL :: nat where "JMEM_PRESSURE_FULL \<equiv> 3"

record jmem_heap_free =
  next_offset :: nat
  region_size :: nat

record jmem_cellocator_page =
  page_p :: addr
  start_p :: addr
  end_p :: addr

record 'e jmem_context =
  nodes :: "addr \<Rightarrow> jmem_heap_free"
  bytes :: "addr \<Rightarrow> u8"
  jmem_heap_list_skip_p :: addr
  jmem_heap_allocated_size :: nat
  jmem_heap_limit :: nat
  gc_limit :: nat
  vm_heap_size :: nat
  vm_cell_count :: nat
  page_header_size :: nat
  pages :: "jmem_cellocator_page list"
  free_cells :: "addr list"
  collector :: 'e

type_synonym 'e gc = "nat \<Rightarrow> 'e \<Rightarrow> (addr \<times> nat) list \<times> 'e"

definition JMEM_HEAP_GET_OFFSET_FROM_ADDR :: "addr \<Rightarrow> nat" where
  "JMEM_HEAP_GET_OFFSET_FROM_ADDR p = p - 8"

definition JMEM_HEAP_GET_ADDR_FROM_OFFSET :: "nat \<Rightarrow> addr" where
  "JMEM_HEAP_GET_ADDR_FROM_OFFSET u = 8 + u"

definition align_up :: "nat \<Rightarrow> nat" where
  "align_up n = (n + JMEM_ALIGNMENT - 1) div JMEM_ALIGNMENT * JMEM_ALIGNMENT"

definition jmem_heap_get_region_end :: "(addr \<Rightarrow> jmem_heap_free) \<Rightarrow> addr \<Rightarrow> addr" where
  "jmem_heap_get_region_end m p = p + region_size (m p)"

text \<open>Copying of memory, also between overlapping ranges.\<close>

definition copy_bytes :: "'e jmem_context \<Rightarrow> addr \<Rightarrow> addr \<Rightarrow> nat \<Rightarrow> 'e jmem_context" where
  "copy_bytes c dst src n =
    c\<lparr>bytes := (\<lambda>x. if dst \<le> x \<and> x < dst + n then bytes c (src + (x - dst)) else bytes c x)\<rparr>"

section \<open>Initialization\<close>

text \<open>The context \<open>c\<close> has been cleared and its options have been set (\<open>jjs_context_init\<close>).\<close>

definition jmem_heap_init :: "'e jmem_context \<Rightarrow> 'e jmem_context" where
  "jmem_heap_init c =
    (let region_p = JMEM_ALIGNMENT;
         heap_area_size = vm_heap_size c - JMEM_ALIGNMENT
     in c\<lparr>jmem_heap_limit := gc_limit c,
          nodes := (nodes c)
            (region_p := \<lparr>next_offset = JMEM_HEAP_END_OF_LIST, region_size = heap_area_size\<rparr>,
             0 := \<lparr>next_offset = JMEM_HEAP_GET_OFFSET_FROM_ADDR region_p, region_size = 0\<rparr>),
          jmem_heap_list_skip_p := 0\<rparr>)"

section \<open>Limits that trigger the garbage collector\<close>

partial_function (option) raise_limit :: "nat \<Rightarrow> nat \<Rightarrow> nat \<Rightarrow> nat option" where
  "raise_limit allocated gcl limit = (if limit \<le> allocated then raise_limit allocated gcl (limit + gcl) else Some limit)"

partial_function (option) lower_limit :: "nat \<Rightarrow> nat \<Rightarrow> nat \<Rightarrow> nat option" where
  "lower_limit allocated gcl limit = (if allocated + gcl \<le> limit then lower_limit allocated gcl (limit - gcl) else Some limit)"

section \<open>Cells\<close>

definition jmem_cellocator_alloc :: "'e jmem_context \<Rightarrow> addr option \<times> 'e jmem_context" where
  "jmem_cellocator_alloc c =
    (case free_cells c of
       [] \<Rightarrow> (None, c)
     | cell_p # cells \<Rightarrow> (Some cell_p, c\<lparr>free_cells := cells\<rparr>))"

definition jmem_cellocator_cell_free :: "'e jmem_context \<Rightarrow> addr \<Rightarrow> 'e jmem_context" where
  "jmem_cellocator_cell_free c chunk_p = c\<lparr>free_cells := chunk_p # free_cells c\<rparr>"

fun jmem_cellocator_find :: "jmem_cellocator_page list \<Rightarrow> addr \<Rightarrow> jmem_cellocator_page option" where
  "jmem_cellocator_find [] chunk_p = None"
| "jmem_cellocator_find (pg # pgs) chunk_p =
    (if start_p pg \<le> chunk_p \<and> chunk_p \<le> end_p pg then Some pg else jmem_cellocator_find pgs chunk_p)"

text \<open>The size of a page; the product is computed with 32 bits.\<close>

definition JMEM_CELLOCATOR_PAGE_SIZE :: "'e jmem_context \<Rightarrow> nat" where
  "JMEM_CELLOCATOR_PAGE_SIZE c = page_header_size c + JMEM_CELLOCATOR_CELL_SIZE * vm_cell_count c mod 2 ^ 32"

function add_cells :: "addr \<Rightarrow> addr \<Rightarrow> addr list \<Rightarrow> addr list" where
  "add_cells iter_p last_p cells =
    (if iter_p \<le> last_p then add_cells (iter_p + JMEM_CELLOCATOR_CELL_SIZE) last_p (iter_p # cells) else cells)"
  by pat_completeness auto
termination
  by (relation "measure (\<lambda>(i, l, c). Suc l - i)") auto

text \<open>\<open>alloc\<close> is \<open>jmem_heap_alloc_block_null_on_error\<close>, which is defined further down.\<close>

definition jmem_cellocator_add_page ::
  "('e jmem_context \<Rightarrow> nat \<Rightarrow> (addr option \<times> 'e jmem_context) option) \<Rightarrow> 'e jmem_context \<Rightarrow> (bool \<times> 'e jmem_context) option" where
  "jmem_cellocator_add_page alloc c =
    do {
      (chunk, c) \<leftarrow> alloc c (JMEM_CELLOCATOR_PAGE_SIZE c);
      (case chunk of
         None \<Rightarrow> Some (False, c)
       | Some chunk_p \<Rightarrow>
          (let first_p = chunk_p + page_header_size c;
               pg = \<lparr>page_p = chunk_p, start_p = first_p,
                     end_p = first_p + JMEM_CELLOCATOR_CELL_SIZE * (vm_cell_count c - 1)\<rparr>
           in Some (True, c\<lparr>free_cells := add_cells (start_p pg) (end_p pg) (free_cells c), pages := pg # pages c\<rparr>)))
    }"

section \<open>Freeing a block\<close>

partial_function (option) find_prev_loop :: "(addr \<Rightarrow> jmem_heap_free) \<Rightarrow> nat \<Rightarrow> addr \<Rightarrow> addr option" where
  "find_prev_loop m block_offset prev_p =
    (if next_offset (m prev_p) < block_offset
     then find_prev_loop m block_offset (JMEM_HEAP_GET_ADDR_FROM_OFFSET (next_offset (m prev_p)))
     else Some prev_p)"

definition jmem_heap_find_prev :: "'e jmem_context \<Rightarrow> addr \<Rightarrow> addr option" where
  "jmem_heap_find_prev c block_p =
    find_prev_loop (nodes c) (JMEM_HEAP_GET_OFFSET_FROM_ADDR block_p)
      (if block_p > jmem_heap_list_skip_p c then jmem_heap_list_skip_p c else 0)"

definition insert_node :: "(addr \<Rightarrow> jmem_heap_free) \<Rightarrow> addr \<Rightarrow> addr \<Rightarrow> nat \<Rightarrow> addr \<Rightarrow> jmem_heap_free" where
  "insert_node m block_p prev_p n =
    (let next_p = JMEM_HEAP_GET_ADDR_FROM_OFFSET (next_offset (m prev_p));
         (m, block_p) =
           (if jmem_heap_get_region_end m prev_p = block_p
            then (m(prev_p := (m prev_p)\<lparr>region_size := region_size (m prev_p) + n\<rparr>), prev_p)
            else
             (let m = m(block_p := (m block_p)\<lparr>region_size := n\<rparr>)
              in (m(prev_p := (m prev_p)\<lparr>next_offset := JMEM_HEAP_GET_OFFSET_FROM_ADDR block_p\<rparr>), block_p)))
     in if jmem_heap_get_region_end m block_p = next_p
        then m(block_p := \<lparr>next_offset = next_offset (m next_p), region_size = region_size (m block_p) + region_size (m next_p)\<rparr>)
        else m(block_p := (m block_p)\<lparr>next_offset := JMEM_HEAP_GET_OFFSET_FROM_ADDR next_p\<rparr>))"

definition jmem_heap_insert_block :: "'e jmem_context \<Rightarrow> addr \<Rightarrow> addr \<Rightarrow> nat \<Rightarrow> 'e jmem_context" where
  "jmem_heap_insert_block c block_p prev_p n =
    c\<lparr>nodes := insert_node (nodes c) block_p prev_p n, jmem_heap_list_skip_p := prev_p\<rparr>"

definition jmem_heap_free_block_internal :: "'e jmem_context \<Rightarrow> addr \<Rightarrow> nat \<Rightarrow> 'e jmem_context option" where
  "jmem_heap_free_block_internal c ptr n =
    (case jmem_cellocator_find (pages c) ptr of
       Some pg \<Rightarrow> Some (jmem_cellocator_cell_free c ptr)
     | None \<Rightarrow>
        (let aligned_size = align_up n in
         do {
           prev_p \<leftarrow> jmem_heap_find_prev c ptr;
           let c = jmem_heap_insert_block c ptr prev_p aligned_size;
           let allocated = jmem_heap_allocated_size c - aligned_size;
           limit \<leftarrow> lower_limit allocated (gc_limit c) (jmem_heap_limit c);
           Some (c\<lparr>jmem_heap_allocated_size := allocated, jmem_heap_limit := limit\<rparr>)
         }))"

definition jmem_heap_free_block :: "'e jmem_context \<Rightarrow> addr \<Rightarrow> nat \<Rightarrow> 'e jmem_context option" where
  "jmem_heap_free_block c ptr n = jmem_heap_free_block_internal c ptr n"

primrec free_blocks :: "(addr \<times> nat) list \<Rightarrow> 'e jmem_context \<Rightarrow> 'e jmem_context option" where
  "free_blocks [] c = Some c"
| "free_blocks (b # bs) c = do { c \<leftarrow> jmem_heap_free_block c (fst b) (snd b); free_blocks bs c }"

definition ecma_free_unused_memory :: "'e gc \<Rightarrow> 'e jmem_context \<Rightarrow> nat \<Rightarrow> 'e jmem_context option" where
  "ecma_free_unused_memory gc c pressure =
    (if pressure = JMEM_PRESSURE_FULL then None
     else (case gc pressure (collector c) of (bs, e) \<Rightarrow> free_blocks bs (c\<lparr>collector := e\<rparr>)))"

section \<open>Allocating a block\<close>

text \<open>
  The first region that is large enough. The result is the new contents of the nodes, the node before the
  region and the region. The special case for 8 bytes in the code is not reachable: such a request is served by a cell.
\<close>

partial_function (option) alloc_loop ::
  "(addr \<Rightarrow> jmem_heap_free) \<Rightarrow> nat \<Rightarrow> addr \<Rightarrow> nat \<Rightarrow> ((addr \<Rightarrow> jmem_heap_free) \<times> addr \<times> addr) option option" where
  "alloc_loop m required_size prev_p current_offset =
    (if current_offset = JMEM_HEAP_END_OF_LIST then Some None
     else
      (let current_p = JMEM_HEAP_GET_ADDR_FROM_OFFSET current_offset;
           next = next_offset (m current_p)
       in if required_size \<le> region_size (m current_p) then
            (if required_size < region_size (m current_p) then
              (let remaining_p = current_p + required_size;
                   m = m(remaining_p := \<lparr>next_offset = next, region_size = region_size (m current_p) - required_size\<rparr>)
               in Some (Some (m(prev_p := (m prev_p)\<lparr>next_offset := JMEM_HEAP_GET_OFFSET_FROM_ADDR remaining_p\<rparr>), prev_p, current_p)))
             else Some (Some (m(prev_p := (m prev_p)\<lparr>next_offset := next\<rparr>), prev_p, current_p)))
          else alloc_loop m required_size current_p next))"

definition alloc_region :: "'e jmem_context \<Rightarrow> nat \<Rightarrow> (addr option \<times> 'e jmem_context) option" where
  "alloc_region c required_size =
    do {
      res \<leftarrow> alloc_loop (nodes c) required_size 0 (next_offset (nodes c 0));
      (case res of
         None \<Rightarrow> Some (None, c)
       | Some (m, prev_p, data_space_p) \<Rightarrow>
          do {
            let allocated = jmem_heap_allocated_size c + required_size;
            limit \<leftarrow> raise_limit allocated (gc_limit c) (jmem_heap_limit c);
            Some (Some data_space_p,
              c\<lparr>nodes := m, jmem_heap_list_skip_p := prev_p, jmem_heap_allocated_size := allocated, jmem_heap_limit := limit\<rparr>)
          })
    }"

text \<open>A failed attempt is repeated after the garbage collector has run with the next higher pressure.\<close>

function gc_and_alloc_loop ::
  "('e jmem_context \<Rightarrow> nat \<Rightarrow> (addr option \<times> 'e jmem_context) option) \<Rightarrow> 'e gc \<Rightarrow> nat \<Rightarrow> nat \<Rightarrow> nat \<Rightarrow> addr option \<Rightarrow>
    'e jmem_context \<Rightarrow> (addr option \<times> 'e jmem_context) option" where
  "gc_and_alloc_loop alloc gc n max_pressure pressure data_space_p c =
    (if data_space_p = None \<and> pressure < max_pressure then
       do {
         c \<leftarrow> ecma_free_unused_memory gc c (Suc pressure);
         (data_space_p, c) \<leftarrow> alloc c n;
         gc_and_alloc_loop alloc gc n max_pressure (Suc pressure) data_space_p c
       }
     else Some (data_space_p, c))"
  by pat_completeness auto
termination
  by (relation "measure (\<lambda>(al, gc, n, m, p, d, c). m - p)") auto

text \<open>\<open>alloc\<close> is \<open>jmem_heap_alloc\<close>.\<close>

definition jmem_heap_gc_and_alloc_block ::
  "('e jmem_context \<Rightarrow> nat \<Rightarrow> (addr option \<times> 'e jmem_context) option) \<Rightarrow> 'e gc \<Rightarrow> 'e jmem_context \<Rightarrow> nat \<Rightarrow> nat \<Rightarrow>
    (addr option \<times> 'e jmem_context) option" where
  "jmem_heap_gc_and_alloc_block alloc gc c n max_pressure =
    (if n = 0 then Some (None, c)
     else
      do {
        (pressure, c) \<leftarrow>
          (if jmem_heap_limit c \<le> jmem_heap_allocated_size c + n
           then do { c \<leftarrow> ecma_free_unused_memory gc c JMEM_PRESSURE_LOW; Some (JMEM_PRESSURE_LOW, c) }
           else Some (JMEM_PRESSURE_NONE, c));
        (data_space_p, c) \<leftarrow> alloc c n;
        gc_and_alloc_loop alloc gc n max_pressure pressure data_space_p c
      })"

text \<open>
  A small request with no free cell adds a page, which calls the allocator again. \<open>nested\<close> is the
  nested call of \<open>jmem_heap_alloc\<close>; the first argument of \<open>jmem_heap_alloc\<close> bounds the depth of the recursion.
\<close>

definition heap_alloc ::
  "('e jmem_context \<Rightarrow> nat \<Rightarrow> (addr option \<times> 'e jmem_context) option) \<Rightarrow> 'e gc \<Rightarrow> 'e jmem_context \<Rightarrow> nat \<Rightarrow>
    (addr option \<times> 'e jmem_context) option" where
  "heap_alloc nested gc c n =
    (let required_size = align_up n in
     if required_size \<le> JMEM_CELLOCATOR_CELL_SIZE then
       (case jmem_cellocator_alloc c of
          (Some chunk_p, c) \<Rightarrow> Some (Some chunk_p, c)
        | (None, c) \<Rightarrow>
           do {
             c \<leftarrow> ecma_free_unused_memory gc c JMEM_PRESSURE_LOW;
             (case jmem_cellocator_alloc c of
                (Some chunk_p, c) \<Rightarrow> Some (Some chunk_p, c)
              | (None, c) \<Rightarrow>
                 do {
                   (added, c) \<leftarrow> jmem_cellocator_add_page (\<lambda>c n. jmem_heap_gc_and_alloc_block nested gc c n JMEM_PRESSURE_HIGH) c;
                   Some (if added then jmem_cellocator_alloc c else (None, c))
                 })
           })
     else alloc_region c required_size)"

primrec jmem_heap_alloc ::
  "nat \<Rightarrow> 'e gc \<Rightarrow> 'e jmem_context \<Rightarrow> nat \<Rightarrow> (addr option \<times> 'e jmem_context) option" where
  "jmem_heap_alloc 0 gc = heap_alloc (\<lambda>c n. None) gc"
| "jmem_heap_alloc (Suc depth) gc = heap_alloc (jmem_heap_alloc depth gc) gc"

definition jmem_heap_alloc_block_internal ::
  "nat \<Rightarrow> 'e gc \<Rightarrow> 'e jmem_context \<Rightarrow> nat \<Rightarrow> (addr option \<times> 'e jmem_context) option" where
  "jmem_heap_alloc_block_internal depth gc c n = jmem_heap_gc_and_alloc_block (jmem_heap_alloc depth gc) gc c n JMEM_PRESSURE_FULL"

definition jmem_heap_alloc_block ::
  "nat \<Rightarrow> 'e gc \<Rightarrow> 'e jmem_context \<Rightarrow> nat \<Rightarrow> (addr option \<times> 'e jmem_context) option" where
  "jmem_heap_alloc_block depth gc c n = jmem_heap_gc_and_alloc_block (jmem_heap_alloc depth gc) gc c n JMEM_PRESSURE_FULL"

definition jmem_heap_alloc_block_null_on_error ::
  "nat \<Rightarrow> 'e gc \<Rightarrow> 'e jmem_context \<Rightarrow> nat \<Rightarrow> (addr option \<times> 'e jmem_context) option" where
  "jmem_heap_alloc_block_null_on_error depth gc c n = jmem_heap_gc_and_alloc_block (jmem_heap_alloc depth gc) gc c n JMEM_PRESSURE_HIGH"

declare add_cells.simps [simp del] gc_and_alloc_loop.simps [simp del]

section \<open>Resizing a block\<close>

text \<open>
  Growing in place: at the end, into the free region that follows the block, or at the front, into the
  free region before it, where the contents move. The result is the new address and the node before the block.
\<close>

definition extend_at_end :: "'e jmem_context \<Rightarrow> addr \<Rightarrow> addr \<Rightarrow> addr \<Rightarrow> nat \<Rightarrow> (addr \<times> addr \<times> 'e jmem_context) option" where
  "extend_at_end c block_p prev_p next_p required_size =
    (let m = nodes c in
     if required_size \<le> region_size (m next_p) then
       (let m' =
         (if required_size = region_size (m next_p)
          then m(prev_p := (m prev_p)\<lparr>next_offset := next_offset (m next_p)\<rparr>)
          else
           (let new_next_p = next_p + required_size;
                m' = m(new_next_p := \<lparr>next_offset = next_offset (m next_p), region_size = region_size (m next_p) - required_size\<rparr>)
            in m'(prev_p := (m' prev_p)\<lparr>next_offset := JMEM_HEAP_GET_OFFSET_FROM_ADDR new_next_p\<rparr>)))
        in Some (block_p, prev_p, c\<lparr>nodes := m'\<rparr>))
     else None)"

definition extend_at_front ::
  "'e jmem_context \<Rightarrow> addr \<Rightarrow> addr \<Rightarrow> addr \<Rightarrow> nat \<Rightarrow> nat \<Rightarrow> (addr \<times> addr \<times> 'e jmem_context) option option" where
  "extend_at_front c block_p prev_p next_p old_size required_size =
    (let m = nodes c in
     if required_size \<le> region_size (m prev_p) then
       do {
         (prev_p', m') \<leftarrow>
           (if required_size = region_size (m prev_p) then
              do {
                prev_p' \<leftarrow> jmem_heap_find_prev c prev_p;
                Some (prev_p', m(prev_p' := (m prev_p')\<lparr>next_offset := JMEM_HEAP_GET_OFFSET_FROM_ADDR next_p\<rparr>))
              }
            else Some (prev_p, m(prev_p := (m prev_p)\<lparr>region_size := region_size (m prev_p) - required_size\<rparr>)));
         let ret_block_p = block_p - required_size;
         Some (Some (ret_block_p, prev_p', copy_bytes (c\<lparr>nodes := m'\<rparr>) ret_block_p block_p old_size))
       }
     else Some None)"

definition extend_block ::
  "'e jmem_context \<Rightarrow> addr \<Rightarrow> addr \<Rightarrow> nat \<Rightarrow> nat \<Rightarrow> (addr \<times> addr \<times> 'e jmem_context) option option" where
  "extend_block c block_p prev_p old_size required_size =
    (let next_p = JMEM_HEAP_GET_ADDR_FROM_OFFSET (next_offset (nodes c prev_p)) in
     if block_p + align_up old_size = next_p then Some (extend_at_end c block_p prev_p next_p required_size)
     else if jmem_heap_get_region_end (nodes c) prev_p = block_p
     then extend_at_front c block_p prev_p next_p old_size required_size
     else Some None)"

definition grow_block ::
  "nat \<Rightarrow> 'e gc \<Rightarrow> 'e jmem_context \<Rightarrow> addr \<Rightarrow> nat \<Rightarrow> nat \<Rightarrow> (addr option \<times> 'e jmem_context) option" where
  "grow_block depth gc c block_p old_size new_size =
    (let aligned_old_size = align_up old_size;
         required_size = align_up new_size - aligned_old_size
     in do {
       c \<leftarrow> (if jmem_heap_limit c \<le> jmem_heap_allocated_size c + required_size
             then ecma_free_unused_memory gc c JMEM_PRESSURE_LOW else Some c);
       prev_p \<leftarrow> jmem_heap_find_prev c block_p;
       extended \<leftarrow> extend_block c block_p prev_p old_size required_size;
       (case extended of
          Some (ret_block_p, prev_p, c) \<Rightarrow>
            do {
              let allocated = jmem_heap_allocated_size c + required_size;
              limit \<leftarrow> raise_limit allocated (gc_limit c) (jmem_heap_limit c);
              Some (Some ret_block_p,
                c\<lparr>jmem_heap_list_skip_p := prev_p, jmem_heap_allocated_size := allocated, jmem_heap_limit := limit\<rparr>)
            }
        | None \<Rightarrow>
            do {
              (ret, c) \<leftarrow> jmem_heap_alloc_block_internal depth gc
                (c\<lparr>jmem_heap_allocated_size := jmem_heap_allocated_size c - aligned_old_size\<rparr>) new_size;
              ret_block_p \<leftarrow> ret;
              prev_p \<leftarrow> jmem_heap_find_prev c block_p;
              Some (Some ret_block_p,
                jmem_heap_insert_block (copy_bytes c ret_block_p block_p old_size) block_p prev_p aligned_old_size)
            })
     })"

definition jmem_heap_realloc_block ::
  "nat \<Rightarrow> 'e gc \<Rightarrow> 'e jmem_context \<Rightarrow> addr \<Rightarrow> nat \<Rightarrow> nat \<Rightarrow> (addr option \<times> 'e jmem_context) option" where
  "jmem_heap_realloc_block depth gc c ptr old_size new_size =
    (let aligned_new_size = align_up new_size;
         aligned_old_size = align_up old_size
     in case jmem_cellocator_find (pages c) ptr of
       Some pg \<Rightarrow>
         (if aligned_new_size \<le> JMEM_CELLOCATOR_CELL_SIZE then Some (Some ptr, c)
          else
            do {
              (chunk, c) \<leftarrow> jmem_heap_alloc_block_internal depth gc c aligned_new_size;
              Some (chunk,
                (case chunk of
                   None \<Rightarrow> c
                 | Some chunk_p \<Rightarrow> jmem_cellocator_cell_free (copy_bytes c chunk_p ptr aligned_old_size) ptr))
            })
     | None \<Rightarrow>
         (if aligned_old_size = aligned_new_size then Some (Some ptr, c)
          else if aligned_new_size < aligned_old_size then
            (if aligned_new_size \<le> JMEM_CELLOCATOR_CELL_SIZE then
               do {
                 (new_buffer, c) \<leftarrow> jmem_heap_alloc depth gc c aligned_new_size;
                 c \<leftarrow> jmem_heap_free_block
                       (case new_buffer of None \<Rightarrow> c | Some q \<Rightarrow> copy_bytes c q ptr aligned_new_size) ptr aligned_old_size;
                 Some (new_buffer, c)
               }
             else
               do {
                 prev_p \<leftarrow> jmem_heap_find_prev c ptr;
                 let c = jmem_heap_insert_block c (ptr + aligned_new_size) prev_p (aligned_old_size - aligned_new_size);
                 let allocated = jmem_heap_allocated_size c - (aligned_old_size - aligned_new_size);
                 limit \<leftarrow> lower_limit allocated (gc_limit c) (jmem_heap_limit c);
                 Some (Some ptr, c\<lparr>jmem_heap_allocated_size := allocated, jmem_heap_limit := limit\<rparr>)
               })
          else grow_block depth gc c ptr old_size new_size))"

end
