(* ===== verification/Jmem_Correct.thy ===== *)
theory Jmem_Correct
  imports Jmem_Heap
begin

text \<open>
  Correctness of the memory manager. The nodes represent a list of free regions that is sorted,
  without overlapping or adjacent regions; every operation preserves this, keeps the bytes of the
  regions and of the allocated blocks apart, and accounts for every byte of the area.
\<close>

section \<open>The free list in memory\<close>

abbreviation OFFSET :: "addr \<Rightarrow> nat" where "OFFSET \<equiv> JMEM_HEAP_GET_OFFSET_FROM_ADDR"
abbreviation ADDR :: "nat \<Rightarrow> addr" where "ADDR \<equiv> JMEM_HEAP_GET_ADDR_FROM_OFFSET"

type_synonym region = "addr \<times> nat"

fun head_offset :: "region list \<Rightarrow> nat \<Rightarrow> nat" where
  "head_offset [] e = e"
| "head_offset ((a, s) # l) e = OFFSET a"

fun seg :: "(addr \<Rightarrow> jmem_heap_free) \<Rightarrow> region list \<Rightarrow> nat \<Rightarrow> bool" where
  "seg m [] e \<longleftrightarrow> True"
| "seg m ((a, s) # l) e \<longleftrightarrow> m a = \<lparr>next_offset = head_offset l e, region_size = s\<rparr> \<and> seg m l e"

definition gap :: "region \<Rightarrow> region \<Rightarrow> bool" where
  "gap x y \<longleftrightarrow> fst x + snd x < fst y"

definition region_ok :: "nat \<Rightarrow> region \<Rightarrow> bool" where
  "region_ok hi x \<longleftrightarrow> 8 \<le> fst x \<and> 0 < snd x \<and> 8 dvd fst x \<and> 8 dvd snd x \<and> fst x + snd x \<le> hi"

text \<open>\<open>L\<close> starts with the list head, an empty region at address 0.\<close>

definition free_list :: "(addr \<Rightarrow> jmem_heap_free) \<Rightarrow> nat \<Rightarrow> region list \<Rightarrow> bool" where
  "free_list m hi L \<longleftrightarrow> (\<exists>rs. L = (0, 0) # rs \<and> list_all (region_ok hi) rs) \<and> sorted_wrt gap L \<and>
    seg m L JMEM_HEAP_END_OF_LIST \<and> hi \<le> 0xffffffff"

definition region_bytes :: "region \<Rightarrow> nat set" where
  "region_bytes x = {fst x..<fst x + snd x}"

definition all_bytes :: "region list \<Rightarrow> nat set" where
  "all_bytes L = \<Union> (region_bytes ` set L)"

lemma head_offset_append [simp]: "head_offset (l @ r) e = head_offset l (head_offset r e)"
  by (induction l e rule: head_offset.induct) auto

lemma seg_append [simp]: "seg m (l @ r) e \<longleftrightarrow> seg m l (head_offset r e) \<and> seg m r e"
  by (induction m l e rule: seg.induct) auto

lemma seg_upd [simp]: "x \<notin> fst ` set l \<Longrightarrow> seg (m(x := n)) l e = seg m l e"
  by (induction m l e rule: seg.induct) auto

lemma OFFSET_less [simp]: "8 \<le> a \<Longrightarrow> 8 \<le> b \<Longrightarrow> OFFSET a < OFFSET b \<longleftrightarrow> a < b"
  by (auto simp: JMEM_HEAP_GET_OFFSET_FROM_ADDR_def)

lemma ADDR_OFFSET [simp]: "8 \<le> a \<Longrightarrow> ADDR (OFFSET a) = a" "OFFSET (ADDR u) = u"
  by (auto simp: JMEM_HEAP_GET_OFFSET_FROM_ADDR_def JMEM_HEAP_GET_ADDR_FROM_OFFSET_def)

lemma OFFSET_eq_iff: "8 \<le> a \<Longrightarrow> ADDR u = a \<longleftrightarrow> u = OFFSET a"
  by (auto simp: JMEM_HEAP_GET_OFFSET_FROM_ADDR_def JMEM_HEAP_GET_ADDR_FROM_OFFSET_def)

lemma gap_not_in:
  assumes "sorted_wrt gap (l @ (p, s) # r)"
  shows "p \<notin> fst ` set l" "p \<notin> fst ` set r"
  using assms by (auto simp: sorted_wrt_append gap_def)

lemma all_bytes_append [simp]: "all_bytes (l @ r) = all_bytes l \<union> all_bytes r"
  by (auto simp: all_bytes_def)

lemma all_bytes_Cons [simp]: "all_bytes (x # r) = region_bytes x \<union> all_bytes r" "all_bytes [] = {}"
  by (auto simp: all_bytes_def)

lemma free_listD:
  assumes "free_list m hi L"
  shows "sorted_wrt gap L" "seg m L JMEM_HEAP_END_OF_LIST" "hi \<le> 0xffffffff"
    "\<And>x. x \<in> set L \<Longrightarrow> x = (0, 0) \<or> region_ok hi x" "L \<noteq> []" "hd L = (0, 0)"
  using assms by (auto simp: free_list_def list_all_iff)

section \<open>Searching the list\<close>

lemma find_prev_loop_step: "find_prev_loop m off p = (if next_offset (m p) < off then find_prev_loop m off (ADDR (next_offset (m p))) else Some p)"
  by (rule find_prev_loop.simps)

lemma find_prev_loop_list:
  assumes "seg m ((p, s) # r) JMEM_HEAP_END_OF_LIST" "list_all (region_ok hi) r" "sorted_wrt gap ((p, s) # r)"
    "8 \<le> b" "b \<le> hi" "hi \<le> 0xffffffff" "p < b"
  shows "\<exists>l q t r'. (p, s) # r = l @ (q, t) # r' \<and> find_prev_loop m (OFFSET b) p = Some q \<and> q < b \<and> (\<forall>x\<in>set r'. b \<le> fst x)"
  using assms
proof (induction r arbitrary: p s)
  case Nil
  have "\<not> next_offset (m p) < OFFSET b"
    using Nil.prems by (auto simp: JMEM_HEAP_GET_OFFSET_FROM_ADDR_def)
  then have "find_prev_loop m (OFFSET b) p = Some p" by (subst find_prev_loop_step) simp
  then show ?case using Nil.prems(7) by (intro exI [of _ "[]"]) auto
next
  case (Cons x r)
  obtain a t where x: "x = (a, t)" by fastforce
  have a: "8 \<le> a" and nx: "next_offset (m p) = OFFSET a" using Cons.prems x by (auto simp: region_ok_def)
  show ?case
  proof (cases "a < b")
    case True
    have "seg m ((a, t) # r) JMEM_HEAP_END_OF_LIST" "list_all (region_ok hi) r" "sorted_wrt gap ((a, t) # r)"
      using Cons.prems x by auto
    from Cons.IH [OF this Cons.prems(4-6) True] obtain l q u r' where
      ih: "(a, t) # r = l @ (q, u) # r'" "find_prev_loop m (OFFSET b) a = Some q" "q < b" "\<forall>x\<in>set r'. b \<le> fst x" by blast
    have "find_prev_loop m (OFFSET b) p = Some q"
      using nx a Cons.prems(4) True ih(2) by (subst find_prev_loop_step) simp
    then show ?thesis using ih x by (intro exI [of _ "(p, s) # l"]) auto
  next
    case False
    have "find_prev_loop m (OFFSET b) p = Some p"
      using nx a Cons.prems(4) False by (subst find_prev_loop_step) simp
    moreover have "\<forall>y\<in>set r. a < fst y" using Cons.prems(3) x by (auto simp: gap_def)
    ultimately show ?thesis
      using x False Cons.prems(7) by (intro exI [of _ "[]"] exI [of _ p] exI [of _ s] exI [of _ "x # r"]) auto
  qed
qed

lemma free_list_split:
  assumes "free_list m hi (l @ (p, s) # r)"
  shows "list_all (region_ok hi) r" "(l = [] \<and> p = 0 \<and> s = 0) \<or> (l \<noteq> [] \<and> region_ok hi (p, s))"
  using assms by (cases l; force simp: free_list_def)+

lemma find_prev:
  assumes fl: "free_list (nodes c) hi L" and skip: "jmem_heap_list_skip_p c \<in> fst ` set L" and b: "8 \<le> b" "b \<le> hi"
  obtains l q t r where "L = l @ (q, t) # r" "jmem_heap_find_prev c b = Some q" "q < b" "\<forall>x\<in>set r. b \<le> fst x"
proof -
  define p where "p = (if b > jmem_heap_list_skip_p c then jmem_heap_list_skip_p c else 0)"
  have "p \<in> fst ` set L" using skip free_listD(5,6) [OF fl] by (cases L) (auto simp: p_def)
  then obtain l s r where L: "L = l @ (p, s) # r" by (metis (no_types, lifting) image_iff prod.collapse split_list)
  have "p < b" using b by (auto simp: p_def)
  have "seg (nodes c) ((p, s) # r) JMEM_HEAP_END_OF_LIST" "sorted_wrt gap ((p, s) # r)"
    using free_listD(1,2) [OF fl] L by (auto simp: sorted_wrt_append)
  from find_prev_loop_list [OF this(1) _ this(2) b free_listD(3) [OF fl] \<open>p < b\<close>] free_list_split(1) fl L
  obtain l' q t r' where *: "(p, s) # r = l' @ (q, t) # r'" "find_prev_loop (nodes c) (OFFSET b) p = Some q" "q < b" "\<forall>x\<in>set r'. b \<le> fst x"
    by blast
  show thesis
    by (rule that [of "l @ l'" q t r']) (use * L in \<open>auto simp: jmem_heap_find_prev_def p_def\<close>)
qed

section \<open>Inserting a region\<close>

fun join_next :: "region \<Rightarrow> region list \<Rightarrow> region list" where
  "join_next x [] = [x]"
| "join_next x (y # r) = (if fst x + snd x = fst y then (fst x, snd x + snd y) # r else x # y # r)"

definition insert_region :: "region list \<Rightarrow> region \<Rightarrow> region \<Rightarrow> region list \<Rightarrow> region list" where
  "insert_region l prev x r =
    l @ (if fst prev + snd prev = fst x then join_next (fst prev, snd prev + snd x) r else prev # join_next x r)"

lemma join_next_facts:
  assumes "\<forall>y\<in>set r. fst x + snd x \<le> fst y" "sorted_wrt gap r" "list_all (region_ok hi) r" "region_ok hi x"
  shows "sorted_wrt gap (join_next x r)" "list_all (region_ok hi) (join_next x r)"
    "all_bytes (join_next x r) = region_bytes x \<union> all_bytes r" "fst (hd (join_next x r)) = fst x"
    "\<forall>y\<in>set (join_next x r). fst x \<le> fst y" "join_next x r \<noteq> []"
proof -
  have "sorted_wrt gap (join_next x r) \<and> list_all (region_ok hi) (join_next x r) \<and>
    all_bytes (join_next x r) = region_bytes x \<union> all_bytes r \<and> fst (hd (join_next x r)) = fst x \<and>
    (\<forall>y\<in>set (join_next x r). fst x \<le> fst y) \<and> join_next x r \<noteq> []"
  proof (cases r)
    case Nil
    then show ?thesis using assms by simp
  next
    case (Cons y r')
    have le: "\<forall>z\<in>set r'. fst y + snd y < fst z" "fst x + snd x \<le> fst y" using assms Cons by (auto simp: gap_def)
    show ?thesis
    proof (cases "fst x + snd x = fst y")
      case True
      then have "region_bytes (fst x, snd x + snd y) = region_bytes x \<union> region_bytes y"
        "region_ok hi (fst x, snd x + snd y)" using assms(3,4) Cons by (auto simp: region_bytes_def region_ok_def)
      then show ?thesis using True le assms Cons by (fastforce simp: gap_def)
    next
      case False
      then show ?thesis using le assms Cons by (fastforce simp: gap_def)
    qed
  qed
  then show "sorted_wrt gap (join_next x r)" "list_all (region_ok hi) (join_next x r)"
    "all_bytes (join_next x r) = region_bytes x \<union> all_bytes r" "fst (hd (join_next x r)) = fst x"
    "\<forall>y\<in>set (join_next x r). fst x \<le> fst y" "join_next x r \<noteq> []" by blast+
qed

lemma gap_below:
  assumes "sorted_wrt gap (l @ (p, s) # r)" "\<forall>y\<in>set ys. p \<le> fst y"
  shows "\<forall>x\<in>set l. \<forall>y\<in>set ys. gap x y"
  using assms by (fastforce simp: sorted_wrt_append gap_def)

lemma join_next_seg:
  assumes m: "m p = \<lparr>next_offset = u, region_size = n\<rparr>" and s: "seg m r JMEM_HEAP_END_OF_LIST"
    and p: "p \<notin> fst ` set r" and ok: "list_all (region_ok hi) r" "p + n \<le> hi" "hi \<le> 0xffffffff"
  defines "next_p \<equiv> ADDR (head_offset r JMEM_HEAP_END_OF_LIST)"
  shows "seg (if jmem_heap_get_region_end m p = next_p
        then m(p := \<lparr>next_offset = next_offset (m next_p), region_size = region_size (m p) + region_size (m next_p)\<rparr>)
        else m(p := (m p)\<lparr>next_offset := OFFSET next_p\<rparr>)) (join_next (p, n) r) JMEM_HEAP_END_OF_LIST"
proof (cases r)
  case Nil
  have "jmem_heap_get_region_end m p \<noteq> next_p"
    using ok m by (simp add: jmem_heap_get_region_end_def next_p_def Nil JMEM_HEAP_GET_ADDR_FROM_OFFSET_def)
  then show ?thesis using m by (simp add: Nil next_p_def)
next
  case (Cons y r')
  obtain a t where y: "y = (a, t)" by fastforce
  have "next_p = a" using ok Cons y by (simp add: next_p_def region_ok_def)
  then show ?thesis using m s p by (simp add: Cons y jmem_heap_get_region_end_def)
qed

lemma insert_node_free_list:
  assumes fl: "free_list m hi (l @ (p, s) # r)" and b: "region_ok hi (b, n)" "p + s \<le> b" "\<forall>x\<in>set r. b + n \<le> fst x"
  shows "free_list (insert_node m b p n) hi (insert_region l (p, s) (b, n) r)"
    "all_bytes (insert_region l (p, s) (b, n) r) = all_bytes (l @ (p, s) # r) \<union> {b..<b + n}"
    "p \<in> fst ` set (insert_region l (p, s) (b, n) r)"
proof -
  note L = free_listD [OF fl] and split = free_list_split [OF fl]
  have srt: "sorted_wrt gap r" "sorted_wrt gap (l @ [(p, s)])" "p \<notin> fst ` set l" "p \<notin> fst ` set r"
    using L(1) gap_not_in [OF L(1)] by (auto simp: sorted_wrt_append)
  have sg: "seg m l (OFFSET p)" "m p = \<lparr>next_offset = head_offset r JMEM_HEAP_END_OF_LIST, region_size = s\<rparr>"
    "seg m r JMEM_HEAP_END_OF_LIST" using L(2) by auto
  have lb: "\<forall>x\<in>set l. fst x < p" using L(1) by (auto simp: sorted_wrt_append gap_def)
  have l0: "\<exists>rs. l @ ys = (0, 0) # rs \<and> list_all (region_ok hi) rs"
    if "l = [] \<Longrightarrow> \<exists>rs. ys = (0, 0) # rs \<and> list_all (region_ok hi) rs" "l \<noteq> [] \<Longrightarrow> list_all (region_ok hi) ys" for ys
    using fl that by (cases l) (auto simp: free_list_def)
  let ?next = "ADDR (head_offset r JMEM_HEAP_END_OF_LIST)"
  show "all_bytes (insert_region l (p, s) (b, n) r) = all_bytes (l @ (p, s) # r) \<union> {b..<b + n}"
    and "p \<in> fst ` set (insert_region l (p, s) (b, n) r)"
    and "free_list (insert_node m b p n) hi (insert_region l (p, s) (b, n) r)"
  proof -
    consider (merge) "p + s = b" | (new) "p + s < b" using b(2) by linarith
    then have "all_bytes (insert_region l (p, s) (b, n) r) = all_bytes (l @ (p, s) # r) \<union> {b..<b + n} \<and>
      p \<in> fst ` set (insert_region l (p, s) (b, n) r) \<and> free_list (insert_node m b p n) hi (insert_region l (p, s) (b, n) r)"
    proof cases
      case merge
      have ne: "l \<noteq> []" "region_ok hi (p, s)" using split(2) merge b(1) by (auto simp: region_ok_def)
      then have ok: "region_ok hi (p, s + n)" using b(1) merge by (auto simp: region_ok_def)
      have le: "\<forall>y\<in>set r. fst (p, s + n) + snd (p, s + n) \<le> fst y" using b(3) merge by auto
      note J = join_next_facts [OF le srt(1) split(1) ok]
      define m1 where "m1 = m(p := (m p)\<lparr>region_size := region_size (m p) + n\<rparr>)"
      have m1: "m1 p = \<lparr>next_offset = head_offset r JMEM_HEAP_END_OF_LIST, region_size = s + n\<rparr>" "seg m1 r JMEM_HEAP_END_OF_LIST"
        "seg m1 l (OFFSET p)" using sg srt by (simp_all add: m1_def)
      have eq: "insert_node m b p n = (if jmem_heap_get_region_end m1 p = ?next
        then m1(p := \<lparr>next_offset = next_offset (m1 ?next), region_size = region_size (m1 p) + region_size (m1 ?next)\<rparr>)
        else m1(p := (m1 p)\<lparr>next_offset := OFFSET ?next\<rparr>))"
        using merge sg(2) by (simp add: insert_node_def jmem_heap_get_region_end_def m1_def Let_def)
      have "seg (insert_node m b p n) (join_next (p, s + n) r) JMEM_HEAP_END_OF_LIST"
        unfolding eq using join_next_seg [OF m1(1,2) srt(4) split(1) _ L(3)] ok by (simp add: region_ok_def)
      moreover have "seg (insert_node m b p n) l (OFFSET p)"
        unfolding eq using m1(3) srt(3) by auto
      moreover have "head_offset (join_next (p, s + n) r) e = OFFSET p" for e
        by (cases "((p, s + n), r)" rule: join_next.cases) auto
      moreover have "sorted_wrt gap (l @ join_next (p, s + n) r)"
        using J(1,5) srt(2) gap_below [OF L(1), of "join_next (p, s + n) r"] by (simp add: sorted_wrt_append)
      ultimately have "free_list (insert_node m b p n) hi (l @ join_next (p, s + n) r)"
        using L(3) l0 [of "join_next (p, s + n) r"] J(2) ne by (simp add: free_list_def)
      moreover have "region_bytes (p, s + n) = region_bytes (p, s) \<union> {b..<b + n}" using merge by (auto simp: region_bytes_def)
      moreover have "p \<in> fst ` set (join_next (p, s + n) r)" using J(4,6) by (metis fst_conv hd_in_set imageI)
      ultimately show ?thesis using merge J(3) by (auto simp: insert_region_def)
    next
      case new
      have le: "\<forall>y\<in>set r. fst (b, n) + snd (b, n) \<le> fst y" using b(3) by auto
      note J = join_next_facts [OF le srt(1) split(1) b(1)]
      have nb: "b \<noteq> p" "b \<notin> fst ` set l" "b \<notin> fst ` set r" using new lb b(1,3) by (fastforce simp: region_ok_def)+
      define m1 where "m1 = m(b := (m b)\<lparr>region_size := n\<rparr>, p := (m p)\<lparr>next_offset := OFFSET b\<rparr>)"
      have m1: "m1 b = \<lparr>next_offset = next_offset (m b), region_size = n\<rparr>" "seg m1 r JMEM_HEAP_END_OF_LIST"
        "seg m1 l (OFFSET p)" "m1 p = \<lparr>next_offset = OFFSET b, region_size = s\<rparr>" using sg srt nb by (simp_all add: m1_def)
      have eq: "insert_node m b p n = (if jmem_heap_get_region_end m1 b = ?next
        then m1(b := \<lparr>next_offset = next_offset (m1 ?next), region_size = region_size (m1 b) + region_size (m1 ?next)\<rparr>)
        else m1(b := (m1 b)\<lparr>next_offset := OFFSET ?next\<rparr>))"
        using new sg(2) nb(1) by (simp add: insert_node_def jmem_heap_get_region_end_def m1_def Let_def)
      have "seg (insert_node m b p n) (join_next (b, n) r) JMEM_HEAP_END_OF_LIST"
        unfolding eq using join_next_seg [OF m1(1,2) nb(3) split(1) _ L(3)] b(1) by (simp add: region_ok_def)
      moreover have "seg (insert_node m b p n) l (OFFSET p)" "insert_node m b p n p = \<lparr>next_offset = OFFSET b, region_size = s\<rparr>"
        unfolding eq using m1(3,4) nb by auto
      moreover have "head_offset (join_next (b, n) r) e = OFFSET b" for e
        by (cases "((b, n), r)" rule: join_next.cases) auto
      moreover have "sorted_wrt gap (l @ (p, s) # join_next (b, n) r)"
        using J(1,5) srt(2) new gap_below [OF L(1), of "join_next (b, n) r"] by (force simp: sorted_wrt_append gap_def)
      ultimately have "free_list (insert_node m b p n) hi (l @ (p, s) # join_next (b, n) r)"
        using L(3) l0 [of "(p, s) # join_next (b, n) r"] J(2) split(2) by (auto simp: free_list_def)
      then show ?thesis using new J(3) by (auto simp: insert_region_def region_bytes_def)
    qed
    then show "all_bytes (insert_region l (p, s) (b, n) r) = all_bytes (l @ (p, s) # r) \<union> {b..<b + n}"
      and "p \<in> fst ` set (insert_region l (p, s) (b, n) r)"
      and "free_list (insert_node m b p n) hi (insert_region l (p, s) (b, n) r)" by blast+
  qed
qed

section \<open>Taking a block from the list\<close>

text \<open>What remains of a region after a block has been taken from its start.\<close>

definition take_region :: "nat \<Rightarrow> region \<Rightarrow> region list" where
  "take_region n x = (if n < snd x then [(fst x + n, snd x - n)] else [])"

text \<open>The nodes after a block of \<open>n\<close> bytes has been cut from the region that follows the node \<open>p\<close>.\<close>

definition cut_node :: "(addr \<Rightarrow> jmem_heap_free) \<Rightarrow> addr \<Rightarrow> addr \<Rightarrow> nat \<Rightarrow> addr \<Rightarrow> jmem_heap_free" where
  "cut_node m p a n =
    (if n < region_size (m a) then
      (let m' = m(a + n := \<lparr>next_offset = next_offset (m a), region_size = region_size (m a) - n\<rparr>)
       in m'(p := (m' p)\<lparr>next_offset := OFFSET (a + n)\<rparr>))
     else m(p := (m p)\<lparr>next_offset := next_offset (m a)\<rparr>))"

lemma cut_node_free_list:
  assumes fl: "free_list m hi (l @ (p, s) # (a, t) # r)" and n: "0 < n" "8 dvd n" "n \<le> t"
  shows "free_list (cut_node m p a n) hi (l @ (p, s) # take_region n (a, t) @ r)"
    "all_bytes (l @ (p, s) # take_region n (a, t) @ r) = all_bytes (l @ (p, s) # (a, t) # r) - {a..<a + n}"
    "region_ok hi (a, t)"
proof -
  note L = free_listD [OF fl] and split = free_list_split [OF fl]
  show ok: "region_ok hi (a, t)" using split(1) by simp
  have sg: "seg m l (OFFSET p)" "m p = \<lparr>next_offset = OFFSET a, region_size = s\<rparr>"
    "m a = \<lparr>next_offset = head_offset r JMEM_HEAP_END_OF_LIST, region_size = t\<rparr>" "seg m r JMEM_HEAP_END_OF_LIST"
    using L(2) by auto
  have srt: "sorted_wrt gap (l @ (p, s) # r)" "\<forall>x\<in>set l. fst x + snd x < p" "p + s < a" "\<forall>x\<in>set r. a + t < fst x"
    "\<forall>x\<in>set l. fst x + snd x < a"
    using L(1) by (auto simp: sorted_wrt_append gap_def)
  have nin: "p \<notin> fst ` set l" "p \<notin> fst ` set r" "a + n \<notin> fst ` set l" "a + n \<notin> fst ` set r" "a + n \<noteq> p"
    using srt n by fastforce+
  have sets: "all_bytes l \<inter> {a..<a + t} = {}" "all_bytes r \<inter> {a..<a + t} = {}"
    using srt by (fastforce simp: all_bytes_def region_bytes_def)+
  have l0: "\<exists>rs. l @ (p, s) # ys = (0, 0) # rs \<and> list_all (region_ok hi) rs" if "list_all (region_ok hi) ys" for ys
    using fl that by (cases l) (auto simp: free_list_def)
  show "all_bytes (l @ (p, s) # take_region n (a, t) @ r) = all_bytes (l @ (p, s) # (a, t) # r) - {a..<a + n}"
    using sets srt(3) n by (force simp: take_region_def region_bytes_def)
  show "free_list (cut_node m p a n) hi (l @ (p, s) # take_region n (a, t) @ r)"
  proof (cases "n < t")
    case True
    have "seg (cut_node m p a n) (l @ (p, s) # (a + n, t - n) # r) JMEM_HEAP_END_OF_LIST"
      using sg nin True by (simp add: cut_node_def Let_def)
    moreover have "sorted_wrt gap (l @ (p, s) # (a + n, t - n) # r)"
      using srt True n by (force simp: sorted_wrt_append gap_def)
    moreover have "list_all (region_ok hi) ((a + n, t - n) # r)"
      using split(1) True n by (auto simp: region_ok_def)
    ultimately show ?thesis using L(3) l0 True by (simp add: take_region_def free_list_def)
  next
    case False
    then have "seg (cut_node m p a n) (l @ (p, s) # r) JMEM_HEAP_END_OF_LIST"
      using sg nin n by (simp add: cut_node_def)
    then show ?thesis using L(3) l0 [of r] False srt(1) split(1) by (simp add: take_region_def free_list_def)
  qed
qed

lemma alloc_loop_list:
  assumes "seg m ((p, s) # r) JMEM_HEAP_END_OF_LIST" "list_all (region_ok hi) r" "hi \<le> 0xffffffff"
  shows "(alloc_loop m n p (head_offset r JMEM_HEAP_END_OF_LIST) = Some None \<and> (\<forall>x\<in>set r. snd x < n)) \<or>
    (\<exists>r1 q u a t r2. (p, s) # r = r1 @ (q, u) # (a, t) # r2 \<and> n \<le> t \<and> (\<forall>x\<in>set (tl (r1 @ [(q, u)])). snd x < n) \<and>
      alloc_loop m n p (head_offset r JMEM_HEAP_END_OF_LIST) = Some (Some (cut_node m q a n, q, a)))"
  using assms
proof (induction r arbitrary: p s)
  case Nil
  then show ?case by (simp add: alloc_loop.simps [of _ _ _ "JMEM_HEAP_END_OF_LIST"])
next
  case (Cons x r)
  obtain a t where x: "x = (a, t)" by fastforce
  have a: "8 \<le> a" "OFFSET a \<noteq> JMEM_HEAP_END_OF_LIST"
    using Cons.prems x by (auto simp: region_ok_def JMEM_HEAP_GET_OFFSET_FROM_ADDR_def)
  have node: "m a = \<lparr>next_offset = head_offset r JMEM_HEAP_END_OF_LIST, region_size = t\<rparr>" using Cons.prems x by auto
  show ?case
  proof (cases "n \<le> t")
    case True
    then have "alloc_loop m n p (OFFSET a) = Some (Some (cut_node m p a n, p, a))"
      using a node by (subst alloc_loop.simps) (auto simp: cut_node_def Let_def)
    then show ?thesis using True x by (intro disjI2 exI [of _ "[]"]) auto
  next
    case False
    then have step: "alloc_loop m n p (OFFSET a) = alloc_loop m n a (head_offset r JMEM_HEAP_END_OF_LIST)"
      using a node by (subst alloc_loop.simps) (simp add: Let_def)
    have "seg m ((a, t) # r) JMEM_HEAP_END_OF_LIST" "list_all (region_ok hi) r" using Cons.prems x by auto
    from Cons.IH [OF this Cons.prems(3)] show ?thesis
    proof
      assume "alloc_loop m n a (head_offset r JMEM_HEAP_END_OF_LIST) = Some None \<and> (\<forall>x\<in>set r. snd x < n)"
      then show ?thesis using step False x by auto
    next
      assume "\<exists>r1 q u a' t' r2. (a, t) # r = r1 @ (q, u) # (a', t') # r2 \<and> n \<le> t' \<and> (\<forall>x\<in>set (tl (r1 @ [(q, u)])). snd x < n) \<and>
        alloc_loop m n a (head_offset r JMEM_HEAP_END_OF_LIST) = Some (Some (cut_node m q a' n, q, a'))"
      then obtain r1 q u a' t' r2 where *: "(a, t) # r = r1 @ (q, u) # (a', t') # r2" "n \<le> t'"
        "\<forall>x\<in>set (tl (r1 @ [(q, u)])). snd x < n"
        "alloc_loop m n a (head_offset r JMEM_HEAP_END_OF_LIST) = Some (Some (cut_node m q a' n, q, a'))" by blast
      have "\<forall>x\<in>set (r1 @ [(q, u)]). snd x < n" using * False by (cases r1) auto
      then have "\<forall>x\<in>set (tl (((p, s) # r1) @ [(q, u)])). snd x < n" by simp
      moreover have "(p, s) # x # r = ((p, s) # r1) @ (q, u) # (a', t') # r2" using * x by simp
      moreover have "alloc_loop m n p (head_offset (x # r) JMEM_HEAP_END_OF_LIST) = Some (Some (cut_node m q a' n, q, a'))"
        using *(4) step x by simp
      ultimately show ?thesis using *(2) by blast
    qed
  qed
qed

section \<open>The limits\<close>

lemma raise_limit_ok:
  assumes "0 < g"
  shows "\<exists>l'. raise_limit a g l = Some l' \<and> a < l' \<and> l \<le> l'"
  using assms
proof (induction "Suc a - l" arbitrary: l rule: less_induct)
  case less
  show ?case
  proof (cases "l \<le> a")
    case True
    then have "Suc a - (l + g) < Suc a - l" using less.prems by linarith
    from less.hyps [OF this less.prems] True show ?thesis by (subst raise_limit.simps) force
  next
    case False
    then show ?thesis by (simp add: raise_limit.simps [of a g l])
  qed
qed

lemma lower_limit_ok:
  assumes "0 < g" "a \<le> l"
  shows "\<exists>l'. lower_limit a g l = Some l' \<and> a \<le> l' \<and> l' < a + g"
  using assms
proof (induction l rule: less_induct)
  case (less l)
  show ?case
  proof (cases "a + g \<le> l")
    case True
    then have "l - g < l" "a \<le> l - g" using less.prems by auto
    from less.IH [OF this(1) less.prems(1) this(2)] True show ?thesis by (subst lower_limit.simps) simp
  next
    case False
    then show ?thesis using less.prems by (simp add: lower_limit.simps [of a g l])
  qed
qed

section \<open>Regions and blocks\<close>

lemma align_up_facts: "8 dvd align_up n" "n \<le> align_up n" "align_up n < n + 8" "0 < n \<Longrightarrow> 0 < align_up n"
  by (auto simp: align_up_def)

lemma align_up_idem [simp]: "8 dvd n \<Longrightarrow> align_up n = n"
  by (auto simp: align_up_def elim!: dvdE)

lemma align_up_align_up [simp]: "align_up (align_up n) = align_up n"
  by (simp add: align_up_facts)

lemma align_up_mono: "m \<le> n \<Longrightarrow> align_up m \<le> align_up n"
  by (auto simp: align_up_def div_le_mono)

lemma find_prev_block:
  assumes fl: "free_list (nodes c) hi L" "jmem_heap_list_skip_p c \<in> fst ` set L"
    and p: "8 \<le> p" "p \<le> hi" "0 < k" "{p..<p + k} \<inter> all_bytes L = {}"
  obtains l q t r where "L = l @ (q, t) # r" "jmem_heap_find_prev c p = Some q" "q + t \<le> p" "q < p" "\<forall>x\<in>set r. p + k \<le> fst x"
proof -
  from find_prev [OF fl p(1,2)] obtain l q t r where
    q: "L = l @ (q, t) # r" "jmem_heap_find_prev c p = Some q" "q < p" "\<forall>x\<in>set r. p \<le> fst x" by blast
  have "q + t \<le> p"
  proof (rule ccontr)
    assume "\<not> q + t \<le> p"
    then have "p \<in> all_bytes L" using q by (auto simp: region_bytes_def)
    moreover have "p \<in> {p..<p + k}" using p(3) by simp
    ultimately show False using p(4) by blast
  qed
  moreover have "\<forall>x\<in>set r. p + k \<le> fst x"
  proof
    fix x assume x: "x \<in> set r"
    have "region_ok hi x" using free_list_split(1) fl(1) q(1) x by (metis list_all_iff)
    then have "fst x \<in> all_bytes L" using x q(1) by (force simp: all_bytes_def region_bytes_def region_ok_def)
    then show "p + k \<le> fst x" using p(4) q(4) x by fastforce
  qed
  ultimately show thesis using q that by blast
qed

lemma find_prev_insert:
  assumes fl: "free_list (nodes c) hi L" "jmem_heap_list_skip_p c \<in> fst ` set L"
    and b: "region_ok hi (b, n)" "8 \<le> b0" "b0 \<le> b" "{b0..<b + n} \<inter> all_bytes L = {}"
  obtains p L' where "jmem_heap_find_prev c b0 = Some p" "free_list (insert_node (nodes c) b p n) hi L'"
    "all_bytes L' = all_bytes L \<union> {b..<b + n}" "p \<in> fst ` set L'"
proof -
  have le: "b0 \<le> hi" "0 < b + n - b0" and eq: "b0 + (b + n - b0) = b + n" using b(1,3) by (auto simp: region_ok_def)
  obtain l q t r where q: "L = l @ (q, t) # r" "jmem_heap_find_prev c b0 = Some q" "q + t \<le> b0" "q < b0" "\<forall>x\<in>set r. b + n \<le> fst x"
    using find_prev_block [OF fl b(2) le] b(4) unfolding eq by blast
  then show thesis
    using insert_node_free_list [OF fl(1) [unfolded q(1)] b(1)] b(3) that by force
qed

text \<open>An interval of free bytes lies in one region, because adjacent regions are merged.\<close>

lemma sorted_regions_contain:
  assumes "sorted_wrt gap L" "{p..<p + n} \<subseteq> all_bytes L" "0 < n"
  shows "\<exists>x\<in>set L. n \<le> snd x"
  using assms
proof (induction L)
  case Nil
  then show ?case by auto
next
  case (Cons x L)
  have sep: "\<forall>y\<in>all_bytes L. fst x + snd x < y" using Cons.prems(1) by (fastforce simp: all_bytes_def region_bytes_def gap_def)
  show ?case
  proof (cases "p < fst x + snd x")
    case True
    have "p + n \<le> fst x + snd x"
    proof (rule ccontr)
      assume "\<not> p + n \<le> fst x + snd x"
      then have "fst x + snd x \<in> {p..<p + n}" using True by simp
      then have "fst x + snd x \<in> region_bytes x \<union> all_bytes L" using Cons.prems(2) by auto
      then show False using sep by (auto simp: region_bytes_def)
    qed
    moreover have "p \<in> {p..<p + n}" using Cons.prems(3) by simp
    then have "p \<in> region_bytes x \<union> all_bytes L" using subsetD [OF Cons.prems(2)] by (simp only: all_bytes_Cons)
    then have "fst x \<le> p" using sep True by (auto simp: region_bytes_def)
    ultimately have "n \<le> snd x" by linarith
    then show ?thesis by simp
  next
    case False
    then have "{p..<p + n} \<subseteq> all_bytes L" using Cons.prems(2) by (force simp: region_bytes_def)
    with Cons show ?thesis by auto
  qed
qed

definition block_bytes :: "addr \<Rightarrow> nat \<Rightarrow> nat set" where
  "block_bytes p n = {p..<p + align_up n}"

definition used :: "(addr \<rightharpoonup> nat) \<Rightarrow> nat set" where
  "used M = (\<Union>p\<in>dom M. block_bytes p (the (M p)))"

definition blocks_ok :: "(addr \<rightharpoonup> nat) \<Rightarrow> bool" where
  "blocks_ok M \<longleftrightarrow> (\<forall>p n. M p = Some n \<longrightarrow> 0 < n \<and> 8 dvd p) \<and>
    (\<forall>p q n k. M p = Some n \<longrightarrow> M q = Some k \<longrightarrow> p \<noteq> q \<longrightarrow> block_bytes p n \<inter> block_bytes q k = {})"

text \<open>
  The area is the disjoint union of the free regions, the blocks \<open>M\<close> and the bytes \<open>R\<close> of a block
  that is being moved, which is not counted as allocated.
\<close>

definition heap_inv :: "nat set \<Rightarrow> 'e jmem_context \<Rightarrow> (addr \<rightharpoonup> nat) \<Rightarrow> bool" where
  "heap_inv R c M \<longleftrightarrow> 0 < gc_limit c \<and> jmem_heap_allocated_size c \<le> jmem_heap_limit c \<and>
    blocks_ok M \<and> jmem_heap_allocated_size c = card (used M) \<and> used M \<inter> R = {} \<and>
    (\<exists>L. free_list (nodes c) (vm_heap_size c) L \<and> jmem_heap_list_skip_p c \<in> fst ` set L \<and>
      all_bytes L \<union> used M \<union> R = {8..<vm_heap_size c} \<and> all_bytes L \<inter> (used M \<union> R) = {})"

lemma heap_invI:
  assumes "free_list (nodes c) (vm_heap_size c) L" "jmem_heap_list_skip_p c \<in> fst ` set L"
    "all_bytes L \<union> used M \<union> R = {8..<vm_heap_size c}" "all_bytes L \<inter> (used M \<union> R) = {}"
    "0 < gc_limit c" "jmem_heap_allocated_size c \<le> jmem_heap_limit c" "blocks_ok M"
    "jmem_heap_allocated_size c = card (used M)" "used M \<inter> R = {}"
  shows "heap_inv R c M"
  using assms unfolding heap_inv_def by blast

lemma used_iff: "x \<in> used M \<longleftrightarrow> (\<exists>p n. M p = Some n \<and> x \<in> block_bytes p n)"
  by (force simp: used_def)

lemma in_used: "blocks_ok M \<Longrightarrow> M p = Some n \<Longrightarrow> p \<in> used M"
  unfolding used_iff blocks_ok_def block_bytes_def using align_up_facts(4) [of n] by (intro exI conjI) auto

lemma used_upd: "p \<notin> dom M \<Longrightarrow> used (M(p \<mapsto> n)) = used M \<union> block_bytes p n"
  by (auto simp: used_iff domIff set_eq_iff split: if_splits) (metis option.distinct(1))

lemma used_del:
  assumes "blocks_ok M" "M p = Some n"
  shows "used M = used (M(p := None)) \<union> block_bytes p n" "used (M(p := None)) \<inter> block_bytes p n = {}"
proof -
  have "M = (M(p := None))(p \<mapsto> n)" using assms(2) by auto
  then show "used M = used (M(p := None)) \<union> block_bytes p n" by (metis domIff fun_upd_same used_upd)
  show "used (M(p := None)) \<inter> block_bytes p n = {}"
    using assms unfolding used_def blocks_ok_def by (fastforce split: if_splits)
qed

lemma card_block_bytes [simp]: "card (block_bytes p n) = align_up n" "finite (block_bytes p n)"
  by (auto simp: block_bytes_def)

lemma blocks_ok_upd:
  assumes "blocks_ok M" "block_bytes p n \<inter> used M = {}" "0 < n" "8 dvd p"
  shows "blocks_ok (M(p \<mapsto> n))"
  using assms unfolding blocks_ok_def used_def by (fastforce split: if_splits)

lemma blocks_ok_del: "blocks_ok M \<Longrightarrow> blocks_ok (M(p := None))"
  unfolding blocks_ok_def by (auto split: if_splits)

lemma heap_inv_block:
  assumes "heap_inv R c M" "M p = Some n"
  shows "region_ok (vm_heap_size c) (p, align_up n)" "block_bytes p n \<subseteq> {8..<vm_heap_size c}" "finite (used M)" "finite R"
proof -
  have u: "used M \<subseteq> {8..<vm_heap_size c}" "R \<subseteq> {8..<vm_heap_size c}" using assms(1) unfolding heap_inv_def by auto
  then show "finite (used M)" "finite R" using finite_subset by blast+
  have ok: "0 < n" "8 dvd p" using assms unfolding heap_inv_def blocks_ok_def by auto
  show sub: "block_bytes p n \<subseteq> {8..<vm_heap_size c}" using u assms(2) used_iff by blast
  have "p \<in> block_bytes p n" "p + align_up n - 1 \<in> block_bytes p n" using align_up_facts(4) [OF ok(1)] by (auto simp: block_bytes_def)
  then show "region_ok (vm_heap_size c) (p, align_up n)"
    using sub ok align_up_facts [of n] by (fastforce simp: region_ok_def)
qed

text \<open>The fields that only the region list operations change.\<close>

abbreviation set_list :: "'e jmem_context \<Rightarrow> (addr \<Rightarrow> jmem_heap_free) \<Rightarrow> addr \<Rightarrow> nat \<Rightarrow> nat \<Rightarrow> 'e jmem_context" where
  "set_list c m skip a l \<equiv> c\<lparr>nodes := m, jmem_heap_list_skip_p := skip, jmem_heap_allocated_size := a, jmem_heap_limit := l\<rparr>"

lemma alloc_region_inv:
  assumes inv: "heap_inv R c M" and n: "0 < n" "8 dvd n"
  obtains "alloc_region c n = Some (None, c)"
    "\<And>p. {p..<p + n} \<subseteq> {8..<vm_heap_size c} \<Longrightarrow> {p..<p + n} \<inter> (used M \<union> R) \<noteq> {}"
  | p m q a l where "alloc_region c n = Some (Some p, set_list c m q a l)" "heap_inv R (set_list c m q a l) (M(p \<mapsto> n))"
    "block_bytes p n \<inter> (used M \<union> R) = {}" "p \<notin> dom M"
proof -
  obtain L where L: "free_list (nodes c) (vm_heap_size c) L" "jmem_heap_list_skip_p c \<in> fst ` set L"
    "all_bytes L \<union> used M \<union> R = {8..<vm_heap_size c}" "all_bytes L \<inter> (used M \<union> R) = {}"
    and g: "0 < gc_limit c" and lim: "jmem_heap_allocated_size c \<le> jmem_heap_limit c" and ok: "blocks_ok M"
    and al: "jmem_heap_allocated_size c = card (used M)" "used M \<inter> R = {}"
    using inv unfolding heap_inv_def by blast
  obtain rs where rs: "L = (0, 0) # rs" "list_all (region_ok (vm_heap_size c)) rs" using L(1) unfolding free_list_def by blast
  note F = free_listD [OF L(1)]
  have seg: "seg (nodes c) ((0, 0) # rs) JMEM_HEAP_END_OF_LIST" using F(2) rs(1) by simp
  have first: "next_offset (nodes c 0) = head_offset rs JMEM_HEAP_END_OF_LIST" using seg by simp
  from alloc_loop_list [OF seg rs(2) F(3), of n]
  show thesis
  proof
    assume none: "alloc_loop (nodes c) n 0 (head_offset rs JMEM_HEAP_END_OF_LIST) = Some None \<and> (\<forall>x\<in>set rs. snd x < n)"
    have "\<not> {p..<p + n} \<subseteq> all_bytes L" for p
      using sorted_regions_contain [of L p n] F(1) none rs(1) n by fastforce
    then have "{p..<p + n} \<inter> (used M \<union> R) \<noteq> {}" if "{p..<p + n} \<subseteq> {8..<vm_heap_size c}" for p
    proof -
      obtain x where x: "x \<in> {p..<p + n}" "x \<notin> all_bytes L" using \<open>\<And>p. \<not> {p..<p + n} \<subseteq> all_bytes L\<close> by blast
      then have "x \<in> all_bytes L \<union> used M \<union> R" using that L(3) by (simp only:) blast
      then show ?thesis using x by blast
    qed
    then show thesis using none first by (intro that(1)) (auto simp: alloc_region_def)
  next
    assume "\<exists>r1 q u a t r2. (0, 0) # rs = r1 @ (q, u) # (a, t) # r2 \<and> n \<le> t \<and> (\<forall>x\<in>set (tl (r1 @ [(q, u)])). snd x < n) \<and>
      alloc_loop (nodes c) n 0 (head_offset rs JMEM_HEAP_END_OF_LIST) = Some (Some (cut_node (nodes c) q a n, q, a))"
    then obtain r1 q u a t r2 where *: "L = r1 @ (q, u) # (a, t) # r2" "n \<le> t"
      "alloc_loop (nodes c) n 0 (next_offset (nodes c 0)) = Some (Some (cut_node (nodes c) q a n, q, a))"
      using rs(1) first by auto
    note cut = cut_node_free_list [OF L(1) [unfolded *(1)] n *(2), folded *(1)]
    let ?L' = "r1 @ (q, u) # take_region n (a, t) @ r2"
    have sub: "block_bytes a n \<subseteq> all_bytes L" using *(1,2) n(2) by (auto simp: block_bytes_def region_bytes_def)
    have fresh: "block_bytes a n \<inter> (used M \<union> R) = {}" using sub L(4) by blast
    have "a \<in> block_bytes a n" using n by (simp add: block_bytes_def)
    then have "a \<notin> used M" using fresh by blast
    then have "a \<notin> dom M" using in_used [OF ok] by blast
    note U = used_upd [OF this, of n]
    obtain l where l: "raise_limit (jmem_heap_allocated_size c + n) (gc_limit c) (jmem_heap_limit c) = Some l" "jmem_heap_allocated_size c + n < l"
      using raise_limit_ok [OF g] by blast
    let ?c = "set_list c (cut_node (nodes c) q a n) q (jmem_heap_allocated_size c + n) l"
    have "finite (used M)" using L(3) finite_subset [of "used M" "{8..<vm_heap_size c}"] by auto
    then have "card (used (M(a \<mapsto> n))) = jmem_heap_allocated_size c + n"
      using U fresh al(1) n(2) by (subst U, subst card_Un_disjoint) auto
    moreover have "blocks_ok (M(a \<mapsto> n))"
      using blocks_ok_upd [OF ok _ n(1), of a] fresh cut(3) by (auto simp: region_ok_def)
    moreover have "all_bytes ?L' \<union> used (M(a \<mapsto> n)) \<union> R = {8..<vm_heap_size c}" "all_bytes ?L' \<inter> (used (M(a \<mapsto> n)) \<union> R) = {}"
    proof -
      have "all_bytes ?L' = all_bytes L - block_bytes a n" using cut(2) n(2) by (simp add: block_bytes_def)
      then show "all_bytes ?L' \<union> used (M(a \<mapsto> n)) \<union> R = {8..<vm_heap_size c}" "all_bytes ?L' \<inter> (used (M(a \<mapsto> n)) \<union> R) = {}"
        using L(3,4) U sub by blast+
    qed
    moreover have "used (M(a \<mapsto> n)) \<inter> R = {}" using U fresh al(2) by auto
    moreover have "q \<in> fst ` set ?L'" by force
    ultimately have hi: "heap_inv R ?c (M(a \<mapsto> n))"
      using g l(2) cut(1) by (intro heap_invI [where L = ?L']) simp_all
    show thesis
      by (rule that(2) [OF _ hi fresh \<open>a \<notin> dom M\<close>]) (use *(3) l(1) in \<open>simp add: alloc_region_def\<close>)
  qed
qed

lemma heap_invE:
  assumes "heap_inv R c M"
  obtains L where "free_list (nodes c) (vm_heap_size c) L" "jmem_heap_list_skip_p c \<in> fst ` set L"
    "all_bytes L \<union> used M \<union> R = {8..<vm_heap_size c}" "all_bytes L \<inter> (used M \<union> R) = {}"
    "0 < gc_limit c" "jmem_heap_allocated_size c \<le> jmem_heap_limit c" "blocks_ok M"
    "jmem_heap_allocated_size c = card (used M)" "used M \<inter> R = {}" "finite (used M)"
proof -
  obtain L where *: "free_list (nodes c) (vm_heap_size c) L" "jmem_heap_list_skip_p c \<in> fst ` set L"
    "all_bytes L \<union> used M \<union> R = {8..<vm_heap_size c}" "all_bytes L \<inter> (used M \<union> R) = {}"
    "0 < gc_limit c" "jmem_heap_allocated_size c \<le> jmem_heap_limit c" "blocks_ok M"
    "jmem_heap_allocated_size c = card (used M)" "used M \<inter> R = {}"
    using assms unfolding heap_inv_def by blast
  then have "finite (used M)" using finite_subset [of "used M" "{8..<vm_heap_size c}"] by auto
  then show thesis using * that by blast
qed

text \<open>Bytes of blocks become a free region; the search may start at a lower address \<open>b0\<close> of the same block.\<close>

lemma release_inv:
  assumes inv: "heap_inv R c M" and b: "region_ok (vm_heap_size c) (b, n)" "8 \<le> b0" "b0 \<le> b" "{b0..<b + n} \<subseteq> used M"
    and M': "used M = used M' \<union> {b..<b + n}" "used M' \<inter> {b..<b + n} = {}" "blocks_ok M'"
  obtains p l where "jmem_heap_find_prev c b0 = Some p"
    "lower_limit (jmem_heap_allocated_size c - n) (gc_limit c) (jmem_heap_limit c) = Some l"
    "heap_inv R (set_list c (insert_node (nodes c) b p n) p (jmem_heap_allocated_size c - n) l) M'"
proof -
  obtain L where L: "free_list (nodes c) (vm_heap_size c) L" "jmem_heap_list_skip_p c \<in> fst ` set L"
    "all_bytes L \<union> used M \<union> R = {8..<vm_heap_size c}" "all_bytes L \<inter> (used M \<union> R) = {}"
    "0 < gc_limit c" "jmem_heap_allocated_size c \<le> jmem_heap_limit c" "blocks_ok M"
    "jmem_heap_allocated_size c = card (used M)" "used M \<inter> R = {}" "finite (used M)"
    using inv by (rule heap_invE)
  have "{b0..<b + n} \<inter> all_bytes L = {}" using b(4) L(4) by blast
  from find_prev_insert [OF L(1,2) b(1-3) this] obtain p L' where p: "jmem_heap_find_prev c b0 = Some p"
    "free_list (insert_node (nodes c) b p n) (vm_heap_size c) L'" "all_bytes L' = all_bytes L \<union> {b..<b + n}" "p \<in> fst ` set L'" by blast
  have "finite (used M')" using M'(1) L(10) by simp
  then have a: "jmem_heap_allocated_size c - n = card (used M')"
    using M'(1,2) L(8) by (simp add: card_Un_disjoint)
  obtain l where l: "lower_limit (jmem_heap_allocated_size c - n) (gc_limit c) (jmem_heap_limit c) = Some l" "jmem_heap_allocated_size c - n \<le> l"
    using lower_limit_ok [OF L(5) le_trans [OF diff_le_self L(6)], of n] by blast
  define S where "S = {b..<b + n}"
  note sets = p(3) [folded S_def] M'(1,2) [folded S_def]
  have "all_bytes L' \<union> used M' \<union> R = {8..<vm_heap_size c}" using L(3) by (simp add: sets Un_ac)
  moreover have "all_bytes L' \<inter> (used M' \<union> R) = {}" "used M' \<inter> R = {}" using sets L(4,9) by auto
  ultimately have "heap_inv R (set_list c (insert_node (nodes c) b p n) p (jmem_heap_allocated_size c - n) l) M'"
    using L(5) M'(3) a l(2) p(2,4) by (intro heap_invI [where L = L']) simp_all
  then show thesis using that p(1) l(1) by blast
qed

lemma free_region_inv:
  assumes inv: "heap_inv R c M" and p: "M p = Some n" "align_up k = align_up n" and main: "jmem_cellocator_find (pages c) p = None"
  obtains m q a l where "jmem_heap_free_block_internal c p k = Some (set_list c m q a l)" "heap_inv R (set_list c m q a l) (M(p := None))"
proof -
  have ok: "blocks_ok M" using inv unfolding heap_inv_def by blast
  note B = heap_inv_block [OF inv p(1)] and U = used_del [OF ok p(1)]
  have "8 \<le> p" "{p..<p + align_up n} \<subseteq> used M" using B(1) U(1) by (auto simp: region_ok_def block_bytes_def)
  from release_inv [OF inv B(1) this(1) order_refl this(2) U [unfolded block_bytes_def] blocks_ok_del [OF ok]]
  obtain q l where "jmem_heap_find_prev c p = Some q"
    "lower_limit (jmem_heap_allocated_size c - align_up n) (gc_limit c) (jmem_heap_limit c) = Some l"
    "heap_inv R (set_list c (insert_node (nodes c) p q (align_up n)) q (jmem_heap_allocated_size c - align_up n) l) (M(p := None))" by blast
  then show thesis
    using main p(2) by (intro that) (simp_all add: jmem_heap_free_block_internal_def jmem_heap_insert_block_def Let_def)
qed

end
