(* ===== verification/Jmem_Alloc.thy ===== *)
theory Jmem_Alloc
  imports Jmem_Correct
begin

text \<open>
  Invariant of the memory manager with its pages of cells, and the correctness of \<open>jmem_heap_alloc_block\<close>,
  \<open>jmem_heap_free_block\<close> and \<open>jmem_heap_realloc_block\<close>. The garbage collector may run within every allocation; it
  frees blocks that it owns.
\<close>

section \<open>Invariant\<close>

definition config_ok :: "'e jmem_context \<Rightarrow> bool" where
  "config_ok c \<longleftrightarrow> 1 \<le> vm_cell_count c \<and> vm_cell_count c < 2 ^ 27 \<and> 8 dvd page_header_size c \<and> 0 < page_header_size c"

definition page_ok :: "'e jmem_context \<Rightarrow> jmem_cellocator_page \<Rightarrow> bool" where
  "page_ok c pg \<longleftrightarrow> start_p pg = page_p pg + page_header_size c \<and>
    end_p pg = start_p pg + JMEM_CELLOCATOR_CELL_SIZE * (vm_cell_count c - 1)"

definition cells_of :: "jmem_cellocator_page \<Rightarrow> addr set" where
  "cells_of pg = {a. start_p pg \<le> a \<and> a \<le> end_p pg \<and> 32 dvd a - start_p pg}"

definition cells :: "'e jmem_context \<Rightarrow> addr set" where
  "cells c = \<Union> (cells_of ` set (pages c))"

definition small :: "nat \<Rightarrow> bool" where
  "small n \<longleftrightarrow> align_up n \<le> JMEM_CELLOCATOR_CELL_SIZE"

text \<open>The pages and the blocks that are not cells.\<close>

definition main_blocks :: "'e jmem_context \<Rightarrow> (addr \<rightharpoonup> nat) \<Rightarrow> (addr \<rightharpoonup> nat)" where
  "main_blocks c B = (\<lambda>p. if p \<in> page_p ` set (pages c) then Some (JMEM_CELLOCATOR_PAGE_SIZE c)
    else (case B p of None \<Rightarrow> None | Some n \<Rightarrow> if small n then None else Some n))"

definition small_blocks :: "(addr \<rightharpoonup> nat) \<Rightarrow> addr set" where
  "small_blocks B = {p. \<exists>n. B p = Some n \<and> small n}"

definition jmem_inv :: "nat set \<Rightarrow> 'e jmem_context \<Rightarrow> (addr \<rightharpoonup> nat) \<Rightarrow> bool" where
  "jmem_inv R c B \<longleftrightarrow> config_ok c \<and> list_all (page_ok c) (pages c) \<and> heap_inv R c (main_blocks c B) \<and>
    (\<forall>p n. B p = Some n \<longrightarrow> 0 < n \<and> (small n \<or> p \<notin> page_p ` set (pages c))) \<and>
    distinct (free_cells c) \<and> set (free_cells c) \<inter> small_blocks B = {} \<and> set (free_cells c) \<union> small_blocks B = cells c"

text \<open>What no operation on the list of regions or on the cells changes.\<close>

definition keeps :: "'e jmem_context \<Rightarrow> 'e jmem_context \<Rightarrow> bool" where
  "keeps c c' \<longleftrightarrow> gc_limit c' = gc_limit c \<and> vm_heap_size c' = vm_heap_size c \<and> vm_cell_count c' = vm_cell_count c \<and>
    page_header_size c' = page_header_size c \<and> bytes c' = bytes c"

lemma keeps_refl [simp]: "keeps c c"
  by (simp add: keeps_def)

lemma keeps_trans [trans]: "keeps c c' \<Longrightarrow> keeps c' c'' \<Longrightarrow> keeps c c''"
  by (simp add: keeps_def)

lemma small_align [simp]: "small (align_up n) = small n"
  by (simp add: small_def)

lemma page_size:
  assumes "config_ok c"
  shows "JMEM_CELLOCATOR_PAGE_SIZE c = page_header_size c + 32 * vm_cell_count c" "8 dvd JMEM_CELLOCATOR_PAGE_SIZE c"
    "32 < JMEM_CELLOCATOR_PAGE_SIZE c" "\<not> small (JMEM_CELLOCATOR_PAGE_SIZE c)"
proof -
  show 1: "JMEM_CELLOCATOR_PAGE_SIZE c = page_header_size c + 32 * vm_cell_count c"
    using assms by (simp add: JMEM_CELLOCATOR_PAGE_SIZE_def config_ok_def)
  show 2: "8 dvd JMEM_CELLOCATOR_PAGE_SIZE c" "32 < JMEM_CELLOCATOR_PAGE_SIZE c" using assms unfolding 1 config_ok_def by auto
  show "\<not> small (JMEM_CELLOCATOR_PAGE_SIZE c)" using 2 by (simp add: small_def)
qed

lemma page_interval:
  assumes "config_ok c" "page_ok c pg" "start_p pg \<le> a" "a \<le> end_p pg"
  shows "a \<in> block_bytes (page_p pg) (JMEM_CELLOCATOR_PAGE_SIZE c)" "page_p pg < a"
proof -
  have "a \<le> page_p pg + page_header_size c + 32 * (vm_cell_count c - 1)" "page_p pg + page_header_size c \<le> a"
    using assms(2-4) by (auto simp: page_ok_def)
  moreover have "32 * (vm_cell_count c - 1) + 32 = 32 * vm_cell_count c" "0 < page_header_size c" using assms(1) by (auto simp: config_ok_def)
  ultimately have "a < page_p pg + (page_header_size c + 32 * vm_cell_count c)" "page_p pg < a" by linarith+
  then show "a \<in> block_bytes (page_p pg) (JMEM_CELLOCATOR_PAGE_SIZE c)" "page_p pg < a"
    using page_size(1,2) [OF assms(1)] by (auto simp: block_bytes_def)
qed

lemma find_None: "jmem_cellocator_find pgs p = None \<longleftrightarrow> (\<forall>pg\<in>set pgs. \<not> (start_p pg \<le> p \<and> p \<le> end_p pg))"
  by (induction pgs) auto

lemma find_main:
  assumes inv: "jmem_inv R c B" and p: "main_blocks c B p = Some n"
  shows "jmem_cellocator_find (pages c) p = None"
proof (rule ccontr)
  assume "jmem_cellocator_find (pages c) p \<noteq> None"
  then obtain pg where pg: "pg \<in> set (pages c)" "start_p pg \<le> p" "p \<le> end_p pg" by (auto simp: find_None)
  have cfg: "config_ok c" "page_ok c pg" and ok: "blocks_ok (main_blocks c B)"
    using inv pg by (auto simp: jmem_inv_def list_all_iff heap_inv_def)
  note P = page_interval [OF cfg pg(2,3)]
  have "main_blocks c B (page_p pg) = Some (JMEM_CELLOCATOR_PAGE_SIZE c)" using pg(1) by (simp add: main_blocks_def)
  moreover have "p \<in> block_bytes p n"
    using ok p align_up_facts(4) by (auto simp: block_bytes_def blocks_ok_def)
  ultimately show False using ok p P unfolding blocks_ok_def by blast
qed

lemma find_cell: "p \<in> cells c \<Longrightarrow> jmem_cellocator_find (pages c) p \<noteq> None"
  by (auto simp: find_None cells_def cells_of_def)

lemma cell_not_main: "jmem_inv R c B \<Longrightarrow> p \<in> cells c \<Longrightarrow> p \<notin> dom (main_blocks c B)"
  using find_main find_cell by blast

lemma small_is_cell: "jmem_inv R c B \<Longrightarrow> B p = Some n \<Longrightarrow> small n \<Longrightarrow> p \<in> cells c"
  by (auto simp: jmem_inv_def small_blocks_def)

lemma large_is_main: "jmem_inv R c B \<Longrightarrow> B p = Some n \<Longrightarrow> \<not> small n \<Longrightarrow> main_blocks c B p = Some n \<and> p \<notin> page_p ` set (pages c)"
  by (auto simp: jmem_inv_def main_blocks_def)

lemma dom_blocks_cases: "jmem_inv R c B \<Longrightarrow> p \<in> dom B \<Longrightarrow> p \<in> dom (main_blocks c B) \<or> p \<in> cells c - set (free_cells c)"
  using large_is_main [of R c B p] small_is_cell [of R c B p]
  by (cases "small (the (B p))") (auto simp: jmem_inv_def small_blocks_def)

lemma cells_used: "jmem_inv R c B \<Longrightarrow> p \<in> cells c \<Longrightarrow> p \<in> used (main_blocks c B)"
  using page_interval(1) unfolding used_iff
  by (fastforce simp: cells_def cells_of_def jmem_inv_def list_all_iff main_blocks_def)

lemma main_blocks_del: "p \<notin> page_p ` set (pages c) \<Longrightarrow> main_blocks c (B(p := None)) = (main_blocks c B)(p := None)"
  by (auto simp: main_blocks_def fun_eq_iff)

lemma main_blocks_del_small: "B p = Some n \<Longrightarrow> small n \<Longrightarrow> main_blocks c (B(p := None)) = main_blocks c B"
  by (auto simp: main_blocks_def fun_eq_iff)

lemma main_blocks_upd_small: "p \<notin> dom B \<Longrightarrow> small n \<Longrightarrow> main_blocks c (B(p \<mapsto> n)) = main_blocks c B"
  by (auto simp: main_blocks_def fun_eq_iff)

lemma main_blocks_upd: "p \<notin> page_p ` set (pages c) \<Longrightarrow> \<not> small n \<Longrightarrow> main_blocks c (B(p \<mapsto> n)) = (main_blocks c B)(p \<mapsto> n)"
  by (auto simp: main_blocks_def fun_eq_iff)

lemma small_blocks_simps:
  "small_blocks (B(p := None)) = small_blocks B - {p}"
  "p \<notin> dom B \<Longrightarrow> small_blocks (B(p \<mapsto> n)) = (if small n then insert p (small_blocks B) else small_blocks B)"
  by (auto simp: small_blocks_def split: if_splits)

text \<open>The invariant of the regions does not mention the cells, the contents and the collector.\<close>

lemma heap_inv_cong [simp]:
  "heap_inv R (c\<lparr>free_cells := f\<rparr>) M = heap_inv R c M" "heap_inv R (c\<lparr>pages := g\<rparr>) M = heap_inv R c M"
  "heap_inv R (c\<lparr>collector := e\<rparr>) M = heap_inv R c M" "heap_inv R (c\<lparr>bytes := b\<rparr>) M = heap_inv R c M"
  by (simp_all add: heap_inv_def)

lemma main_blocks_cong [simp]:
  "main_blocks (c\<lparr>free_cells := f\<rparr>) B = main_blocks c B" "main_blocks (c\<lparr>collector := e\<rparr>) B = main_blocks c B"
  "main_blocks (c\<lparr>bytes := b\<rparr>) B = main_blocks c B" "main_blocks (set_list c m q a l) B = main_blocks c B"
  by (simp_all add: main_blocks_def JMEM_CELLOCATOR_PAGE_SIZE_def fun_eq_iff)

lemma config_cong [simp]:
  "config_ok (c\<lparr>free_cells := f\<rparr>) = config_ok c" "config_ok (c\<lparr>pages := g\<rparr>) = config_ok c" "config_ok (c\<lparr>collector := e\<rparr>) = config_ok c"
  "config_ok (c\<lparr>bytes := b\<rparr>) = config_ok c" "config_ok (set_list c m q a l) = config_ok c"
  "page_ok (c\<lparr>free_cells := f\<rparr>) = page_ok c" "page_ok (c\<lparr>pages := g\<rparr>) = page_ok c" "page_ok (c\<lparr>collector := e\<rparr>) = page_ok c"
  "page_ok (c\<lparr>bytes := b\<rparr>) = page_ok c" "page_ok (set_list c m q a l) = page_ok c"
  "cells (c\<lparr>free_cells := f\<rparr>) = cells c" "cells (c\<lparr>collector := e\<rparr>) = cells c"
  "cells (c\<lparr>bytes := b\<rparr>) = cells c" "cells (set_list c m q a l) = cells c"
  by (simp_all add: config_ok_def page_ok_def fun_eq_iff cells_def)

lemma jmem_inv_collector [simp]: "jmem_inv R (c\<lparr>collector := e\<rparr>) B = jmem_inv R c B"
  "jmem_inv R (c\<lparr>bytes := b\<rparr>) B = jmem_inv R c B"
  by (simp_all add: jmem_inv_def)

section \<open>Freeing\<close>

lemma free_block_inv:
  assumes inv: "jmem_inv R c B" and p: "B p = Some n" "align_up k = align_up n"
  obtains c' where "jmem_heap_free_block c p k = Some c'" "jmem_inv R c' (B(p := None))" "keeps c c'" "collector c' = collector c"
proof (cases "small n")
  case True
  have "p \<in> small_blocks B" using p True by (auto simp: small_blocks_def)
  have "p \<in> cells c" using small_is_cell [OF inv p(1) True] .
  then have "jmem_heap_free_block c p k = Some (c\<lparr>free_cells := p # free_cells c\<rparr>)"
    using find_cell [of p c] by (auto simp: jmem_heap_free_block_def jmem_heap_free_block_internal_def jmem_cellocator_cell_free_def)
  moreover have "jmem_inv R (c\<lparr>free_cells := p # free_cells c\<rparr>) (B(p := None))"
    using inv main_blocks_del_small [where B = B and p = p and n = n and c = c, OF p(1) True] \<open>p \<in> small_blocks B\<close>
    by (auto simp: jmem_inv_def small_blocks_simps)
  ultimately show thesis using that by (auto simp: keeps_def)
next
  case False
  note M = large_is_main [OF inv p(1) False]
  have hi: "heap_inv R c (main_blocks c B)" using inv by (simp add: jmem_inv_def)
  obtain m q a l where *: "jmem_heap_free_block_internal c p k = Some (set_list c m q a l)"
    "heap_inv R (set_list c m q a l) ((main_blocks c B)(p := None))"
    by (rule free_region_inv [OF hi conjunct1 [OF M] p(2) find_main [OF inv conjunct1 [OF M]]])
  have "p \<notin> small_blocks B" using p False by (auto simp: small_blocks_def)
  then have "jmem_inv R (set_list c m q a l) (B(p := None))"
    using inv *(2) M by (auto simp: jmem_inv_def main_blocks_del small_blocks_simps)
  then show thesis using that *(1) by (auto simp: jmem_heap_free_block_def keeps_def)
qed

lemma free_blocks_inv:
  assumes "jmem_inv R c B" "distinct (map fst bs)" "\<forall>b\<in>set bs. B (fst b) = Some (snd b)"
  shows "\<exists>c'. free_blocks bs c = Some c' \<and> jmem_inv R c' (B |` (- fst ` set bs)) \<and> keeps c c' \<and> collector c' = collector c"
  using assms
proof (induction bs arbitrary: c B)
  case Nil
  then show ?case by simp
next
  case (Cons b bs)
  have "B (fst b) = Some (snd b)" using Cons.prems(3) by simp
  from free_block_inv [OF Cons.prems(1) this refl] obtain c1 where c1:
    "jmem_heap_free_block c (fst b) (snd b) = Some c1" "jmem_inv R c1 (B(fst b := None))" "keeps c c1" "collector c1 = collector c" by blast
  have "\<forall>x\<in>set bs. (B(fst b := None)) (fst x) = Some (snd x)" using Cons.prems(2,3) by force
  moreover have "distinct (map fst bs)" using Cons.prems(2) by simp
  ultimately obtain c' where c':
    "free_blocks bs c1 = Some c'" "jmem_inv R c' ((B(fst b := None)) |` (- fst ` set bs))" "keeps c1 c'" "collector c' = collector c1"
    using Cons.IH [OF c1(2)] by blast
  moreover have "(B(fst b := None)) |` (- fst ` set bs) = B |` (- fst ` set (b # bs))" by (auto simp: restrict_map_def fun_eq_iff)
  ultimately show ?case using c1 keeps_trans [OF c1(3)] by simp
qed

section \<open>Allocating\<close>

lemma heap_inv_resize:
  assumes "heap_inv R c (M(p \<mapsto> k))" "align_up n = align_up k" "0 < n"
  shows "heap_inv R c (M(p \<mapsto> n))"
proof -
  have eq: "block_bytes q n = block_bytes q k" for q using assms(2) by (simp add: block_bytes_def)
  have "used (M(p \<mapsto> n)) = used (M(p \<mapsto> k))" unfolding used_def by (intro SUP_cong) (auto simp: eq)
  moreover have "blocks_ok (M(p \<mapsto> n))"
    using assms(1,3) unfolding heap_inv_def blocks_ok_def by (auto simp: eq split: if_splits)
  ultimately show ?thesis using assms(1) by (simp add: heap_inv_def)
qed

lemma alloc_large_inv:
  assumes inv: "jmem_inv R c B" and n: "\<not> small n"
  obtains "alloc_region c (align_up n) = Some (None, c)"
    "\<And>p. {p..<p + align_up n} \<subseteq> {8..<vm_heap_size c} \<Longrightarrow> {p..<p + align_up n} \<inter> (used (main_blocks c B) \<union> R) \<noteq> {}"
  | p m q a l where "alloc_region c (align_up n) = Some (Some p, set_list c m q a l)" "p \<notin> dom B" "p \<notin> page_p ` set (pages c)"
    "jmem_inv R (set_list c m q a l) (B(p \<mapsto> n))" "block_bytes p n \<inter> (used (main_blocks c B) \<union> R) = {}"
proof -
  have hi: "heap_inv R c (main_blocks c B)" using inv by (simp add: jmem_inv_def)
  have pos: "0 < n" "0 < align_up n" using n by (auto simp: small_def align_up_def)
  show thesis
    using hi pos(2) align_up_facts(1)
  proof (rule alloc_region_inv, goal_cases)
    case 1
    then show thesis by (rule that(1))
  next
    case (2 p m q a l)
    have fresh: "block_bytes p n \<inter> (used (main_blocks c B) \<union> R) = {}" using 2(3) by (simp add: block_bytes_def)
    have "p \<in> block_bytes p n" using pos by (simp add: block_bytes_def)
    then have "p \<notin> cells c" using cells_used [OF inv] fresh by blast
    then have new: "p \<notin> dom B" "p \<notin> page_p ` set (pages c)"
      using 2(4) dom_blocks_cases [OF inv] by (auto simp: main_blocks_def)
    have "jmem_inv R (set_list c m q a l) (B(p \<mapsto> n))"
      using inv heap_inv_resize [OF 2(2), of n] pos new n
      by (auto simp: jmem_inv_def main_blocks_upd small_blocks_simps)
    then show thesis by (rule that(2) [OF 2(1) new _ fresh])
  qed
qed

lemma alloc_cell_inv:
  assumes inv: "jmem_inv R c B" and n: "small n" "0 < n" and cs: "free_cells c = p # cs"
  shows "jmem_inv R (c\<lparr>free_cells := cs\<rparr>) (B(p \<mapsto> n))" "p \<notin> dom B"
proof -
  have "p \<in> cells c" "p \<in> set (free_cells c)" using inv cs by (auto simp: jmem_inv_def)
  then show new: "p \<notin> dom B" using dom_blocks_cases [OF inv] cell_not_main [OF inv] by blast
  have "p \<notin> set cs" using inv cs by (auto simp: jmem_inv_def)
  then show "jmem_inv R (c\<lparr>free_cells := cs\<rparr>) (B(p \<mapsto> n))"
    using inv n cs new by (auto simp: jmem_inv_def main_blocks_upd_small small_blocks_simps)
qed

lemma add_cells_spec:
  "set (add_cells s e cs) = {a. s \<le> a \<and> a \<le> e \<and> 32 dvd a - s} \<union> set cs \<and>
    (distinct cs \<longrightarrow> (\<forall>a\<in>set cs. a < s \<or> e < a) \<longrightarrow> distinct (add_cells s e cs))"
proof (induction s e cs rule: add_cells.induct)
  case (1 s e cs)
  have split: "{a. s \<le> a \<and> a \<le> e \<and> 32 dvd a - s} = insert s {a. s + 32 \<le> a \<and> a \<le> e \<and> 32 dvd a - (s + 32)}" if "s \<le> e"
  proof -
    have "32 dvd a - s \<longleftrightarrow> a = s \<or> s + 32 \<le> a \<and> 32 dvd a - (s + 32)" if "s \<le> a" for a
    proof (cases "s + 32 \<le> a")
      case True
      then obtain d where "a = s + 32 + d" using le_Suc_ex by blast
      then show ?thesis by (auto simp: add.assoc)
    next
      case False
      then show ?thesis using that by (auto dest!: dvd_imp_le)
    qed
    then show ?thesis using \<open>s \<le> e\<close> by auto
  qed
  show ?case
  proof (cases "s \<le> e")
    case True
    have "distinct (add_cells s e cs)" if "distinct cs" "\<forall>a\<in>set cs. a < s \<or> e < a"
      using 1 [OF True] True that by (subst add_cells.simps) force
    then show ?thesis using 1 [OF True] True split by (subst add_cells.simps) auto
  next
    case False
    then show ?thesis by (subst add_cells.simps, subst (2) add_cells.simps) auto
  qed
qed

lemma new_page_inv:
  assumes inv: "jmem_inv R c (B(p \<mapsto> JMEM_CELLOCATOR_PAGE_SIZE c))" and p: "p \<notin> dom B"
  defines "pg \<equiv> \<lparr>page_p = p, start_p = p + page_header_size c,
      end_p = p + page_header_size c + JMEM_CELLOCATOR_CELL_SIZE * (vm_cell_count c - 1)\<rparr>"
  defines "cs \<equiv> add_cells (start_p pg) (end_p pg) (free_cells c)"
  shows "jmem_inv R (c\<lparr>free_cells := cs, pages := pg # pages c\<rparr>) B" "cs \<noteq> []"
proof -
  let ?c = "c\<lparr>free_cells := cs, pages := pg # pages c\<rparr>" and ?B = "B(p \<mapsto> JMEM_CELLOCATOR_PAGE_SIZE c)"
  have cfg: "config_ok c" and pgs: "list_all (page_ok c) (pages c)" and hi: "heap_inv R c (main_blocks c ?B)"
    using inv by (auto simp: jmem_inv_def)
  note size = page_size [OF cfg]
  have new: "p \<notin> page_p ` set (pages c)" using inv size(4) unfolding jmem_inv_def by (metis fun_upd_same)
  have ok: "page_ok c pg" by (simp add: page_ok_def pg_def)
  have main: "main_blocks ?c B = main_blocks c ?B"
    using new size(4) by (auto simp: main_blocks_def fun_eq_iff pg_def JMEM_CELLOCATOR_PAGE_SIZE_def)
  have cells: "cells ?c = cells_of pg \<union> cells c" by (simp add: cells_def)
  have pblock: "main_blocks c ?B p = Some (JMEM_CELLOCATOR_PAGE_SIZE c)" using size(4) by (simp add: main_blocks_def)
  have apart: "a < start_p pg \<or> end_p pg < a" if a: "a \<in> cells c" for a
  proof (rule ccontr)
    assume "\<not> (a < start_p pg \<or> end_p pg < a)"
    then have in_new: "a \<in> block_bytes p (JMEM_CELLOCATOR_PAGE_SIZE c)"
      using page_interval(1) [OF cfg ok] by (simp add: pg_def not_less)
    obtain pg' where pg': "pg' \<in> set (pages c)" "start_p pg' \<le> a" "a \<le> end_p pg'" using a by (auto simp: cells_def cells_of_def)
    then have "a \<in> block_bytes (page_p pg') (JMEM_CELLOCATOR_PAGE_SIZE c)"
      using page_interval(1) [OF cfg] pgs by (auto simp: list_all_iff)
    moreover have "main_blocks c ?B (page_p pg') = Some (JMEM_CELLOCATOR_PAGE_SIZE c)" using pg'(1) by (simp add: main_blocks_def)
    moreover have "page_p pg' \<noteq> p" using new pg'(1) by blast
    ultimately show False using hi pblock in_new unfolding heap_inv_def blocks_ok_def by blast
  qed
  have small: "small_blocks ?B = small_blocks B" using p size(4) by (simp add: small_blocks_simps)
  have old: "distinct (free_cells c)" "set (free_cells c) \<inter> small_blocks B = {}" "set (free_cells c) \<union> small_blocks B = cells c"
    using inv small by (auto simp: jmem_inv_def)
  have cs: "set cs = cells_of pg \<union> set (free_cells c)" "distinct cs"
    using add_cells_spec [of "start_p pg" "end_p pg" "free_cells c"] apart old by (auto simp: cs_def cells_of_def)
  have "cells_of pg \<inter> cells c = {}" using apart by (force simp: cells_of_def)
  then have "set cs \<inter> small_blocks B = {}" "set cs \<union> small_blocks B = cells ?c" unfolding cells cs(1) using old by blast+
  moreover have "\<forall>q n. B q = Some n \<longrightarrow> 0 < n \<and> (small n \<or> q \<notin> page_p ` set (pages ?c))"
    using inv p unfolding jmem_inv_def by (auto simp: pg_def split: if_splits)
  ultimately show "jmem_inv R ?c B"
    unfolding jmem_inv_def main using cfg pgs hi ok cs(2) by simp
  have "start_p pg \<in> cells_of pg" by (simp add: cells_of_def pg_def)
  then show "cs \<noteq> []" using cs(1) by force
qed

section \<open>The garbage collector\<close>

text \<open>
  The collector owns some of the blocks: those of objects that may be unreachable. It frees blocks that it owns, each once and with
  the size of the block, and owns the rest afterwards.
\<close>

locale garbage_collector =
  fixes gc :: "'e gc" and owned :: "'e \<Rightarrow> (addr \<rightharpoonup> nat)"
  assumes gc_distinct: "gc pressure e = (bs, e') \<Longrightarrow> distinct (map fst bs)"
    and gc_owned: "gc pressure e = (bs, e') \<Longrightarrow> b \<in> set bs \<Longrightarrow> owned e (fst b) = Some (snd b)"
    and gc_rest: "gc pressure e = (bs, e') \<Longrightarrow> owned e' = owned e |` (- fst ` set bs)"

definition heap_holds :: "('e \<Rightarrow> (addr \<rightharpoonup> nat)) \<Rightarrow> nat set \<Rightarrow> 'e jmem_context \<Rightarrow> (addr \<rightharpoonup> nat) \<Rightarrow> bool" where
  "heap_holds owned R c B \<longleftrightarrow> dom B \<inter> dom (owned (collector c)) = {} \<and> jmem_inv R c (B ++ owned (collector c))"

text \<open>
  A request either adds a new block to the blocks of the client or fails. A request that is too large for a cell
  fails only when no interval of free bytes is long enough.
\<close>

definition no_room :: "('e \<Rightarrow> (addr \<rightharpoonup> nat)) \<Rightarrow> nat set \<Rightarrow> 'e jmem_context \<Rightarrow> (addr \<rightharpoonup> nat) \<Rightarrow> nat \<Rightarrow> bool" where
  "no_room owned R c B k \<longleftrightarrow> (\<forall>p. {p..<p + k} \<subseteq> {8..<vm_heap_size c} \<longrightarrow>
    {p..<p + k} \<inter> (used (main_blocks c (B ++ owned (collector c))) \<union> R) \<noteq> {})"

definition served :: "('e \<Rightarrow> (addr \<rightharpoonup> nat)) \<Rightarrow> nat set \<Rightarrow> 'e jmem_context \<Rightarrow> (addr \<rightharpoonup> nat) \<Rightarrow> nat \<Rightarrow> addr option \<times> 'e jmem_context \<Rightarrow> bool" where
  "served owned R c B n res \<longleftrightarrow> (case res of (r, c') \<Rightarrow> keeps c c' \<and>
    (case r of None \<Rightarrow> heap_holds owned R c' B \<and> (\<not> small n \<longrightarrow> no_room owned R c' B (align_up n)) | Some p \<Rightarrow> p \<notin> dom B \<and> heap_holds owned R c' (B(p \<mapsto> n))))"

text \<open>The engine is stopped only in a state where a last attempt has failed.\<close>

definition exhausted :: "('e \<Rightarrow> (addr \<rightharpoonup> nat)) \<Rightarrow> nat set \<Rightarrow> 'e jmem_context \<Rightarrow> (addr \<rightharpoonup> nat) \<Rightarrow> nat \<Rightarrow> bool" where
  "exhausted owned R c B n \<longleftrightarrow> (\<exists>c'. served owned R c B n (None, c'))"

lemma map_add_upd_left: "p \<notin> dom O1 \<Longrightarrow> (B ++ O1)(p \<mapsto> n) = B(p \<mapsto> n) ++ O1"
  by (auto simp: fun_eq_iff map_add_def split: option.splits)

lemma restrict_add_right:
  assumes "dom B \<inter> dom O1 = {}" "F \<subseteq> dom O1"
  shows "(B ++ O1) |` (- F) = B ++ O1 |` (- F)"
proof
  fix x
  have "x \<in> F \<Longrightarrow> B x = None" using assms by blast
  then show "((B ++ O1) |` (- F)) x = (B ++ O1 |` (- F)) x" by (cases "x \<in> F") (simp_all add: restrict_map_def map_add_def)
qed

lemma served_trans: "keeps c c1 \<Longrightarrow> served owned R c1 B n res \<Longrightarrow> served owned R c B n res"
  by (auto simp: served_def intro: keeps_trans)

lemma served_SomeI:
  assumes "heap_holds owned R c B" "collector c' = collector c" "keeps c c'" "p \<notin> dom (B ++ owned (collector c))"
    "jmem_inv R c' ((B ++ owned (collector c))(p \<mapsto> n))"
  shows "served owned R c B n (Some p, c')"
  using assms by (auto simp: served_def heap_holds_def map_add_upd_left)

lemma served_large:
  assumes holds: "heap_holds owned R c B" and n: "\<not> small n"
  shows "\<exists>res. alloc_region c (align_up n) = Some res \<and> served owned R c B n res"
proof -
  have inv: "jmem_inv R c (B ++ owned (collector c))" using holds by (simp add: heap_holds_def)
  show ?thesis
    using inv n
  proof (rule alloc_large_inv, goal_cases)
    case 1
    then have "no_room owned R c B (align_up n)" unfolding no_room_def by blast
    then show ?case using 1(1) holds by (simp add: served_def)
  next
    case (2 p m q a l)
    have "served owned R c B n (Some p, set_list c m q a l)"
      using 2(2,4) by (intro served_SomeI [OF holds]) (simp_all add: keeps_def)
    then show ?case using 2(1) by simp
  qed
qed

lemma served_cell:
  assumes holds: "heap_holds owned R c B" and n: "small n" "0 < n"
  shows "served owned R c B n (jmem_cellocator_alloc c)"
proof (cases "free_cells c")
  case Nil
  then show ?thesis using holds n by (simp add: served_def jmem_cellocator_alloc_def)
next
  case (Cons p cs)
  have "jmem_inv R c (B ++ owned (collector c))" using holds by (simp add: heap_holds_def)
  from alloc_cell_inv [OF this n Cons] have "served owned R c B n (Some p, c\<lparr>free_cells := cs\<rparr>)"
    by (intro served_SomeI [OF holds]) (simp_all add: keeps_def)
  then show ?thesis using Cons by (simp add: jmem_cellocator_alloc_def)
qed

context garbage_collector
begin

lemma collect:
  assumes holds: "heap_holds owned R c B" and "pressure \<noteq> JMEM_PRESSURE_FULL"
  shows "\<exists>c'. ecma_free_unused_memory gc c pressure = Some c' \<and> heap_holds owned R c' B \<and> keeps c c'"
proof -
  obtain bs e where g: "gc pressure (collector c) = (bs, e)" by fastforce
  let ?O = "owned (collector c)"
  have d: "dom B \<inter> dom ?O = {}" and inv: "jmem_inv R (c\<lparr>collector := e\<rparr>) (B ++ ?O)" using holds by (simp_all add: heap_holds_def)
  have "\<forall>b\<in>set bs. (B ++ ?O) (fst b) = Some (snd b)" using gc_owned [OF g] by simp
  from free_blocks_inv [OF inv gc_distinct [OF g] this] obtain c' where c':
    "free_blocks bs (c\<lparr>collector := e\<rparr>) = Some c'" "jmem_inv R c' ((B ++ ?O) |` (- fst ` set bs))"
    "keeps (c\<lparr>collector := e\<rparr>) c'" "collector c' = e" by auto
  have "fst ` set bs \<subseteq> dom ?O" using gc_owned [OF g] by auto
  then have "(B ++ ?O) |` (- fst ` set bs) = B ++ owned e"
    unfolding gc_rest [OF g] by (rule restrict_add_right [OF d])
  moreover have "dom B \<inter> dom (owned e) = {}" using d unfolding gc_rest [OF g] by (auto simp: restrict_map_def split: if_splits)
  ultimately have "heap_holds owned R c' B" using c'(2,4) by (simp add: heap_holds_def)
  moreover have "ecma_free_unused_memory gc c pressure = Some c'" using assms(2) g c'(1) by (simp add: ecma_free_unused_memory_def)
  moreover have "keeps c c'" using c'(3) by (simp add: keeps_def)
  ultimately show ?thesis by blast
qed

lemma retry:
  assumes alloc: "\<And>c. heap_holds owned R c B \<Longrightarrow> \<exists>res. alloc c n = Some res \<and> served owned R c B n res"
    and "served owned R c0 B n (d, c)" and max: "max_pressure \<le> JMEM_PRESSURE_FULL"
  shows "(\<exists>res. gc_and_alloc_loop alloc gc n max_pressure pressure d c = Some res \<and> served owned R c0 B n res \<and>
      (max_pressure < JMEM_PRESSURE_FULL \<or> fst res \<noteq> None \<or> max_pressure \<le> pressure)) \<or>
    JMEM_PRESSURE_FULL \<le> max_pressure \<and> gc_and_alloc_loop alloc gc n max_pressure pressure d c = None \<and> exhausted owned R c0 B n"
  using assms(2)
proof (induction "max_pressure - pressure" arbitrary: pressure d c)
  case 0
  then show ?case by (simp add: gc_and_alloc_loop.simps [of _ _ _ _ pressure])
next
  case (Suc k)
  show ?case
  proof (cases "d = None \<and> Suc pressure \<noteq> JMEM_PRESSURE_FULL")
    case True
    then have holds: "heap_holds owned R c B" and k0: "keeps c0 c" using Suc.prems by (auto simp: served_def)
    obtain c1 where c1: "ecma_free_unused_memory gc c (Suc pressure) = Some c1" "heap_holds owned R c1 B" "keeps c c1"
      using collect [OF holds, of "Suc pressure"] True by auto
    obtain d' c2 where c2: "alloc c1 n = Some (d', c2)" "served owned R c1 B n (d', c2)" using alloc [OF c1(2)] by fastforce
    have "served owned R c0 B n (d', c2)" using served_trans [OF keeps_trans [OF k0 c1(3)] c2(2)] .
    moreover have "k = max_pressure - Suc pressure" using Suc.hyps(2) by simp
    ultimately have "(\<exists>res. gc_and_alloc_loop alloc gc n max_pressure (Suc pressure) d' c2 = Some res \<and> served owned R c0 B n res \<and>
        (max_pressure < JMEM_PRESSURE_FULL \<or> fst res \<noteq> None \<or> max_pressure \<le> Suc pressure)) \<or>
      JMEM_PRESSURE_FULL \<le> max_pressure \<and> gc_and_alloc_loop alloc gc n max_pressure (Suc pressure) d' c2 = None \<and> exhausted owned R c0 B n"
      using Suc.hyps(1) by blast
    moreover have "gc_and_alloc_loop alloc gc n max_pressure pressure d c = gc_and_alloc_loop alloc gc n max_pressure (Suc pressure) d' c2"
    proof -
      have "pressure < max_pressure" using Suc.hyps(2) by simp
      then show ?thesis using True c1(1) c2(1) by (simp add: gc_and_alloc_loop.simps [of _ _ _ _ pressure])
    qed
    ultimately show ?thesis using True max Suc.hyps(2) by auto
  next
    case False
    then show ?thesis
      using Suc.prems Suc.hyps(2)
      by (auto simp: gc_and_alloc_loop.simps [of _ _ _ _ pressure] ecma_free_unused_memory_def exhausted_def)
  qed
qed

lemma gc_and_alloc_served:
  assumes alloc: "\<And>c. heap_holds owned R c B \<Longrightarrow> \<exists>res. alloc c n = Some res \<and> served owned R c B n res"
    and holds: "heap_holds owned R c B" and n: "0 < n" and max: "max_pressure \<le> JMEM_PRESSURE_FULL"
  shows "(\<exists>res. jmem_heap_gc_and_alloc_block alloc gc c n max_pressure = Some res \<and> served owned R c B n res \<and>
      (max_pressure < JMEM_PRESSURE_FULL \<or> fst res \<noteq> None)) \<or>
    max_pressure = JMEM_PRESSURE_FULL \<and> jmem_heap_gc_and_alloc_block alloc gc c n max_pressure = None \<and> exhausted owned R c B n"
proof -
  obtain pressure c1 where c1: "heap_holds owned R c1 B" "keeps c c1" "pressure < JMEM_PRESSURE_FULL"
    "(if jmem_heap_limit c \<le> jmem_heap_allocated_size c + n
      then do { c \<leftarrow> ecma_free_unused_memory gc c JMEM_PRESSURE_LOW; Some (JMEM_PRESSURE_LOW, c) }
      else Some (JMEM_PRESSURE_NONE, c)) = Some (pressure, c1)"
  proof (cases "jmem_heap_limit c \<le> jmem_heap_allocated_size c + n")
    case True
    obtain c' where "ecma_free_unused_memory gc c JMEM_PRESSURE_LOW = Some c'" "heap_holds owned R c' B" "keeps c c'"
      using collect [OF holds, of JMEM_PRESSURE_LOW] by auto
    then show thesis using that [of c' JMEM_PRESSURE_LOW] True by simp
  next
    case False
    then show thesis using that [of c JMEM_PRESSURE_NONE] holds by simp
  qed
  obtain d c2 where c2: "alloc c1 n = Some (d, c2)" "served owned R c1 B n (d, c2)" using alloc [OF c1(1)] by fastforce
  have "jmem_heap_gc_and_alloc_block alloc gc c n max_pressure = gc_and_alloc_loop alloc gc n max_pressure pressure d c2"
    using n c1(4) c2(1) by (simp add: jmem_heap_gc_and_alloc_block_def)
  then show ?thesis
    using retry [where R = R and B = B and alloc = alloc and n = n and ?c0.0 = c and d = d and c = c2, OF alloc served_trans [OF c1(2) c2(2)] max, of pressure] c1(3) max by auto
qed

lemma add_page_served:
  assumes alloc: "\<And>c. heap_holds owned R c B \<Longrightarrow> \<exists>res. alloc c (JMEM_CELLOCATOR_PAGE_SIZE c) = Some res \<and> served owned R c B (JMEM_CELLOCATOR_PAGE_SIZE c) res"
    and holds: "heap_holds owned R c B"
  shows "\<exists>added c'. jmem_cellocator_add_page alloc c = Some (added, c') \<and> heap_holds owned R c' B \<and> keeps c c' \<and> (added \<longrightarrow> free_cells c' \<noteq> [])"
proof -
  obtain d c1 where c1: "alloc c (JMEM_CELLOCATOR_PAGE_SIZE c) = Some (d, c1)" "served owned R c B (JMEM_CELLOCATOR_PAGE_SIZE c) (d, c1)"
    using alloc [OF holds] by fastforce
  show ?thesis
  proof (cases d)
    case None
    then have "jmem_cellocator_add_page alloc c = Some (False, c1)" "heap_holds owned R c1 B" "keeps c c1"
      using c1 by (simp_all add: jmem_cellocator_add_page_def served_def)
    then show ?thesis by blast
  next
    case (Some p)
    let ?O = "owned (collector c1)"
    have k: "keeps c c1" and p: "p \<notin> dom B" "heap_holds owned R c1 (B(p \<mapsto> JMEM_CELLOCATOR_PAGE_SIZE c))"
      using c1(2) Some by (auto simp: served_def)
    have ps: "JMEM_CELLOCATOR_PAGE_SIZE c = JMEM_CELLOCATOR_PAGE_SIZE c1" using k by (simp add: keeps_def JMEM_CELLOCATOR_PAGE_SIZE_def)
    have d: "p \<notin> dom (B ++ ?O)" "dom B \<inter> dom ?O = {}" and inv: "jmem_inv R c1 ((B ++ ?O)(p \<mapsto> JMEM_CELLOCATOR_PAGE_SIZE c1))"
      using p by (auto simp: heap_holds_def ps map_add_upd_left)
    define c2 where "c2 = c1\<lparr>free_cells := add_cells (p + page_header_size c1)
        (p + page_header_size c1 + JMEM_CELLOCATOR_CELL_SIZE * (vm_cell_count c1 - 1)) (free_cells c1),
      pages := \<lparr>page_p = p, start_p = p + page_header_size c1,
        end_p = p + page_header_size c1 + JMEM_CELLOCATOR_CELL_SIZE * (vm_cell_count c1 - 1)\<rparr> # pages c1\<rparr>"
    have "jmem_cellocator_add_page alloc c = Some (True, c2)"
      using c1(1) Some by (simp add: jmem_cellocator_add_page_def c2_def Let_def)
    moreover have "heap_holds owned R c2 B" "free_cells c2 \<noteq> []"
      using new_page_inv [OF inv d(1)] d(2) by (simp_all add: heap_holds_def c2_def)
    moreover have "keeps c c2" using k by (simp add: keeps_def c2_def)
    ultimately show ?thesis by blast
  qed
qed

lemma alloc_large_served:
  assumes "heap_holds owned R c B" "\<not> small n"
  shows "\<exists>res. jmem_heap_alloc depth gc c n = Some res \<and> served owned R c B n res"
  using served_large [OF assms] assms(2) by (cases depth) (simp_all add: heap_alloc_def small_def)

lemma alloc_served:
  assumes holds: "heap_holds owned R c B" and n: "0 < n"
  shows "\<exists>res. jmem_heap_alloc (Suc depth) gc c n = Some res \<and> served owned R c B n res"
proof (cases "small n")
  case False
  then show ?thesis using alloc_large_served [OF holds] by blast
next
  case True
  show ?thesis
  proof (cases "free_cells c")
    case (Cons p cs)
    then show ?thesis
      using served_cell [OF holds True n] True by (simp add: heap_alloc_def small_def jmem_cellocator_alloc_def)
  next
    case Nil
    obtain c1 where c1: "ecma_free_unused_memory gc c JMEM_PRESSURE_LOW = Some c1" "heap_holds owned R c1 B" "keeps c c1"
      using collect [OF holds, of JMEM_PRESSURE_LOW] by auto
    let ?page = "\<lambda>c n. jmem_heap_gc_and_alloc_block (jmem_heap_alloc depth gc) gc c n JMEM_PRESSURE_HIGH"
    have "\<exists>res. ?page c' (JMEM_CELLOCATOR_PAGE_SIZE c') = Some res \<and> served owned R c' B (JMEM_CELLOCATOR_PAGE_SIZE c') res"
      if "heap_holds owned R c' B" for c'
    proof -
      have "config_ok c'" using that by (simp add: heap_holds_def jmem_inv_def)
      note P = page_size(3,4) [OF this]
      show ?thesis
        using gc_and_alloc_served [where R = R and B = B and alloc = "jmem_heap_alloc depth gc" and c = c' and n = "JMEM_CELLOCATOR_PAGE_SIZE c'",
            OF alloc_large_served [OF _ P(2)] that, of JMEM_PRESSURE_HIGH] P(1) by auto
    qed
    from add_page_served [where R = R and B = B and alloc = ?page and c = c1, OF this c1(2)] obtain added c2 where c2: "jmem_cellocator_add_page ?page c1 = Some (added, c2)"
      "heap_holds owned R c2 B" "keeps c1 c2" "added \<longrightarrow> free_cells c2 \<noteq> []" by blast
    have "served owned R c B n (if added then jmem_cellocator_alloc c2 else (None, c2))"
      using served_cell [OF c2(2) True n] c2(2) keeps_trans [OF c1(3) c2(3)] True
      by (auto simp: served_def intro: keeps_trans)
    moreover have "served owned R c B n (jmem_cellocator_alloc c1)"
      using served_trans [OF c1(3) served_cell [OF c1(2) True n]] .
    ultimately show ?thesis
      using True Nil c1(1) c2(1)
      by (cases "free_cells c1") (auto simp: heap_alloc_def small_def jmem_cellocator_alloc_def)
  qed
qed

end

end
