(* ===== verification/Jmem_Realloc.thy ===== *)
theory Jmem_Realloc
  imports Jmem_Alloc
begin

text \<open>
  Correctness of \<open>jmem_heap_realloc_block\<close>: every way to change the size of a block (in place, into the
  free region after or before it, by moving it, and between cells and regions) keeps the invariant and the contents.
\<close>

section \<open>Changing the size in place\<close>

lemma small_page_block:
  assumes "jmem_inv R c B" "B p = Some n" "small n" "align_up k \<le> 32" "0 < k"
  shows "jmem_inv R c (B(p \<mapsto> k))"
proof -
  have sk: "small k" using assms(4) by (simp add: small_def)
  have "main_blocks c (B(p \<mapsto> k)) = main_blocks c B" using assms(2,3) sk by (auto simp: main_blocks_def fun_eq_iff)
  moreover have "small_blocks (B(p \<mapsto> k)) = small_blocks B" using assms(2,3) sk by (auto simp: small_blocks_def)
  ultimately show ?thesis using assms(1,5) sk unfolding jmem_inv_def by auto
qed

lemma jmem_inv_resize:
  assumes inv: "jmem_inv R c B" and p: "B p = Some k" "align_up n = align_up k" "0 < n"
  shows "jmem_inv R c (B(p \<mapsto> n))"
proof (cases "small k")
  case True
  then show ?thesis using small_page_block [OF inv p(1)] p by (simp add: small_def)
next
  case False
  then have ns: "\<not> small n" using p(2) by (simp add: small_def)
  note M = large_is_main [OF inv p(1) False]
  have "(main_blocks c B)(p \<mapsto> k) = main_blocks c B" using M by auto
  then have "heap_inv R c ((main_blocks c B)(p \<mapsto> n))" using inv heap_inv_resize [OF _ p(2,3), of R c "main_blocks c B" p] by (simp add: jmem_inv_def)
  moreover have "small_blocks (B(p \<mapsto> n)) = small_blocks B" using p(1) ns False by (auto simp: small_blocks_def)
  ultimately show ?thesis using inv ns p(3) M unfolding jmem_inv_def by (auto simp: main_blocks_upd)
qed

text \<open>The invariant for a block that is not a cell, after its region has changed.\<close>

lemma jmem_inv_main:
  assumes inv: "jmem_inv R c B" and p: "B p = Some k" "\<not> small k" and n: "\<not> small n"
    and c': "pages c' = pages c" "free_cells c' = free_cells c" "keeps c c'"
    and hi: "heap_inv R' c' ((main_blocks c B)(p := None, q \<mapsto> n))" and q: "q \<notin> dom ((main_blocks c B)(p := None))"
    and bytes: "block_bytes q n \<inter> used ((main_blocks c B)(p := None)) = {}"
  shows "jmem_inv R' c' (B(p := None, q \<mapsto> n))" "q \<notin> dom (B(p := None))"
proof -
  note M = large_is_main [OF inv p]
  have pgs: "q \<notin> page_p ` set (pages c)" using q M by (auto simp: main_blocks_def split: if_splits)
  have pos: "0 < n" using n by (auto simp: small_def align_up_def)
  have ok: "blocks_ok (main_blocks c B)" using inv by (simp add: jmem_inv_def heap_inv_def)
  have "q \<notin> cells c"
  proof
    assume cell: "q \<in> cells c"
    then obtain pg where pg: "pg \<in> set (pages c)" "start_p pg \<le> q" "q \<le> end_p pg" by (auto simp: cells_def cells_of_def)
    have "page_p pg \<noteq> p" using M pg by auto
    then have "((main_blocks c B)(p := None)) (page_p pg) = Some (JMEM_CELLOCATOR_PAGE_SIZE c)" using pg by (auto simp: main_blocks_def)
    moreover have "q \<in> block_bytes (page_p pg) (JMEM_CELLOCATOR_PAGE_SIZE c)"
      using page_interval(1) pg inv by (auto simp: jmem_inv_def list_all_iff)
    moreover have "q \<in> block_bytes q n" using align_up_facts(4) [OF pos] by (simp add: block_bytes_def)
    ultimately show False using bytes used_iff by blast
  qed
  then show new: "q \<notin> dom (B(p := None))"
    using q dom_blocks_cases [OF inv, of q] by (auto split: if_splits)
  have "main_blocks c' (B(p := None, q \<mapsto> n)) = (main_blocks c B)(p := None, q \<mapsto> n)"
    using c' M n pgs by (auto simp: main_blocks_def fun_eq_iff keeps_def JMEM_CELLOCATOR_PAGE_SIZE_def)
  moreover have "small_blocks (B(p := None, q \<mapsto> n)) = small_blocks B"
    using new n p by (auto simp: small_blocks_def split: if_splits)
  moreover have "config_ok c'" "list_all (page_ok c') (pages c')" "cells c' = cells c"
    using inv c' by (auto simp: jmem_inv_def config_ok_def keeps_def page_ok_def cells_def list_all_iff)
  ultimately show "jmem_inv R' c' (B(p := None, q \<mapsto> n))"
    using inv hi c' pgs pos unfolding jmem_inv_def by auto
qed

lemma shrink_inv:
  assumes inv: "heap_inv R c M" and p: "M p = Some k" "align_up n < align_up k" "0 < n"
  obtains q l where "jmem_heap_find_prev c p = Some q"
    "lower_limit (jmem_heap_allocated_size c - (align_up k - align_up n)) (gc_limit c) (jmem_heap_limit c) = Some l"
    "heap_inv R (set_list c (insert_node (nodes c) (p + align_up n) q (align_up k - align_up n)) q
      (jmem_heap_allocated_size c - (align_up k - align_up n)) l) (M(p \<mapsto> n))"
proof -
  have ok: "blocks_ok M" using inv unfolding heap_inv_def by blast
  note B = heap_inv_block [OF inv p(1)] and U = used_del [OF ok p(1)]
  let ?b = "p + align_up n" and ?s = "align_up k - align_up n"
  have end_eq: "?b + ?s = p + align_up k" using p(2) by simp
  have reg: "region_ok (vm_heap_size c) (?b, ?s)" using B(1) p(2) align_up_facts(1) by (auto simp: region_ok_def)
  have split: "block_bytes p k = block_bytes p n \<union> {?b..<?b + ?s}" "block_bytes p n \<inter> {?b..<?b + ?s} = {}"
    using p(2) by (auto simp: block_bytes_def)
  have M': "used (M(p \<mapsto> n)) = used (M(p := None)) \<union> block_bytes p n"
    using used_upd [of p "M(p := None)" n] by simp
  have "block_bytes p n \<inter> used (M(p := None)) = {}" using U(2) split by blast
  then have "blocks_ok (M(p \<mapsto> n))"
    using blocks_ok_upd [OF blocks_ok_del [OF ok], of p n] ok p by (auto simp: blocks_ok_def)
  moreover have "used M = used (M(p \<mapsto> n)) \<union> {?b..<?b + ?s}" using U(1) M' split(1) by auto
  moreover have "used (M(p \<mapsto> n)) \<inter> {?b..<?b + ?s} = {}" using M' U(2) split by auto
  moreover have "{p..<?b + ?s} \<subseteq> used M" using U(1) end_eq by (auto simp: block_bytes_def)
  moreover have "8 \<le> p" using B(1) by (simp add: region_ok_def)
  ultimately show thesis using release_inv [OF inv reg] that by (metis le_add1)
qed

section \<open>Growing\<close>

lemma raise_inv:
  assumes inv: "heap_inv {} c M" and p: "M p = Some k"
    and L: "free_list (nodes c) (vm_heap_size c) L" "all_bytes L \<union> used M = {8..<vm_heap_size c}" "all_bytes L \<inter> used M = {}"
    and F: "F \<subseteq> all_bytes L" "block_bytes q n = block_bytes p k \<union> F" "card F = req" "0 < n" "8 dvd q"
    and L': "free_list m (vm_heap_size c) L'" "all_bytes L' = all_bytes L - F" "skip \<in> fst ` set L'"
  obtains l where "raise_limit (jmem_heap_allocated_size c + req) (gc_limit c) (jmem_heap_limit c) = Some l"
    "heap_inv {} (set_list c m skip (jmem_heap_allocated_size c + req) l) (M(p := None, q \<mapsto> n))"
    "q \<notin> dom (M(p := None))" "block_bytes q n \<inter> used (M(p := None)) = {}"
proof -
  have g: "0 < gc_limit c" and ok: "blocks_ok M" and al: "jmem_heap_allocated_size c = card (used M)"
    using inv by (auto simp: heap_inv_def)
  note U = used_del [OF ok p]
  have fin: "finite (used M)" using heap_inv_block(3) [OF inv p] .
  have disj: "block_bytes q n \<inter> used (M(p := None)) = {}" using F(1,2) L(3) U by blast
  have "q \<in> block_bytes q n" using align_up_facts(4) [OF F(4)] by (simp add: block_bytes_def)
  then have new: "q \<notin> dom (M(p := None))" using in_used [OF blocks_ok_del [OF ok]] disj by blast
  have U': "used (M(p := None, q \<mapsto> n)) = used M \<union> F" using used_upd [OF new, of n] U(1) F(2) by blast
  have "used M \<inter> F = {}" using F(1) L(3) by blast
  moreover have "finite F" using F(2) card_block_bytes(2) [of q n] by simp
  ultimately have "card (used (M(p := None, q \<mapsto> n))) = jmem_heap_allocated_size c + req"
    unfolding U' using fin al F(3) by (simp add: card_Un_disjoint)
  moreover have "blocks_ok (M(p := None, q \<mapsto> n))" using blocks_ok_upd [OF blocks_ok_del [OF ok] disj F(4,5)] .
  moreover have "all_bytes L' \<union> used (M(p := None, q \<mapsto> n)) = {8..<vm_heap_size c}"
    "all_bytes L' \<inter> used (M(p := None, q \<mapsto> n)) = {}" unfolding U' L'(2) using L(2,3) F(1) by blast+
  moreover obtain l where l: "raise_limit (jmem_heap_allocated_size c + req) (gc_limit c) (jmem_heap_limit c) = Some l"
    "jmem_heap_allocated_size c + req < l" using raise_limit_ok [OF g] by blast
  ultimately have "heap_inv {} (set_list c m skip (jmem_heap_allocated_size c + req) l) (M(p := None, q \<mapsto> n))"
    using g L'(1,3) by (intro heap_invI [where L = L']) simp_all
  then show thesis using that l(1) new disj by blast
qed

lemma copy_bytes_nodes: "copy_bytes (c\<lparr>nodes := m\<rparr>) q p k = c\<lparr>nodes := m, bytes := bytes (copy_bytes c q p k)\<rparr>"
  by (simp add: copy_bytes_def cong: if_cong)

lemma extend_at_end_node:
  "req \<le> region_size (nodes c a) \<Longrightarrow> extend_at_end c b p a req = Some (b, p, c\<lparr>nodes := cut_node (nodes c) p a req\<rparr>)"
  by (auto simp: extend_at_end_def cut_node_def Let_def)

lemma resize_node_free_list:
  assumes fl: "free_list m hi (l @ (p, t) # r)" and n: "0 < n" "n < t" "8 dvd n"
  shows "free_list (m(p := (m p)\<lparr>region_size := t - n\<rparr>)) hi (l @ (p, t - n) # r)"
    "all_bytes (l @ (p, t - n) # r) = all_bytes (l @ (p, t) # r) - {p + t - n..<p + t}"
proof -
  note L = free_listD [OF fl] and split = free_list_split [OF fl]
  have nin: "p \<notin> fst ` set l" "p \<notin> fst ` set r" using gap_not_in [OF L(1)] by auto
  have ok: "l \<noteq> []" "region_ok hi (p, t)" using split(2) n by auto
  have srt: "sorted_wrt gap (l @ (p, t - n) # r)" using L(1) n by (force simp: sorted_wrt_append gap_def)
  have "seg (m(p := (m p)\<lparr>region_size := t - n\<rparr>)) (l @ (p, t - n) # r) JMEM_HEAP_END_OF_LIST"
    using L(2) nin by auto
  moreover have "region_ok hi (p, t - n)" using ok(2) n by (auto simp: region_ok_def)
  then have "\<exists>rs. l @ (p, t - n) # r = (0, 0) # rs \<and> list_all (region_ok hi) rs"
    using fl ok(1) by (cases l) (auto simp: free_list_def)
  ultimately show "free_list (m(p := (m p)\<lparr>region_size := t - n\<rparr>)) hi (l @ (p, t - n) # r)"
    using L(3) srt unfolding free_list_def by blast
  have "\<forall>x\<in>set l. fst x + snd x < p" "\<forall>x\<in>set r. p + t < fst x" using L(1) by (auto simp: sorted_wrt_append gap_def)
  then have "all_bytes l \<inter> {p..<p + t} = {}" "all_bytes r \<inter> {p..<p + t} = {}"
    by (fastforce simp: all_bytes_def region_bytes_def)+
  moreover have "{p + t - n..<p + t} \<subseteq> {p..<p + t}" "region_bytes (p, t - n) = region_bytes (p, t) - {p + t - n..<p + t}"
    using n by (auto simp: region_bytes_def)
  ultimately show "all_bytes (l @ (p, t - n) # r) = all_bytes (l @ (p, t) # r) - {p + t - n..<p + t}" by auto
qed

lemma sorted_split_unique:
  assumes "sorted_wrt gap (l @ (p, t) # r)" "l @ (p, t) # r = l2 @ (q, u) # r2" "q < p" "\<forall>x\<in>set r2. p \<le> fst x"
  shows "r2 = (p, t) # r" "l = l2 @ [(q, u)]"
proof -
  have below: "\<forall>x\<in>set l. fst x < p" and above: "\<forall>x\<in>set r. p < fst x"
    using assms(1) by (auto simp: sorted_wrt_append gap_def)
  have q: "(q, u) \<in> set l"
  proof -
    have "(q, u) \<in> set (l @ (p, t) # r)" unfolding assms(2) by simp
    then show ?thesis using assms(3) above by force
  qed
  have "takeWhile (\<lambda>x. fst x < p) (l @ (p, t) # r) = l" using below by (simp add: takeWhile_append2)
  moreover have "\<forall>x\<in>set l2. fst x < p"
    using assms(1,3) unfolding assms(2) by (force simp: sorted_wrt_append gap_def)
  then have "takeWhile (\<lambda>x. fst x < p) (l2 @ (q, u) # r2) = l2 @ [(q, u)]"
    using assms(3,4) by (cases r2) (auto simp: takeWhile_append2 not_less)
  ultimately show l: "l = l2 @ [(q, u)]" using assms(2) by simp
  show "r2 = (p, t) # r" using assms(2) unfolding l by simp
qed

text \<open>Free bytes right behind a block belong to the region that follows it in the list.\<close>

lemma free_behind:
  assumes "sorted_wrt gap (l @ (a, t) # r)" "a + t \<le> b" "\<forall>x\<in>set r. b \<le> fst x" "0 < req"
    "{b..<b + req} \<subseteq> all_bytes (l @ (a, t) # r)"
  shows "\<exists>s r'. r = (b, s) # r' \<and> req \<le> s"
proof -
  have below: "all_bytes (l @ [(a, t)]) \<inter> {b..} = {}"
    using assms(1,2) by (fastforce simp: sorted_wrt_append gap_def all_bytes_def region_bytes_def)
  have bytes: "all_bytes (l @ (a, t) # r) = all_bytes (l @ [(a, t)]) \<union> all_bytes r" by (auto simp: all_bytes_def)
  have I: "{b..<b + req} \<subseteq> all_bytes r" using assms(5) below unfolding bytes by fastforce
  moreover have "b \<in> {b..<b + req}" using assms(4) by simp
  ultimately have "b \<in> all_bytes r" by blast
  then obtain c s r' where r: "r = (c, s) # r'" by (cases r) (auto simp: all_bytes_def)
  have srt: "\<forall>x\<in>set r'. c + s < fst x" using assms(1) by (auto simp: r sorted_wrt_append gap_def)
  have rest: "all_bytes r' \<inter> {..c + s} = {}" using srt by (fastforce simp: all_bytes_def region_bytes_def)
  have all: "all_bytes r = {c..<c + s} \<union> all_bytes r'" by (auto simp: r all_bytes_def region_bytes_def)
  have "b \<le> c" using assms(3) r by simp
  moreover have "c \<le> b"
  proof (rule ccontr)
    assume "\<not> c \<le> b"
    then show False using \<open>b \<in> all_bytes r\<close> rest unfolding all by auto
  qed
  ultimately have c: "c = b" by simp
  have "req \<le> s"
  proof (rule ccontr)
    assume "\<not> req \<le> s"
    then have "b + s \<in> all_bytes r" using I by auto
    then show False using rest c unfolding all by auto
  qed
  then show ?thesis using r c by simp
qed

lemma extend_block_inv:
  assumes inv: "heap_inv {} c M" and p: "M p = Some k" and n: "align_up k < align_up n"
  defines "req \<equiv> align_up n - align_up k"
  obtains prev where "jmem_heap_find_prev c p = Some prev" "extend_block c p prev k req = Some None"
      "{p + align_up k..<p + align_up n} \<subseteq> {8..<vm_heap_size c} \<Longrightarrow> {p + align_up k..<p + align_up n} \<inter> used M \<noteq> {}"
  | prev q skip m l b where "jmem_heap_find_prev c p = Some prev"
    "extend_block c p prev k req = Some (Some (q, skip, c\<lparr>nodes := m, bytes := b\<rparr>))"
    "(q = p \<and> b = bytes c) \<or> b = bytes (copy_bytes c q p k)"
    "raise_limit (jmem_heap_allocated_size c + req) (gc_limit c) (jmem_heap_limit c) = Some l"
    "heap_inv {} (set_list c m skip (jmem_heap_allocated_size c + req) l) (M(p := None, q \<mapsto> n))"
    "q \<notin> dom (M(p := None))" "block_bytes q n \<inter> used (M(p := None)) = {}"
proof -
  obtain L where "free_list (nodes c) (vm_heap_size c) L" "jmem_heap_list_skip_p c \<in> fst ` set L"
    "all_bytes L \<union> used M \<union> {} = {8..<vm_heap_size c}" "all_bytes L \<inter> (used M \<union> {}) = {}"
    using inv by (rule heap_invE)
  then have L: "free_list (nodes c) (vm_heap_size c) L" "jmem_heap_list_skip_p c \<in> fst ` set L"
    "all_bytes L \<union> used M = {8..<vm_heap_size c}" "all_bytes L \<inter> used M = {}" by simp_all
  have ok: "blocks_ok M" "0 < k" "8 dvd p" and pos: "0 < n" using inv p n by (auto simp: heap_inv_def blocks_ok_def align_up_def)
  note B = heap_inv_block [OF inv p] and U = used_del [OF ok(1) p]
  have req: "0 < req" "8 dvd req" "align_up n = align_up k + req" using n align_up_facts(1) by (auto simp: req_def)
  have reg: "8 \<le> p" "p + align_up k \<le> vm_heap_size c" "p \<le> vm_heap_size c" "0 < align_up k" using B(1) by (auto simp: region_ok_def)
  have "{p..<p + align_up k} \<inter> all_bytes L = {}" using U(1) L(4) unfolding block_bytes_def by blast
  then obtain l prev t r where
    prev: "L = l @ (prev, t) # r" "jmem_heap_find_prev c p = Some prev" "prev + t \<le> p" "prev < p" "\<forall>x\<in>set r. p + align_up k \<le> fst x"
    by (rule find_prev_block [OF L(1,2) reg(1,3,4)])
  note fl = L(1) [unfolded prev(1)]
  have node: "nodes c prev = \<lparr>next_offset = head_offset r JMEM_HEAP_END_OF_LIST, region_size = t\<rparr>"
    using free_listD(2) [OF fl] by simp
  define next_p where "next_p = ADDR (head_offset r JMEM_HEAP_END_OF_LIST)"
  have behind: "p + align_up k = next_p \<and> req \<le> region_size (nodes c next_p)"
    if "{p + align_up k..<p + align_up n} \<subseteq> {8..<vm_heap_size c}" "{p + align_up k..<p + align_up n} \<inter> used M = {}"
  proof -
    have "{p + align_up k..<p + align_up k + req} \<subseteq> all_bytes (l @ (prev, t) # r)"
      using that L(3) unfolding prev(1) [symmetric] req(3) by (auto simp: add.assoc)
    moreover have "prev + t \<le> p + align_up k" using prev(3) by simp
    ultimately obtain s r' where r: "r = (p + align_up k, s) # r'" "req \<le> s"
      using free_behind [OF free_listD(1) [OF fl] _ prev(5) req(1)] by blast
    have "next_p = p + align_up k" using free_list_split(1) [OF fl] r(1) by (simp add: next_p_def region_ok_def)
    moreover have "region_size (nodes c (p + align_up k)) = s" using free_listD(2) [OF fl] r(1) by simp
    ultimately show ?thesis using r(2) by simp
  qed
  consider (at_end) "p + align_up k = next_p" "req \<le> region_size (nodes c next_p)"
    | (at_front) "p + align_up k \<noteq> next_p" "prev + t = p" "req \<le> t"
    | (no) "p + align_up k = next_p" "\<not> req \<le> region_size (nodes c next_p)"
    | (no') "p + align_up k \<noteq> next_p" "prev + t \<noteq> p \<or> \<not> req \<le> t" by blast
  then show thesis
  proof cases
    case no
    then have "extend_block c p prev k req = Some None"
      using node by (simp add: extend_block_def next_p_def extend_at_end_def)
    then show thesis using that(1) [OF prev(2)] behind no by blast
  next
    case no'
    then have "extend_block c p prev k req = Some None"
      using node by (auto simp: extend_block_def next_p_def extend_at_front_def jmem_heap_get_region_end_def)
    then show thesis using that(1) [OF prev(2)] behind no' by blast
  next
    case at_end
    have "r \<noteq> []" using at_end(1) reg(2) free_listD(3) [OF fl] by (auto simp: next_p_def JMEM_HEAP_GET_ADDR_FROM_OFFSET_def)
    then obtain a s r' where r: "r = (a, s) # r'" by (cases r) auto
    have a: "next_p = a" using free_list_split(1) [OF fl] r by (simp add: next_p_def region_ok_def)
    have s: "region_size (nodes c a) = s" using free_listD(2) [OF fl] r by simp
    have le: "req \<le> s" using at_end(2) a s by simp
    note cut = cut_node_free_list [OF fl [unfolded r] req(1,2) le, folded r, folded prev(1)]
    let ?F = "{a..<a + req}" and ?m = "cut_node (nodes c) prev a req"
    have F: "?F \<subseteq> all_bytes L" "block_bytes p n = block_bytes p k \<union> ?F" "card ?F = req"
      using le req(3) at_end(1) a by (auto simp: prev(1) r region_bytes_def block_bytes_def)
    have mem: "prev \<in> fst ` set (l @ (prev, t) # take_region req (a, s) @ r')" by force
    have ext: "extend_block c p prev k req = Some (Some (p, prev, c\<lparr>nodes := ?m, bytes := bytes c\<rparr>))"
      using at_end a node extend_at_end_node [of req c a p prev] by (simp add: extend_block_def next_p_def)
    show thesis
      by (rule raise_inv [OF inv p L(1,3,4) F pos ok(3) cut(1,2) mem], rule that(2) [OF prev(2) ext]) auto
  next
    case at_front
    have t: "0 < t" using at_front(3) req(1) by simp
    then have lne: "l \<noteq> []" "region_ok (vm_heap_size c) (prev, t)" using free_list_split(2) [OF fl] by auto
    define q where "q = p - req"
    let ?F = "{q..<p}"
    have F: "?F \<subseteq> all_bytes L" "block_bytes q n = block_bytes p k \<union> ?F" "card ?F = req"
      using at_front req(3) by (auto simp: prev(1) region_bytes_def block_bytes_def q_def)
    have q8: "8 dvd q" using ok(3) req(2) at_front by (simp add: q_def)
    show thesis
    proof (cases "req = t")
      case False
      let ?m = "(nodes c)(prev := (nodes c prev)\<lparr>region_size := t - req\<rparr>)"
      have lt: "req < t" using False at_front(3) by simp
      note res = resize_node_free_list [OF fl req(1) lt req(2), folded prev(1)]
      have "{prev + t - req..<prev + t} = ?F" using at_front(2) by (simp add: q_def)
      note res' = res(1) res(2) [unfolded this]
      have mem: "prev \<in> fst ` set (l @ (prev, t - req) # r)" by simp
      have ext: "extend_block c p prev k req = Some (Some (q, prev, c\<lparr>nodes := ?m, bytes := bytes (copy_bytes c q p k)\<rparr>))"
        using at_front node lt by (simp add: extend_block_def next_p_def extend_at_front_def jmem_heap_get_region_end_def Let_def q_def copy_bytes_nodes)
      show thesis
        by (rule raise_inv [OF inv p L(1,3,4) F pos q8 res' mem], rule that(2) [OF prev(2) ext]) auto
    next
      case True
      have b: "8 \<le> prev" "prev \<le> vm_heap_size c" using lne(2) by (auto simp: region_ok_def)
      obtain l2 q2 u r2 where
        q2: "L = l2 @ (q2, u) # r2" "jmem_heap_find_prev c prev = Some q2" "q2 < prev" "\<forall>x\<in>set r2. prev \<le> fst x"
        by (rule find_prev [OF L(1,2) b])
      have eq: "r2 = (prev, t) # r" "l = l2 @ [(q2, u)]"
        using sorted_split_unique [OF free_listD(1) [OF fl] trans [OF prev(1) [symmetric] q2(1)] q2(3,4)] .
      have L2: "L = l2 @ (q2, u) # (prev, t) # r" using q2(1) eq(1) by simp
      note cut = cut_node_free_list [OF L(1) [unfolded L2] req(1,2) at_front(3), folded L2]
      let ?m = "(nodes c)(q2 := (nodes c q2)\<lparr>next_offset := OFFSET next_p\<rparr>)"
      have m: "cut_node (nodes c) q2 prev req = ?m" using True node by (simp add: cut_node_def next_p_def)
      have "{prev..<prev + req} = ?F" "take_region req (prev, t) = []" using at_front(2) [symmetric] True by (simp_all add: q_def take_region_def)
      note cut' = cut(1) [unfolded m] cut(2) [unfolded this(1)]
      have mem: "q2 \<in> fst ` set (l2 @ (q2, u) # take_region req (prev, t) @ r)" by simp
      have ext: "extend_block c p prev k req = Some (Some (q, q2, c\<lparr>nodes := ?m, bytes := bytes (copy_bytes c q p k)\<rparr>))"
        using at_front node True q2(2)
        by (simp add: extend_block_def next_p_def extend_at_front_def jmem_heap_get_region_end_def Let_def q_def copy_bytes_nodes)
      show thesis
        by (rule raise_inv [OF inv p L(1,3,4) F pos q8 cut' mem], rule that(2) [OF prev(2) ext]) auto
    qed
  qed
qed

section \<open>Moving a block\<close>

lemma move_out:
  assumes inv: "jmem_inv {} c B" and p: "B p = Some n" "\<not> small n"
  shows "jmem_inv (block_bytes p n) (c\<lparr>jmem_heap_allocated_size := jmem_heap_allocated_size c - align_up n\<rparr>) (B(p := None))"
proof -
  note M = large_is_main [OF inv p]
  let ?M = "main_blocks c B" and ?c = "c\<lparr>jmem_heap_allocated_size := jmem_heap_allocated_size c - align_up n\<rparr>"
  have hi: "heap_inv {} c ?M" using inv by (simp add: jmem_inv_def)
  obtain L where L: "free_list (nodes c) (vm_heap_size c) L" "jmem_heap_list_skip_p c \<in> fst ` set L"
    "all_bytes L \<union> used ?M \<union> {} = {8..<vm_heap_size c}" "all_bytes L \<inter> (used ?M \<union> {}) = {}"
    "0 < gc_limit c" "jmem_heap_allocated_size c \<le> jmem_heap_limit c" "blocks_ok ?M"
    "jmem_heap_allocated_size c = card (used ?M)" "used ?M \<inter> {} = {}" "finite (used ?M)"
    using hi by (rule heap_invE)
  note U = used_del [OF L(7) conjunct1 [OF M]]
  have "finite (used (?M(p := None)))" using L(10) U(1) by simp
  then have "jmem_heap_allocated_size c - align_up n = card (used (?M(p := None)))"
    using U L(8) by (simp add: card_Un_disjoint)
  moreover have "all_bytes L \<union> used (?M(p := None)) \<union> block_bytes p n = {8..<vm_heap_size c}"
    "all_bytes L \<inter> (used (?M(p := None)) \<union> block_bytes p n) = {}" using L(3,4) U by auto
  ultimately have "heap_inv (block_bytes p n) ?c (?M(p := None))"
    using L(1,2,5,6) blocks_ok_del [OF L(7)] U(2) by (intro heap_invI [where L = L]) simp_all
  moreover have "main_blocks ?c (B(p := None)) = ?M(p := None)"
    using M by (auto simp: main_blocks_def fun_eq_iff JMEM_CELLOCATOR_PAGE_SIZE_def)
  moreover have "small_blocks (B(p := None)) = small_blocks B" using p by (auto simp: small_blocks_def)
  moreover have "config_ok ?c = config_ok c" "page_ok ?c = page_ok c" "cells ?c = cells c"
    by (auto simp: config_ok_def page_ok_def cells_def fun_eq_iff)
  ultimately show ?thesis using inv unfolding jmem_inv_def by auto
qed

lemma move_in:
  assumes inv: "jmem_inv (block_bytes p n) c B" and p: "0 < n" "8 dvd p"
  shows "\<exists>q. jmem_heap_find_prev c p = Some q \<and> jmem_inv {} (jmem_heap_insert_block c p q (align_up n)) B"
proof -
  let ?M = "main_blocks c B" and ?R = "block_bytes p n"
  have hi: "heap_inv ?R c ?M" using inv by (simp add: jmem_inv_def)
  obtain L where L: "free_list (nodes c) (vm_heap_size c) L" "jmem_heap_list_skip_p c \<in> fst ` set L"
    "all_bytes L \<union> used ?M \<union> ?R = {8..<vm_heap_size c}" "all_bytes L \<inter> (used ?M \<union> ?R) = {}"
    "0 < gc_limit c" "jmem_heap_allocated_size c \<le> jmem_heap_limit c" "blocks_ok ?M"
    "jmem_heap_allocated_size c = card (used ?M)" "used ?M \<inter> ?R = {}" "finite (used ?M)"
    using hi by (rule heap_invE)
  have a: "0 < align_up n" "8 dvd align_up n" using align_up_facts p by auto
  have "?R \<subseteq> {8..<vm_heap_size c}" using L(3) by blast
  moreover have "p \<in> ?R" "p + align_up n - 1 \<in> ?R" using a by (auto simp: block_bytes_def)
  ultimately have "8 \<le> p" "p + align_up n - 1 < vm_heap_size c" by auto
  then have reg: "region_ok (vm_heap_size c) (p, align_up n)" "8 \<le> p" using a p by (auto simp: region_ok_def)
  have "{p..<p + align_up n} \<inter> all_bytes L = {}" using L(4) by (auto simp: block_bytes_def)
  then obtain q L' where q: "jmem_heap_find_prev c p = Some q" "free_list (insert_node (nodes c) p q (align_up n)) (vm_heap_size c) L'"
    "all_bytes L' = all_bytes L \<union> {p..<p + align_up n}" "q \<in> fst ` set L'"
    by (rule find_prev_insert [OF L(1,2) reg order_refl])
  let ?c = "jmem_heap_insert_block c p q (align_up n)"
  note b = q(3) [folded block_bytes_def]
  have "all_bytes L' \<union> used ?M = {8..<vm_heap_size c}" using b L(3) by (simp add: Un_ac)
  moreover have "all_bytes L' \<inter> used ?M = {}" using b L(4,9) by blast
  ultimately have "heap_inv {} ?c ?M"
    using L(5-8) q(2,4) by (intro heap_invI [where L = L']) (simp_all add: jmem_heap_insert_block_def)
  moreover have "main_blocks ?c B = ?M" "config_ok ?c = config_ok c" "page_ok ?c = page_ok c" "cells ?c = cells c"
    "pages ?c = pages c" "free_cells ?c = free_cells c"
    by (auto simp: jmem_heap_insert_block_def main_blocks_def JMEM_CELLOCATOR_PAGE_SIZE_def config_ok_def page_ok_def cells_def fun_eq_iff)
  ultimately have "jmem_inv {} ?c B" using inv unfolding jmem_inv_def by auto
  then show ?thesis using q(1) by blast
qed

section \<open>The contract of realloc\<close>

text \<open>
  A growing block may stop the engine, in \<open>jmem_heap_alloc_block_internal\<close>. This function does the same as
  \<open>jmem_heap_alloc_block_null_on_error\<close>, which returns \<open>NULL\<close> in the state where the former gives up, see \<open>alloc_full\<close>. In this
  state no interval of free bytes is long enough. A block that is not a cell is first extended where it is: the region behind it
  is occupied, and its own bytes do not count as free afterwards.
\<close>

definition realloc_exhausted :: "('e \<Rightarrow> (addr \<rightharpoonup> nat)) \<Rightarrow> nat \<Rightarrow> 'e gc \<Rightarrow> 'e jmem_context \<Rightarrow> (addr \<rightharpoonup> nat) \<Rightarrow> addr \<Rightarrow> nat \<Rightarrow> nat \<Rightarrow> bool" where
  "realloc_exhausted owned depth gc c B p old_size new_size \<longleftrightarrow>
    align_up old_size < align_up new_size \<and> \<not> small new_size \<and>
    (if small old_size then
       (\<exists>c'. jmem_heap_alloc_block_null_on_error depth gc c (align_up new_size) = Some (None, c') \<and>
         heap_holds owned {} c' B \<and> no_room owned {} c' B (align_up new_size))
     else
       (\<exists>c1 c' prev.
         (if jmem_heap_limit c \<le> jmem_heap_allocated_size c + (align_up new_size - align_up old_size)
          then ecma_free_unused_memory gc c JMEM_PRESSURE_LOW else Some c) = Some c1 \<and>
         heap_holds owned {} c1 B \<and> jmem_heap_find_prev c1 p = Some prev \<and>
         extend_block c1 p prev old_size (align_up new_size - align_up old_size) = Some None \<and>
         ({p + align_up old_size..<p + align_up new_size} \<subseteq> {8..<vm_heap_size c} \<longrightarrow>
           {p + align_up old_size..<p + align_up new_size} \<inter> used (main_blocks c1 (B ++ owned (collector c1))) \<noteq> {}) \<and>
         jmem_heap_alloc_block_null_on_error depth gc
           (c1\<lparr>jmem_heap_allocated_size := jmem_heap_allocated_size c1 - align_up old_size\<rparr>) new_size = Some (None, c') \<and>
         heap_holds owned (block_bytes p old_size) c' (B(p := None)) \<and>
         no_room owned (block_bytes p old_size) c' (B(p := None)) (align_up new_size)))"

definition resized :: "('e \<Rightarrow> (addr \<rightharpoonup> nat)) \<Rightarrow> 'e jmem_context \<Rightarrow> (addr \<rightharpoonup> nat) \<Rightarrow> addr \<Rightarrow> nat \<Rightarrow> nat \<Rightarrow> addr option \<times> 'e jmem_context \<Rightarrow> bool" where
  "resized owned c B p old_size new_size res \<longleftrightarrow> (case res of
     (None, c') \<Rightarrow> small new_size \<and> \<not> small old_size \<and> heap_holds owned {} c' (B(p := None)) \<and> bytes c' = bytes c
   | (Some q, c') \<Rightarrow> q \<notin> dom (B(p := None)) \<and> heap_holds owned {} c' (B(p := None, q \<mapsto> new_size)) \<and>
       (\<forall>i < min old_size new_size. bytes c' (q + i) = bytes c (p + i)) \<and>
       (\<forall>x. x \<notin> block_bytes q new_size \<longrightarrow> bytes c' x = bytes c x))"

lemma heap_holds_copy [simp]: "heap_holds owned R (copy_bytes c q p k) B = heap_holds owned R c B"
  by (simp add: heap_holds_def copy_bytes_def)

lemma keeps_copy: "keeps c c1 \<Longrightarrow> bytes (copy_bytes c1 q p k) = bytes (copy_bytes c q p k)"
  by (simp add: keeps_def copy_bytes_def cong: if_cong)

lemma map_add_move:
  assumes "dom B \<inter> dom O1 = {}" "p \<in> dom B"
  shows "(B ++ O1)(p := None) = B(p := None) ++ O1"
proof -
  have "O1 p = None" using assms by blast
  then show ?thesis by (auto simp: fun_eq_iff map_add_def split: option.splits)
qed

lemma holds_replace:
  assumes "heap_holds owned R c B" "B p = Some k" "collector c' = collector c"
    and "jmem_inv R' c' ((B ++ owned (collector c))(p := None, q \<mapsto> n))" "q \<notin> dom ((B ++ owned (collector c))(p := None))"
  shows "heap_holds owned R' c' (B(p := None, q \<mapsto> n))" "q \<notin> dom (B(p := None))"
proof -
  let ?O = "owned (collector c)"
  have d: "dom B \<inter> dom ?O = {}" "p \<in> dom B" "p \<notin> dom ?O" using assms(1,2) by (auto simp: heap_holds_def)
  note eq = map_add_move [OF d(1,2)]
  have q: "q \<notin> dom (B(p := None))" "q \<notin> dom ?O" using assms(5) unfolding eq by auto
  then show "q \<notin> dom (B(p := None))" by blast
  show "heap_holds owned R' c' (B(p := None, q \<mapsto> n))"
    using assms(3,4) d(1) q unfolding eq heap_holds_def map_add_upd_left [OF q(2)] by auto
qed

lemma holds_del:
  assumes "heap_holds owned R c B" "B p = Some k" "collector c' = collector c" "jmem_inv R' c' ((B ++ owned (collector c))(p := None))"
  shows "heap_holds owned R' c' (B(p := None))"
proof -
  have "dom B \<inter> dom (owned (collector c)) = {}" "p \<in> dom B" using assms(1,2) by (auto simp: heap_holds_def)
  then show ?thesis using assms(3,4) map_add_move [of B "owned (collector c)" p] by (auto simp: heap_holds_def)
qed

lemma holds_block: "heap_holds owned R c B \<Longrightarrow> B p = Some k \<Longrightarrow> (B ++ owned (collector c)) p = Some k"
  by (auto simp: heap_holds_def map_add_def split: option.splits)

lemma holds_resize:
  assumes "heap_holds owned R c B" "B p = Some k" "align_up n = align_up k" "0 < n"
  shows "heap_holds owned R c (B(p \<mapsto> n))"
proof -
  have inv: "jmem_inv R c (B ++ owned (collector c))" "p \<notin> dom (owned (collector c))" using assms(1,2) by (auto simp: heap_holds_def)
  from jmem_inv_resize [OF inv(1) holds_block [OF assms(1,2)] assms(3,4)] show ?thesis
    using assms(1) inv(2) by (auto simp: heap_holds_def map_add_upd_left)
qed

lemma holds_free:
  assumes "heap_holds owned R c B" "B p = Some n" "align_up k = align_up n"
  obtains c' where "jmem_heap_free_block c p k = Some c'" "heap_holds owned R c' (B(p := None))" "keeps c c'"
proof -
  have inv: "jmem_inv R c (B ++ owned (collector c))" using assms(1) by (simp add: heap_holds_def)
  obtain c' where "jmem_heap_free_block c p k = Some c'" "jmem_inv R c' ((B ++ owned (collector c))(p := None))" "keeps c c'"
    "collector c' = collector c" by (rule free_block_inv [OF inv holds_block [OF assms(1,2)] assms(3)])
  then show thesis using holds_del [OF assms(1,2)] that by blast
qed

lemma bytes_copy [simp]:
  "bytes (copy_bytes c q p k) x = (if q \<le> x \<and> x < q + k then bytes c (p + (x - q)) else bytes c x)"
  by (simp add: copy_bytes_def)

lemma resized_copy:
  assumes "q \<notin> dom (B(p := None))" "heap_holds owned {} c' (B(p := None, q \<mapsto> new_size))"
    "bytes c' = bytes (copy_bytes c q p k)" "min old_size new_size \<le> k" "k \<le> align_up new_size"
  shows "resized owned c B p old_size new_size (Some q, c')"
  using assms by (auto simp: resized_def block_bytes_def)

lemma resized_same:
  assumes "heap_holds owned {} c B" "B p = Some old_size" "heap_holds owned {} c' (B(p \<mapsto> new_size))" "bytes c' = bytes c"
  shows "resized owned c B p old_size new_size (Some p, c')"
  using assms by (auto simp: resized_def)

lemma find_holds:
  assumes "heap_holds owned R c B" "B p = Some k"
  shows "jmem_cellocator_find (pages c) p = None \<longleftrightarrow> \<not> small k"
proof -
  have inv: "jmem_inv R c (B ++ owned (collector c))" using assms(1) by (simp add: heap_holds_def)
  note b = holds_block [OF assms]
  show ?thesis
    using find_cell [OF small_is_cell [OF inv b]] find_main [OF inv conjunct1 [OF large_is_main [OF inv b]]] by blast
qed

context garbage_collector
begin

lemma alloc_loop_full:
  "pressure \<le> JMEM_PRESSURE_HIGH \<Longrightarrow> gc_and_alloc_loop alloc gc' n JMEM_PRESSURE_FULL pressure d c =
    (case gc_and_alloc_loop alloc gc' n JMEM_PRESSURE_HIGH pressure d c of Some (None, c') \<Rightarrow> None | r \<Rightarrow> r)"
proof (induction "JMEM_PRESSURE_HIGH - pressure" arbitrary: pressure d c)
  case 0
  then have "pressure = JMEM_PRESSURE_HIGH" by simp
  then show ?case
    by (simp add: gc_and_alloc_loop.simps [of alloc gc' n _ "JMEM_PRESSURE_HIGH"] ecma_free_unused_memory_def split: option.splits)
next
  case (Suc k)
  then have "k = JMEM_PRESSURE_HIGH - Suc pressure" "Suc pressure \<le> JMEM_PRESSURE_HIGH" by auto
  note ih = Suc.hyps(1) [OF this]
  show ?case
    using Suc.hyps(2) by (subst (1 2) gc_and_alloc_loop.simps) (auto simp: ih split: option.splits Option.bind_splits)
qed

text \<open>The function that does not return without a block stops where the other one returns \<open>NULL\<close>.\<close>

lemma alloc_full:
  assumes "0 < n"
  shows "jmem_heap_alloc_block_internal depth gc' c n =
    (case jmem_heap_alloc_block_null_on_error depth gc' c n of Some (None, c') \<Rightarrow> None | r \<Rightarrow> r)"
  using assms
  by (auto simp: jmem_heap_alloc_block_internal_def jmem_heap_alloc_block_null_on_error_def jmem_heap_gc_and_alloc_block_def
      alloc_loop_full split: option.splits Option.bind_splits)

lemma null_on_error:
  assumes "heap_holds owned R c B" "0 < n"
  shows "\<exists>res. jmem_heap_alloc_block_null_on_error (Suc depth) gc c n = Some res \<and> served owned R c B n res"
proof -
  have "\<exists>res. jmem_heap_alloc (Suc depth) gc c' n = Some res \<and> served owned R c' B n res" if "heap_holds owned R c' B" for c'
    using alloc_served [OF that assms(2)] .
  from gc_and_alloc_served [where R = R and B = B and n = n and c = c and alloc = "jmem_heap_alloc (Suc depth) gc" and max_pressure = JMEM_PRESSURE_HIGH,
      OF this assms]
  show ?thesis by (auto simp: jmem_heap_alloc_block_null_on_error_def)
qed

lemma alloc_internal:
  assumes "heap_holds owned R c B" "0 < n"
  shows "(\<exists>c'. jmem_heap_alloc_block_internal (Suc depth) gc c n = None \<and>
      jmem_heap_alloc_block_null_on_error (Suc depth) gc c n = Some (None, c') \<and> served owned R c B n (None, c')) \<or>
    (\<exists>q c'. jmem_heap_alloc_block_internal (Suc depth) gc c n = Some (Some q, c') \<and> keeps c c' \<and> q \<notin> dom B \<and> heap_holds owned R c' (B(q \<mapsto> n)))"
proof -
  obtain r c' where "jmem_heap_alloc_block_null_on_error (Suc depth) gc c n = Some (r, c')" "served owned R c B n (r, c')"
    using null_on_error [OF assms, of depth] by auto
  then show ?thesis by (cases r) (auto simp: alloc_full [OF assms(2)] served_def)
qed

lemma realloc_cell:
  assumes holds: "heap_holds owned {} c B" and p: "B p = Some k" "small k" and n: "0 < n"
  shows "jmem_heap_realloc_block (Suc depth) gc c p k n = None \<and> realloc_exhausted owned (Suc depth) gc c B p k n \<or>
    (\<exists>res. jmem_heap_realloc_block (Suc depth) gc c p k n = Some res \<and> resized owned c B p k n res)"
proof (cases "small n")
  case True
  have inv: "jmem_inv {} c (B ++ owned (collector c))" "p \<notin> dom (owned (collector c))" using holds p by (auto simp: heap_holds_def)
  have "jmem_inv {} c ((B ++ owned (collector c))(p \<mapsto> n))"
    using small_page_block [OF inv(1) holds_block [OF holds p(1)] p(2) _ n] True by (simp add: small_def)
  then have "heap_holds owned {} c (B(p \<mapsto> n))" using holds inv(2) by (auto simp: heap_holds_def map_add_upd_left)
  from resized_same [OF holds p(1) this refl] show ?thesis
    using find_holds [OF holds p(1)] p(2) True by (auto simp: jmem_heap_realloc_block_def small_def Let_def split: option.splits)
next
  case False
  obtain pg where pg: "jmem_cellocator_find (pages c) p = Some pg" using find_holds [OF holds p(1)] p(2) by auto
  have an: "0 < align_up n" using align_up_facts(4) [OF n] .
  have le: "align_up k \<le> align_up n" "min k n \<le> align_up k" using False p(2) align_up_facts(2) [of k] by (auto simp: small_def)
  from alloc_internal [OF holds an, of depth] show ?thesis
  proof
    assume none: "\<exists>c'. jmem_heap_alloc_block_internal (Suc depth) gc c (align_up n) = None \<and>
      jmem_heap_alloc_block_null_on_error (Suc depth) gc c (align_up n) = Some (None, c') \<and> served owned {} c B (align_up n) (None, c')"
    then have "realloc_exhausted owned (Suc depth) gc c B p k n"
      using False p(2) by (auto simp: realloc_exhausted_def served_def small_def)
    then show ?thesis using none pg False by (simp add: jmem_heap_realloc_block_def small_def Let_def)
  next
    assume "\<exists>q c'. jmem_heap_alloc_block_internal (Suc depth) gc c (align_up n) = Some (Some q, c') \<and> keeps c c' \<and>
      q \<notin> dom B \<and> heap_holds owned {} c' (B(q \<mapsto> align_up n))"
    then obtain q c1 where q: "jmem_heap_alloc_block_internal (Suc depth) gc c (align_up n) = Some (Some q, c1)" "keeps c c1"
      "q \<notin> dom B" "heap_holds owned {} c1 (B(q \<mapsto> align_up n))" by blast
    have qp: "q \<noteq> p" using q(3) p(1) by auto
    have h: "heap_holds owned {} (copy_bytes c1 q p (align_up k)) (B(q \<mapsto> align_up n))" using q(4) by simp
    have bp: "(B(q \<mapsto> align_up n)) p = Some k" using p(1) qp by simp
    obtain c2 where c2: "jmem_heap_free_block (copy_bytes c1 q p (align_up k)) p k = Some c2"
      "heap_holds owned {} c2 ((B(q \<mapsto> align_up n))(p := None))" "keeps (copy_bytes c1 q p (align_up k)) c2"
      by (rule holds_free [OF h bp refl])
    have "c2 = jmem_cellocator_cell_free (copy_bytes c1 q p (align_up k)) p"
      using c2(1) find_holds [OF h bp] p(2) by (auto simp: jmem_heap_free_block_def jmem_heap_free_block_internal_def split: option.splits)
    then have res: "jmem_heap_realloc_block (Suc depth) gc c p k n = Some (Some q, c2)"
      using pg False q(1) by (simp add: jmem_heap_realloc_block_def small_def Let_def)
    have eq: "(B(q \<mapsto> align_up n))(p := None) = B(p := None, q \<mapsto> align_up n)" using qp by auto
    have "heap_holds owned {} c2 ((B(p := None, q \<mapsto> align_up n))(q \<mapsto> n))"
      by (rule holds_resize [OF c2(2) [unfolded eq], where k = "align_up n"]) (simp_all add: n)
    then have "heap_holds owned {} c2 (B(p := None, q \<mapsto> n))" by simp
    moreover have "bytes c2 = bytes (copy_bytes c q p (align_up k))" using c2(3) keeps_copy [OF q(2)] by (simp add: keeps_def)
    ultimately have "resized owned c B p k n (Some q, c2)"
      using q(3) qp le by (intro resized_copy [where k = "align_up k"]) auto
    then show ?thesis using res by blast
  qed
qed


lemma realloc_to_cell:
  assumes holds: "heap_holds owned {} c B" and p: "B p = Some k" "\<not> small k" and n: "0 < n" "small n"
  shows "\<exists>res. jmem_heap_realloc_block (Suc depth) gc c p k n = Some res \<and> resized owned c B p k n res"
proof -
  have find: "jmem_cellocator_find (pages c) p = None" using find_holds [OF holds p(1)] p(2) by blast
  have an: "0 < align_up n" "align_up n < align_up k" "align_up n \<le> 32" "\<not> align_up k \<le> 32"
    using align_up_facts(4) [OF n(1)] n(2) p(2) by (auto simp: small_def)
  obtain r c1 where r: "jmem_heap_alloc (Suc depth) gc c (align_up n) = Some (r, c1)" "served owned {} c B (align_up n) (r, c1)"
    using alloc_served [OF holds an(1)] by fastforce
  have eq: "jmem_heap_realloc_block (Suc depth) gc c p k n =
    do { c \<leftarrow> jmem_heap_free_block (case r of None \<Rightarrow> c1 | Some q \<Rightarrow> copy_bytes c1 q p (align_up n)) p (align_up k); Some (r, c) }"
    using find an r(1) unfolding jmem_heap_realloc_block_def Let_def by simp
  show ?thesis
  proof (cases r)
    case None
    have h: "heap_holds owned {} c1 B" "keeps c c1" using r(2) None by (simp_all add: served_def)
    obtain c2 where "jmem_heap_free_block c1 p (align_up k) = Some c2" "heap_holds owned {} c2 (B(p := None))" "keeps c1 c2"
      by (rule holds_free [OF h(1) p(1) align_up_align_up])
    then show ?thesis using eq None n(2) p(2) h(2) by (simp add: resized_def keeps_def)
  next
    case (Some q)
    have q: "q \<notin> dom B" "heap_holds owned {} c1 (B(q \<mapsto> align_up n))" "keeps c c1" using r(2) Some by (auto simp: served_def)
    have qp: "q \<noteq> p" using q(1) p(1) by auto
    let ?c = "copy_bytes c1 q p (align_up n)"
    have h: "heap_holds owned {} ?c (B(q \<mapsto> align_up n))" using q(2) by simp
    have bp: "(B(q \<mapsto> align_up n)) p = Some k" using p(1) qp by simp
    obtain c2 where c2: "jmem_heap_free_block ?c p (align_up k) = Some c2"
      "heap_holds owned {} c2 ((B(q \<mapsto> align_up n))(p := None))" "keeps ?c c2"
      by (rule holds_free [OF h bp align_up_align_up])
    have eq': "(B(q \<mapsto> align_up n))(p := None) = B(p := None, q \<mapsto> align_up n)" using qp by auto
    have "heap_holds owned {} c2 ((B(p := None, q \<mapsto> align_up n))(q \<mapsto> n))"
      by (rule holds_resize [OF c2(2) [unfolded eq'], where k = "align_up n"]) (simp_all add: n)
    then have "heap_holds owned {} c2 (B(p := None, q \<mapsto> n))" by simp
    moreover have "bytes c2 = bytes (copy_bytes c q p (align_up n))" using c2(3) keeps_copy [OF q(3)] by (simp add: keeps_def)
    ultimately have "resized owned c B p k n (Some q, c2)"
      using q(1) align_up_facts(2) [of n] by (intro resized_copy [where k = "align_up n"]) auto
    then show ?thesis using eq Some c2(1) by simp
  qed
qed

lemma realloc_in_place:
  assumes holds: "heap_holds owned {} c B" and p: "B p = Some k" "\<not> small k" and n: "\<not> small n" "align_up n \<le> align_up k"
  shows "\<exists>res. jmem_heap_realloc_block (Suc depth) gc c p k n = Some res \<and> resized owned c B p k n res"
proof -
  have find: "jmem_cellocator_find (pages c) p = None" using find_holds [OF holds p(1)] p(2) by blast
  have pos: "0 < n" using n(1) by (auto simp: small_def align_up_def)
  show ?thesis
  proof (cases "align_up n = align_up k")
    case True
    have "heap_holds owned {} c (B(p \<mapsto> n))" by (rule holds_resize [OF holds p(1) True pos])
    from resized_same [OF holds p(1) this refl] show ?thesis using find True by (simp add: jmem_heap_realloc_block_def)
  next
    case False
    then have lt: "align_up n < align_up k" using n(2) by simp
    let ?T = "B ++ owned (collector c)"
    have inv: "jmem_inv {} c ?T" using holds by (simp add: heap_holds_def)
    note b = holds_block [OF holds p(1)] and M = large_is_main [OF inv holds_block [OF holds p(1)] p(2)]
    have hi: "heap_inv {} c (main_blocks c ?T)" using inv by (simp add: jmem_inv_def)
    obtain q l where q: "jmem_heap_find_prev c p = Some q"
      "lower_limit (jmem_heap_allocated_size c - (align_up k - align_up n)) (gc_limit c) (jmem_heap_limit c) = Some l"
      "heap_inv {} (set_list c (insert_node (nodes c) (p + align_up n) q (align_up k - align_up n)) q
        (jmem_heap_allocated_size c - (align_up k - align_up n)) l) ((main_blocks c ?T)(p \<mapsto> n))" (is "heap_inv {} ?c _")
      by (rule shrink_inv [OF hi conjunct1 [OF M] lt pos])
    have ok: "blocks_ok (main_blocks c ?T)" using hi by (simp add: heap_inv_def)
    have "block_bytes p n \<inter> used ((main_blocks c ?T)(p := None)) = {}"
      using used_del(2) [OF ok conjunct1 [OF M]] lt by (auto simp: block_bytes_def)
    then have "jmem_inv {} ?c (?T(p := None, p \<mapsto> n))"
      using q(3) by (intro jmem_inv_main(1) [OF inv b p(2) n(1)]) (simp_all add: keeps_def)
    then have "heap_holds owned {} ?c (B(p := None, p \<mapsto> n))"
      by (intro holds_replace(1) [OF holds p(1)]) simp_all
    then have "heap_holds owned {} ?c (B(p \<mapsto> n))" by simp
    then have "resized owned c B p k n (Some p, ?c)" by (rule resized_same [OF holds p(1)]) simp
    moreover have "jmem_heap_realloc_block (Suc depth) gc c p k n = Some (Some p, ?c)"
      using find lt q(1,2) n(1) by (simp add: jmem_heap_realloc_block_def Let_def small_def jmem_heap_insert_block_def)
    ultimately show ?thesis by blast
  qed
qed

lemma realloc_grow:
  assumes holds: "heap_holds owned {} c B" and p: "B p = Some k" "\<not> small k" and n: "align_up k < align_up n"
  shows "grow_block (Suc depth) gc c p k n = None \<and> realloc_exhausted owned (Suc depth) gc c B p k n \<or> (\<exists>res. grow_block (Suc depth) gc c p k n = Some res \<and> resized owned c B p k n res)"
proof -
  define req where "req = align_up n - align_up k"
  have ns: "\<not> small n" and pos: "0 < n" "0 < k" and le: "k \<le> n"
    using p(2) n align_up_mono [of n k] by (auto simp: small_def align_up_def)
  obtain c1 where c1: "(if jmem_heap_limit c \<le> jmem_heap_allocated_size c + req then ecma_free_unused_memory gc c JMEM_PRESSURE_LOW else Some c) = Some c1"
    "heap_holds owned {} c1 B" "keeps c c1"
    using collect [OF holds, of JMEM_PRESSURE_LOW] holds by (cases "jmem_heap_limit c \<le> jmem_heap_allocated_size c + req") auto
  let ?T = "B ++ owned (collector c1)"
  have inv: "jmem_inv {} c1 ?T" using c1(2) by (simp add: heap_holds_def)
  note b = holds_block [OF c1(2) p(1)]
  note M = large_is_main [OF inv b p(2)]
  have hi: "heap_inv {} c1 (main_blocks c1 ?T)" using inv by (simp add: jmem_inv_def)
  show ?thesis
    using hi conjunct1 [OF M] n
  proof (rule extend_block_inv, fold req_def, goal_cases)
    case (1 prev)
    have out: "jmem_inv (block_bytes p k) (c1\<lparr>jmem_heap_allocated_size := jmem_heap_allocated_size c1 - align_up k\<rparr>) (?T(p := None))"
      (is "jmem_inv ?R ?c1 _") by (rule move_out [OF inv b p(2)])
    have h: "heap_holds owned ?R ?c1 (B(p := None))" by (rule holds_del [OF c1(2) p(1) _ out]) simp
    from alloc_internal [OF h pos(1), of depth] show ?case
    proof
      assume none: "\<exists>c'. jmem_heap_alloc_block_internal (Suc depth) gc ?c1 n = None \<and>
        jmem_heap_alloc_block_null_on_error (Suc depth) gc ?c1 n = Some (None, c') \<and> served owned ?R ?c1 (B(p := None)) n (None, c')"
      then obtain c' where c': "jmem_heap_alloc_block_null_on_error (Suc depth) gc ?c1 n = Some (None, c')"
        "heap_holds owned ?R c' (B(p := None))" "no_room owned ?R c' (B(p := None)) (align_up n)"
        using ns by (auto simp: served_def)
      have "vm_heap_size c1 = vm_heap_size c" using c1(3) by (simp add: keeps_def)
      then have "realloc_exhausted owned (Suc depth) gc c B p k n"
        unfolding realloc_exhausted_def using n ns p(2) c1(1,2) 1 c' by (auto simp flip: req_def)
      then show ?thesis using none c1(1) 1 by (simp add: grow_block_def Let_def flip: req_def)
    next
      assume "\<exists>q c'. jmem_heap_alloc_block_internal (Suc depth) gc ?c1 n = Some (Some q, c') \<and> keeps ?c1 c' \<and>
        q \<notin> dom (B(p := None)) \<and> heap_holds owned ?R c' (B(p := None, q \<mapsto> n))"
      then obtain q c2 where q: "jmem_heap_alloc_block_internal (Suc depth) gc ?c1 n = Some (Some q, c2)" "keeps ?c1 c2"
        "q \<notin> dom (B(p := None))" "heap_holds owned ?R c2 (B(p := None, q \<mapsto> n))" by blast
      let ?c2 = "copy_bytes c2 q p k"
      have p8: "8 dvd p" using heap_inv_block(1) [OF hi conjunct1 [OF M]] by (simp add: region_ok_def)
      have "jmem_inv ?R c2 (B(p := None, q \<mapsto> n) ++ owned (collector c2))" using q(4) by (simp add: heap_holds_def)
      from move_in [OF this pos(2) p8] obtain pr where pr: "jmem_heap_find_prev c2 p = Some pr"
        "jmem_inv {} (jmem_heap_insert_block c2 p pr (align_up k)) (B(p := None, q \<mapsto> n) ++ owned (collector c2))" by blast
      let ?c3 = "jmem_heap_insert_block ?c2 p pr (align_up k)"
      have "?c3 = (jmem_heap_insert_block c2 p pr (align_up k))\<lparr>bytes := bytes ?c2\<rparr>"
        by (simp add: jmem_heap_insert_block_def copy_bytes_def)
      then have "jmem_inv {} ?c3 (B(p := None, q \<mapsto> n) ++ owned (collector c2))" using pr(2) by simp
      moreover have "collector ?c3 = collector c2" by (simp add: jmem_heap_insert_block_def copy_bytes_def)
      ultimately have "heap_holds owned {} ?c3 (B(p := None, q \<mapsto> n))" using q(4) by (simp add: heap_holds_def)
      moreover have "bytes ?c3 = bytes (copy_bytes c q p k)"
      proof -
        have "keeps c c2" using q(2) c1(3) by (simp add: keeps_def)
        from keeps_copy [OF this] show ?thesis by (simp add: jmem_heap_insert_block_def)
      qed
      moreover have "k \<le> align_up n" using le align_up_facts(2) [of n] by linarith
      ultimately have "resized owned c B p k n (Some q, ?c3)" using q(3) by (intro resized_copy [where k = k]) auto
      moreover have "jmem_heap_find_prev c2 p = Some pr" by fact
      then have "grow_block (Suc depth) gc c p k n = Some (Some q, ?c3)"
        using c1(1) 1 q(1) by (simp add: grow_block_def Let_def flip: req_def)
      ultimately show ?thesis by blast
    qed
  next
    case (2 prev q skip m l bs)
    let ?c2 = "(set_list c1 m skip (jmem_heap_allocated_size c1 + req) l)\<lparr>bytes := bs\<rparr>"
    have "jmem_inv {} ?c2 (?T(p := None, q \<mapsto> n))" "q \<notin> dom (?T(p := None))"
    proof -
      have "jmem_inv {} (set_list c1 m skip (jmem_heap_allocated_size c1 + req) l) (?T(p := None, q \<mapsto> n)) \<and> q \<notin> dom (?T(p := None))"
        using 2(5-7) by (intro conjI jmem_inv_main [OF inv b p(2) ns]) (simp_all add: keeps_def)
      then show "jmem_inv {} ?c2 (?T(p := None, q \<mapsto> n))" "q \<notin> dom (?T(p := None))" by simp_all
    qed
    note h = holds_replace [OF c1(2) p(1) _ this]
    have grow: "grow_block (Suc depth) gc c p k n = Some (Some q, ?c2)"
      using c1(1) 2(1,2,4) by (simp add: grow_block_def Let_def flip: req_def)
    have "bs = bytes (copy_bytes c1 q p k) \<or> q = p \<and> bs = bytes c1" using 2(3) by blast
    then have "resized owned c B p k n (Some q, ?c2)"
    proof
      assume bs: "bs = bytes (copy_bytes c1 q p k)"
      have "k \<le> align_up n" using le align_up_facts(2) [of n] by linarith
      moreover have "bytes ?c2 = bytes (copy_bytes c q p k)" using bs keeps_copy [OF c1(3)] by simp
      ultimately show ?thesis using h by (intro resized_copy [where k = k]) simp_all
    next
      assume "q = p \<and> bs = bytes c1"
      then show ?thesis using h resized_same [OF holds p(1), of ?c2 n] c1(3) by (simp add: keeps_def)
    qed
    then show ?case using grow by blast
  qed
qed

lemma realloc_correct:
  assumes "heap_holds owned {} c B" "B p = Some k" "0 < n"
  shows "jmem_heap_realloc_block (Suc depth) gc c p k n = None \<and> realloc_exhausted owned (Suc depth) gc c B p k n \<or>
    (\<exists>res. jmem_heap_realloc_block (Suc depth) gc c p k n = Some res \<and> resized owned c B p k n res)"
proof -
  consider "small k" | "\<not> small k" "small n" | "\<not> small k" "\<not> small n" "align_up n \<le> align_up k" | "\<not> small k" "align_up k < align_up n"
    by linarith
  then show ?thesis
  proof cases
    case 1
    then show ?thesis using realloc_cell [OF assms(1,2)] assms(3) by blast
  next
    case 2
    then show ?thesis using realloc_to_cell [OF assms(1,2)] assms(3) by blast
  next
    case 3
    then show ?thesis using realloc_in_place [OF assms(1,2)] by blast
  next
    case 4
    then have "jmem_heap_realloc_block (Suc depth) gc c p k n = grow_block (Suc depth) gc c p k n"
      using find_holds [OF assms(1,2)] by (auto simp: jmem_heap_realloc_block_def Let_def)
    then show ?thesis using realloc_grow [OF assms(1,2) 4] by simp
  qed
qed

end

end
