(* ===== verification/Jmem_Theorems.thy ===== *)
theory Jmem_Theorems
  imports Jmem_Realloc "HOL-Library.AList"
begin

text \<open>
  The properties of the memory manager, and its use as the memory of other components: the contract of
  \<open>Block_Heap\<close> holds for it, whatever the garbage collector does with the blocks it owns.
\<close>

section \<open>Blocks do not overlap\<close>

lemma cell_page:
  assumes inv: "jmem_inv R c B" and p: "p \<in> cells c"
  obtains pg where "pg \<in> set (pages c)" "{p..<p + 32} \<subseteq> block_bytes (page_p pg) (JMEM_CELLOCATOR_PAGE_SIZE c)"
    "main_blocks c B (page_p pg) = Some (JMEM_CELLOCATOR_PAGE_SIZE c)" "p \<in> cells_of pg" "8 dvd p"
proof -
  obtain pg where pg: "pg \<in> set (pages c)" "p \<in> cells_of pg" using p by (auto simp: cells_def)
  have cfg: "config_ok c" "page_ok c pg" using inv pg(1) by (auto simp: jmem_inv_def list_all_iff)
  have m: "main_blocks c B (page_p pg) = Some (JMEM_CELLOCATOR_PAGE_SIZE c)" using pg(1) by (simp add: main_blocks_def)
  then have "8 dvd page_p pg" using inv by (auto simp: jmem_inv_def heap_inv_def blocks_ok_def)
  moreover have "8 dvd page_header_size c" "1 \<le> vm_cell_count c" using cfg by (auto simp: config_ok_def)
  moreover have c: "start_p pg = page_p pg + page_header_size c" "p \<le> start_p pg + 32 * (vm_cell_count c - 1)" "start_p pg \<le> p" "32 dvd p - start_p pg"
    using pg(2) cfg(2) by (auto simp: cells_of_def page_ok_def)
  ultimately have "8 dvd p - start_p pg" "8 dvd start_p pg" by (auto intro: dvd_trans [of 8 32])
  then have "8 dvd p" using c(3) by (metis dvd_diff_nat le_add_diff_inverse dvd_add)
  moreover have "p + 32 \<le> start_p pg + 32 * vm_cell_count c" using c(2) \<open>1 \<le> vm_cell_count c\<close> by (simp add: algebra_simps)
  then have "{p..<p + 32} \<subseteq> block_bytes (page_p pg) (JMEM_CELLOCATOR_PAGE_SIZE c)"
    using c page_size(1,2) [OF cfg(1)] by (auto simp: block_bytes_def)
  ultimately show thesis using that pg m by blast
qed

lemma cells_disjoint:
  assumes inv: "jmem_inv R c B" and p: "p \<in> cells c" "q \<in> cells c" "p \<noteq> q"
  shows "{p..<p + 32} \<inter> {q..<q + 32} = {}"
proof -
  obtain pg where pg: "pg \<in> set (pages c)" "{p..<p + 32} \<subseteq> block_bytes (page_p pg) (JMEM_CELLOCATOR_PAGE_SIZE c)"
    "main_blocks c B (page_p pg) = Some (JMEM_CELLOCATOR_PAGE_SIZE c)" "p \<in> cells_of pg" "8 dvd p" by (rule cell_page [OF inv p(1)])
  obtain pg' where pg': "pg' \<in> set (pages c)" "{q..<q + 32} \<subseteq> block_bytes (page_p pg') (JMEM_CELLOCATOR_PAGE_SIZE c)"
    "main_blocks c B (page_p pg') = Some (JMEM_CELLOCATOR_PAGE_SIZE c)" "q \<in> cells_of pg'" "8 dvd q" by (rule cell_page [OF inv p(2)])
  show ?thesis
  proof (cases "page_p pg = page_p pg'")
    case True
    have "start_p pg = start_p pg'" using inv pg(1) pg'(1) True by (auto simp: jmem_inv_def list_all_iff page_ok_def)
    then obtain i j where "p = start_p pg + 32 * i" "q = start_p pg + 32 * j"
      using pg(4) pg'(4) by (auto simp: cells_of_def elim!: dvdE) (metis le_add_diff_inverse)
    then show ?thesis using p(3) by auto
  next
    case False
    have "blocks_ok (main_blocks c B)" using inv by (simp add: jmem_inv_def heap_inv_def)
    then show ?thesis using False pg(2,3) pg'(2,3) unfolding blocks_ok_def by blast
  qed
qed

text \<open>The bytes that belong to a block: a cell, or a piece of the area.\<close>

definition owned_bytes :: "addr \<Rightarrow> nat \<Rightarrow> nat set" where
  "owned_bytes p n = (if small n then {p..<p + 32} else block_bytes p n)"

lemma owned_bytes_covers: "{p..<p + n} \<subseteq> owned_bytes p n"
  using align_up_facts(2) [of n] by (auto simp: owned_bytes_def block_bytes_def small_def)

lemma block_place:
  assumes inv: "jmem_inv R c B" and p: "B p = Some n"
  obtains q k where "main_blocks c B q = Some k" "owned_bytes p n \<subseteq> block_bytes q k" "8 dvd p" "small n \<and> p \<in> cells c \<or> \<not> small n \<and> q = p \<and> k = n"
proof (cases "small n")
  case True
  have "p \<in> cells c" using small_is_cell [OF inv p True] .
  then show thesis using cell_page [OF inv] that True by (metis owned_bytes_def)
next
  case False
  note M = large_is_main [OF inv p False]
  then have "8 dvd p" using inv by (auto simp: jmem_inv_def heap_inv_def blocks_ok_def)
  then show thesis using that M False by (simp add: owned_bytes_def)
qed

lemma page_not_large:
  assumes inv: "jmem_inv R c B" and p: "p \<in> cells c" and q: "B q = Some k" "\<not> small k"
  shows "{p..<p + 32} \<inter> block_bytes q k = {}"
proof -
  note M = large_is_main [OF inv q]
  obtain pg where pg: "pg \<in> set (pages c)" "{p..<p + 32} \<subseteq> block_bytes (page_p pg) (JMEM_CELLOCATOR_PAGE_SIZE c)"
    "main_blocks c B (page_p pg) = Some (JMEM_CELLOCATOR_PAGE_SIZE c)" "p \<in> cells_of pg" "8 dvd p" by (rule cell_page [OF inv p])
  have "page_p pg \<noteq> q" using M pg(1) by blast
  moreover have "blocks_ok (main_blocks c B)" using inv by (simp add: jmem_inv_def heap_inv_def)
  ultimately show ?thesis using M pg(2,3) unfolding blocks_ok_def by blast
qed

lemma blocks_disjoint:
  assumes inv: "jmem_inv R c B" and b: "B p = Some n" "B q = Some k" "p \<noteq> q"
  shows "owned_bytes p n \<inter> owned_bytes q k = {}"
proof -
  have ok: "blocks_ok (main_blocks c B)" using inv by (simp add: jmem_inv_def heap_inv_def)
  consider "small n" "small k" | "small n" "\<not> small k" | "\<not> small n" "small k" | "\<not> small n" "\<not> small k" by blast
  then show ?thesis
  proof cases
    case 1
    then show ?thesis using cells_disjoint [OF inv] small_is_cell [OF inv] b by (simp add: owned_bytes_def)
  next
    case 2
    then show ?thesis using page_not_large [OF inv small_is_cell [OF inv b(1)] b(2)] by (simp add: owned_bytes_def)
  next
    case 3
    then show ?thesis using page_not_large [OF inv small_is_cell [OF inv b(2)] b(1)] by (auto simp: owned_bytes_def)
  next
    case 4
    then show ?thesis using large_is_main [OF inv] b ok unfolding blocks_ok_def by (simp add: owned_bytes_def)
  qed
qed

lemma block_in_area:
  assumes inv: "jmem_inv R c B" and p: "B p = Some n"
  shows "owned_bytes p n \<subseteq> {8..<vm_heap_size c}" "8 dvd p"
proof -
  obtain q k where q: "main_blocks c B q = Some k" "owned_bytes p n \<subseteq> block_bytes q k" "8 dvd p"
    using block_place [OF inv p] by metis
  have "heap_inv R c (main_blocks c B)" using inv by (simp add: jmem_inv_def)
  from heap_inv_block(2) [OF this q(1)] q show "owned_bytes p n \<subseteq> {8..<vm_heap_size c}" "8 dvd p" by blast+
qed

section \<open>The contract of a block heap\<close>

definition block_words :: "'e jmem_context \<Rightarrow> addr \<Rightarrow> nat \<Rightarrow> u32" where
  "block_words c p i = ucast (bytes c (p + 4 * i)) OR push_bit 8 (ucast (bytes c (p + 4 * i + 1))) OR
    push_bit 16 (ucast (bytes c (p + 4 * i + 2))) OR push_bit 24 (ucast (bytes c (p + 4 * i + 3)))"

text \<open>The functions that other components call. Both always return, see below.\<close>

definition jmem_allocator :: "'e gc \<Rightarrow> 'e jmem_context allocator" where
  "jmem_allocator gc =
    \<lparr>alloc_block = (\<lambda>c n. case jmem_heap_alloc_block_null_on_error 1 gc c n of
        Some (Some p, c') \<Rightarrow> (Some (p, block_words c' p), c')
      | Some (None, c') \<Rightarrow> (None, c')
      | None \<Rightarrow> (None, c)),
     free_block = (\<lambda>c p n. case jmem_heap_free_block c p n of Some c' \<Rightarrow> c' | None \<Rightarrow> c)\<rparr>"

context garbage_collector
begin

lemma alloc_block_cases:
  assumes "heap_holds owned {} c B" "0 < n" "alloc_block (jmem_allocator gc) c n = (r, c')"
  shows "case r of None \<Rightarrow> heap_holds owned {} c' B | Some (p, g) \<Rightarrow> p \<notin> dom B \<and> heap_holds owned {} c' (B(p \<mapsto> n))"
proof -
  obtain r0 c0 where r0: "jmem_heap_alloc_block_null_on_error 1 gc c n = Some (r0, c0)" "served owned {} c B n (r0, c0)"
    using null_on_error [OF assms(1,2), of 0] by auto
  then show ?thesis using assms(3) by (cases r0) (auto simp: jmem_allocator_def served_def)
qed

end

sublocale garbage_collector \<subseteq> blocks: block_heap "jmem_allocator gc" "heap_holds owned {}"
proof
  fix c B n p g c'
  assume "heap_holds owned {} c B" "0 < n" "alloc_block (jmem_allocator gc) c n = (Some (p, g), c')"
  from alloc_block_cases [OF this] show "p \<notin> dom B" "heap_holds owned {} c' (B(p \<mapsto> n))" by auto
next
  fix c B n c'
  assume "heap_holds owned {} c B" "0 < n" "alloc_block (jmem_allocator gc) c n = (None, c')"
  from alloc_block_cases [OF this] show "heap_holds owned {} c' B" by auto
next
  fix c B p n
  assume h: "heap_holds owned {} c B" "B p = Some n"
  obtain c' where "jmem_heap_free_block c p n = Some c'" "heap_holds owned {} c' (B(p := None))" by (rule holds_free [OF h refl])
  then show "heap_holds owned {} (free_block (jmem_allocator gc) c p n) (B(p := None))" by (simp add: jmem_allocator_def)
qed

context garbage_collector
begin

lemma is_block_heap: "block_heap (jmem_allocator gc) (heap_holds owned {})"
  by (rule blocks.block_heap_axioms)

end

text \<open>
  A collector in the simplest form: its state is the list of the blocks that are not reachable any more, and a
  collection with high pressure frees them.
\<close>

definition list_gc :: "(addr \<times> nat) list gc" where
  "list_gc pressure e = (if pressure = JMEM_PRESSURE_LOW then ([], e) else (AList.clearjunk e, []))"

interpretation list_gc: garbage_collector list_gc map_of
proof
  fix pressure :: nat and e bs e' :: "(addr \<times> nat) list" and b
  assume g: "list_gc pressure e = (bs, e')"
  then show "distinct (map fst bs)" by (auto simp: list_gc_def distinct_clearjunk split: if_splits)
  show "map_of e (fst b) = Some (snd b)" if "b \<in> set bs"
  proof -
    have "bs = AList.clearjunk e" using g that by (auto simp: list_gc_def split: if_splits)
    then have "map_of (AList.clearjunk e) (fst b) = Some (snd b)" using that by (simp add: distinct_clearjunk)
    then show ?thesis by (simp add: map_of_clearjunk)
  qed
  have "fst ` set (AList.clearjunk e) = fst ` set e" using clearjunk_keys_set [of e] by simp
  then show "map_of e' = map_of e |` (- fst ` set bs)"
    using g by (auto simp: list_gc_def restrict_map_def fun_eq_iff map_of_eq_None_iff eq_commute [of None] split: if_splits)
qed

section \<open>Initialization\<close>

lemma init_inv:
  assumes "config_ok c" "pages c = []" "free_cells c = []" "jmem_heap_allocated_size c = 0" "0 < gc_limit c"
    "8 dvd vm_heap_size c" "16 \<le> vm_heap_size c" "vm_heap_size c \<le> 0xffffffff"
  shows "jmem_inv {} (jmem_heap_init c) Map.empty"
proof -
  let ?c = "jmem_heap_init c" and ?L = "[(0, 0), (8, vm_heap_size c - 8)]"
  have m: "main_blocks ?c Map.empty = Map.empty" "used Map.empty = {}" using assms(2)
    by (auto simp: main_blocks_def jmem_heap_init_def used_def)
  have "free_list (nodes ?c) (vm_heap_size ?c) ?L"
    using assms(6-8) by (auto simp: free_list_def jmem_heap_init_def gap_def region_ok_def)
  moreover have "all_bytes ?L = {8..<vm_heap_size ?c}" using assms(7) by (auto simp: region_bytes_def jmem_heap_init_def)
  ultimately have "heap_inv {} ?c (main_blocks ?c Map.empty)"
    using assms(4,5) m by (intro heap_invI [where L = ?L]) (auto simp: jmem_heap_init_def blocks_ok_def)
  then show ?thesis
    using assms(1-3) by (auto simp: jmem_inv_def jmem_heap_init_def config_ok_def small_blocks_def cells_def)
qed

section \<open>Properties\<close>

text \<open>
  A small heap of 256 bytes with pages of two cells, for the instances of the properties. The second state
  has an allocated block of 40 bytes at the address 8.
\<close>

definition tiny_heap :: "(addr \<times> nat) list jmem_context" where
  "tiny_heap = \<lparr>nodes = (\<lambda>p. \<lparr>next_offset = 0, region_size = 0\<rparr>), bytes = (\<lambda>p. 0), jmem_heap_list_skip_p = 0,
    jmem_heap_allocated_size = 0, jmem_heap_limit = 0, gc_limit = 64, vm_heap_size = 256, vm_cell_count = 2, page_header_size = 24,
    pages = [], free_cells = [], collector = []\<rparr>"

definition tiny_used :: "(addr \<times> nat) list jmem_context" where
  "tiny_used = (jmem_heap_init tiny_heap)\<lparr>nodes := (\<lambda>p. if p = 0 then \<lparr>next_offset = 40, region_size = 0\<rparr>
      else \<lparr>next_offset = JMEM_HEAP_END_OF_LIST, region_size = 208\<rparr>), jmem_heap_allocated_size := 40\<rparr>"

lemma tiny_heap_holds: "heap_holds map_of {} (jmem_heap_init tiny_heap) Map.empty"
proof -
  have "jmem_inv {} (jmem_heap_init tiny_heap) Map.empty"
    by (rule init_inv) (simp_all add: tiny_heap_def config_ok_def)
  then show ?thesis by (simp add: heap_holds_def jmem_heap_init_def tiny_heap_def)
qed

lemma tiny_used_holds: "heap_holds map_of {} tiny_used [8 \<mapsto> 40]"
proof -
  let ?L = "[(0, 0), (48, 208)]"
  have m: "main_blocks tiny_used [8 \<mapsto> 40] = [8 \<mapsto> 40]"
    by (auto simp: main_blocks_def tiny_used_def tiny_heap_def jmem_heap_init_def small_def align_up_def fun_eq_iff)
  have u: "used [8 \<mapsto> 40] = {8..<48}" by (simp add: used_def block_bytes_def align_up_def)
  have "free_list (nodes tiny_used) 256 ?L"
    by (auto simp: free_list_def tiny_used_def gap_def region_ok_def JMEM_HEAP_GET_OFFSET_FROM_ADDR_def)
  moreover have "all_bytes ?L = {48..<256}" by (auto simp: region_bytes_def)
  ultimately have "heap_inv {} tiny_used (main_blocks tiny_used [8 \<mapsto> 40])"
    unfolding m by (intro heap_invI [where L = ?L]) (auto simp: u tiny_used_def tiny_heap_def jmem_heap_init_def blocks_ok_def)
  moreover have "small_blocks [8 \<mapsto> 40] = {}" by (auto simp: small_blocks_def small_def align_up_def split: if_splits)
  ultimately show ?thesis
    by (auto simp: heap_holds_def jmem_inv_def tiny_used_def tiny_heap_def jmem_heap_init_def config_ok_def cells_def)
qed

text \<open>
  Initialization: the heap starts with the invariant and no blocks, for every configuration with pages of
  at least one cell, an aligned heap size below 4 GB and a nonzero limit for the collector.
\<close>

theorem heap_init:
  assumes "config_ok c" "pages c = []" "free_cells c = []" "jmem_heap_allocated_size c = 0" "0 < gc_limit c"
    "8 dvd vm_heap_size c" "16 \<le> vm_heap_size c" "vm_heap_size c \<le> 0xffffffff" "owned (collector c) = Map.empty"
  shows "heap_holds owned {} (jmem_heap_init c) Map.empty"
  using init_inv [OF assms(1-8)] assms(9) by (simp add: heap_holds_def jmem_heap_init_def)

theorem heap_init_witness: "heap_holds map_of {} (jmem_heap_init tiny_heap) Map.empty"
  by (rule heap_init) (simp_all add: tiny_heap_def config_ok_def)

subsection \<open>Sequences of requests\<close>

text \<open>
  What a client does, with the map of the blocks it has: it requests, resizes and frees blocks, and it leaves blocks to the garbage
  collector, which frees them during a later request.
\<close>

inductive heap_step ::
  "'e gc \<Rightarrow> ('e \<Rightarrow> (addr \<rightharpoonup> nat)) \<Rightarrow> 'e jmem_context \<times> (addr \<rightharpoonup> nat) \<Rightarrow> 'e jmem_context \<times> (addr \<rightharpoonup> nat) \<Rightarrow> bool"
  for gc owned where
  alloc: "0 < n \<Longrightarrow> jmem_heap_alloc_block_null_on_error (Suc depth) gc c n = Some (r, c') \<Longrightarrow>
    heap_step gc owned (c, B) (c', case r of None \<Rightarrow> B | Some p \<Rightarrow> B(p \<mapsto> n))"
| alloc_or_stop: "0 < n \<Longrightarrow> jmem_heap_alloc_block (Suc depth) gc c n = Some (r, c') \<Longrightarrow>
    heap_step gc owned (c, B) (c', case r of None \<Rightarrow> B | Some p \<Rightarrow> B(p \<mapsto> n))"
| free: "B p = Some n \<Longrightarrow> jmem_heap_free_block c p n = Some c' \<Longrightarrow> heap_step gc owned (c, B) (c', B(p := None))"
| realloc: "0 < n \<Longrightarrow> B p = Some k \<Longrightarrow> jmem_heap_realloc_block (Suc depth) gc c p k n = Some (r, c') \<Longrightarrow>
    heap_step gc owned (c, B) (c', case r of None \<Rightarrow> B(p := None) | Some q \<Rightarrow> B(p := None, q \<mapsto> n))"
| leave: "B p = Some n \<Longrightarrow> owned e = (owned (collector c))(p \<mapsto> n) \<Longrightarrow>
    heap_step gc owned (c, B) (c\<lparr>collector := e\<rparr>, B(p := None))"

text \<open>It also writes into its blocks.\<close>

inductive heap_write :: "'e jmem_context \<times> (addr \<rightharpoonup> nat) \<Rightarrow> 'e jmem_context \<times> (addr \<rightharpoonup> nat) \<Rightarrow> bool" where
  "B p = Some n \<Longrightarrow> i < n \<Longrightarrow> heap_write (c, B) (c\<lparr>bytes := (bytes c)(p + i := v)\<rparr>, B)"

definition heap_run ::
  "'e gc \<Rightarrow> ('e \<Rightarrow> (addr \<rightharpoonup> nat)) \<Rightarrow> 'e jmem_context \<times> (addr \<rightharpoonup> nat) \<Rightarrow> 'e jmem_context \<times> (addr \<rightharpoonup> nat) \<Rightarrow> bool" where
  "heap_run gc owned = (\<lambda>s s'. heap_step gc owned s s' \<or> heap_write s s')\<^sup>*\<^sup>*"

context garbage_collector
begin

lemma or_stop_iff:
  assumes "0 < n"
  shows "jmem_heap_alloc_block (Suc depth) gc c n = Some (r, c') \<longleftrightarrow>
    r \<noteq> None \<and> jmem_heap_alloc_block_null_on_error (Suc depth) gc c n = Some (r, c')"
  using alloc_full [OF assms, of "Suc depth" gc c]
  by (auto simp: jmem_heap_alloc_block_def jmem_heap_alloc_block_internal_def split: option.splits)

lemma step_holds:
  "heap_step gc owned s s' \<Longrightarrow> heap_holds owned {} (fst s) (snd s) \<Longrightarrow> heap_holds owned {} (fst s') (snd s')"
proof (induction rule: heap_step.induct)
  case (alloc n depth c r c' B)
  then have "served owned {} c B n (r, c')" using null_on_error [of "{}" c B n depth] by auto
  then show ?case by (cases r) (auto simp: served_def fun_upd_def)
next
  case (alloc_or_stop n depth c r c' B)
  then have "served owned {} c B n (r, c')" using null_on_error [of "{}" c B n depth] by (auto simp: or_stop_iff)
  then show ?case by (cases r) (auto simp: served_def fun_upd_def)
next
  case (free B p n c c')
  show ?case by (rule holds_free [OF free(3) [simplified] free(1) refl]) (use free(2) in \<open>simp add: fun_upd_def\<close>)
next
  case (realloc n B p k depth c r c')
  then have "resized owned c B p k n (r, c')" using realloc_correct [of c B p k n depth] by auto
  then show ?case by (cases r) (auto simp: resized_def fun_upd_def)
next
  case (leave B p n e c)
  then have B: "dom B \<inter> dom (owned (collector c)) = {}" "jmem_inv {} c (B ++ owned (collector c))" by (auto simp: heap_holds_def)
  then have "p \<notin> dom (owned (collector c))" using leave(1) by auto
  then have "B(p := None) ++ owned e = B ++ owned (collector c)"
    using leave(1,2) by (auto simp: fun_eq_iff map_add_def split: option.splits)
  moreover have "jmem_inv {} (c\<lparr>collector := e\<rparr>) (B ++ owned (collector c))" using B(2) by simp
  moreover have "dom (B(p := None)) \<inter> dom (owned e) = {}" using B(1) leave(2) by auto
  ultimately have "heap_holds owned {} (c\<lparr>collector := e\<rparr>) (B(p := None))" by (simp add: heap_holds_def)
  then show ?case by (simp add: fun_upd_def)
qed

lemma write_holds: "heap_write s s' \<Longrightarrow> heap_holds owned {} (fst s) (snd s) \<Longrightarrow> heap_holds owned {} (fst s') (snd s')"
  by (induction rule: heap_write.induct) (simp add: heap_holds_def)

lemma run_holds: "heap_run gc owned s s' \<Longrightarrow> heap_holds owned {} (fst s) (snd s) \<Longrightarrow> heap_holds owned {} (fst s') (snd s')"
  unfolding heap_run_def by (induction rule: rtranclp_induct) (blast intro: step_holds write_holds)+

end

text \<open>Blocks that do not overlap.\<close>

lemma holds_disjoint:
  assumes "heap_holds owned R c B" "B p = Some n"
  shows "8 dvd p" "owned_bytes p n \<subseteq> {8..<vm_heap_size c}" "B q = Some k \<Longrightarrow> p \<noteq> q \<Longrightarrow> owned_bytes p n \<inter> owned_bytes q k = {}"
proof -
  have inv: "jmem_inv R c (B ++ owned (collector c))" using assms(1) by (simp add: heap_holds_def)
  note b = holds_block [OF assms]
  show "8 dvd p" "owned_bytes p n \<subseteq> {8..<vm_heap_size c}" using block_in_area [OF inv b] by auto
  show "owned_bytes p n \<inter> owned_bytes q k = {}" if "B q = Some k" "p \<noteq> q"
    using blocks_disjoint [OF inv b holds_block [OF assms(1) that(1)] that(2)] .
qed

lemma holds_no_header:
  assumes "heap_holds owned R c B" "B p = Some n"
  shows "\<exists>L. free_list (nodes c) (vm_heap_size c) L \<and> all_bytes L \<inter> owned_bytes p n = {}"
proof -
  have inv: "jmem_inv R c (B ++ owned (collector c))" using assms(1) by (simp add: heap_holds_def)
  obtain q k where q: "main_blocks c (B ++ owned (collector c)) q = Some k" "owned_bytes p n \<subseteq> block_bytes q k"
    using block_place [OF inv holds_block [OF assms]] by metis
  have "heap_inv R c (main_blocks c (B ++ owned (collector c)))" using inv by (simp add: jmem_inv_def)
  then obtain L where "free_list (nodes c) (vm_heap_size c) L" "all_bytes L \<inter> (used (main_blocks c (B ++ owned (collector c))) \<union> R) = {}"
    by (rule heap_invE)
  then show ?thesis using q used_iff by blast
qed

lemma block_bytes_owned: "block_bytes p n \<subseteq> owned_bytes p n"
  by (auto simp: owned_bytes_def small_def block_bytes_def)

lemma step_contents:
  assumes "garbage_collector gc owned" "heap_step gc owned (c, B) (c', B')" "heap_holds owned {} c B" "B q = Some k" "B' q = Some k" "i < k"
  shows "bytes c' (q + i) = bytes c (q + i)"
  using assms(2)
proof (cases rule: heap_step.cases)
  case (alloc n depth r)
  then have "served owned {} c B n (r, c')" using garbage_collector.null_on_error [OF assms(1,3), of n depth] by auto
  then show ?thesis by (simp add: served_def keeps_def)
next
  case (alloc_or_stop n depth r)
  then have "jmem_heap_alloc_block_null_on_error (Suc depth) gc c n = Some (r, c')" "0 < n"
    using garbage_collector.or_stop_iff [OF assms(1)] by blast+
  then have "served owned {} c B n (r, c')" using garbage_collector.null_on_error [OF assms(1,3), of n depth] by auto
  then show ?thesis by (simp add: served_def keeps_def)
next
  case (free p n)
  then show ?thesis by (auto simp: keeps_def elim: holds_free [OF assms(3) _ refl])
next
  case (realloc n p m depth r)
  then have res: "resized owned c B p m n (r, c')"
    using garbage_collector.realloc_correct [OF assms(1,3), of p m n depth] by auto
  show ?thesis
  proof (cases r)
    case None
    then show ?thesis using res by (simp add: resized_def)
  next
    case (Some q')
    then have B': "B' = B(p := None, q' \<mapsto> n)" and h: "heap_holds owned {} c' B'" and new: "q' \<notin> dom (B(p := None))"
      and same: "\<forall>i < min m n. bytes c' (q' + i) = bytes c (p + i)" "\<forall>x. x \<notin> block_bytes q' n \<longrightarrow> bytes c' x = bytes c x"
      using res realloc by (auto simp: resized_def)
    show ?thesis
    proof (cases "q' = q")
      case True
      have "n = k" using assms(5) unfolding B' True by simp
      moreover have "q = p" "m = k" using True new assms(4) realloc by (auto split: if_splits)
      moreover note True
      ultimately show ?thesis using same(1) assms(6) by simp
    next
      case False
      have "B' q' = Some n" using B' by simp
      from holds_disjoint(3) [OF h this assms(5) False] have "q + i \<notin> owned_bytes q' n"
        using owned_bytes_covers [of q k] assms(6) by fastforce
      then show ?thesis using same(2) block_bytes_owned by blast
    qed
  qed
next
  case (leave p n e)
  then show ?thesis by simp
qed

text \<open>
  (C10) Whatever a client requests, resizes, frees, writes and leaves to the collector, starting with the initialized heap: all its blocks are aligned,
  lie in the area and do not overlap, and a request never changes the contents of a block that is there before and after it. The headers of
  the free regions, which the model keeps apart from the bytes, are in a free list that has no byte in common with a block.
\<close>

theorem heap_blocks_disjoint:
  assumes "garbage_collector gc owned" "config_ok c0" "pages c0 = []" "free_cells c0 = []" "jmem_heap_allocated_size c0 = 0" "0 < gc_limit c0"
    "8 dvd vm_heap_size c0" "16 \<le> vm_heap_size c0" "vm_heap_size c0 \<le> 0xffffffff" "owned (collector c0) = Map.empty"
    "heap_run gc owned (jmem_heap_init c0, Map.empty) (c, B)" "B p = Some n"
  shows "8 dvd p \<and> {p..<p + n} \<subseteq> {8..<vm_heap_size c} \<and>
    (\<forall>q k. B q = Some k \<longrightarrow> p \<noteq> q \<longrightarrow> {p..<p + n} \<inter> {q..<q + k} = {}) \<and>
    (\<exists>L. free_list (nodes c) (vm_heap_size c) L \<and> all_bytes L \<inter> {p..<p + n} = {}) \<and>
    (\<forall>c' B'. heap_step gc owned (c, B) (c', B') \<longrightarrow> B' p = Some n \<longrightarrow> (\<forall>i < n. bytes c' (p + i) = bytes c (p + i)))"
proof -
  have holds: "heap_holds owned {} c B"
    using garbage_collector.run_holds [OF assms(1,11)] heap_init [where c = c0 and owned = owned, OF assms(2-10)] by simp
  have "{p..<p + n} \<inter> {q..<q + k} = {}" if "B q = Some k" "p \<noteq> q" for q k
    using holds_disjoint(3) [OF holds assms(12) that] owned_bytes_covers by blast
  moreover have "8 dvd p" "{p..<p + n} \<subseteq> {8..<vm_heap_size c}"
    using holds_disjoint(1,2) [OF holds assms(12)] owned_bytes_covers by blast+
  moreover have "\<exists>L. free_list (nodes c) (vm_heap_size c) L \<and> all_bytes L \<inter> {p..<p + n} = {}"
    using holds_no_header [OF holds assms(12)] owned_bytes_covers by blast
  ultimately show ?thesis using step_contents [OF assms(1) _ holds assms(12)] by blast
qed

lemma tiny_alloc: "\<exists>c. jmem_heap_alloc_block_null_on_error 1 list_gc (jmem_heap_init tiny_heap) 40 = Some (Some 8, c)"
proof -
  have loop: "gc_and_alloc_loop alloc gc n m 0 (Some p) c = Some (Some p, c)" for alloc :: "'e jmem_context \<Rightarrow> _" and gc n m p c
    by (simp add: gc_and_alloc_loop.simps [of _ _ _ _ 0])
  have limit: "raise_limit 40 g 64 = Some 64" for g by (simp add: raise_limit.simps)
  have "alloc_loop m 40 0 0 = Some (Some (m(48 := \<lparr>next_offset = next_offset (m 8), region_size = region_size (m 8) - 40\<rparr>,
      0 := (m 0)\<lparr>next_offset := 40\<rparr>), 0, 8))" if "40 < region_size (m 8)" for m
    using that by (subst alloc_loop.simps) (simp add: Let_def JMEM_HEAP_GET_ADDR_FROM_OFFSET_def JMEM_HEAP_GET_OFFSET_FROM_ADDR_def)
  then show ?thesis
    by (simp add: jmem_heap_alloc_block_null_on_error_def jmem_heap_gc_and_alloc_block_def heap_alloc_def alloc_region_def align_up_def
        jmem_heap_init_def tiny_heap_def JMEM_HEAP_GET_OFFSET_FROM_ADDR_def loop limit)
qed

theorem heap_blocks_disjoint_witness:
  "\<exists>c p. heap_run list_gc map_of (jmem_heap_init tiny_heap, Map.empty) (c, [p \<mapsto> 40]) \<and> 8 dvd p \<and> {p..<p + 40} \<subseteq> {8..<vm_heap_size c}"
proof -
  obtain p c where a: "jmem_heap_alloc_block_null_on_error 1 list_gc (jmem_heap_init tiny_heap) 40 = Some (Some p, c)" using tiny_alloc by blast
  have "heap_run list_gc map_of (jmem_heap_init tiny_heap, Map.empty) (c, [p \<mapsto> 40])"
    using heap_step.alloc [of 40 0 list_gc "jmem_heap_init tiny_heap" "Some p" c map_of Map.empty] a by (auto simp: heap_run_def)
  from heap_blocks_disjoint [OF list_gc.garbage_collector_axioms _ _ _ _ _ _ _ _ _ this, of p 40] this show ?thesis
    by (auto simp: tiny_heap_def config_ok_def)
qed

text \<open>
  (C4) Allocation returns, with garbage collections as needed: either a block that is new, with all earlier
  blocks and the contents of memory kept, or \<open>NULL\<close>; a request that is too large for a cell fails only
  when there is no interval of free bytes that is long enough, even after a collection with high pressure.
\<close>

theorem heap_alloc_block:
  assumes "garbage_collector gc owned" "heap_holds owned {} c B" "0 < n"
  shows "\<exists>r c'. jmem_heap_alloc_block_null_on_error (Suc depth) gc c n = Some (r, c') \<and> bytes c' = bytes c \<and>
    (case r of
       None \<Rightarrow> heap_holds owned {} c' B \<and> (\<not> small n \<longrightarrow> no_room owned {} c' B (align_up n))
     | Some p \<Rightarrow> p \<notin> dom B \<and> heap_holds owned {} c' (B(p \<mapsto> n)))"
  using garbage_collector.null_on_error [OF assms] by (fastforce simp: served_def keeps_def)

theorem heap_alloc_block_witness:
  "\<exists>r c'. jmem_heap_alloc_block_null_on_error 1 list_gc tiny_used 100 = Some (r, c') \<and> bytes c' = bytes tiny_used"
  using heap_alloc_block [OF list_gc.garbage_collector_axioms tiny_used_holds, of 100 0] by auto

text \<open>
  (C5) Freeing a block returns its bytes to the free list, as a region of its own or merged with its
  neighbours, and leaves every other block as it is.
\<close>

theorem heap_free_block:
  assumes "heap_holds owned {} c B" "B p = Some n"
  shows "\<exists>c'. jmem_heap_free_block c p n = Some c' \<and> heap_holds owned {} c' (B(p := None)) \<and> bytes c' = bytes c"
  using holds_free [OF assms refl] by (metis keeps_def)

theorem heap_free_block_witness:
  "\<exists>c'. jmem_heap_free_block tiny_used 8 40 = Some c' \<and> heap_holds map_of {} c' Map.empty \<and> bytes c' = bytes tiny_used"
  using heap_free_block [OF tiny_used_holds, of 8 40] by simp



text \<open>
  (C19) With no cells per page, which the options of a context allow, the first small request never returns: adding a page
  requests a page of the size of its header, which is a small request again.
\<close>

theorem heap_no_cells_diverges:
  assumes "vm_cell_count c = 0" "page_header_size c \<le> 32" "0 < page_header_size c" "free_cells c = []"
    "jmem_heap_allocated_size c + 32 < jmem_heap_limit c" "0 < n" "n \<le> 32" "\<And>pressure. gc pressure (collector c) = ([], collector c)"
  shows "jmem_heap_alloc depth gc c n = None"
proof -
  have gc: "ecma_free_unused_memory gc c JMEM_PRESSURE_LOW = Some c" using assms(8) by (simp add: ecma_free_unused_memory_def)
  have ps: "JMEM_CELLOCATOR_PAGE_SIZE c = page_header_size c" using assms(1) by (simp add: JMEM_CELLOCATOR_PAGE_SIZE_def)
  have small: "align_up k \<le> 32" if "k \<le> 32" for k using align_up_mono [OF that] by (simp add: align_up_def)
  have cell: "jmem_cellocator_alloc c = (None, c)" using assms(4) by (simp add: jmem_cellocator_alloc_def)
  have limit: "\<not> jmem_heap_limit c \<le> jmem_heap_allocated_size c + page_header_size c" using assms(2,5) by linarith
  have step: "heap_alloc nested gc c k = None" if "k \<le> 32" "nested c (page_header_size c) = None" for nested k
    using that small [OF that(1)] gc cell ps limit assms(3)
    by (simp add: heap_alloc_def jmem_cellocator_add_page_def jmem_heap_gc_and_alloc_block_def)
  have "jmem_heap_alloc depth gc c k = None" if "k \<le> 32" for k
    using that by (induction depth arbitrary: k) (auto intro!: step assms(2))
  then show ?thesis using assms(7) .
qed

theorem heap_no_cells_diverges_witness:
  "jmem_heap_alloc 1000 list_gc ((jmem_heap_init tiny_heap)\<lparr>vm_cell_count := 0\<rparr>) 16 = None"
  by (rule heap_no_cells_diverges) (simp_all add: jmem_heap_init_def tiny_heap_def list_gc_def)

end
