(* ===== verification/Jmem_Scratch.thy ===== *)
theory Jmem_Scratch
  imports Jmem_Theorems
begin

text \<open>
  The scratch allocator, \<open>src/jjs-core/jmem/jmem-scratch-allocator.c\<close>, and the compressed pointers of
  \<open>jmem-allocator.c\<close>.

  The scratch allocator hands out memory from a fixed buffer, one piece after the other, and falls back to
  another allocator when the buffer is full. Single pieces are not freed; all memory is given up at once when
  the last user releases the allocator. Sizes are 32-bit numbers, with the wrap-around written out.
\<close>

section \<open>State and operations\<close>

text \<open>
  A fallback allocation starts with a header (its size and the link to the previous allocation) of
  \<open>header\<close> bytes; the list of these allocations is kept as a list of addresses and sizes.
\<close>

record 'h scratch_allocator =
  refs :: int
  fixed_buffer_p :: addr
  fixed_buffer_size :: nat
  fixed_buffer_next_p :: addr
  fixed_buffer_remaining_size :: nat
  fallback_allocations :: "(addr \<times> nat) list"
  fallback_heap :: 'h

definition ALIGNUP :: "nat \<Rightarrow> nat" where
  "ALIGNUP n = ((n + 7) mod 2 ^ 32) div 8 * 8"

definition jmem_scratch_allocator_alloc ::
  "'h allocator \<Rightarrow> nat \<Rightarrow> 'h scratch_allocator \<Rightarrow> nat \<Rightarrow> addr option \<times> 'h scratch_allocator" where
  "jmem_scratch_allocator_alloc A header s n =
    (if n = 0 then (None, s)
     else
      (let request_size = ALIGNUP n in
       if request_size \<le> fixed_buffer_remaining_size s then
         (Some (fixed_buffer_next_p s),
          s\<lparr>fixed_buffer_next_p := fixed_buffer_next_p s + request_size,
            fixed_buffer_remaining_size := fixed_buffer_remaining_size s - request_size\<rparr>)
       else
        (let request_size = (header + n) mod 2 ^ 32 in
         case alloc_block A (fallback_heap s) request_size of
           (Some (p, g), h) \<Rightarrow>
             (Some (p + header), s\<lparr>fallback_heap := h, fallback_allocations := (p, request_size) # fallback_allocations s\<rparr>)
         | (None, h) \<Rightarrow> (None, s\<lparr>fallback_heap := h\<rparr>))))"

definition jmem_scratch_allocator_free :: "'h scratch_allocator \<Rightarrow> addr \<Rightarrow> nat \<Rightarrow> 'h scratch_allocator" where
  "jmem_scratch_allocator_free s p n = s"

definition jmem_scratch_allocator_init :: "addr \<Rightarrow> nat \<Rightarrow> 'h \<Rightarrow> 'h scratch_allocator" where
  "jmem_scratch_allocator_init buffer_p buffer_size h =
    \<lparr>refs = 0, fixed_buffer_p = buffer_p, fixed_buffer_size = buffer_size,
     fixed_buffer_next_p = (if buffer_size > 0 then buffer_p else 0),
     fixed_buffer_remaining_size = (if buffer_size > 0 then buffer_size else 0),
     fallback_allocations = [], fallback_heap = h\<rparr>"

primrec free_list_blocks :: "'h allocator \<Rightarrow> (addr \<times> nat) list \<Rightarrow> 'h \<Rightarrow> 'h" where
  "free_list_blocks A [] h = h"
| "free_list_blocks A (b # bs) h = free_list_blocks A bs (free_block A h (fst b) (snd b))"

definition jmem_scratch_allocator_free_allocations :: "'h allocator \<Rightarrow> 'h scratch_allocator \<Rightarrow> 'h scratch_allocator" where
  "jmem_scratch_allocator_free_allocations A s =
    s\<lparr>fallback_heap := free_list_blocks A (fallback_allocations s) (fallback_heap s), fallback_allocations := []\<rparr>"

definition jmem_scratch_allocator_reset :: "'h allocator \<Rightarrow> 'h scratch_allocator \<Rightarrow> 'h scratch_allocator" where
  "jmem_scratch_allocator_reset A s =
    jmem_scratch_allocator_free_allocations A
      (if fixed_buffer_size s \<noteq> 0
       then s\<lparr>fixed_buffer_next_p := fixed_buffer_p s, fixed_buffer_remaining_size := fixed_buffer_size s\<rparr>
       else s)"

definition jmem_scratch_allocator_deinit :: "'h allocator \<Rightarrow> 'h scratch_allocator \<Rightarrow> 'h scratch_allocator" where
  "jmem_scratch_allocator_deinit A s = jmem_scratch_allocator_free_allocations A (s\<lparr>fixed_buffer_size := 0\<rparr>)"

definition jmem_scratch_allocator_acquire :: "'h scratch_allocator \<Rightarrow> 'h scratch_allocator" where
  "jmem_scratch_allocator_acquire s = s\<lparr>refs := refs s + 1\<rparr>"

definition jmem_scratch_allocator_release :: "'h allocator \<Rightarrow> 'h scratch_allocator \<Rightarrow> 'h scratch_allocator" where
  "jmem_scratch_allocator_release A s =
    (let s = s\<lparr>refs := refs s - 1\<rparr>
     in if refs s = 0 then jmem_scratch_allocator_reset A s else s)"

text \<open>A sequence of requests, with the pieces handed out.\<close>

primrec scratch_allocs ::
  "'h allocator \<Rightarrow> nat \<Rightarrow> nat list \<Rightarrow> 'h scratch_allocator \<Rightarrow> (addr \<times> nat) list \<times> 'h scratch_allocator" where
  "scratch_allocs A header [] s = ([], s)"
| "scratch_allocs A header (n # ns) s =
    (case jmem_scratch_allocator_alloc A header s n of
       (Some p, s) \<Rightarrow> (case scratch_allocs A header ns s of (ps, s) \<Rightarrow> ((p, n) # ps, s))
     | (None, s) \<Rightarrow> scratch_allocs A header ns s)"

section \<open>Compressed pointers\<close>

text \<open>
  A pointer into the heap, relative to its start, is stored as a number of \<open>w\<close> bits (16 or 32) in units of 8
  bytes. A tagged pointer has three more bits for the tag.
\<close>

definition jmem_compress_pointer :: "nat \<Rightarrow> addr \<Rightarrow> nat" where
  "jmem_compress_pointer w p = p div 8 mod 2 ^ w"

definition jmem_decompress_pointer :: "nat \<Rightarrow> addr" where
  "jmem_decompress_pointer cp = cp * 8"

definition SET_POINTER_TAG :: "nat \<Rightarrow> addr \<Rightarrow> u32 \<Rightarrow> u32" where
  "SET_POINTER_TAG w p tag = push_bit 3 (of_nat (jmem_compress_pointer w p)) OR tag"

definition GET_POINTER_FROM_POINTER_TAG :: "u32 \<Rightarrow> addr" where
  "GET_POINTER_FROM_POINTER_TAG cp = jmem_decompress_pointer (unat (drop_bit 3 (cp AND NOT 7)))"

definition GET_POINTER_TAG_BITS :: "u32 \<Rightarrow> u32" where
  "GET_POINTER_TAG_BITS cp = cp AND 7"

section \<open>Lemmas\<close>

lemma ALIGNUP_bounds:
  assumes "n + 7 < 2 ^ 32"
  shows "n \<le> ALIGNUP n" "8 dvd ALIGNUP n"
  using assms by (auto simp: ALIGNUP_def)

text \<open>
  The pieces in the fixed buffer fill it from its start. The fallback allocations are blocks of the
  fallback heap beside the blocks \<open>B\<close> of its other clients.
\<close>

definition scratch_inv :: "('h \<Rightarrow> (addr \<rightharpoonup> nat) \<Rightarrow> bool) \<Rightarrow> (addr \<rightharpoonup> nat) \<Rightarrow> 'h scratch_allocator \<Rightarrow> bool" where
  "scratch_inv holds B s \<longleftrightarrow>
    fixed_buffer_remaining_size s \<le> fixed_buffer_size s \<and>
    (0 < fixed_buffer_remaining_size s \<longrightarrow> fixed_buffer_next_p s + fixed_buffer_remaining_size s = fixed_buffer_p s + fixed_buffer_size s) \<and>
    distinct (map fst (fallback_allocations s)) \<and> (\<forall>b\<in>set (fallback_allocations s). B (fst b) = None) \<and>
    holds (fallback_heap s) (B ++ map_of (fallback_allocations s))"

text \<open>A piece that lies in the fixed buffer, not below \<open>lo\<close>, or in a fallback allocation, behind the header.\<close>

definition in_buffer :: "'h scratch_allocator \<Rightarrow> addr \<Rightarrow> addr \<times> nat \<Rightarrow> bool" where
  "in_buffer s lo x \<longleftrightarrow> lo \<le> fst x \<and> fst x + snd x \<le> fixed_buffer_p s + fixed_buffer_size s"

definition in_fallback :: "nat \<Rightarrow> 'h scratch_allocator \<Rightarrow> addr \<times> nat \<Rightarrow> bool" where
  "in_fallback header s x \<longleftrightarrow> (\<exists>b\<in>set (fallback_allocations s). fst x = fst b + header \<and> header + snd x = snd b)"

lemma in_fallback_mono: "set (fallback_allocations s) \<subseteq> set (fallback_allocations s') \<Longrightarrow> in_fallback header s x \<Longrightarrow> in_fallback header s' x"
  by (auto simp: in_fallback_def)

context block_heap
begin

lemma scratch_alloc_inv:
  assumes inv: "scratch_inv holds B s" and n: "n + 7 < 2 ^ 32" "header + n < 2 ^ 32"
    and al: "jmem_scratch_allocator_alloc A header s n = (r, s')"
  shows "scratch_inv holds B s' \<and> fixed_buffer_p s' = fixed_buffer_p s \<and> fixed_buffer_size s' = fixed_buffer_size s \<and> refs s' = refs s \<and>
    set (fallback_allocations s) \<subseteq> set (fallback_allocations s') \<and> fixed_buffer_next_p s \<le> fixed_buffer_next_p s' \<and>
    (case r of None \<Rightarrow> True | Some p \<Rightarrow>
      in_fallback header s' (p, n) \<or> in_buffer s (fixed_buffer_next_p s) (p, n) \<and> p + n \<le> fixed_buffer_next_p s')"
proof (cases "n = 0")
  case True
  then show ?thesis using inv al by (auto simp: jmem_scratch_allocator_alloc_def)
next
  case False
  note up = ALIGNUP_bounds [OF n(1)]
  show ?thesis
  proof (cases "ALIGNUP n \<le> fixed_buffer_remaining_size s")
    case True
    then have "0 < fixed_buffer_remaining_size s" using up False by simp
    then show ?thesis
      using inv al True False up by (auto simp: jmem_scratch_allocator_alloc_def Let_def scratch_inv_def in_buffer_def)
  next
    case full: False
    obtain r0 h where a: "alloc_block A (fallback_heap s) (header + n) = (r0, h)" by fastforce
    have al': "(r, s') = (case r0 of Some (p, g) \<Rightarrow>
        (Some (p + header), s\<lparr>fallback_heap := h, fallback_allocations := (p, header + n) # fallback_allocations s\<rparr>)
      | None \<Rightarrow> (None, s\<lparr>fallback_heap := h\<rparr>))"
      using al a full False n(2) by (auto simp: jmem_scratch_allocator_alloc_def Let_def split: option.splits)
    let ?B = "B ++ map_of (fallback_allocations s)"
    have h: "holds (fallback_heap s) ?B" using inv by (simp add: scratch_inv_def)
    have pos: "0 < header + n" using False by simp
    show ?thesis
    proof (cases r0)
      case None
      then show ?thesis using al' inv alloc_none [OF h pos] a by (auto simp: scratch_inv_def)
    next
      case (Some pg)
      obtain p g where pg: "pg = (p, g)" by fastforce
      note q = a [unfolded Some pg]
      have new: "p \<notin> dom ?B" by (rule alloc_fresh [OF h pos q])
      have "holds h (?B(p \<mapsto> header + n))" by (rule alloc_holds [OF h pos q])
      then have "holds h (B ++ map_of ((p, header + n) # fallback_allocations s))" by (simp only: map_of.simps map_add_upd fst_conv snd_conv)
      moreover have "B p = None" "p \<notin> fst ` set (fallback_allocations s)"
        using new by (auto simp: dom_map_of_conv_image_fst)
      ultimately have "scratch_inv holds B (s\<lparr>fallback_heap := h, fallback_allocations := (p, header + n) # fallback_allocations s\<rparr>)"
        using inv by (simp add: scratch_inv_def)
      then show ?thesis using al' Some pg by (auto simp: in_fallback_def)
    qed
  qed
qed

lemma scratch_allocs_inv:
  assumes "scratch_inv holds B s" "\<forall>n\<in>set ns. n + 7 < 2 ^ 32 \<and> header + n < 2 ^ 32" "scratch_allocs A header ns s = (ps, s')"
  shows "scratch_inv holds B s' \<and> fixed_buffer_p s' = fixed_buffer_p s \<and> fixed_buffer_size s' = fixed_buffer_size s \<and> refs s' = refs s \<and>
    set (fallback_allocations s) \<subseteq> set (fallback_allocations s') \<and>
    (\<forall>x\<in>set ps. in_fallback header s' x \<or> in_buffer s (fixed_buffer_next_p s) x) \<and>
    sorted_wrt (\<lambda>x y. in_fallback header s' x \<or> in_fallback header s' y \<or> fst x + snd x \<le> fst y) ps"
  using assms
proof (induction ns arbitrary: s ps)
  case Nil
  then show ?case by simp
next
  case (Cons n ns)
  obtain r s1 where al: "jmem_scratch_allocator_alloc A header s n = (r, s1)" by fastforce
  have "n + 7 < 2 ^ 32" "header + n < 2 ^ 32" using Cons.prems(2) by auto
  note one = scratch_alloc_inv [OF Cons.prems(1) this al]
  obtain ps1 where rest: "scratch_allocs A header ns s1 = (ps1, s')" "ps = (case r of None \<Rightarrow> ps1 | Some p \<Rightarrow> (p, n) # ps1)"
    using Cons.prems(3) al by (auto split: option.splits prod.splits)
  have "scratch_inv holds B s1" "\<forall>n\<in>set ns. n + 7 < 2 ^ 32 \<and> header + n < 2 ^ 32" using one Cons.prems(2) by auto
  note ih = Cons.IH [OF this rest(1)]
  have later: "in_fallback header s' x \<or> in_buffer s (fixed_buffer_next_p s) x" if "x \<in> set ps1" for x
    using ih that one by (fastforce simp: in_buffer_def)
  show ?case
  proof (cases r)
    case None
    then show ?thesis using ih one later rest(2) by auto
  next
    case (Some p)
    have first: "in_fallback header s' (p, n) \<or> in_buffer s (fixed_buffer_next_p s) (p, n) \<and> p + n \<le> fixed_buffer_next_p s1"
      using one Some ih in_fallback_mono [of s1 s' header "(p, n)"] by auto
    have "in_fallback header s' (p, n) \<or> in_fallback header s' y \<or> p + n \<le> fst y" if "y \<in> set ps1" for y
      using first ih that by (force simp: in_buffer_def)
    then show ?thesis using ih one later first rest(2) Some by auto
  qed
qed

lemma free_list_blocks_holds:
  assumes "holds h (B ++ map_of bs)" "distinct (map fst bs)" "\<forall>b\<in>set bs. B (fst b) = None"
  shows "holds (free_list_blocks A bs h) B"
  using assms
proof (induction bs arbitrary: h)
  case Nil
  then show ?case by simp
next
  case (Cons b bs)
  have nb: "B (fst b) = None" "fst b \<notin> fst ` set bs" using Cons.prems(2,3) by auto
  have eq: "(B ++ map_of (b # bs))(fst b := None) = B ++ map_of bs"
    using nb map_of_eq_None_iff [of bs "fst b"] by (cases b) (auto simp: fun_eq_iff map_add_def split: option.splits)
  have "(B ++ map_of (b # bs)) (fst b) = Some (snd b)" by (cases b) simp
  from free_holds [OF Cons.prems(1) this] have "holds (free_block A h (fst b) (snd b)) (B ++ map_of bs)" unfolding eq .
  then show ?case using Cons by auto
qed

lemma free_allocations_holds:
  assumes "scratch_inv holds B s"
  shows "holds (fallback_heap (jmem_scratch_allocator_free_allocations A s)) B"
  using assms free_list_blocks_holds [of "fallback_heap s" B "fallback_allocations s"]
  by (simp add: scratch_inv_def jmem_scratch_allocator_free_allocations_def)

lemma release_all:
  assumes "scratch_inv holds B s" "refs s = 1"
  shows "holds (fallback_heap (jmem_scratch_allocator_release A s)) B \<and> fallback_allocations (jmem_scratch_allocator_release A s) = [] \<and>
    refs (jmem_scratch_allocator_release A s) = 0 \<and> scratch_inv holds B (jmem_scratch_allocator_release A s) \<and>
    (0 < fixed_buffer_size s \<longrightarrow> fixed_buffer_remaining_size (jmem_scratch_allocator_release A s) = fixed_buffer_size s)"
proof -
  let ?s = "if fixed_buffer_size s \<noteq> 0
    then s\<lparr>refs := 0, fixed_buffer_next_p := fixed_buffer_p s, fixed_buffer_remaining_size := fixed_buffer_size s\<rparr>
    else s\<lparr>refs := 0\<rparr>"
  have "scratch_inv holds B ?s" using assms(1) by (auto simp: scratch_inv_def)
  note h = free_allocations_holds [OF this]
  have eq: "jmem_scratch_allocator_release A s = jmem_scratch_allocator_free_allocations A ?s"
    using assms(2) by (simp add: jmem_scratch_allocator_release_def jmem_scratch_allocator_reset_def)
  show ?thesis
    using h assms(1) unfolding eq by (auto simp: jmem_scratch_allocator_free_allocations_def scratch_inv_def)
qed

end

lemma compress_exact: "p < 2 ^ (w + 3) \<Longrightarrow> jmem_compress_pointer w p = p div 8"
  by (simp add: jmem_compress_pointer_def power_add less_mult_imp_div_less)

lemma tagged_pointer:
  assumes "unat tag < 8" "k < 2 ^ 29"
  shows "unat (push_bit 3 (of_nat k) OR tag :: u32) = 8 * k + unat tag"
proof -
  have k: "unat (push_bit 3 (of_nat k :: u32)) = 8 * k" using assms(2) by (simp add: unat_push_bit unat_of_nat)
  have "push_bit 3 (of_nat k :: u32) AND tag = 0"
  proof (rule bit_word_eqI)
    fix i assume "i < LENGTH(32)"
    have "take_bit 3 tag = tag" using assms(1) by (simp add: word_eq_unat unat_take_bit)
    then have "\<not> bit tag i" if "3 \<le> i" using that by (metis bit_take_bit_iff not_le)
    then show "bit (push_bit 3 (of_nat k :: u32) AND tag) i = bit (0 :: u32) i" by (auto simp: bit_simps)
  qed
  then have "push_bit 3 (of_nat k) OR tag = push_bit 3 (of_nat k) + tag" by (simp add: disjunctive_add_eq_or)
  moreover have "8 * k + unat tag < 2 ^ 32" using assms by simp
  ultimately show ?thesis using k by (simp add: unat_word_ariths)
qed

section \<open>Properties\<close>

text \<open>
  (C20) A sequence of requests to the scratch allocator: every piece handed out lies in the free part of the
  fixed buffer, or is the payload of a fallback allocation of the right size; the pieces in the buffer follow each other
  without overlap, and the fallback allocations are blocks of the fallback heap.
\<close>

theorem scratch_alloc_pieces:
  assumes "block_heap A holds" "scratch_inv holds B s" "\<forall>n\<in>set ns. n + 7 < 2 ^ 32 \<and> header + n < 2 ^ 32"
    and "scratch_allocs A header ns s = (ps, s')"
  shows "scratch_inv holds B s' \<and> (\<forall>x\<in>set ps. in_fallback header s' x \<or> in_buffer s (fixed_buffer_next_p s) x) \<and>
    sorted_wrt (\<lambda>x y. in_fallback header s' x \<or> in_fallback header s' y \<or> fst x + snd x \<le> fst y) ps"
  using block_heap.scratch_allocs_inv [OF assms] by blast

text \<open>A scratch allocator with a buffer of 16 bytes in front of the small heap.\<close>

definition tiny_scratch :: "(addr \<times> nat) list jmem_context scratch_allocator" where
  "tiny_scratch = jmem_scratch_allocator_acquire (jmem_scratch_allocator_init 1000 16 (jmem_heap_init tiny_heap))"

lemma tiny_scratch_inv: "scratch_inv (heap_holds map_of {}) Map.empty tiny_scratch"
  using tiny_heap_holds
  by (simp add: scratch_inv_def tiny_scratch_def jmem_scratch_allocator_init_def jmem_scratch_allocator_acquire_def)

theorem scratch_alloc_pieces_witness:
  "scratch_inv (heap_holds map_of {}) Map.empty (snd (scratch_allocs (jmem_allocator list_gc) 16 [5, 8, 40] tiny_scratch))"
  using scratch_alloc_pieces [OF list_gc.is_block_heap tiny_scratch_inv, of "[5, 8, 40]" 16,
      where ps = "fst (scratch_allocs (jmem_allocator list_gc) 16 [5, 8, 40] tiny_scratch)"
        and s' = "snd (scratch_allocs (jmem_allocator list_gc) 16 [5, 8, 40] tiny_scratch)"]
  by (simp del: scratch_allocs.simps)

text \<open>
  (C21) When the last user releases the scratch allocator, every fallback allocation has been given back to
  the heap, which holds exactly the blocks of its other clients again, and the whole buffer is free.
\<close>

theorem scratch_release:
  assumes "block_heap A holds" "scratch_inv holds B s" "refs s = 1"
  shows "holds (fallback_heap (jmem_scratch_allocator_release A s)) B \<and> fallback_allocations (jmem_scratch_allocator_release A s) = [] \<and>
    refs (jmem_scratch_allocator_release A s) = 0 \<and> scratch_inv holds B (jmem_scratch_allocator_release A s) \<and>
    (0 < fixed_buffer_size s \<longrightarrow> fixed_buffer_remaining_size (jmem_scratch_allocator_release A s) = fixed_buffer_size s)"
  using block_heap.release_all [OF assms] .

theorem scratch_release_witness:
  "heap_holds map_of {} (fallback_heap (jmem_scratch_allocator_release (jmem_allocator list_gc) tiny_scratch)) Map.empty"
  using scratch_release [OF list_gc.is_block_heap tiny_scratch_inv]
  by (simp add: tiny_scratch_def jmem_scratch_allocator_init_def jmem_scratch_allocator_acquire_def)

text \<open>
  Rounding up the size of a request wraps around: a request of \<open>2^32 - 1\<close> bytes is taken for one of 0 bytes
  and answered with a pointer to the free part of the buffer, in every state.
\<close>

lemma scratch_alloc_wraps:
  "jmem_scratch_allocator_alloc A header s 0xFFFFFFFF = (Some (fixed_buffer_next_p s), s)"
  by (simp add: jmem_scratch_allocator_alloc_def ALIGNUP_def)

text \<open>
  (C40) Compressed pointers: every block of the heap has a nonzero compressed pointer, from which its address is
  restored, also with a tag in the low bits, if the heap is not larger than what the pointers can address.
\<close>

theorem pointer_roundtrip:
  assumes "heap_holds owned R c B" "B p = Some n" "vm_heap_size c \<le> 2 ^ (w + 3)" "unat tag < 8"
  shows "jmem_compress_pointer w p \<noteq> 0 \<and> jmem_decompress_pointer (jmem_compress_pointer w p) = p \<and>
    GET_POINTER_FROM_POINTER_TAG (SET_POINTER_TAG w p tag) = p \<and> GET_POINTER_TAG_BITS (SET_POINTER_TAG w p tag) = tag"
proof -
  have inv: "jmem_inv R c (B ++ owned (collector c))" using assms(1) by (simp add: heap_holds_def)
  note b = block_in_area [OF inv holds_block [OF assms(1,2)]]
  have "0 < n" using inv holds_block [OF assms(1,2)] by (simp add: jmem_inv_def)
  then have "p \<in> owned_bytes p n" using owned_bytes_covers [of p n] by auto
  then have p: "8 \<le> p" "p < vm_heap_size c" "8 dvd p" using b by auto
  have "vm_heap_size c \<le> 0xffffffff" using inv by (auto simp: jmem_inv_def heap_inv_def free_list_def)
  then have k: "p div 8 < 2 ^ 29" using p by simp
  have cp: "jmem_compress_pointer w p = p div 8" using p(2) assms(3) by (intro compress_exact) linarith
  let ?t = "SET_POINTER_TAG w p tag"
  have t: "unat ?t = 8 * (p div 8) + unat tag" using tagged_pointer [OF assms(4) k] by (simp add: SET_POINTER_TAG_def cp)
  have m7: "(7 :: u32) = mask 3" by (simp add: mask_eq_exp_minus_1)
  have "unat (GET_POINTER_TAG_BITS ?t) = unat tag" using t assms(4) by (simp add: GET_POINTER_TAG_BITS_def m7 unat_and_mask)
  moreover have "unat (drop_bit 3 (?t AND NOT 7)) = p div 8"
    unfolding m7 unat_drop_bit unat_and_not_mask using t assms(4) by simp
  ultimately show ?thesis
    using p cp by (auto simp: GET_POINTER_FROM_POINTER_TAG_def jmem_decompress_pointer_def word_eq_unat)
qed

theorem pointer_roundtrip_witness: "jmem_decompress_pointer (jmem_compress_pointer 16 8) = 8"
proof -
  have "vm_heap_size tiny_used \<le> 2 ^ (16 + 3)" by (simp add: tiny_used_def jmem_heap_init_def tiny_heap_def)
  from pointer_roundtrip [OF tiny_used_holds _ this, of 8 40 0] show ?thesis by simp
qed

end
