(* ===== verification/Line_Info.thy ===== *)
theory Line_Info
  imports Jjs_Prelude
begin

text \<open>
  Line information: the positions in the source text that belong to byte code,
  \<open>src/jjs-core/parser/js/js-parser-line-info-create.c\<close> and \<open>src/jjs-core/ecma/base/ecma-line-info.c\<close>.

  While the parser emits byte code it appends positions to a list of pages; at the end they are packed into one buffer of chunks, which
  is searched when a stack trace is made. Buffers are lists of bytes, a pointer into a buffer is the rest of it; \<open>None\<close> is a read
  behind the end. All numbers are 32-bit.
\<close>

section \<open>Numbers\<close>

abbreviation (input) ECMA_LINE_INFO_INCREASE :: u32 where "ECMA_LINE_INFO_INCREASE \<equiv> 0"
abbreviation (input) ECMA_LINE_INFO_DECREASE :: u32 where "ECMA_LINE_INFO_DECREASE \<equiv> 1"
abbreviation (input) ECMA_LINE_INFO_HAS_LINE :: u32 where "ECMA_LINE_INFO_HAS_LINE \<equiv> 1"
abbreviation (input) ECMA_LINE_INFO_COLUMN_DEFAULT :: u32 where "ECMA_LINE_INFO_COLUMN_DEFAULT \<equiv> 127"
abbreviation (input) ECMA_LINE_INFO_VLQ_CONTINUE :: "'a::len word" where "ECMA_LINE_INFO_VLQ_CONTINUE \<equiv> 0x80"
abbreviation (input) ECMA_LINE_INFO_VLQ_MASK :: "'a::len word" where "ECMA_LINE_INFO_VLQ_MASK \<equiv> 0x7F"
abbreviation (input) ECMA_LINE_INFO_ENCODE_TWO_BYTE :: "'a::len word" where "ECMA_LINE_INFO_ENCODE_TWO_BYTE \<equiv> 254"
abbreviation (input) ECMA_LINE_INFO_ENCODE_VLQ :: "'a::len word" where "ECMA_LINE_INFO_ENCODE_VLQ \<equiv> 255"
abbreviation (input) ECMA_LINE_INFO_ENCODE_VLQ_MIN :: u32 where "ECMA_LINE_INFO_ENCODE_VLQ_MIN \<equiv> 510"
abbreviation (input) ECMA_LINE_INFO_STREAM_VALUE_COUNT_MAX :: nat where "ECMA_LINE_INFO_STREAM_VALUE_COUNT_MAX \<equiv> 48"
abbreviation (input) ECMA_LINE_INFO_STREAM_SIZE_MIN :: nat where "ECMA_LINE_INFO_STREAM_SIZE_MIN \<equiv> 95"
abbreviation (input) PARSER_LINE_INFO_STREAM_SIZE_LIMIT :: nat where "PARSER_LINE_INFO_STREAM_SIZE_LIMIT \<equiv> 337"

text \<open>The bytes are written from the last to the first.\<close>

function vlq_write :: "u32 \<Rightarrow> u8 list \<Rightarrow> u8 list" where
  "vlq_write v buffer =
    (let buffer = ucast (v OR ECMA_LINE_INFO_VLQ_CONTINUE) # buffer; v = drop_bit 7 v
     in if v > 0 then vlq_write v buffer else buffer)"
  by pat_completeness auto
termination
proof (relation "measure (\<lambda>(v, buffer). unat v)", goal_cases)
  case (2 v buffer b v')
  then have "0 < unat v div 128" by (simp add: word_less_unat unat_simps)
  then have "unat v div 128 < unat v" by (intro div_less_dividend) (auto intro: gr0I)
  with 2 show ?case by (simp add: unat_simps)
qed simp

definition parser_line_info_encode_vlq :: "u32 \<Rightarrow> u8 list" where
  "parser_line_info_encode_vlq v =
    (if v \<le> ECMA_LINE_INFO_VLQ_MASK then [ucast v]
     else (let buffer = vlq_write v [] in buffer[length buffer - 1 := last buffer AND ECMA_LINE_INFO_VLQ_MASK]))"

definition parser_line_info_encode_small :: "u32 \<Rightarrow> u8 list" where
  "parser_line_info_encode_small v =
    (if v < ECMA_LINE_INFO_ENCODE_TWO_BYTE then [ucast v]
     else if v < ECMA_LINE_INFO_ENCODE_VLQ_MIN then [ECMA_LINE_INFO_ENCODE_TWO_BYTE, ucast (v - ECMA_LINE_INFO_ENCODE_TWO_BYTE)]
     else ECMA_LINE_INFO_ENCODE_VLQ # parser_line_info_encode_vlq (v - ECMA_LINE_INFO_ENCODE_VLQ_MIN))"

definition parser_line_info_difference_get :: "u32 \<Rightarrow> u32 \<Rightarrow> u32" where
  "parser_line_info_difference_get current_value prev_value =
    (let result = current_value - prev_value - 1
     in if result \<le> drop_bit 1 0xFFFFFFFF then push_bit 1 result OR ECMA_LINE_INFO_INCREASE
        else push_bit 1 (0xFFFFFFFF - result) OR ECMA_LINE_INFO_DECREASE)"

fun decode_vlq_loop :: "u32 \<Rightarrow> u8 list \<Rightarrow> (u32 \<times> u8 list) option" where
  "decode_vlq_loop v [] = None"
| "decode_vlq_loop v (b # source) =
    (let v = push_bit 7 v OR ucast (b AND ECMA_LINE_INFO_VLQ_MASK)
     in if b AND ECMA_LINE_INFO_VLQ_CONTINUE \<noteq> 0 then decode_vlq_loop v source else Some (v, source))"

definition ecma_line_info_decode_vlq :: "u8 list \<Rightarrow> (u32 \<times> u8 list) option" where
  "ecma_line_info_decode_vlq source = decode_vlq_loop 0 source"

definition ecma_line_info_decode_small :: "u8 list \<Rightarrow> (u32 \<times> u8 list) option" where
  "ecma_line_info_decode_small source =
    (case source of
       [] \<Rightarrow> None
     | t # source \<Rightarrow>
        if t < ECMA_LINE_INFO_ENCODE_TWO_BYTE then Some (ucast t, source)
        else if t = ECMA_LINE_INFO_ENCODE_TWO_BYTE then
          (case source of [] \<Rightarrow> None | b # source \<Rightarrow> Some (ucast b + ECMA_LINE_INFO_ENCODE_TWO_BYTE, source))
        else map_option (apfst (\<lambda>v. v + ECMA_LINE_INFO_ENCODE_VLQ_MIN)) (ecma_line_info_decode_vlq source))"

definition ecma_line_info_difference_update :: "u32 \<Rightarrow> u32 \<Rightarrow> u32" where
  "ecma_line_info_difference_update current_value difference_value =
    (if difference_value AND 1 = ECMA_LINE_INFO_INCREASE then current_value + drop_bit 1 difference_value + 1
     else current_value - drop_bit 1 difference_value)"

section \<open>Search\<close>

lemma decode_vlq_loop_length: "decode_vlq_loop v source = Some (r, rest) \<Longrightarrow> length rest < length source"
  by (induction v source rule: decode_vlq_loop.induct) (fastforce simp: Let_def split: if_splits)+

lemma decode_vlq_length: "ecma_line_info_decode_vlq source = Some (r, rest) \<Longrightarrow> length rest < length source"
  unfolding ecma_line_info_decode_vlq_def by (rule decode_vlq_loop_length)

lemma decode_small_length: "ecma_line_info_decode_small source = Some (r, rest) \<Longrightarrow> length rest < length source"
  by (fastforce simp: ecma_line_info_decode_small_def split: list.splits if_splits dest: decode_vlq_length)

text \<open>The chunk that belongs to an offset: the line, the offset at which it starts and its stream.\<close>

function find_chunk :: "u8 list \<Rightarrow> u32 \<Rightarrow> u32 \<Rightarrow> u32 \<Rightarrow> (u32 \<times> u32 \<times> u8 list) option" where
  "find_chunk line_info line end_offset offset =
    (case ecma_line_info_decode_vlq line_info of
       None \<Rightarrow> None
     | Some (v, line_info) \<Rightarrow>
        (let line = ecma_line_info_difference_update line v in
         case line_info of
           [] \<Rightarrow> None
         | n # stream \<Rightarrow>
            if n = 0 then Some (line, end_offset, stream)
            else (case ecma_line_info_decode_vlq (drop (unat n + (ECMA_LINE_INFO_STREAM_SIZE_MIN + 1)) line_info) of
              None \<Rightarrow> None
            | Some (v, size_p) \<Rightarrow>
               (let next_end_offset = end_offset + v
                in if offset < next_end_offset then Some (line, end_offset, stream)
                   else find_chunk size_p line next_end_offset offset))))"
  by pat_completeness auto
termination by (relation "measure (\<lambda>(line_info, line, end_offset, offset). length line_info)") (auto dest!: decode_vlq_length)

function find_item :: "u8 list \<Rightarrow> u32 \<Rightarrow> u32 \<Rightarrow> u32 \<Rightarrow> u32 \<Rightarrow> (u32 \<times> u32) option" where
  "find_item line_info line column end_offset offset =
    (case ecma_line_info_decode_small line_info of
       None \<Rightarrow> None
     | Some (end_offset_increase, line_info) \<Rightarrow>
        (case (if end_offset_increase AND ECMA_LINE_INFO_HAS_LINE \<noteq> 0
               then map_option (\<lambda>(v, line_info). (ecma_line_info_difference_update line v, ECMA_LINE_INFO_COLUMN_DEFAULT, line_info))
                 (ecma_line_info_decode_small line_info)
               else Some (line, column, line_info)) of
           None \<Rightarrow> None
         | Some (line, column, line_info) \<Rightarrow>
            (case ecma_line_info_decode_small line_info of
               None \<Rightarrow> None
             | Some (v, line_info) \<Rightarrow>
                (let end_offset_increase = drop_bit 1 end_offset_increase;
                     column = ecma_line_info_difference_update column v;
                     end_offset = end_offset + end_offset_increase
                 in if end_offset_increase \<noteq> 0 \<and> end_offset \<le> offset then find_item line_info line column end_offset offset
                    else Some (line, column)))))"
  by pat_completeness auto
termination
  by (relation "measure (\<lambda>(line_info, line, column, end_offset, offset). length line_info)")
    (auto dest!: decode_small_length split: if_splits)

definition ecma_line_info_get :: "u8 list \<Rightarrow> u32 \<Rightarrow> (u32 \<times> u32) option" where
  "ecma_line_info_get line_info offset =
    (case ecma_line_info_decode_vlq line_info of
       None \<Rightarrow> None
     | Some (_, line_info) \<Rightarrow>
        (case find_chunk line_info 1 0 offset of
           None \<Rightarrow> None
         | Some (line, end_offset, stream) \<Rightarrow> find_item stream line ECMA_LINE_INFO_COLUMN_DEFAULT end_offset offset))"

text \<open>The size of the block that is given back to the memory manager.\<close>

definition ecma_line_info_free :: "u8 list \<Rightarrow> nat option" where
  "ecma_line_info_free line_info =
    map_option (\<lambda>(total_length, source). unat total_length + (length line_info - length source)) (ecma_line_info_decode_vlq line_info)"

end
