(* ===== verification/Line_Info_Codec.thy ===== *)
theory Line_Info_Codec
  imports Line_Info
begin

text \<open>Numbers of \<open>Line_Info\<close>: decoding inverts encoding, and the sizes of the encodings.\<close>

declare vlq_write.simps [simp del]

text \<open>The digits of a number to the base 128, the first one first.\<close>

fun vlq_digits :: "nat \<Rightarrow> nat list" where
  "vlq_digits n = (if n < 128 then [n] else vlq_digits (n div 128) @ [n mod 128])"

declare vlq_digits.simps [simp del]

definition vlq_value :: "nat \<Rightarrow> nat list \<Rightarrow> nat" where
  "vlq_value n ds = foldl (\<lambda>n d. n * 128 + d) n ds"

lemma vlq_value_simps [simp]: "vlq_value n [] = n" "vlq_value n (d # ds) = vlq_value (n * 128 + d) ds"
  "vlq_value n (ds @ [d]) = vlq_value n ds * 128 + d"
  by (simp_all add: vlq_value_def)

lemma vlq_digits_value: "vlq_value 0 (vlq_digits n) = n"
  by (induction n rule: vlq_digits.induct) (subst vlq_digits.simps, simp)

lemma vlq_digits_less: "list_all (\<lambda>d. d < 128) (vlq_digits n)"
  by (induction n rule: vlq_digits.induct) (subst vlq_digits.simps, simp)

lemma vlq_digits_nonempty [simp]: "vlq_digits n \<noteq> []"
  by (subst vlq_digits.simps) simp

lemma vlq_digits_length: "n < 128 ^ k \<Longrightarrow> 0 < k \<Longrightarrow> length (vlq_digits n) \<le> k"
proof (induction k arbitrary: n)
  case (Suc k)
  show ?case
  proof (cases "n < 128")
    case True
    then show ?thesis by (subst vlq_digits.simps) simp
  next
    case False
    then have "0 < k" using Suc.prems(1) by (cases k) auto
    moreover have "n div 128 < 128 ^ k" using Suc.prems(1) by (simp add: div_less_iff_less_mult mult.commute)
    ultimately show ?thesis using Suc.IH False by (subst vlq_digits.simps) simp
  qed
qed simp

lemma vlq_value_mono: "n \<le> vlq_value n ds"
proof (induction ds arbitrary: n)
  case (Cons d ds)
  have "n \<le> n * 128 + d" by simp
  also note Cons.IH
  finally show ?case by simp
qed simp

definition vlq_byte :: "nat \<Rightarrow> u8" where
  "vlq_byte d = word_of_nat (d + 128)"

lemma take_bit_or_exp: "take_bit (Suc k) (n :: nat) OR 2 ^ k = 2 ^ k + take_bit k n"
proof -
  have "take_bit (Suc k) n OR 2 ^ k = 2 ^ k OR take_bit k n" by (rule bit_eqI) (auto simp: bit_simps less_Suc_eq)
  also have "\<dots> = 2 ^ k + take_bit k n" by (rule nat_or_plus [of k]) (simp_all add: take_bit_eq_mod)
  finally show ?thesis .
qed

lemma vlq_write_digits: "vlq_write v buffer = map vlq_byte (vlq_digits (unat v)) @ buffer"
proof (induction v buffer rule: vlq_write.induct)
  case (1 v buffer)
  have "unat (v OR 0x80) mod 256 = unat v mod 128 + 128"
  proof -
    have "take_bit 8 (unat (v OR 0x80)) = take_bit 8 (unat v) OR 2 ^ 7" by (simp add: unsigned_or_eq)
    also have "\<dots> = 2 ^ 7 + take_bit 7 (unat v)" using take_bit_or_exp [of 7 "unat v"] by simp
    finally show ?thesis by (simp add: take_bit_eq_mod)
  qed
  then have b: "ucast (v OR 0x80) = vlq_byte (unat v mod 128)" by (simp add: vlq_byte_def word_eq_unat unat_ucast unat_of_nat del: of_nat_add)
  show ?case
  proof (cases "drop_bit 7 v > 0")
    case True
    then have "\<not> unat v < 128" by (simp add: word_less_unat unat_simps)
    with 1 True b show ?thesis
      by (subst vlq_write.simps, subst vlq_digits.simps) (simp add: Let_def unat_simps)
  next
    case False
    then have "unat v < 128" by (simp add: word_less_unat unat_simps)
    with False b show ?thesis by (subst vlq_write.simps, subst vlq_digits.simps) (simp add: Let_def)
  qed
qed

lemma decode_byte:
  assumes "d < 128" "unat w * 128 + d < 2 ^ 32"
  shows "push_bit 7 w OR ucast (vlq_byte d AND 0x7F) = (word_of_nat (unat w * 128 + d) :: u32)" "vlq_byte d AND 0x80 \<noteq> 0"
    "push_bit 7 w OR ucast (word_of_nat d AND 0x7F :: u8) = (word_of_nat (unat w * 128 + d) :: u32)" "word_of_nat d AND 0x80 = (0 :: u8)"
proof -
  have m: "0x7F = (mask 7 :: u8)" by (simp add: mask_eq_exp_minus_1)
  have low: "unat (b AND 0x7F) = unat b mod 128" for b :: u8 unfolding m unat_and_mask by simp
  have u: "unat (vlq_byte d) = d + 128" "unat (word_of_nat d :: u8) = d" using assms(1) by (simp_all add: vlq_byte_def unat_of_nat del: of_nat_add)
  have val: "push_bit 7 w OR ucast b = (word_of_nat (unat w * 128 + d) :: u32)" if "unat (b :: u8) = d" for b
  proof -
    have p: "unat (push_bit 7 w) = unat w * 128" using assms(2) by (simp add: unat_simps)
    have c: "unat (ucast b :: u32) = d" using that assms(1) by (simp add: unat_ucast)
    have "unat (push_bit 7 w OR (ucast b :: u32)) = unat w * 128 + d"
      using unat_or_plus [of 7 "push_bit 7 w" "ucast b"] p c assms(1) by simp
    then show ?thesis using assms(2) by (simp add: word_eq_unat unat_of_nat del: of_nat_add of_nat_mult)
  qed
  show "push_bit 7 w OR ucast (vlq_byte d AND 0x7F) = (word_of_nat (unat w * 128 + d) :: u32)"
    "push_bit 7 w OR ucast (word_of_nat d AND 0x7F :: u8) = (word_of_nat (unat w * 128 + d) :: u32)"
    by (rule val, simp add: low u assms(1))+
  have bit: "b AND 0x80 = 0 \<longleftrightarrow> unat b < 128" for b :: u8 by (auto simp: word_eq_unat unat_simps)
  show "vlq_byte d AND 0x80 \<noteq> 0" "word_of_nat d AND 0x80 = (0 :: u8)" using assms(1) unfolding bit u by simp_all
qed

lemma decode_vlq_loop_digits:
  "list_all (\<lambda>d. d < 128) (ds @ [d]) \<Longrightarrow> vlq_value (unat w) (ds @ [d]) < 2 ^ 32 \<Longrightarrow>
    decode_vlq_loop w (map vlq_byte ds @ word_of_nat d # rest) = Some (word_of_nat (vlq_value (unat w) (ds @ [d])), rest)"
proof (induction ds arbitrary: w)
  case Nil
  then show ?case using decode_byte(3,4) [of d w] by (simp add: Let_def)
next
  case (Cons e ds)
  have "unat w * 128 + e \<le> vlq_value (unat w * 128 + e) (ds @ [d])" by (rule vlq_value_mono)
  then have lt: "unat w * 128 + e < 2 ^ 32" using Cons.prems(2) by simp
  then have u: "unat (word_of_nat (unat w * 128 + e) :: u32) = unat w * 128 + e" by (simp add: unat_of_nat del: of_nat_add of_nat_mult)
  have "decode_vlq_loop (word_of_nat (unat w * 128 + e)) (map vlq_byte ds @ word_of_nat d # rest) =
      Some (word_of_nat (vlq_value (unat w * 128 + e) (ds @ [d])), rest)"
    using Cons.IH [of "word_of_nat (unat w * 128 + e)"] Cons.prems unfolding u by simp
  then show ?case using decode_byte(1,2) [of e w] Cons.prems(1) lt by (simp add: Let_def)
qed

lemma encode_vlq_digits: "parser_line_info_encode_vlq v = map vlq_byte (butlast (vlq_digits (unat v))) @ [word_of_nat (last (vlq_digits (unat v)))]"
proof (cases "unat v < 128")
  case True
  then show ?thesis by (subst vlq_digits.simps, simp add: parser_line_info_encode_vlq_def word_le_unat) (simp add: vlq_digits.simps)
next
  case False
  let ?ds = "vlq_digits (unat v)"
  have d: "?ds = butlast ?ds @ [last ?ds]" by simp
  have "last ?ds < 128" using vlq_digits_less [of "unat v"] by (simp add: list_all_iff)
  then have "vlq_byte (last ?ds) AND 0x7F = word_of_nat (last ?ds)"
  proof -
    assume lt: "last ?ds < 128"
    have m: "0x7F = (mask 7 :: u8)" by (simp add: mask_eq_exp_minus_1)
    show ?thesis unfolding m using lt by (simp add: word_eq_unat unat_and_mask vlq_byte_def unat_of_nat del: of_nat_add)
  qed
  moreover have "vlq_write v [] = map vlq_byte (butlast ?ds) @ [vlq_byte (last ?ds)]" unfolding vlq_write_digits by (metis append_Nil2 d list.simps(8,9) map_append)
  moreover have "\<not> v \<le> 0x7F" using False by (simp add: word_le_unat)
  moreover have "length ?ds - 1 = length (map vlq_byte (butlast ?ds))" by simp
  ultimately show ?thesis by (simp add: parser_line_info_encode_vlq_def Let_def list_update_append)
qed

lemma decode_encode_vlq: "ecma_line_info_decode_vlq (parser_line_info_encode_vlq v @ rest) = Some (v, rest)"
proof -
  let ?ds = "vlq_digits (unat v)"
  have d: "butlast ?ds @ [last ?ds] = ?ds" by simp
  have "decode_vlq_loop 0 (map vlq_byte (butlast ?ds) @ word_of_nat (last ?ds) # rest) = Some (word_of_nat (vlq_value 0 ?ds), rest)"
    using decode_vlq_loop_digits [of "butlast ?ds" "last ?ds" 0 rest] vlq_digits_less [of "unat v"] unat_u32_less [of v]
    unfolding d by (simp add: vlq_digits_value)
  then show ?thesis by (simp add: ecma_line_info_decode_vlq_def encode_vlq_digits vlq_digits_value)
qed

lemma encode_vlq_length: "1 \<le> length (parser_line_info_encode_vlq v)" "length (parser_line_info_encode_vlq v) \<le> 5"
proof -
  have "length (parser_line_info_encode_vlq v) = length (vlq_digits (unat v))" by (simp add: encode_vlq_digits)
  moreover have "unat v < 128 ^ 5" using unat_u32_less [of v] by simp
  ultimately show "1 \<le> length (parser_line_info_encode_vlq v)" "length (parser_line_info_encode_vlq v) \<le> 5"
    using vlq_digits_length [of "unat v" 5] by (simp_all add: Suc_le_eq)
qed


lemma decode_encode_small: "ecma_line_info_decode_small (parser_line_info_encode_small v @ rest) = Some (v, rest)"
proof -
  consider "unat v < 254" | "254 \<le> unat v" "unat v < 510" | "510 \<le> unat v" by linarith
  then show ?thesis
  proof cases
    case 1
    then have "unat (ucast v :: u8) = unat v" by (simp add: unat_ucast)
    with 1 show ?thesis
      by (simp add: parser_line_info_encode_small_def ecma_line_info_decode_small_def word_less_unat word_eq_unat unat_ucast)
  next
    case 2
    then have "unat (v - 254) = unat v - 254" by (simp add: unat_sub word_le_unat)
    then have "(ucast (ucast (v - 254) :: u8) :: u32) = v - 254" using 2 by (simp add: word_eq_unat unat_ucast)
    with 2 show ?thesis by (simp add: parser_line_info_encode_small_def ecma_line_info_decode_small_def word_less_unat)
  next
    case 3
    then show ?thesis
      by (simp add: parser_line_info_encode_small_def ecma_line_info_decode_small_def word_less_unat decode_encode_vlq)
  qed
qed

lemma encode_small_length: "1 \<le> length (parser_line_info_encode_small v)" "length (parser_line_info_encode_small v) \<le> 6"
  using encode_vlq_length [of "v - 510"] by (simp_all add: parser_line_info_encode_small_def)

text \<open>A flag in the lowest bit, below a number.\<close>

lemma flag_unat: "unat (d :: u32) < 2 ^ 31 \<Longrightarrow> unat (push_bit 1 d OR of_bool p) = 2 * unat d + of_bool p"
proof -
  assume "unat d < 2 ^ 31"
  then have "unat (push_bit 1 d) = unat d * 2" by (simp add: unat_push_bit del: push_bit_Suc One_nat_def)
  moreover have "unat (of_bool p :: u32) = of_bool p" by simp
  ultimately show ?thesis using unat_or_plus [of 1 "push_bit 1 d" "of_bool p"] by (simp del: push_bit_Suc One_nat_def)
qed

lemma flag_number: "unat (d :: u32) < 2 ^ 31 \<Longrightarrow> drop_bit 1 (push_bit 1 d OR of_bool p) = d"
  unfolding word_eq_unat unat_drop_bit by (subst flag_unat) simp_all

lemma flag_bit: "(push_bit 1 (d :: u32) OR of_bool p) AND 1 = of_bool p"
  by (cases p; rule bit_eqI; simp add: bit_and_iff bit_or_iff bit_1_iff bit_push_bit_iff del: push_bit_Suc One_nat_def; fastforce?)

lemma difference_roundtrip: "ecma_line_info_difference_update prev (parser_line_info_difference_get current prev) = current"
proof -
  define r where "r = current - prev - 1"
  show ?thesis
  proof (cases "r \<le> drop_bit 1 0xFFFFFFFF")
    case True
    then have "unat r < 2 ^ 31" by (simp add: word_le_unat unat_simps)
    with True flag_number [of r False] flag_bit [of r False] show ?thesis
      by (simp add: parser_line_info_difference_get_def ecma_line_info_difference_update_def r_def Let_def)
  next
    case False
    then have "unat (0xFFFFFFFF - r) < 2 ^ 31" using unat_u32_less [of r]
      by (simp add: word_le_unat word_less_unat unat_simps unat_sub)
    with False flag_number [of "0xFFFFFFFF - r" True] flag_bit [of "0xFFFFFFFF - r" True] show ?thesis
      by (simp add: parser_line_info_difference_get_def ecma_line_info_difference_update_def r_def Let_def)
  qed
qed


section \<open>The two codes\<close>

text \<open>What the users of an encoding rely on.\<close>

locale number_code =
  fixes encode :: "u32 \<Rightarrow> u8 list" and decode :: "u8 list \<Rightarrow> (u32 \<times> u8 list) option"
  assumes decode_encode: "decode (encode v @ rest) = Some (v, rest)"
    and decode_shorter: "decode source = Some (v, rest) \<Longrightarrow> length rest < length source"
begin

lemma encode_nonempty: "encode v \<noteq> []"
  using decode_encode [of v "[]"] decode_shorter by fastforce

lemma encode_prefix_free: "encode v @ rest = encode w @ rest' \<longleftrightarrow> v = w \<and> rest = rest'"
  by (metis decode_encode option.inject prod.inject)

end

interpretation vlq: number_code parser_line_info_encode_vlq ecma_line_info_decode_vlq
  by unfold_locales (rule decode_encode_vlq, rule decode_vlq_length)

interpretation small: number_code parser_line_info_encode_small ecma_line_info_decode_small
  by unfold_locales (rule decode_encode_small, rule decode_small_length)

end
