(* ===== verification/Line_Info_Create.thy ===== *)
theory Line_Info_Create
  imports Line_Info_Codec
begin

text \<open>
  Recording and packing of line information, \<open>src/jjs-core/parser/js/js-parser-line-info-create.c\<close>.

  A page of recorded positions is the list of its used bytes; its counter \<open>bytes[0]\<close> is one more than their number. The iterator over
  the pages is the list of what is left to read, the empty list is the null pointer. Byte code pages are lists of bytes. The size
  of a pointer, which determines the sizes of the pages, is a parameter; \<open>None\<close> stands for a read or write that is not allowed.
  Allocations succeed.
\<close>

section \<open>Recording\<close>

definition PARSER_STACK_PAGE_SIZE :: "nat \<Rightarrow> nat" where
  "PARSER_STACK_PAGE_SIZE ptr = (if ptr > 4 then 128 else 64) - ptr"

definition PARSER_CBC_STREAM_PAGE_SIZE :: "nat \<Rightarrow> nat" where
  "PARSER_CBC_STREAM_PAGE_SIZE ptr = 64 - ptr"

record parser_line_info_data =
  li_pages :: "u8 list list"
  li_position :: u32
  li_line :: u32
  li_column :: u32

definition parser_line_info_append_number :: "nat \<Rightarrow> u32 \<Rightarrow> u8 list list \<Rightarrow> u8 list list" where
  "parser_line_info_append_number ptr v ps =
    (let buffer = parser_line_info_encode_vlq v; offset = 1 + length (last ps)
     in if offset + length buffer \<le> PARSER_STACK_PAGE_SIZE ptr then butlast ps @ [last ps @ buffer]
        else ps @ [buffer])"

text \<open>The part of \<open>parser_line_info_append\<close> behind the choice of the has-line bit.\<close>

definition line_info_store :: "nat \<Rightarrow> u32 \<Rightarrow> u32 \<Rightarrow> u32 \<Rightarrow> u32 \<Rightarrow> parser_line_info_data \<Rightarrow> parser_line_info_data" where
  "line_info_store ptr byte_code_size line column v li =
    (let v = v OR push_bit 1 (byte_code_size - li_position li);
         li = li\<lparr>li_pages := parser_line_info_append_number ptr v (li_pages li), li_position := byte_code_size\<rparr>;
         li = (if v AND ECMA_LINE_INFO_HAS_LINE \<noteq> 0
               then li\<lparr>li_pages := parser_line_info_append_number ptr (parser_line_info_difference_get line (li_line li)) (li_pages li),
                       li_line := line\<rparr>
               else li)
     in li\<lparr>li_pages := parser_line_info_append_number ptr (parser_line_info_difference_get column (li_column li)) (li_pages li),
           li_column := column\<rparr>)"

definition parser_line_info_append ::
  "nat \<Rightarrow> u32 \<Rightarrow> u32 \<Rightarrow> u32 \<Rightarrow> parser_line_info_data option \<Rightarrow> parser_line_info_data option" where
  "parser_line_info_append ptr byte_code_size line column line_info =
    (case line_info of
       Some li \<Rightarrow>
        if li_position li = byte_code_size \<or> li_line li = line \<and> li_column li = column then Some li
        else Some (line_info_store ptr byte_code_size line column (of_bool (line \<noteq> li_line li)) li)
     | None \<Rightarrow>
        Some (line_info_store ptr byte_code_size line column (of_bool (line \<noteq> 1))
          \<lparr>li_pages = [[]], li_position = 0, li_line = 1, li_column = 1\<rparr>))"

text \<open>The sizes of the blocks that are released: the first page with the \<open>parser_line_info_data_t\<close> before it, and the others.\<close>

definition PARSER_LINE_INFO_PAGE_SIZE :: "nat \<Rightarrow> nat" where
  "PARSER_LINE_INFO_PAGE_SIZE ptr = ptr + PARSER_STACK_PAGE_SIZE ptr"

definition PARSER_LINE_INFO_FIRST_PAGE_SIZE :: "nat \<Rightarrow> nat" where
  "PARSER_LINE_INFO_FIRST_PAGE_SIZE ptr = (ptr + 3 * 4 + (ptr - 1)) div ptr * ptr + PARSER_LINE_INFO_PAGE_SIZE ptr"

definition parser_line_info_free :: "nat \<Rightarrow> parser_line_info_data option \<Rightarrow> nat list" where
  "parser_line_info_free ptr line_info =
    (case line_info of
       None \<Rightarrow> []
     | Some li \<Rightarrow> PARSER_LINE_INFO_FIRST_PAGE_SIZE ptr # map (\<lambda>_. PARSER_LINE_INFO_PAGE_SIZE ptr) (tl (li_pages li)))"

section \<open>Reading what has been recorded\<close>

definition parser_line_info_iterator_get :: "u8 list list \<Rightarrow> (u32 \<times> u8 list list) option" where
  "parser_line_info_iterator_get it =
    (case it of
       [] \<Rightarrow> None
     | page # pages \<Rightarrow>
        (case ecma_line_info_decode_vlq page of
           None \<Rightarrow> None
         | Some (v, rest) \<Rightarrow> Some (v, if rest \<noteq> [] then rest # pages else pages)))"

text \<open>The variables \<open>iterator_\<dots>\<close> of \<open>parser_line_info_generate\<close> that only depend on the recorded positions and the byte code.\<close>

record line_info_iterator =
  it_pages :: "u8 list list"
  it_byte_code_page :: "u8 list list"
  it_page_offset :: u32
  it_base :: u32
  it_line :: u32
  it_column :: u32

definition page_byte :: "u8 list \<Rightarrow> nat \<Rightarrow> u32 option" where
  "page_byte page i = (if i < length page then Some (ucast (page ! i AND 0x7F)) else None)"

fun skip_byte_code_pages :: "nat \<Rightarrow> u8 list list \<Rightarrow> u32 \<Rightarrow> u32 \<Rightarrow> (u8 list list \<times> u32 \<times> u32) option" where
  "skip_byte_code_pages ptr [] page_offset base =
    (if unat page_offset \<ge> PARSER_CBC_STREAM_PAGE_SIZE ptr then None else Some ([], page_offset, base))"
| "skip_byte_code_pages ptr (page # pages) page_offset base =
    (if unat page_offset \<ge> PARSER_CBC_STREAM_PAGE_SIZE ptr
     then (case page_byte page (PARSER_CBC_STREAM_PAGE_SIZE ptr - 1) of
             None \<Rightarrow> None
           | Some relative_offset \<Rightarrow>
              skip_byte_code_pages ptr pages (page_offset - word_of_nat (PARSER_CBC_STREAM_PAGE_SIZE ptr)) (base + relative_offset))
     else Some (page # pages, page_offset, base))"

definition byte_code_offset :: "u8 list list \<Rightarrow> u32 \<Rightarrow> u32 \<Rightarrow> u32 option" where
  "byte_code_offset pages page_offset base =
    (if page_offset > 0
     then (case pages of [] \<Rightarrow> None | page # _ \<Rightarrow> map_option (\<lambda>r. base + r) (page_byte page (unat page_offset - 1)))
     else Some base)"

text \<open>The next position: its byte code offset, line and column.\<close>

definition line_info_next_entry ::
  "nat \<Rightarrow> line_info_iterator \<Rightarrow> ((u32 \<times> u32 \<times> u32) \<times> line_info_iterator) option" where
  "line_info_next_entry ptr it =
    (case parser_line_info_iterator_get (it_pages it) of
       None \<Rightarrow> None
     | Some (v, ps) \<Rightarrow>
        (let page_offset = it_page_offset it + drop_bit 1 v in
         case (if v AND 1 \<noteq> 0
               then map_option (apfst (ecma_line_info_difference_update (it_line it))) (parser_line_info_iterator_get ps)
               else Some (it_line it, ps)) of
           None \<Rightarrow> None
         | Some (line, ps) \<Rightarrow>
            (case parser_line_info_iterator_get ps of
               None \<Rightarrow> None
             | Some (v, ps) \<Rightarrow>
                (let column = ecma_line_info_difference_update (it_column it) v in
                 case skip_byte_code_pages ptr (it_byte_code_page it) page_offset (it_base it) of
                   None \<Rightarrow> None
                 | Some (page, page_offset, base) \<Rightarrow>
                    map_option
                      (\<lambda>offset. ((offset, line, column),
                        \<lparr>it_pages = ps, it_byte_code_page = page, it_page_offset = page_offset, it_base = base,
                         it_line = line, it_column = column\<rparr>))
                      (byte_code_offset page page_offset base)))))"

section \<open>Packing\<close>

text \<open>
  The other variables of \<open>parser_line_info_generate\<close>. The first run only computes the length of the data; in the second run the bytes
  are appended to the buffer and \<open>g_block_size_p\<close> is the position of the size byte of the current chunk.
\<close>

record line_info_state =
  g_last_byte_code_offset :: u32
  g_prev_line :: u32
  g_prev_column :: u32
  g_block_size_p :: "nat option"
  g_block_byte_code_offset :: u32
  g_block_prev_line :: u32
  g_stream_byte_code_offset :: u32
  g_stream_current_line :: u32
  g_stream_current_column :: u32
  g_stream_prev_line :: u32
  g_stream_prev_column :: u32
  g_stream_size :: nat
  g_stream_value_count :: nat
  g_total_length :: u32
  g_dst :: "u8 list"

definition line_info_put :: "bool \<Rightarrow> u8 list \<Rightarrow> line_info_state \<Rightarrow> line_info_state" where
  "line_info_put second bytes st =
    (if second then st\<lparr>g_dst := g_dst st @ bytes\<rparr> else st\<lparr>g_total_length := g_total_length st + word_of_nat (length bytes)\<rparr>)"

definition line_info_start_chunk :: "bool \<Rightarrow> u32 \<Rightarrow> u32 \<Rightarrow> line_info_state \<Rightarrow> line_info_state" where
  "line_info_start_chunk second line column st =
    (let buffer = parser_line_info_encode_vlq (parser_line_info_difference_get line (g_block_prev_line st));
         block_size = length (g_dst st) + length buffer;
         st = line_info_put second (buffer @ [0]) st
     in st\<lparr>g_block_size_p := Some block_size, g_block_prev_line := line, g_stream_current_line := line,
           g_stream_current_column := column, g_stream_prev_line := line,
           g_stream_prev_column := ECMA_LINE_INFO_COLUMN_DEFAULT, g_stream_size := 0, g_stream_value_count := 0\<rparr>)"

text \<open>The distance to the end of the current item with the has-line bit, and the line, when it changes, and the column of the item.\<close>

definition end_offset_bytes :: "u32 \<Rightarrow> bool \<Rightarrow> u8 list" where
  "end_offset_bytes increase has_line = parser_line_info_encode_small (push_bit 1 increase OR of_bool has_line)"

definition line_column_bytes :: "u32 \<Rightarrow> u32 \<Rightarrow> u32 \<Rightarrow> u32 \<Rightarrow> u8 list" where
  "line_column_bytes prev_line prev_column line column =
    (if prev_line \<noteq> line
     then parser_line_info_encode_small (parser_line_info_difference_get line prev_line) @
          parser_line_info_encode_small (parser_line_info_difference_get column ECMA_LINE_INFO_COLUMN_DEFAULT)
     else parser_line_info_encode_small (parser_line_info_difference_get column prev_column))"

definition line_info_emit_item :: "bool \<Rightarrow> u32 \<times> u32 \<times> u32 \<Rightarrow> line_info_state \<Rightarrow> line_info_state" where
  "line_info_emit_item second entry st =
    (case entry of (offset, line, column) \<Rightarrow>
     let st = st\<lparr>g_prev_line := line, g_prev_column := column, g_last_byte_code_offset := offset\<rparr> in
     case g_block_size_p st of
       None \<Rightarrow> line_info_start_chunk second line column st
     | Some block_size \<Rightarrow>
        (let block_buffer = end_offset_bytes (offset - g_stream_byte_code_offset st) (g_stream_prev_line st \<noteq> g_stream_current_line st);
             line_column = line_column_bytes (g_stream_prev_line st) (g_stream_prev_column st)
               (g_stream_current_line st) (g_stream_current_column st);
             st = st\<lparr>g_stream_byte_code_offset := offset, g_stream_prev_line := g_stream_current_line st,
               g_stream_prev_column := g_stream_current_column st, g_stream_current_line := line,
               g_stream_current_column := column, g_stream_value_count := g_stream_value_count st + 1\<rparr>
         in if g_stream_value_count st < ECMA_LINE_INFO_STREAM_VALUE_COUNT_MAX \<and>
               g_stream_size st + length block_buffer + length line_column \<le> PARSER_LINE_INFO_STREAM_SIZE_LIMIT
            then st\<lparr>g_stream_size := g_stream_size st + length block_buffer + length line_column,
                    g_dst := (if second then g_dst st @ block_buffer @ line_column else g_dst st)\<rparr>
            else
              (let st = st\<lparr>g_stream_size := g_stream_size st + 1 + length line_column\<rparr>;
                   st = (if second
                         then st\<lparr>g_dst := (g_dst st)[block_size := word_of_nat (g_stream_size st - ECMA_LINE_INFO_STREAM_SIZE_MIN)]
                                 @ [hd block_buffer AND 1] @ line_column\<rparr>
                         else st\<lparr>g_total_length := g_total_length st + word_of_nat (g_stream_size st)\<rparr>);
                   st = line_info_put second (parser_line_info_encode_vlq (offset - g_block_byte_code_offset st)) st
               in line_info_start_chunk second line column (st\<lparr>g_block_byte_code_offset := offset\<rparr>))))"

definition line_info_emit :: "bool \<Rightarrow> u32 \<times> u32 \<times> u32 \<Rightarrow> line_info_state \<Rightarrow> line_info_state" where
  "line_info_emit second entry st =
    (case entry of (offset, line, column) \<Rightarrow>
     if offset = g_last_byte_code_offset st \<or> line = g_prev_line st \<and> column = g_prev_column st then st
     else line_info_emit_item second entry st)"

definition line_info_finish :: "bool \<Rightarrow> line_info_state \<Rightarrow> line_info_state option" where
  "line_info_finish second st =
    (case g_block_size_p st of
       None \<Rightarrow> None
     | Some block_size \<Rightarrow>
        (let has_line = (g_stream_prev_line st \<noteq> g_stream_current_line st);
             st = (if second then st\<lparr>g_dst := (g_dst st)[block_size := 0] @ [of_bool has_line]\<rparr>
                   else st\<lparr>g_total_length := g_total_length st + word_of_nat (g_stream_size st + 1)\<rparr>)
         in Some (line_info_put second (line_column_bytes (g_stream_prev_line st) (g_stream_prev_column st)
              (g_stream_current_line st) (g_stream_current_column st)) st)))"

lemma iterator_get_length:
  "parser_line_info_iterator_get it = Some (v, it') \<Longrightarrow> sum_list (map length it') < sum_list (map length it)"
  by (fastforce simp: parser_line_info_iterator_get_def split: list.splits option.splits if_splits dest: decode_vlq_length)

lemma next_entry_length:
  "line_info_next_entry ptr it = Some (e, it') \<Longrightarrow> sum_list (map length (it_pages it')) < sum_list (map length (it_pages it))"
  by (fastforce simp: line_info_next_entry_def Let_def split: option.splits prod.splits if_splits dest!: iterator_get_length)

function line_info_loop :: "bool \<Rightarrow> nat \<Rightarrow> line_info_iterator \<Rightarrow> line_info_state \<Rightarrow> line_info_state option" where
  "line_info_loop second ptr it st =
    (case line_info_next_entry ptr it of
       None \<Rightarrow> None
     | Some (entry, it) \<Rightarrow>
        (let st = line_info_emit second entry st
         in if it_pages it \<noteq> [] then line_info_loop second ptr it st else Some st))"
  by pat_completeness auto
termination
  by (relation "measure (\<lambda>(second, ptr, it, st). sum_list (map length (it_pages it)))") (auto dest: next_entry_length)

definition line_info_run :: "bool \<Rightarrow> nat \<Rightarrow> u8 list list \<Rightarrow> u8 list list \<Rightarrow> u32 \<Rightarrow> u8 list \<Rightarrow> line_info_state option" where
  "line_info_run second ptr line_info_pages byte_code total_length dst =
    Option.bind
      (line_info_loop second ptr
        \<lparr>it_pages = line_info_pages, it_byte_code_page = byte_code, it_page_offset = 0, it_base = 0, it_line = 1, it_column = 1\<rparr>
        \<lparr>g_last_byte_code_offset = 0xFFFFFFFF, g_prev_line = 0, g_prev_column = 0, g_block_size_p = None,
         g_block_byte_code_offset = 0, g_block_prev_line = 1, g_stream_byte_code_offset = 0, g_stream_current_line = 1,
         g_stream_current_column = ECMA_LINE_INFO_COLUMN_DEFAULT, g_stream_prev_line = 1,
         g_stream_prev_column = ECMA_LINE_INFO_COLUMN_DEFAULT, g_stream_size = 0, g_stream_value_count = 0,
         g_total_length = total_length, g_dst = dst\<rparr>)
      (line_info_finish second)"

text \<open>The result is the number of bytes that are allocated and the bytes that are written there.\<close>

definition parser_line_info_generate :: "nat \<Rightarrow> parser_line_info_data \<Rightarrow> u8 list list \<Rightarrow> (u32 \<times> u8 list) option" where
  "parser_line_info_generate ptr line_info byte_code =
    (case line_info_run False ptr (li_pages line_info) byte_code 0 [] of
       None \<Rightarrow> None
     | Some st \<Rightarrow>
        (let total_length = g_total_length st; length_bytes = parser_line_info_encode_vlq total_length
         in map_option (\<lambda>st. (total_length + word_of_nat (length length_bytes), g_dst st))
              (line_info_run True ptr (li_pages line_info) byte_code total_length length_bytes)))"

end
