(* ===== verification/Line_Info_Chunks.thy ===== *)
theory Line_Info_Chunks
  imports Line_Info_Create
begin

text \<open>
  The packed form of line information as a function of the kept positions, \<open>chunk_stream\<close> and \<open>chunk_list\<close>, the abstract
  meaning of a list of positions, \<open>location_at\<close>, and the proof that the search of \<open>Line_Info\<close> finds in the former what the latter says.
\<close>

section \<open>Kept positions\<close>

text \<open>The positions that a position in force leaves, as both the recording and the packing code choose them.\<close>

fun kept_entries :: "u32 \<Rightarrow> u32 \<Rightarrow> u32 \<Rightarrow> (u32 \<times> u32 \<times> u32) list \<Rightarrow> (u32 \<times> u32 \<times> u32) list" where
  "kept_entries offset line column [] = []"
| "kept_entries offset line column ((o', l', c') # es) =
    (if o' = offset \<or> l' = line \<and> c' = column then kept_entries offset line column es
     else (o', l', c') # kept_entries o' l' c' es)"

text \<open>A location holds from its offset on, the first one from the start.\<close>

fun location_at :: "(u32 \<times> u32 \<times> u32) list \<Rightarrow> u32 \<Rightarrow> u32 \<times> u32" where
  "location_at [] x = (1, 1)"
| "location_at [(o', l, c)] x = (l, c)"
| "location_at ((o', l, c) # (o'', l', c') # es) x = (if x < o'' then (l, c) else location_at ((o'', l', c') # es) x)"

section \<open>Chunks\<close>

text \<open>The rest of a stream, and the position that starts the next chunk with those behind it.\<close>

fun chunk_stream :: "u32 \<Rightarrow> u32 \<Rightarrow> u32 \<Rightarrow> u32 \<Rightarrow> u32 \<Rightarrow> nat \<Rightarrow> nat \<Rightarrow> (u32 \<times> u32 \<times> u32) list \<Rightarrow>
    u8 list \<times> ((u32 \<times> u32 \<times> u32) \<times> (u32 \<times> u32 \<times> u32) list) option" where
  "chunk_stream offset prev_line prev_column line column stream_size value_count [] =
    (of_bool (prev_line \<noteq> line) # line_column_bytes prev_line prev_column line column, None)"
| "chunk_stream offset prev_line prev_column line column stream_size value_count ((o', l', c') # es) =
    (let block_buffer = end_offset_bytes (o' - offset) (prev_line \<noteq> line);
         line_column = line_column_bytes prev_line prev_column line column
     in if value_count + 1 < 48 \<and> stream_size + length block_buffer + length line_column \<le> 337
        then apfst ((@) (block_buffer @ line_column))
          (chunk_stream o' line column l' c' (stream_size + length block_buffer + length line_column) (value_count + 1) es)
        else ((hd block_buffer AND 1) # line_column, Some ((o', l', c'), es)))"

lemma chunk_stream_rest:
  "chunk_stream offset pl pc l c n k es = (s, Some (e, rest)) \<Longrightarrow> length rest < length es"
  by (induction offset pl pc l c n k es arbitrary: s rule: chunk_stream.induct)
    (fastforce simp: Let_def apfst_def map_prod_def split: if_splits prod.splits)+

function chunk_list :: "u32 \<Rightarrow> u32 \<Rightarrow> u32 \<Rightarrow> u32 \<Rightarrow> (u32 \<times> u32 \<times> u32) list \<Rightarrow> u8 list" where
  "chunk_list block_offset block_prev_line line column es =
    parser_line_info_encode_vlq (parser_line_info_difference_get line block_prev_line) @
    (case chunk_stream block_offset line ECMA_LINE_INFO_COLUMN_DEFAULT line column 0 0 es of
       (s, None) \<Rightarrow> 0 # s
     | (s, Some ((o', l', c'), rest)) \<Rightarrow>
        word_of_nat (length s - ECMA_LINE_INFO_STREAM_SIZE_MIN) # s @ parser_line_info_encode_vlq (o' - block_offset) @
        chunk_list o' line l' c' rest)"
  by pat_completeness auto
termination by (relation "measure (\<lambda>(bo, bl, l, c, es). length es)") (auto dest: chunk_stream_rest sym)

declare chunk_list.simps [simp del] find_chunk.simps [simp del] find_item.simps [simp del]

lemma line_column_length: "1 \<le> length (line_column_bytes pl pc l c)" "length (line_column_bytes pl pc l c) \<le> 12"
  using encode_small_length [of "parser_line_info_difference_get l pl"] encode_small_length [of "parser_line_info_difference_get c 127"]
    encode_small_length [of "parser_line_info_difference_get c pc"]
  by (simp_all add: line_column_bytes_def del: One_nat_def)

text \<open>The size byte of a chunk that is not the last one is between 1 and 255.\<close>

lemma chunk_stream_size:
  "chunk_stream offset pl pc l c n k es = (s, Some e) \<Longrightarrow> n \<le> 337 \<Longrightarrow> k < 48 \<Longrightarrow> 2 * k \<le> n \<Longrightarrow>
    96 \<le> n + length s \<and> n + length s \<le> 350"
proof (induction offset pl pc l c n k es arbitrary: s rule: chunk_stream.induct)
  case (2 offset pl pc l c n k o' l' c' es)
  define b where "b = end_offset_bytes (o' - offset) (pl \<noteq> l)"
  define lc where "lc = line_column_bytes pl pc l c"
  have len: "1 \<le> length b" "length b \<le> 6" "1 \<le> length lc" "length lc \<le> 12"
    using encode_small_length line_column_length by (simp_all add: b_def lc_def end_offset_bytes_def del: One_nat_def)
  show ?case
  proof (cases "k + 1 < 48 \<and> n + length b + length lc \<le> 337")
    case True
    obtain s' e' where r: "chunk_stream o' l c l' c' (n + length b + length lc) (k + 1) es = (s', e')" by fastforce
    have "s = b @ lc @ s'" "e' = Some e" using 2(2) True r by (simp_all add: Let_def b_def lc_def)
    with 2(1) [OF b_def lc_def True] r True 2(5) len show ?thesis by simp
  next
    case False
    then have "s = (hd b AND 1) # lc" using 2(2) by (auto simp: Let_def b_def lc_def)
    then have "length s = 1 + length lc" by simp
    with False 2(3,4,5) len show ?thesis by linarith
  qed
qed simp

section \<open>Search\<close>

text \<open>The offsets increase, and by less than 127 behind the first \<open>far\<close> of them.\<close>

fun close_entries :: "nat \<Rightarrow> u32 \<Rightarrow> (u32 \<times> u32 \<times> u32) list \<Rightarrow> bool" where
  "close_entries far offset [] = True"
| "close_entries far offset ((o', l, c) # es) = (unat offset < unat o' \<and> unat o' < 2 ^ 31 \<and>
    (0 < far \<or> unat o' < unat offset + 127) \<and> close_entries (far - 1) o' es)"

lemma find_item_step:
  assumes "unat d < 2 ^ 31"
  shows "find_item (end_offset_bytes d (pl \<noteq> l) @ line_column_bytes pl pc l c @ rest) pl pc off x =
    (if d \<noteq> 0 \<and> off + d \<le> x then find_item rest l c (off + d) x else Some (l, c))"
proof -
  define v where "v = (push_bit 1 d OR of_bool (pl \<noteq> l) :: u32)"
  have v: "drop_bit 1 v = d" "v AND 1 = of_bool (pl \<noteq> l)" unfolding v_def by (rule flag_number [OF assms], rule flag_bit)
  have "find_item (parser_line_info_encode_small v @ line_column_bytes pl pc l c @ rest) pl pc off x =
      (if drop_bit 1 v \<noteq> 0 \<and> off + drop_bit 1 v \<le> x then find_item rest l c (off + drop_bit 1 v) x else Some (l, c))"
    by (subst find_item.simps) (simp add: decode_encode_small v(2) line_column_bytes_def difference_roundtrip Let_def)
  then show ?thesis unfolding v(1) unfolding v_def end_offset_bytes_def .
qed

text \<open>Far positions are only left while a chunk cannot be full.\<close>

lemma far_step:
  fixes far k n b c :: nat
  assumes "far = 0 \<or> far + k \<le> 18" "n \<le> 18 * k" "b \<le> 6" "c \<le> 12"
  shows "far - 1 = 0 \<or> far - 1 + (k + 1) \<le> 18" "n + b + c \<le> 18 * (k + 1)"
    "\<not> (k + 1 < 48 \<and> n + b + c \<le> 337) \<Longrightarrow> far = 0"
proof -
  show "far - 1 = 0 \<or> far - 1 + (k + 1) \<le> 18" using assms(1) by linarith
  show "n + b + c \<le> 18 * (k + 1)" using assms(2-4) by simp
  show "far = 0" if "\<not> (k + 1 < 48 \<and> n + b + c \<le> 337)"
  proof (rule ccontr)
    assume "far \<noteq> 0"
    then have "k \<le> 17" using assms(1) by linarith
    with that assms(2-4) show False by linarith
  qed
qed

lemma item_length: "length (end_offset_bytes d h) \<le> 6" "length (line_column_bytes pl pc l c) \<le> 12"
  using encode_small_length(2) line_column_length(2) by (simp_all add: end_offset_bytes_def)

lemma find_item_stream:
  "chunk_stream offset pl pc l c n k es = (s, t) \<Longrightarrow> close_entries far offset es \<Longrightarrow> far = 0 \<or> far + k \<le> 18 \<Longrightarrow> n \<le> 18 * k \<Longrightarrow>
    (case t of None \<Rightarrow> True | Some ((o', _), _) \<Rightarrow> x < o') \<Longrightarrow>
    find_item (s @ rest) pl pc offset x = Some (location_at ((offset', l, c) # es) x)"
proof (induction offset pl pc l c n k es arbitrary: s offset' far rule: chunk_stream.induct)
  case (1 offset pl pc l c n k)
  then show ?case using find_item_step [of 0 pl l pc c rest offset x]
    by (auto simp: end_offset_bytes_def parser_line_info_encode_small_def)
next
  case (2 offset pl pc l c n k o' l' c' es)
  define d where "d = o' - offset"
  define b where "b = end_offset_bytes d (pl \<noteq> l)"
  define lc where "lc = line_column_bytes pl pc l c"
  have d: "unat d = unat o' - unat offset" "offset + d = o'" using 2(3) by (auto simp: d_def unat_sub word_le_unat)
  have d0: "d \<noteq> 0" "unat d < 2 ^ 31" using d 2(3) by (auto simp: word_eq_unat)
  note far = far_step [OF 2(4,5) item_length(1) [of d "pl \<noteq> l"] item_length(2) [where pl = pl and pc = pc and l = l and c = c], folded b_def lc_def]
  show ?case
  proof (cases "k + 1 < 48 \<and> n + length b + length lc \<le> 337")
    case True
    obtain s' where r: "chunk_stream o' l c l' c' (n + length b + length lc) (k + 1) es = (s', t)" "s = b @ lc @ s'"
      using 2(2) True by (cases "chunk_stream o' l c l' c' (n + length b + length lc) (k + 1) es") (simp add: Let_def b_def lc_def d_def)
    have "find_item (s @ rest) pl pc offset x = (if o' \<le> x then find_item (s' @ rest) l c o' x else Some (l, c))"
      using find_item_step [OF d0(2), of pl l pc c "s' @ rest" offset x] d d0(1) unfolding r b_def lc_def by simp
    also have "\<dots> = Some (location_at ((offset', l, c) # (o', l', c') # es) x)"
      using 2(1) [OF b_def [unfolded d_def] lc_def True r(1) _ far(1,2), of o'] 2(3,6) by (simp add: not_less [symmetric])
    finally show ?thesis .
  next
    case False
    have s: "s = (hd b AND 1) # lc" and t: "t = Some ((o', l', c'), es)" using 2(2) False by (auto simp: Let_def b_def lc_def d_def)
    have "unat o' < unat offset + 127" using 2(3) far(3) [OF False] by simp
    then have "unat (push_bit 1 d OR of_bool (pl \<noteq> l)) < 254" using flag_unat [OF d0(2)] d 2(3) by (auto simp: of_bool_def)
    then have "hd b = ucast (push_bit 1 d OR of_bool (pl \<noteq> l) :: u32)" by (simp add: b_def end_offset_bytes_def parser_line_info_encode_small_def word_less_unat)
    then have "hd b AND 1 = ucast ((push_bit 1 d OR of_bool (pl \<noteq> l) :: u32) AND 1)" by (simp add: unsigned_and_eq)
    then have "hd b AND 1 = of_bool (pl \<noteq> l)" unfolding flag_bit by simp
    then show ?thesis using find_item_step [of 0 pl l pc c rest offset x] 2(6)
      by (auto simp: end_offset_bytes_def parser_line_info_encode_small_def s t lc_def)
  qed
qed

lemma chunk_stream_close:
  "chunk_stream offset pl pc l c n k es = (s, Some ((o', l', c'), rest)) \<Longrightarrow> close_entries far offset es \<Longrightarrow> far = 0 \<or> far + k \<le> 18 \<Longrightarrow> n \<le> 18 * k \<Longrightarrow>
    offset < o' \<and> close_entries 0 o' rest \<and> (\<forall>x. o' \<le> x \<longrightarrow> location_at ((offset', l, c) # es) x = location_at ((o', l', c') # rest) x)"
proof (induction offset pl pc l c n k es arbitrary: s offset' far rule: chunk_stream.induct)
  case (2 offset pl pc l c n k o'' l'' c'' es)
  define b where "b = end_offset_bytes (o'' - offset) (pl \<noteq> l)"
  define lc where "lc = line_column_bytes pl pc l c"
  have lt: "offset < o''" using 2(3) by (simp add: word_less_unat)
  note far = far_step [OF 2(4,5) item_length(1) [of "o'' - offset" "pl \<noteq> l"] item_length(2) [where pl = pl and pc = pc and l = l and c = c], folded b_def lc_def]
  show ?case
  proof (cases "k + 1 < 48 \<and> n + length b + length lc \<le> 337")
    case True
    obtain s' where "chunk_stream o'' l c l'' c'' (n + length b + length lc) (k + 1) es = (s', Some ((o', l', c'), rest))"
      using 2(2) True by (cases "chunk_stream o'' l c l'' c'' (n + length b + length lc) (k + 1) es") (simp add: Let_def b_def lc_def)
    note ih = 2(1) [OF b_def lc_def True this _ far(1,2), of o'']
    then have "o'' < o'" using 2(3) by simp
    then have "\<not> x < o''" if "o' \<le> x" for x using that by simp
    with ih \<open>o'' < o'\<close> 2(3) lt show ?thesis by (auto dest: order.strict_trans)
  next
    case False
    with far(3) [OF False] show ?thesis using 2(2,3) lt by (auto simp: Let_def b_def lc_def)
  qed
qed simp


lemma find_chunk_list:
  "close_entries far block_offset es \<Longrightarrow> far \<le> 18 \<Longrightarrow>
    \<exists>line' offset' stream. find_chunk (chunk_list block_offset prev_line l c es @ rest) prev_line block_offset x = Some (line', offset', stream) \<and>
      find_item stream line' 127 offset' x = Some (location_at ((offset, l, c) # es) x)"
proof (induction "length es" arbitrary: block_offset prev_line l c es offset far rule: less_induct)
  case less
  obtain s t where st: "chunk_stream block_offset l 127 l c 0 0 es = (s, t)" by fastforce
  show ?case
  proof (cases t)
    case None
    then have "find_chunk (chunk_list block_offset prev_line l c es @ rest) prev_line block_offset x = Some (l, block_offset, s @ rest)"
      by (subst chunk_list.simps, subst find_chunk.simps) (simp add: st decode_encode_vlq difference_roundtrip)
    moreover have "find_item (s @ rest) l 127 block_offset x = Some (location_at ((offset, l, c) # es) x)"
      using less.prems(2) by (intro find_item_stream [OF st less.prems(1)]) (simp_all add: None)
    ultimately show ?thesis by simp
  next
    case (Some e)
    then obtain o' l' c' es' where t: "t = Some ((o', l', c'), es')" by (cases e) auto
    have stream: "block_offset < o' \<and> close_entries 0 o' es' \<and>
        (\<forall>x. o' \<le> x \<longrightarrow> location_at ((offset, l, c) # es) x = location_at ((o', l', c') # es') x)"
      by (rule chunk_stream_close [OF st [unfolded t] less.prems(1)]) (use less.prems(2) in simp_all)
    have len: "96 \<le> length s" "length s \<le> 350" using chunk_stream_size [OF st [unfolded t]] by auto
    then have n: "unat (word_of_nat (length s - 95) :: u8) = length s - 95" by (simp add: unat_of_nat del: of_nat_diff)
    then have n0: "word_of_nat (length s - 95) \<noteq> (0 :: u8)" using len by (auto simp del: of_nat_diff)
    let ?tail = "parser_line_info_encode_vlq (o' - block_offset) @ chunk_list o' l l' c' es' @ rest"
    have "find_chunk (chunk_list block_offset prev_line l c es @ rest) prev_line block_offset x =
        (if x < o' then Some (l, block_offset, s @ ?tail) else find_chunk (chunk_list o' l l' c' es' @ rest) l o' x)"
      using len by (subst chunk_list.simps, subst find_chunk.simps)
        (simp add: st t decode_encode_vlq difference_roundtrip n n0 Let_def del: of_nat_diff)
    moreover have "find_item (s @ ?tail) l 127 block_offset x = Some (location_at ((offset, l, c) # es) x)" if "x < o'"
      using less.prems(2) by (intro find_item_stream [OF st less.prems(1)]) (simp_all add: t that)
    moreover have "length es' < length es" using st unfolding t by (rule chunk_stream_rest)
    ultimately show ?thesis using less.hyps [of es' 0 o' l l' c' o'] stream by (auto simp: not_less)
  qed
qed


section \<open>The item that ends a chunk\<close>

lemma difference_update_add:
  "ecma_line_info_difference_update a (parser_line_info_difference_get b c) = a + (b - c)"
proof -
  have "ecma_line_info_difference_update a v - a = ecma_line_info_difference_update c v - c" for v
    by (simp add: ecma_line_info_difference_update_def)
  from this [of "parser_line_info_difference_get b c"] show ?thesis by (simp add: difference_roundtrip algebra_simps)
qed

text \<open>
  The has-line bit of the item that ends a chunk is taken from the first byte of its encoded distance. When the distance is 127 or more
  that byte is the prefix 254, whose lowest bit is clear, and the line of the item is read as its column.
\<close>

lemma chunk_end_wrong:
  assumes "127 \<le> unat (o' - offset)" "unat (o' - offset) < 255" "pl \<noteq> l" "x < o'"
  shows "\<exists>s. chunk_stream offset pl pc l c n 47 ((o', l', c') # es) = (s, Some ((o', l', c'), es)) \<and>
    find_item (s @ rest) pl pc offset x = Some (pl, pc + (l - pl)) \<and> location_at ((offset, l, c) # (o', l', c') # es) x = (l, c)"
proof -
  have "unat (push_bit 1 (o' - offset) OR of_bool (pl \<noteq> l)) = 2 * unat (o' - offset) + 1"
    using assms(2,3) by (subst flag_unat) simp_all
  then have b: "hd (end_offset_bytes (o' - offset) (pl \<noteq> l)) AND 1 = 0"
    unfolding end_offset_bytes_def parser_line_info_encode_small_def using assms(1,2) by (simp add: word_less_unat)
  have "find_item (0 # line_column_bytes pl pc l c @ rest) pl pc offset x = Some (pl, pc + (l - pl))"
    using assms(3) by (subst find_item.simps)
      (simp add: ecma_line_info_decode_small_def [of "0 # _"] line_column_bytes_def decode_encode_small difference_update_add Let_def)
  then show ?thesis using assms(4) b by (simp add: Let_def)
qed

end
