(* ===== verification/Line_Info_Packing.thy ===== *)
theory Line_Info_Packing
  imports Line_Info_Chunks
begin

text \<open>
  \<open>parser_line_info_generate\<close> writes the chunks of \<open>Line_Info_Chunks\<close>, and its first run computes their length.
\<close>

declare line_info_loop.simps [simp del]

fun chunk_tail :: "u32 \<Rightarrow> u32 \<Rightarrow> u8 list \<Rightarrow> u8 list \<times> ((u32 \<times> u32 \<times> u32) \<times> (u32 \<times> u32 \<times> u32) list) option \<Rightarrow> u8 list" where
  "chunk_tail block_offset line stream (s, None) = 0 # stream @ s"
| "chunk_tail block_offset line stream (s, Some ((o', l', c'), rest)) =
    word_of_nat (length stream + length s - 95) # stream @ s @ parser_line_info_encode_vlq (o' - block_offset) @ chunk_list o' line l' c' rest"

lemma chunk_list_tail:
  "chunk_list block_offset prev_line line column es =
    parser_line_info_encode_vlq (parser_line_info_difference_get line prev_line) @
    chunk_tail block_offset line [] (chunk_stream block_offset line 127 line column 0 0 es)"
  by (subst chunk_list.simps) (auto split: prod.splits option.splits)

lemma chunk_tail_apfst: "chunk_tail bo line stream (apfst ((@) b) r) = chunk_tail bo line (stream @ b) r"
proof (cases r)
  case (Pair s t)
  then show ?thesis by (cases t) (auto simp: add.assoc)
qed

text \<open>What is still to be written for the current chunk and those behind it, after the size byte has been reserved.\<close>

definition state_tail :: "line_info_state \<Rightarrow> u8 list \<Rightarrow> (u32 \<times> u32 \<times> u32) list \<Rightarrow> u8 list" where
  "state_tail st stream es =
    chunk_tail (g_block_byte_code_offset st) (g_block_prev_line st) stream
      (chunk_stream (g_stream_byte_code_offset st) (g_stream_prev_line st) (g_stream_prev_column st)
        (g_stream_current_line st) (g_stream_current_column st) (g_stream_size st) (g_stream_value_count st) es)"

lemma emit_items_second:
  "g_block_size_p st = Some (length A) \<Longrightarrow> g_dst st = A @ x # stream \<Longrightarrow> length stream = g_stream_size st \<Longrightarrow>
    \<exists>st'. line_info_finish True (fold (line_info_emit_item True) es st) = Some st' \<and> g_dst st' = A @ state_tail st stream es"
proof (induction es arbitrary: st A x stream)
  case Nil
  then show ?case by (simp add: line_info_finish_def line_info_put_def state_tail_def Let_def)
next
  case (Cons e es)
  obtain o' l' c' where e: "e = (o', l', c')" by (cases e)
  define b where "b = end_offset_bytes (o' - g_stream_byte_code_offset st) (g_stream_prev_line st \<noteq> g_stream_current_line st)"
  define lc where "lc = line_column_bytes (g_stream_prev_line st) (g_stream_prev_column st) (g_stream_current_line st) (g_stream_current_column st)"
  define st' where "st' = line_info_emit_item True e st"
  show ?case
  proof (cases "g_stream_value_count st + 1 < 48 \<and> g_stream_size st + length b + length lc \<le> 337")
    case True
    have "state_tail st stream (e # es) = state_tail st' (stream @ b @ lc) es"
      using True Cons.prems by (simp add: st'_def state_tail_def e line_info_emit_item_def Let_def flip: b_def lc_def)
        (simp add: chunk_tail_apfst)
    moreover have "g_block_size_p st' = Some (length A)" "g_dst st' = A @ x # stream @ b @ lc" "length (stream @ b @ lc) = g_stream_size st'"
      using True Cons.prems by (simp_all add: st'_def e line_info_emit_item_def Let_def flip: b_def lc_def)
    ultimately show ?thesis using Cons.IH [of st' A x "stream @ b @ lc"] by (simp add: st'_def)
  next
    case False
    then have F: "47 \<le> g_stream_value_count st \<or> 337 < g_stream_size st + length b + length lc" by linarith
    define A' where "A' = A @ word_of_nat (g_stream_size st + 1 + length lc - 95) # stream @ (hd b AND 1) # lc @
      parser_line_info_encode_vlq (o' - g_block_byte_code_offset st) @
      parser_line_info_encode_vlq (parser_line_info_difference_get l' (g_block_prev_line st))"
    have "A @ state_tail st stream (e # es) = A' @ state_tail st' [] es"
      using Cons.prems
      by - (rule disjE [OF F]; simp add: st'_def A'_def state_tail_def e line_info_emit_item_def line_info_start_chunk_def line_info_put_def Let_def
          chunk_list_tail del: of_nat_diff flip: b_def lc_def)+
    moreover have "g_block_size_p st' = Some (length A')" "g_dst st' = A' @ [0]" "0 = g_stream_size st'"
      using Cons.prems
      by - (rule disjE [OF F]; simp add: st'_def A'_def e line_info_emit_item_def line_info_start_chunk_def line_info_put_def Let_def
          list_update_append del: of_nat_diff flip: b_def lc_def)+
    ultimately show ?thesis using Cons.IH [of st' A' 0 "[]"] by (simp add: st'_def)
  qed
qed

lemma emit_items_first:
  "g_block_size_p st \<noteq> None \<Longrightarrow> length stream = g_stream_size st \<Longrightarrow>
    \<exists>st'. line_info_finish False (fold (line_info_emit_item False) es st) = Some st' \<and>
      g_total_length st' + 1 = g_total_length st + word_of_nat (length (state_tail st stream es))"
proof (induction es arbitrary: st stream)
  case Nil
  then show ?case by (auto simp: line_info_finish_def line_info_put_def state_tail_def Let_def)
next
  case (Cons e es)
  obtain o' l' c' where e: "e = (o', l', c')" by (cases e)
  define b where "b = end_offset_bytes (o' - g_stream_byte_code_offset st) (g_stream_prev_line st \<noteq> g_stream_current_line st)"
  define lc where "lc = line_column_bytes (g_stream_prev_line st) (g_stream_prev_column st) (g_stream_current_line st) (g_stream_current_column st)"
  define st' where "st' = line_info_emit_item False e st"
  obtain p where p: "g_block_size_p st = Some p" using Cons.prems(1) by auto
  show ?case
  proof (cases "g_stream_value_count st + 1 < 48 \<and> g_stream_size st + length b + length lc \<le> 337")
    case True
    have "state_tail st stream (e # es) = state_tail st' (stream @ b @ lc) es"
      using True p by (simp add: st'_def state_tail_def e line_info_emit_item_def Let_def flip: b_def lc_def)
        (simp add: chunk_tail_apfst)
    moreover have "g_block_size_p st' = Some p" "g_total_length st' = g_total_length st" "length (stream @ b @ lc) = g_stream_size st'"
      using True p Cons.prems(2) by (simp_all add: st'_def e line_info_emit_item_def Let_def flip: b_def lc_def)
    ultimately show ?thesis using Cons.IH [of st' "stream @ b @ lc"] by (simp add: st'_def)
  next
    case False
    then have F: "47 \<le> g_stream_value_count st \<or> 337 < g_stream_size st + length b + length lc" by linarith
    define k where "k = g_stream_size st + 1 + length lc + length (parser_line_info_encode_vlq (o' - g_block_byte_code_offset st)) +
      length (parser_line_info_encode_vlq (parser_line_info_difference_get l' (g_block_prev_line st)))"
    have "length (state_tail st stream (e # es)) = k + 1 + length (state_tail st' [] es)"
      using p Cons.prems(2)
      by - (rule disjE [OF F]; simp add: st'_def k_def state_tail_def e line_info_emit_item_def line_info_start_chunk_def line_info_put_def Let_def
          chunk_list_tail del: of_nat_diff flip: b_def lc_def)+
    moreover have "g_block_size_p st' \<noteq> None" "g_total_length st' = g_total_length st + word_of_nat (k + 1)" "0 = g_stream_size st'"
      using p
      by - (rule disjE [OF F]; simp add: st'_def k_def e line_info_emit_item_def line_info_start_chunk_def line_info_put_def Let_def
          del: of_nat_diff flip: b_def lc_def)+
    ultimately show ?thesis using Cons.IH [of st' "[]"] by (simp add: st'_def)
  qed
qed

text \<open>The loop as a fold over the entries that the iterator yields.\<close>

function line_info_entries :: "nat \<Rightarrow> line_info_iterator \<Rightarrow> (u32 \<times> u32 \<times> u32) list option" where
  "line_info_entries ptr it =
    (case line_info_next_entry ptr it of
       None \<Rightarrow> None
     | Some (entry, it) \<Rightarrow>
        if it_pages it \<noteq> [] then map_option ((#) entry) (line_info_entries ptr it) else Some [entry])"
  by pat_completeness auto
termination by (relation "measure (\<lambda>(ptr, it). sum_list (map length (it_pages it)))") (auto dest: next_entry_length)

declare line_info_entries.simps [simp del]

lemma line_info_loop_entries:
  "line_info_loop second ptr it st = map_option (\<lambda>es. fold (line_info_emit second) es st) (line_info_entries ptr it)"
  by (induction second ptr it st rule: line_info_loop.induct)
    (subst line_info_loop.simps, subst line_info_entries.simps,
      auto simp: Let_def option.map_comp comp_def split: option.splits prod.splits)

lemma emit_kept:
  "fold (line_info_emit second) es st =
    fold (line_info_emit_item second) (kept_entries (g_last_byte_code_offset st) (g_prev_line st) (g_prev_column st) es) st"
proof (induction es arbitrary: st)
  case (Cons e es)
  obtain o' l' c' where e: "e = (o', l', c')" by (cases e)
  have "g_last_byte_code_offset (line_info_emit_item second e st) = o'" "g_prev_line (line_info_emit_item second e st) = l'"
    "g_prev_column (line_info_emit_item second e st) = c'"
    by (simp_all add: e line_info_emit_item_def line_info_start_chunk_def line_info_put_def Let_def split: option.splits)
  with Cons.IH [of "line_info_emit_item second e st"] Cons.IH [of st] show ?case
    by (simp add: e line_info_emit_def)
qed simp

text \<open>The state when the loop starts, and the state after the first kept entry.\<close>

definition initial_state :: "u32 \<Rightarrow> u8 list \<Rightarrow> line_info_state" where
  "initial_state total_length dst =
    \<lparr>g_last_byte_code_offset = 0xFFFFFFFF, g_prev_line = 0, g_prev_column = 0, g_block_size_p = None,
     g_block_byte_code_offset = 0, g_block_prev_line = 1, g_stream_byte_code_offset = 0, g_stream_current_line = 1,
     g_stream_current_column = 127, g_stream_prev_line = 1, g_stream_prev_column = 127, g_stream_size = 0, g_stream_value_count = 0,
     g_total_length = total_length, g_dst = dst\<rparr>"

definition initial_iterator :: "u8 list list \<Rightarrow> u8 list list \<Rightarrow> line_info_iterator" where
  "initial_iterator ps bc =
    \<lparr>it_pages = ps, it_byte_code_page = bc, it_page_offset = 0, it_base = 0, it_line = 1, it_column = 1\<rparr>"

lemma line_info_run_kept:
  assumes "line_info_entries ptr (initial_iterator ps bc) = Some es" "kept_entries 0xFFFFFFFF 0 0 es = k # ks"
  shows "line_info_run second ptr ps bc t d =
    line_info_finish second (fold (line_info_emit_item second) ks (line_info_emit_item second k (initial_state t d)))"
  using assms emit_kept [of second es "initial_state t d"]
  by (simp add: line_info_run_def line_info_loop_entries initial_iterator_def initial_state_def)

lemma state_tail_initial:
  "parser_line_info_encode_vlq (parser_line_info_difference_get l 1) @ state_tail (line_info_emit_item second (o', l, c) (initial_state t d)) [] ks =
    chunk_list 0 1 l c ks"
  by (simp add: state_tail_def chunk_list_tail line_info_emit_item_def line_info_start_chunk_def line_info_put_def initial_state_def Let_def)

lemma generate_chunks:
  assumes "line_info_entries ptr (initial_iterator (li_pages li) bc) = Some es" "kept_entries 0xFFFFFFFF 0 0 es = (o', l, c) # ks"
  shows "parser_line_info_generate ptr li bc =
    (let chunks = chunk_list 0 1 l c ks; header = parser_line_info_encode_vlq (word_of_nat (length chunks))
     in Some (word_of_nat (length (header @ chunks)), header @ chunks))"
proof -
  let ?chunks = "chunk_list 0 1 l c ks"
  let ?first = "parser_line_info_encode_vlq (parser_line_info_difference_get l 1)"
  let ?st = "\<lambda>second t d. line_info_emit_item second (o', l, c) (initial_state t d)"
  note start = line_info_emit_item_def line_info_start_chunk_def line_info_put_def initial_state_def Let_def
  have "\<exists>st. line_info_run False ptr (li_pages li) bc 0 [] = Some st \<and>
      g_total_length st + 1 = g_total_length (?st False 0 []) + word_of_nat (length (state_tail (?st False 0 []) [] ks))"
    unfolding line_info_run_kept [OF assms] by (rule emit_items_first) (simp_all add: start)
  then obtain st where st: "line_info_run False ptr (li_pages li) bc 0 [] = Some st"
    "g_total_length st + 1 = word_of_nat (length ?first + 1) + word_of_nat (length (state_tail (?st False 0 []) [] ks))"
    by (auto simp: start)
  have "length ?chunks = length ?first + length (state_tail (?st False 0 []) [] ks)"
    using arg_cong [OF state_tail_initial [of l False o' c 0 "[]" ks], of length] by simp
  then have total: "g_total_length st = word_of_nat (length ?chunks)" using st(2) by (simp add: algebra_simps)
  have second: "\<exists>st'. line_info_run True ptr (li_pages li) bc t d = Some st' \<and> g_dst st' = d @ ?chunks" for t d
  proof -
    have "\<exists>st'. line_info_run True ptr (li_pages li) bc t d = Some st' \<and> g_dst st' = (d @ ?first) @ state_tail (?st True t d) [] ks"
      unfolding line_info_run_kept [OF assms] by (rule emit_items_second) (simp_all add: start)
    then show ?thesis using state_tail_initial [of l True o' c t d ks] by simp
  qed
  let ?header = "parser_line_info_encode_vlq (word_of_nat (length ?chunks))"
  obtain st' where "line_info_run True ptr (li_pages li) bc (word_of_nat (length ?chunks)) ?header = Some st'" "g_dst st' = ?header @ ?chunks"
    using second by blast
  then show ?thesis by (simp add: parser_line_info_generate_def st(1) total Let_def)
qed

text \<open>Searching the generated data, and the size with which it is released.\<close>

lemma generate_get:
  assumes "line_info_entries ptr (initial_iterator (li_pages li) bc) = Some es" "kept_entries 0xFFFFFFFF 0 0 es = (o', l, c) # ks"
    "close_entries 18 0 ks" "parser_line_info_generate ptr li bc = Some (n, buffer)"
  shows "ecma_line_info_get buffer x = Some (location_at ((o', l, c) # ks) x)"
  using generate_chunks [OF assms(1,2)] assms(4) find_chunk_list [OF assms(3) order.refl, of 1 l c "[]" x o']
  by (auto simp: Let_def ecma_line_info_get_def decode_encode_vlq)

lemma generate_free:
  assumes "line_info_entries ptr (initial_iterator (li_pages li) bc) = Some es" "kept_entries 0xFFFFFFFF 0 0 es = (o', l, c) # ks"
    "parser_line_info_generate ptr li bc = Some (n, buffer)" "length buffer < 2 ^ 32"
  shows "unat n = length buffer" "ecma_line_info_free buffer = Some (length buffer)"
proof -
  let ?chunks = "chunk_list 0 1 l c ks"
  let ?header = "parser_line_info_encode_vlq (word_of_nat (length ?chunks))"
  have g: "n = word_of_nat (length (?header @ ?chunks))" "buffer = ?header @ ?chunks"
    using generate_chunks [OF assms(1,2)] assms(3) by (simp_all add: Let_def)
  show "unat n = length buffer" using assms(4) unfolding g by (simp add: unat_of_nat del: of_nat_add)
  show "ecma_line_info_free buffer = Some (length buffer)"
    using assms(4) unfolding g by (simp add: ecma_line_info_free_def decode_encode_vlq unat_of_nat del: of_nat_add)
qed

end
