(* ===== verification/Line_Info_Record.thy ===== *)
theory Line_Info_Record
  imports Line_Info_Packing
begin

text \<open>
  The recorded pages: what \<open>parser_line_info_append\<close> writes is what the iterator of \<open>parser_line_info_generate\<close> reads, and the
  properties of line information as a whole.
\<close>

section \<open>Pages of numbers\<close>

definition pages_hold :: "u8 list list \<Rightarrow> u32 list \<Rightarrow> bool" where
  "pages_hold ps ns \<longleftrightarrow>
    (\<exists>nss. ps = map (\<lambda>ns. concat (map parser_line_info_encode_vlq ns)) nss \<and> ns = concat nss \<and> list_all (\<lambda>ns. ns \<noteq> []) nss)"

lemma pages_hold_nil [simp]: "pages_hold [] ns \<longleftrightarrow> ns = []" "pages_hold ps [] \<longleftrightarrow> ps = []"
  by (auto simp: pages_hold_def list_all_iff vlq.encode_nonempty)

lemma iterator_get_numbers:
  assumes "pages_hold it (n # ns)"
  shows "\<exists>it'. parser_line_info_iterator_get it = Some (n, it') \<and> pages_hold it' ns"
proof -
  obtain nss where nss: "it = map (\<lambda>ns. concat (map parser_line_info_encode_vlq ns)) nss" "n # ns = concat nss" "list_all (\<lambda>ns. ns \<noteq> []) nss"
    using assms by (auto simp: pages_hold_def)
  then obtain ms nss' where m: "nss = (n # ms) # nss'" "ns = ms @ concat nss'"
    by (cases nss) (auto simp: Cons_eq_append_conv)
  show ?thesis
  proof (cases ms)
    case Nil
    then show ?thesis using nss m vlq.decode_encode [of n "[]"] by (auto simp: parser_line_info_iterator_get_def pages_hold_def)
  next
    case (Cons m' ms')
    then have "pages_hold (concat (map parser_line_info_encode_vlq ms) # map (\<lambda>ns. concat (map parser_line_info_encode_vlq ns)) nss') ns"
      using nss m unfolding pages_hold_def by (intro exI [of _ "ms # nss'"]) simp
    then show ?thesis using nss m Cons by (simp add: parser_line_info_iterator_get_def vlq.decode_encode vlq.encode_nonempty)
  qed
qed

lemma append_number_hold:
  assumes "ptr = 4 \<or> ptr = 8" "pages_hold ps ns \<and> ns \<noteq> [] \<or> ps = [[]] \<and> ns = []"
  shows "pages_hold (parser_line_info_append_number ptr v ps) (ns @ [v])"
  using assms(2)
proof (elim disjE conjE)
  assume "ps = [[]]" "ns = []"
  moreover have "length (parser_line_info_encode_vlq v) + 1 \<le> PARSER_STACK_PAGE_SIZE ptr"
    using encode_vlq_length(2) [of v] assms(1) by (auto simp: PARSER_STACK_PAGE_SIZE_def)
  ultimately show ?thesis unfolding pages_hold_def by (intro exI [of _ "[[v]]"]) (simp add: parser_line_info_append_number_def Let_def)
next
  assume "pages_hold ps ns" "ns \<noteq> []"
  then obtain nss where nss: "ps = map (\<lambda>ns. concat (map parser_line_info_encode_vlq ns)) nss" "ns = concat nss" "list_all (\<lambda>ns. ns \<noteq> []) nss"
    "nss \<noteq> []" unfolding pages_hold_def by (metis concat.simps(1))
  then have split: "nss = butlast nss @ [last nss]" by simp
  have "list_all (\<lambda>ns. ns \<noteq> []) (butlast nss)" using nss(3) by (auto simp: list_all_iff dest: in_set_butlastD)
  moreover have "concat nss = concat (butlast nss) @ last nss" by (subst split) (simp del: append_butlast_last_id)
  ultimately show ?thesis
    using nss(3,4) unfolding pages_hold_def parser_line_info_append_number_def Let_def nss(1,2)
    by (cases "1 + length (last (map (\<lambda>ns. concat (map parser_line_info_encode_vlq ns)) nss)) + length (parser_line_info_encode_vlq v)
          \<le> PARSER_STACK_PAGE_SIZE ptr")
      (intro exI [of _ "butlast nss @ [last nss @ [v]]"], simp add: last_map map_butlast,
        intro exI [of _ "nss @ [[v]]"], simp)
qed

text \<open>The counter of a page, one byte, never exceeds the size of the page.\<close>

definition pages_fit :: "nat \<Rightarrow> u8 list list \<Rightarrow> bool" where
  "pages_fit ptr ps \<longleftrightarrow> ps \<noteq> [] \<and> list_all (\<lambda>p. 1 + length p \<le> PARSER_STACK_PAGE_SIZE ptr) ps"

lemma append_number_fit:
  assumes "ptr = 4 \<or> ptr = 8" "pages_fit ptr ps"
  shows "pages_fit ptr (parser_line_info_append_number ptr v ps)"
proof -
  have "length (parser_line_info_encode_vlq v) + 1 \<le> PARSER_STACK_PAGE_SIZE ptr"
    using encode_vlq_length(2) [of v] assms(1) by (auto simp: PARSER_STACK_PAGE_SIZE_def)
  with assms(2) show ?thesis
    by (auto simp: pages_fit_def parser_line_info_append_number_def Let_def list_all_iff dest: in_set_butlastD)
qed

lemma append_fit:
  assumes "ptr = 4 \<or> ptr = 8" "\<And>li. line_info = Some li \<Longrightarrow> pages_fit ptr (li_pages li)"
    "parser_line_info_append ptr p l c line_info = Some li'"
  shows "pages_fit ptr (li_pages li')"
proof -
  have "pages_fit ptr [[]]" using assms(1) by (auto simp: pages_fit_def PARSER_STACK_PAGE_SIZE_def)
  with assms(2,3) show ?thesis
    by (auto simp: parser_line_info_append_def line_info_store_def Let_def append_number_fit [OF assms(1)] split: option.splits if_splits)
qed

lemma append_all_fit:
  "ptr = 4 \<or> ptr = 8 \<Longrightarrow> (\<And>li. line_info = Some li \<Longrightarrow> pages_fit ptr (li_pages li)) \<Longrightarrow>
    fold (\<lambda>(p, l, c). parser_line_info_append ptr p l c) es line_info = Some li' \<Longrightarrow> pages_fit ptr (li_pages li')"
proof (induction es arbitrary: line_info)
  case (Cons e es)
  obtain p l c where e: "e = (p, l, c)" by (cases e)
  have "pages_fit ptr (li_pages li)" if "parser_line_info_append ptr p l c line_info = Some li" for li
    by (rule append_fit [OF Cons.prems(1,2) that])
  with Cons.IH [of "parser_line_info_append ptr p l c line_info"] Cons.prems(1,3) show ?case by (simp add: e)
qed auto

section \<open>Recorded positions\<close>

text \<open>The first position is always recorded.\<close>

fun recorded_entries :: "(u32 \<times> u32 \<times> u32) list \<Rightarrow> (u32 \<times> u32 \<times> u32) list" where
  "recorded_entries [] = []"
| "recorded_entries ((p, l, c) # es) = (p, l, c) # kept_entries p l c es"

fun record_numbers :: "u32 \<Rightarrow> u32 \<Rightarrow> u32 \<Rightarrow> (u32 \<times> u32 \<times> u32) list \<Rightarrow> u32 list" where
  "record_numbers pos line column [] = []"
| "record_numbers pos line column ((p, l, c) # es) =
    (push_bit 1 (p - pos) OR of_bool (l \<noteq> line)) # (if l \<noteq> line then [parser_line_info_difference_get l line] else []) @
    parser_line_info_difference_get c column # record_numbers p l c es"

lemma record_numbers_empty [simp]: "record_numbers pos line column es = [] \<longleftrightarrow> es = []"
  by (cases es) auto

lemma store_hold:
  assumes "ptr = 4 \<or> ptr = 8" "pages_hold (li_pages li) ns \<and> ns \<noteq> [] \<or> li_pages li = [[]] \<and> ns = []"
  shows "pages_hold (li_pages (line_info_store ptr p l c (of_bool (l \<noteq> li_line li)) li))
      (ns @ record_numbers (li_position li) (li_line li) (li_column li) [(p, l, c)])"
    "li_position (line_info_store ptr p l c (of_bool (l \<noteq> li_line li)) li) = p"
    "li_line (line_info_store ptr p l c (of_bool (l \<noteq> li_line li)) li) = l"
    "li_column (line_info_store ptr p l c (of_bool (l \<noteq> li_line li)) li) = c"
proof -
  have flag: "(of_bool b OR push_bit 1 d) AND 1 = (of_bool b :: u32)" for b d using flag_bit [of d b] by (simp only: or.commute)
  note hold = append_number_hold [OF assms(1)]
  define v where "v = (of_bool (l \<noteq> li_line li) OR push_bit 1 (p - li_position li) :: u32)"
  have v: "v AND 1 = of_bool (l \<noteq> li_line li)" unfolding v_def by (rule flag)
  have 1: "pages_hold (parser_line_info_append_number ptr v (li_pages li)) (ns @ [v])" by (rule hold [OF assms(2)])
  have nums: "record_numbers (li_position li) (li_line li) (li_column li) [(p, l, c)] =
      v # (if l \<noteq> li_line li then [parser_line_info_difference_get l (li_line li)] else []) @ [parser_line_info_difference_get c (li_column li)]"
    by (simp add: v_def or.commute del: push_bit_Suc One_nat_def)
  have store: "line_info_store ptr p l c (of_bool (l \<noteq> li_line li)) li =
     (let li = li\<lparr>li_pages := parser_line_info_append_number ptr v (li_pages li), li_position := p\<rparr>;
          li = (if l \<noteq> li_line li
                then li\<lparr>li_pages := parser_line_info_append_number ptr (parser_line_info_difference_get l (li_line li)) (li_pages li), li_line := l\<rparr>
                else li)
      in li\<lparr>li_pages := parser_line_info_append_number ptr (parser_line_info_difference_get c (li_column li)) (li_pages li), li_column := c\<rparr>)"
    unfolding line_info_store_def v_def [symmetric] Let_def v by simp
  show "li_position (line_info_store ptr p l c (of_bool (l \<noteq> li_line li)) li) = p"
    "li_line (line_info_store ptr p l c (of_bool (l \<noteq> li_line li)) li) = l"
    "li_column (line_info_store ptr p l c (of_bool (l \<noteq> li_line li)) li) = c"
    unfolding store by (simp_all add: Let_def)
  show "pages_hold (li_pages (line_info_store ptr p l c (of_bool (l \<noteq> li_line li)) li))
      (ns @ record_numbers (li_position li) (li_line li) (li_column li) [(p, l, c)])"
  proof (cases "l = li_line li")
    case True
    then show ?thesis using hold [of _ "ns @ [v]"] 1 unfolding store nums by (simp add: Let_def)
  next
    case False
    then show ?thesis
      using hold [OF disjI1, OF conjI, OF hold [OF disjI1, OF conjI, OF 1]] unfolding store nums by (simp add: Let_def)
  qed
qed


text \<open>The pages after a sequence of calls hold the recorded positions.\<close>

lemma append_hold:
  assumes "ptr = 4 \<or> ptr = 8" "pages_hold (li_pages li) ns" "ns \<noteq> []"
  shows "\<exists>li'. fold (\<lambda>(p, l, c). parser_line_info_append ptr p l c) es (Some li) = Some li' \<and>
    pages_hold (li_pages li')
      (ns @ record_numbers (li_position li) (li_line li) (li_column li) (kept_entries (li_position li) (li_line li) (li_column li) es))"
  using assms(2,3)
proof (induction es arbitrary: li ns)
  case (Cons e es)
  obtain p l c where e: "e = (p, l, c)" by (cases e)
  show ?case
  proof (cases "p = li_position li \<or> l = li_line li \<and> c = li_column li")
    case True
    with Cons.IH [OF Cons.prems] show ?thesis by (auto simp: e parser_line_info_append_def)
  next
    case False
    let ?li = "line_info_store ptr p l c (of_bool (l \<noteq> li_line li)) li"
    have "parser_line_info_append ptr p l c (Some li) = Some ?li" using False by (auto simp: parser_line_info_append_def)
    moreover note store = store_hold [OF assms(1), of li ns p l c]
    moreover have "record_numbers (li_position li) (li_line li) (li_column li) ((p, l, c) # kept_entries p l c es) =
        record_numbers (li_position li) (li_line li) (li_column li) [(p, l, c)] @ record_numbers p l c (kept_entries p l c es)" by simp
    ultimately show ?thesis
      using Cons.IH [of ?li "ns @ record_numbers (li_position li) (li_line li) (li_column li) [(p, l, c)]"] Cons.prems False
      by (auto simp: e simp del: record_numbers.simps(2))
  qed
qed auto

lemma append_all_hold:
  assumes "ptr = 4 \<or> ptr = 8" "es \<noteq> []"
  shows "\<exists>li. fold (\<lambda>(p, l, c). parser_line_info_append ptr p l c) es None = Some li \<and>
    pages_hold (li_pages li) (record_numbers 0 1 1 (recorded_entries es))"
proof -
  obtain p l c es' where es: "es = (p, l, c) # es'" using assms(2) by (metis list.exhaust prod_cases3)
  let ?li = "\<lparr>li_pages = [[]], li_position = 0, li_line = 1, li_column = 1\<rparr>"
  let ?li' = "line_info_store ptr p l c (of_bool (l \<noteq> li_line ?li)) ?li"
  have "parser_line_info_append ptr p l c None = Some ?li'" by (simp add: parser_line_info_append_def)
  moreover note store = store_hold [OF assms(1), of ?li "[]" p l c]
  moreover have "record_numbers 0 1 1 ((p, l, c) # kept_entries p l c es') =
      record_numbers 0 1 1 [(p, l, c)] @ record_numbers p l c (kept_entries p l c es')" by simp
  ultimately show ?thesis
    using append_hold [OF assms(1), of ?li' "record_numbers 0 1 1 [(p, l, c)]" es']
    by (simp add: es del: record_numbers.simps(2))
qed

section \<open>Byte code offsets\<close>

text \<open>The offset in the final byte code of a position in the stream of the parser.\<close>

definition byte_code_position :: "nat \<Rightarrow> u8 list list \<Rightarrow> u32 \<Rightarrow> u32 option" where
  "byte_code_position ptr byte_code p =
    Option.bind (skip_byte_code_pages ptr byte_code p 0) (\<lambda>(pages, page_offset, base). byte_code_offset pages page_offset base)"

lemma skip_byte_code_pages_add:
  assumes "ptr = 4 \<or> ptr = 8"
  shows "skip_byte_code_pages ptr bc off base = Some (bc', off', base') \<Longrightarrow> unat off + unat d < 2 ^ 32 \<Longrightarrow>
    unat off' \<le> unat off \<and> skip_byte_code_pages ptr bc (off + d) base = skip_byte_code_pages ptr bc' (off' + d) base'"
proof (induction bc arbitrary: off base)
  case (Cons page bc)
  have size: "0 < PARSER_CBC_STREAM_PAGE_SIZE ptr" "PARSER_CBC_STREAM_PAGE_SIZE ptr < 2 ^ 32"
    using assms by (auto simp: PARSER_CBC_STREAM_PAGE_SIZE_def)
  show ?case
  proof (cases "unat off \<ge> PARSER_CBC_STREAM_PAGE_SIZE ptr")
    case True
    let ?n = "word_of_nat (PARSER_CBC_STREAM_PAGE_SIZE ptr) :: u32"
    have n: "unat ?n = PARSER_CBC_STREAM_PAGE_SIZE ptr" using size by (simp add: unat_of_nat)
    then have m: "unat (off - ?n) = unat off - PARSER_CBC_STREAM_PAGE_SIZE ptr" using True by (simp add: unat_sub word_le_unat)
    have s: "unat (off + d) = unat off + unat d" using Cons.prems(2) by (simp add: unat_word_ariths)
    obtain r where r: "page_byte page (PARSER_CBC_STREAM_PAGE_SIZE ptr - 1) = Some r"
      "skip_byte_code_pages ptr bc (off - ?n) (base + r) = Some (bc', off', base')"
      using Cons.prems(1) True by (auto split: option.splits)
    have "unat off' \<le> unat (off - ?n) \<and> skip_byte_code_pages ptr bc (off - ?n + d) (base + r) = skip_byte_code_pages ptr bc' (off' + d) base'"
      by (rule Cons.IH [OF r(2)]) (use Cons.prems(2) m in simp)
    moreover have "off - ?n + d = off + d - ?n" by simp
    ultimately show ?thesis using True r(1) m s by auto
  next
    case False
    then show ?thesis using Cons.prems(1) by auto
  qed
qed (auto split: if_splits)


section \<open>Reading the recorded positions\<close>

lemma next_entry_recorded:
  assumes "ptr = 4 \<or> ptr = 8"
    "pages_hold (it_pages it) (record_numbers pos (it_line it) (it_column it) ((p, l, c) # es))"
    "skip_byte_code_pages ptr (it_byte_code_page it) (it_page_offset it + (p - pos)) (it_base it) = Some (bc', off', base')"
    "byte_code_offset bc' off' base' = Some o'" "unat (p - pos) < 2 ^ 31"
  shows "\<exists>ps. line_info_next_entry ptr it = Some ((o', l, c),
      \<lparr>it_pages = ps, it_byte_code_page = bc', it_page_offset = off', it_base = base', it_line = l, it_column = c\<rparr>) \<and>
    pages_hold ps (record_numbers p l c es)"
proof -
  define v where "v = (push_bit 1 (p - pos) OR of_bool (l \<noteq> it_line it) :: u32)"
  have v: "drop_bit 1 v = p - pos" "v AND 1 = of_bool (l \<noteq> it_line it)"
    unfolding v_def by (rule flag_number [OF assms(5)], rule flag_bit)
  obtain ps1 where 1: "parser_line_info_iterator_get (it_pages it) = Some (v, ps1)"
    "pages_hold ps1 ((if l \<noteq> it_line it then [parser_line_info_difference_get l (it_line it)] else []) @
      parser_line_info_difference_get c (it_column it) # record_numbers p l c es)"
    using iterator_get_numbers assms(2) unfolding record_numbers.simps v_def [symmetric] by blast
  have "\<exists>ps2. (if v AND 1 \<noteq> 0 then map_option (apfst (ecma_line_info_difference_update (it_line it))) (parser_line_info_iterator_get ps1)
      else Some (it_line it, ps1)) = Some (l, ps2) \<and> pages_hold ps2 (parser_line_info_difference_get c (it_column it) # record_numbers p l c es)"
    using 1(2) iterator_get_numbers [of ps1 "parser_line_info_difference_get l (it_line it)"
        "parser_line_info_difference_get c (it_column it) # record_numbers p l c es"]
    by (cases "l = it_line it") (auto simp: v(2) difference_roundtrip)
  then obtain ps2 where 2: "(if v AND 1 \<noteq> 0 then map_option (apfst (ecma_line_info_difference_update (it_line it))) (parser_line_info_iterator_get ps1)
      else Some (it_line it, ps1)) = Some (l, ps2)" "pages_hold ps2 (parser_line_info_difference_get c (it_column it) # record_numbers p l c es)" by blast
  obtain ps where 3: "parser_line_info_iterator_get ps2 = Some (parser_line_info_difference_get c (it_column it), ps)"
    "pages_hold ps (record_numbers p l c es)" using iterator_get_numbers [OF 2(2)] by blast
  show ?thesis unfolding line_info_next_entry_def 1(1) option.case prod.case Let_def 2(1) 3(1) v(1)
    by (simp add: assms(3,4) difference_roundtrip 3(2))
qed

text \<open>The positions with their offsets in the final byte code.\<close>

fun placed_entries :: "nat \<Rightarrow> u8 list list \<Rightarrow> (u32 \<times> u32 \<times> u32) list \<Rightarrow> (u32 \<times> u32 \<times> u32) list option" where
  "placed_entries ptr byte_code [] = Some []"
| "placed_entries ptr byte_code ((p, l, c) # es) =
    (case byte_code_position ptr byte_code p of
       None \<Rightarrow> None
     | Some o' \<Rightarrow> map_option ((#) (o', l, c)) (placed_entries ptr byte_code es))"

lemma entries_recorded:
  assumes "ptr = 4 \<or> ptr = 8"
  shows "es \<noteq> [] \<Longrightarrow> pages_hold (it_pages it) (record_numbers pos (it_line it) (it_column it) es) \<Longrightarrow>
    sorted (map unat (pos # map fst es)) \<Longrightarrow> list_all (\<lambda>e. unat (fst e) < 2 ^ 31) es \<Longrightarrow> placed_entries ptr bc es = Some es' \<Longrightarrow>
    (\<And>p. unat pos \<le> unat p \<Longrightarrow> skip_byte_code_pages ptr (it_byte_code_page it) (it_page_offset it + (p - pos)) (it_base it) =
      skip_byte_code_pages ptr bc p 0) \<Longrightarrow>
    line_info_entries ptr it = Some es'"
proof (induction es arbitrary: it pos es')
  case (Cons e es)
  obtain p l c where e: "e = (p, l, c)" by (cases e)
  have le: "unat pos \<le> unat p" and p: "unat p < 2 ^ 31" using Cons.prems(3,4) by (auto simp: e)
  have d: "unat (p - pos) < 2 ^ 31" using le p by (simp add: unat_sub word_le_unat)
  obtain bc' off' base' o' es'' where o': "skip_byte_code_pages ptr bc p 0 = Some (bc', off', base')" "byte_code_offset bc' off' base' = Some o'"
    "placed_entries ptr bc es = Some es''" "es' = (o', l, c) # es''"
    using Cons.prems(5) by (auto simp: e byte_code_position_def split: option.splits bind_splits)
  note s = Cons.prems(6) [OF le, unfolded o'(1)]
  obtain ps where next': "line_info_next_entry ptr it = Some ((o', l, c),
      \<lparr>it_pages = ps, it_byte_code_page = bc', it_page_offset = off', it_base = base', it_line = l, it_column = c\<rparr>)"
    "pages_hold ps (record_numbers p l c es)"
    using next_entry_recorded [OF assms Cons.prems(2) [unfolded e] s o'(2) d] by blast
  have skip: "skip_byte_code_pages ptr bc' (off' + (q - p)) base' = skip_byte_code_pages ptr bc q 0" if "unat p \<le> unat q" for q
    using skip_byte_code_pages_add [OF assms o'(1), of "q - p"] that unat_u32_less [of q] by (simp add: unat_sub word_le_unat)
  show ?case
  proof (cases es)
    case Nil
    then show ?thesis using next' o'(3,4) by (subst line_info_entries.simps) simp
  next
    case (Cons e' es0)
    let ?it = "\<lparr>it_pages = ps, it_byte_code_page = bc', it_page_offset = off', it_base = base', it_line = l, it_column = c\<rparr>"
    have "line_info_entries ptr ?it = Some es''"
      using Cons.IH [of ?it p es''] Cons Cons.prems(3,4) next'(2) o'(3) skip by (simp add: e)
    moreover have "ps \<noteq> []" using next'(2) Cons by auto
    ultimately show ?thesis using next'(1) o'(4) by (subst line_info_entries.simps) simp
  qed
qed simp


section \<open>Properties\<close>

text \<open>The calls of the parser: byte code size, line and column.\<close>

definition record_all :: "nat \<Rightarrow> (u32 \<times> u32 \<times> u32) list \<Rightarrow> parser_line_info_data option" where
  "record_all ptr es = fold (\<lambda>(p, l, c). parser_line_info_append ptr p l c) es None"

lemma kept_entries_subset: "set (kept_entries p l c es) \<subseteq> set es"
  by (induction p l c es rule: kept_entries.induct) auto

lemma kept_entries_sorted: "sorted (map unat (map fst es)) \<Longrightarrow> sorted (map unat (map fst (kept_entries p l c es)))"
proof (induction p l c es rule: kept_entries.induct)
  case (2 p l c o' l' c' es)
  then show ?case using kept_entries_subset [of o' l' c' es] by auto
qed simp

lemma record_all_entries:
  assumes "ptr = 4 \<or> ptr = 8" "es \<noteq> []" "sorted (map unat (map fst es))" "list_all (\<lambda>e. unat (fst e) < 2 ^ 31) es"
    "placed_entries ptr bc (recorded_entries es) = Some es'"
  shows "\<exists>li. record_all ptr es = Some li \<and> line_info_entries ptr (initial_iterator (li_pages li) bc) = Some es'"
proof -
  obtain p l c es0 where es: "es = (p, l, c) # es0" using assms(2) by (metis list.exhaust prod_cases3)
  obtain li where li: "record_all ptr es = Some li" "pages_hold (li_pages li) (record_numbers 0 1 1 (recorded_entries es))"
    using append_all_hold [OF assms(1,2)] by (auto simp: record_all_def)
  have "sorted (map unat (0 # map fst (recorded_entries es)))" "list_all (\<lambda>e. unat (fst e) < 2 ^ 31) (recorded_entries es)"
    using assms(3,4) kept_entries_sorted [of es0 p l c] kept_entries_subset [of p l c es0] by (auto simp: es list_all_iff)
  then have "line_info_entries ptr (initial_iterator (li_pages li) bc) = Some es'"
    by (intro entries_recorded [OF assms(1), where pos = 0 and bc = bc and es = "recorded_entries es"])
      (use li(2) assms(5) in \<open>simp_all add: initial_iterator_def es\<close>)
  with li(1) show ?thesis by blast
qed

section \<open>The location of a byte code offset\<close>

text \<open>The location of the last position at or before an offset, or of the first position if there is none.\<close>

definition location_of :: "(u32 \<times> u32 \<times> u32) list \<Rightarrow> u32 \<Rightarrow> u32 \<times> u32" where
  "location_of es x = (case rev (filter (\<lambda>e. fst e \<le> x) es) of [] \<Rightarrow> snd (hd es) | e # _ \<Rightarrow> snd e)"

text \<open>The positions at which the location changes, after a position with a given location.\<close>

fun location_changes :: "u32 \<times> u32 \<Rightarrow> (u32 \<times> u32 \<times> u32) list \<Rightarrow> (u32 \<times> u32 \<times> u32) list" where
  "location_changes loc [] = []"
| "location_changes loc ((o', loc') # es) =
    (if loc' = loc then location_changes loc es else (o', loc') # location_changes loc' es)"

text \<open>There are not two locations for one offset.\<close>

definition one_location :: "(u32 \<times> u32 \<times> u32) list \<Rightarrow> bool" where
  "one_location es \<longleftrightarrow> list_all (\<lambda>e. list_all (\<lambda>e'. fst e = fst e' \<longrightarrow> snd e = snd e') es) es"

text \<open>Behind the first \<open>far\<close> positions, all distances are less than 127.\<close>

fun near_entries :: "nat \<Rightarrow> u32 \<Rightarrow> (u32 \<times> u32 \<times> u32) list \<Rightarrow> bool" where
  "near_entries far offset [] = True"
| "near_entries far offset ((o', loc) # es) = ((0 < far \<or> unat o' < unat offset + 127) \<and> near_entries (far - 1) o' es)"

lemma one_locationD: "one_location es \<Longrightarrow> e \<in> set es \<Longrightarrow> e' \<in> set es \<Longrightarrow> fst e = fst e' \<Longrightarrow> snd e = snd e'"
  unfolding one_location_def list_all_iff by blast

lemma one_location_subset: "one_location es \<Longrightarrow> set es' \<subseteq> set es \<Longrightarrow> one_location es'"
  unfolding one_location_def list_all_iff by blast

lemma location_changes_subset: "set (location_changes loc es) \<subseteq> set es"
  by (induction loc es rule: location_changes.induct) auto

lemma location_changes_idem: "location_changes loc (location_changes loc es) = location_changes loc es"
  by (induction loc es rule: location_changes.induct) auto

lemma location_changes_sorted: "sorted (map unat (map fst es)) \<Longrightarrow> sorted (map unat (map fst (location_changes loc es)))"
proof (induction loc es rule: location_changes.induct)
  case (2 loc o' loc' es)
  then show ?case using location_changes_subset [of loc' es] by auto
qed simp

text \<open>With one location for each offset, the filters of the code leave the positions at which the location changes.\<close>

lemma kept_changes: "one_location ((o', l, c) # es) \<Longrightarrow> kept_entries o' l c es = location_changes (l, c) es"
proof (induction o' l c es rule: kept_entries.induct)
  case (2 o1 l c o' l' c' es)
  have same: "l' = l \<and> c' = c" if "o' = o1" using one_locationD [OF 2(3), of "(o1, l, c)" "(o', l', c')"] that by auto
  show ?case
  proof (cases "o' = o1 \<or> l' = l \<and> c' = c")
    case True
    then have "kept_entries o1 l c es = location_changes (l, c) es"
      using 2(1) one_location_subset [OF 2(3), of "(o1, l, c) # es"] by auto
    then show ?thesis using True same by auto
  next
    case False
    then have "kept_entries o' l' c' es = location_changes (l', c') es"
      using 2(2) one_location_subset [OF 2(3), of "(o', l', c') # es"] by auto
    then show ?thesis using False by auto
  qed
qed simp

lemma placed_iff:
  "placed_entries ptr bc es = Some pl \<longleftrightarrow> list_all2 (\<lambda>e e'. byte_code_position ptr bc (fst e) = Some (fst e') \<and> snd e = snd e') es pl"
proof (induction es arbitrary: pl)
  case (Cons e es)
  obtain p l c where e: "e = (p, l, c)" by (cases e)
  show ?case by (cases pl) (auto simp: e Cons.IH split: option.splits)
qed auto

lemma placed_one_location:
  assumes "placed_entries ptr bc es = Some pl" "one_location pl"
  shows "one_location es"
  unfolding one_location_def list_all_iff
proof (intro ballI impI)
  fix e e' assume e: "e \<in> set es" "e' \<in> set es" "fst e = fst e'"
  note rel = assms(1) [unfolded placed_iff list_all2_conv_all_nth]
  obtain i j where ij: "i < length es" "e = es ! i" "j < length es" "e' = es ! j" using e by (auto simp: in_set_conv_nth)
  then have "fst (pl ! i) = fst (pl ! j)" using rel e(3) by (metis option.inject)
  then have "snd (pl ! i) = snd (pl ! j)" using one_locationD [OF assms(2)] rel ij by (metis nth_mem)
  then show "snd e = snd e'" using rel ij by metis
qed

lemma placed_changes: "placed_entries ptr bc es = Some pl \<Longrightarrow> placed_entries ptr bc (location_changes loc es) = Some (location_changes loc pl)"
proof (induction loc es arbitrary: pl rule: location_changes.induct)
  case (2 loc o' loc' es)
  obtain l' c' where "loc' = (l', c')" by (cases loc')
  then show ?case using 2 by (auto split: option.splits)
qed simp

lemma location_of_same: "location_of ((o1, loc) # es) x = location_of ((o2, loc) # es) x"
  by (cases "rev (filter (\<lambda>e. fst e \<le> x) es)") (auto simp: location_of_def)

lemma location_of_Cons:
  assumes "sorted (map unat (map fst (e' # es)))"
  shows "location_of (e # e' # es) x = (if fst e' \<le> x then location_of (e' # es) x else snd e)"
proof (cases "fst e' \<le> x")
  case True
  then have "rev (filter (\<lambda>e. fst e \<le> x) (e' # es)) \<noteq> []" by simp
  then obtain y ys where "rev (filter (\<lambda>e. fst e \<le> x) (e' # es)) = y # ys" by (meson list.exhaust)
  then show ?thesis using True by (simp add: location_of_def)
next
  case False
  then have none: "filter (\<lambda>e. fst e \<le> x) (e' # es) = []"
    using assms by (auto simp: filter_empty_conv word_le_unat dest: order.trans)
  show ?thesis using False unfolding location_of_def by (subst filter.simps) (simp add: none del: filter.simps)
qed

lemma location_at_changes:
  "sorted (map unat (map fst es)) \<Longrightarrow> location_at ((o', l, c) # location_changes (l, c) es) x = location_of ((o', l, c) # es) x"
proof (induction es arbitrary: o' l c)
  case Nil
  then show ?case by (simp add: location_of_def)
next
  case (Cons e es)
  obtain o'' l' c' where e: "e = (o'', l', c')" by (cases e)
  note cons = location_of_Cons [OF Cons.prems, of "(o', l, c)" x, unfolded e fst_conv snd_conv]
  have ih: "location_at ((o1, m, d) # location_changes (m, d) es) x = location_of ((o1, m, d) # es) x" for o1 m d
    using Cons by simp
  show ?case
  proof (cases "l' = l \<and> c' = c")
    case True
    have "location_of ((o', l, c) # es) x = (l, c)" if "\<not> o'' \<le> x"
    proof -
      have "filter (\<lambda>e. fst e \<le> x) es = []"
        using that Cons.prems by (auto simp: e filter_empty_conv word_le_unat dest: order.trans)
      then show ?thesis by (simp add: location_of_def)
    qed
    then show ?thesis using True ih cons location_of_same [of o'' "(l, c)" es x o'] by (simp add: e)
  next
    case False
    then show ?thesis using ih [of o'' l' c'] cons by (auto simp: e not_le)
  qed
qed

lemma near_close:
  "near_entries far offset es \<Longrightarrow> sorted_wrt (<) (map unat (offset # map fst es)) \<Longrightarrow> list_all (\<lambda>e. unat (fst e) < 2 ^ 31) es \<Longrightarrow>
    close_entries far offset es"
proof (induction far offset es rule: near_entries.induct)
  case (2 far offset o' loc es)
  obtain l c where "loc = (l, c)" by (cases loc)
  with 2 show ?case by auto
qed simp

lemma changes_increase:
  "one_location ((o', loc) # es) \<Longrightarrow> sorted (map unat (o' # map fst es)) \<Longrightarrow>
    sorted_wrt (<) (map unat (o' # map fst (location_changes loc es)))"
proof (induction loc es arbitrary: o' rule: location_changes.induct)
  case (2 loc o'' loc' es)
  show ?case
  proof (cases "loc' = loc")
    case True
    then show ?thesis using 2(1) [of o'] 2(4) one_location_subset [OF 2(3), of "(o', loc) # es"] by auto
  next
    case False
    have "o'' \<noteq> o'" using one_locationD [OF 2(3), of "(o', loc)" "(o'', loc')"] False by auto
    then have "unat o' < unat o''" using 2(4) by (auto simp: word_eq_unat)
    moreover have "sorted_wrt (<) (map unat (o'' # map fst (location_changes loc' es)))"
      using 2(2) [of o''] False 2(4) one_location_subset [OF 2(3), of "(o'', loc') # es"] by auto
    ultimately show ?thesis using False by auto
  qed
qed simp

text \<open>
  (C38) Looking up a byte code offset in the packed line information gives the line and column of the last call of the parser at or
  before it, in terms of the final byte code, and of the first call for offsets before that. The calls must not give two locations to
  one offset: otherwise the first one counts, see \<open>discarded_position\<close>. Behind the first 18 changes of the location the distance
  to the next change must be less than 127: otherwise \<open>chunk_end_wrong\<close> applies.
\<close>

theorem line_info_lookup:
  assumes "ptr = 4 \<or> ptr = 8" "calls \<noteq> []" "sorted (map unat (map fst calls))"
    "list_all (\<lambda>(p, l, c). unat p < 2 ^ 31 \<and> l \<noteq> 0) calls"
    "placed_entries ptr byte_code calls = Some placed" "sorted (map unat (map fst placed))"
    "list_all (\<lambda>e. unat (fst e) < 2 ^ 31) placed" "one_location placed"
    "near_entries 18 0 (location_changes (snd (hd placed)) (tl placed))"
  shows "\<exists>li n buffer. record_all ptr calls = Some li \<and> parser_line_info_generate ptr li byte_code = Some (n, buffer) \<and>
    (\<forall>x. ecma_line_info_get buffer x = Some (location_of placed x))"
proof -
  obtain p l c cs where calls: "calls = (p, l, c) # cs" using assms(2) by (metis list.exhaust prod_cases3)
  obtain o' pl where placed: "placed = (o', l, c) # pl" "byte_code_position ptr byte_code p = Some o'" "placed_entries ptr byte_code cs = Some pl"
    using assms(5) by (auto simp: calls split: option.splits)
  let ?ks = "location_changes (l, c) pl"
  have rec: "recorded_entries calls = (p, l, c) # location_changes (l, c) cs"
    using kept_changes [of p l c cs] placed_one_location [OF assms(5,8)] by (simp add: calls)
  have small: "list_all (\<lambda>e. unat (fst e) < 2 ^ 31) calls" using assms(4) by (auto simp: list_all_iff)
  have "placed_entries ptr byte_code (recorded_entries calls) = Some ((o', l, c) # ?ks)"
    using placed(2) placed_changes [OF placed(3)] by (simp add: rec)
  then obtain li where li: "record_all ptr calls = Some li" "line_info_entries ptr (initial_iterator (li_pages li) byte_code) = Some ((o', l, c) # ?ks)"
    using record_all_entries [OF assms(1-3) small] by blast
  have sub: "set ((o', l, c) # ?ks) \<subseteq> set placed" using location_changes_subset [of "(l, c)" pl] by (auto simp: placed(1))
  have "o' \<noteq> 0xFFFFFFFF" "l \<noteq> 0" using assms(4,7) by (auto simp: placed(1) calls)
  then have kept: "kept_entries 0xFFFFFFFF 0 0 ((o', l, c) # ?ks) = (o', l, c) # ?ks"
    using kept_changes [OF one_location_subset [OF assms(8) sub]] by (simp add: location_changes_idem)
  have "sorted_wrt (<) (map unat (o' # map fst ?ks))"
    using changes_increase [of o' "(l, c)" pl] assms(6,8) by (simp add: placed(1))
  then have "sorted_wrt (<) (map unat (0 # map fst ?ks))" by auto
  moreover have "list_all (\<lambda>e. unat (fst e) < 2 ^ 31) ?ks" using assms(7) sub by (auto simp: list_all_iff)
  ultimately have close: "close_entries 18 0 ?ks" using near_close [of 18 0 ?ks] assms(9) by (simp add: placed(1))
  obtain n buffer where g: "parser_line_info_generate ptr li byte_code = Some (n, buffer)"
    using generate_chunks [OF li(2) kept] by (auto simp: Let_def)
  have "ecma_line_info_get buffer x = Some (location_of placed x)" for x
    using generate_get [OF li(2) kept close g] location_at_changes [of pl o' l c x] assms(6) by (simp add: placed(1))
  with li(1) g show ?thesis by blast
qed

theorem line_info_lookup_witness:
  "\<exists>li n buffer. record_all 8 [(0, 1, 1), (2, 1, 5), (2, 1, 5), (7, 3, 9)] = Some li \<and>
    parser_line_info_generate 8 li [map word_of_nat [1..<57]] = Some (n, buffer) \<and>
    (\<forall>x. ecma_line_info_get buffer x = Some (location_of [(0, 1, 1), (2, 1, 5), (2, 1, 5), (7, 3, 9)] x))"
proof (rule line_info_lookup)
  show "placed_entries 8 [map word_of_nat [1..<57]] [(0, 1, 1), (2, 1, 5), (2, 1, 5), (7, 3, 9)] =
      Some [(0, 1, 1), (2, 1, 5), (2, 1, 5), (7, 3, 9)]" by code_simp
qed (simp_all add: one_location_def)

text \<open>
  Byte code may be discarded: a jump behind itself is left out of the final byte code, so that its position and the next one get the same offset.
  The filter of the generator keeps the first of them, the position of the discarded jump. Here the bytes 2 to 5 are left out, and the location
  of the instruction behind them, line 6, is lost.
\<close>

definition discarded_byte_code :: "u8 list list" where
  "discarded_byte_code = [map word_of_nat ([1, 2, 2, 2, 2, 2] @ [3..<53])]"

lemma discarded_position:
  "placed_entries 8 discarded_byte_code [(0, 3, 5), (2, 4, 5), (6, 6, 1)] = Some [(0, 3, 5), (2, 4, 5), (2, 6, 1)] \<and>
   map_option (\<lambda>(n, buffer). ecma_line_info_get buffer 2)
     (Option.bind (record_all 8 [(0, 3, 5), (2, 4, 5), (6, 6, 1)]) (\<lambda>li. parser_line_info_generate 8 li discarded_byte_code)) = Some (Some (4, 5)) \<and>
   location_of [(0, 3, 5), (2, 4, 5), (2, 6, 1)] 2 = (6, 1)"
  by (intro conjI; code_simp)

text \<open>
  (C39) The first run of the generator computes exactly the number of bytes that the second run writes; this is the size that is
  allocated, and the size with which the line information is released. While positions are recorded no page is filled beyond its end.
\<close>

theorem line_info_sizes:
  assumes "ptr = 4 \<or> ptr = 8" "es \<noteq> []" "sorted (map unat (map fst es))" "list_all (\<lambda>e. unat (fst e) < 2 ^ 31) es"
    "placed_entries ptr byte_code (recorded_entries es) = Some placed" "kept_entries 0xFFFFFFFF 0 0 placed \<noteq> []"
    "record_all ptr es = Some li" "parser_line_info_generate ptr li byte_code = Some (n, buffer)" "length buffer < 2 ^ 32"
  shows "pages_fit ptr (li_pages li) \<and> unat n = length buffer \<and> ecma_line_info_free buffer = Some (length buffer)"
proof -
  have "pages_fit ptr (li_pages li)" using append_all_fit [OF assms(1)] assms(7) by (auto simp: record_all_def)
  moreover obtain o' l c ks where k: "kept_entries 0xFFFFFFFF 0 0 placed = (o', l, c) # ks" using assms(6) by (metis list.exhaust prod_cases3)
  moreover have "line_info_entries ptr (initial_iterator (li_pages li) byte_code) = Some placed"
    using record_all_entries [OF assms(1-5)] assms(7) by auto
  ultimately show ?thesis using generate_free [OF _ k assms(8,9)] by simp
qed


theorem line_info_sizes_witness:
  "pages_fit 8 [[0, 1, 4, 6, 11, 2, 6]] \<and> unat (10 :: u32) = length [9, 1, 0, 4, 253, 10, 6, 1, 2, 237 :: u8] \<and>
    ecma_line_info_free [9, 1, 0, 4, 253, 10, 6, 1, 2, 237] = Some (length [9, 1, 0, 4, 253, 10, 6, 1, 2, 237 :: u8])"
proof -
  let ?li = "\<lparr>li_pages = [[0, 1, 4, 6, 11, 2, 6]], li_position = 7, li_line = 3, li_column = 9\<rparr>"
  have 1: "placed_entries 8 [map word_of_nat [1..<57]] (recorded_entries [(0, 1, 1), (2, 1, 5), (2, 1, 7), (7, 3, 9)]) =
      Some [(0, 1, 1), (2, 1, 5), (7, 3, 9)]" by code_simp
  have 2: "record_all 8 [(0, 1, 1), (2, 1, 5), (2, 1, 7), (7, 3, 9)] = Some ?li" by code_simp
  have 3: "parser_line_info_generate 8 ?li [map word_of_nat [1..<57]] = Some (10, [9, 1, 0, 4, 253, 10, 6, 1, 2, 237])" by code_simp
  show ?thesis using line_info_sizes [OF _ _ _ _ 1 _ 2 3] by simp
qed

end
