(* ===== verification/Spec2Isabelle.thy ===== *)
theory Spec2Isabelle
  imports Bigint_Text Bigint_To_Number Bigint_Digits Sort_Compare Global_Uri Jmem_Scratch Line_Info_Record
begin

text \<open>
  Verification library for the core of JJS, a small JavaScript engine in C (\<open>src/jjs-core\<close>).

  \<^bold>\<open>The program.\<close> JJS compiles JavaScript to byte code (\<open>parser/js\<close>, \<open>parser/regexp\<close>), runs it on a stack machine
  (\<open>vm\<close>) over the objects and built-ins of the language (\<open>ecma\<close>), and is embedded through an API (\<open>api\<close>, \<open>annex\<close>).
  Below these are the layers that every value goes through: the memory manager with its garbage-collected heap
  (\<open>jmem\<close>), the text layer that keeps strings in CESU-8 (\<open>lit\<close>), and the representation of values, of which the
  arbitrary-precision integers are the part with the most arithmetic (\<open>ecma/operations/ecma-big-uint.c\<close>,
  \<open>ecma-bigint.c\<close>). The development models these layers, function by function, and composes them.

  \<^bold>\<open>The theories.\<close>
  \<^item> \<open>Jjs_Prelude\<close>: machine words, and the rules that carry bit operations over to natural numbers.
  \<^item> \<open>Lit_Strings\<close> (\<open>lit/lit-strings.c\<close>): validation, encoding, decoding, conversion, comparison and hashing of text; a
    buffer is a list of bytes, a read outside of it is \<open>None\<close>. The validators are characterised, the decoders invert the
    encoders and stay in bounds, the conversions are exact, the comparison is the order of code units.
  \<^item> \<open>Lit_Chars\<close> (\<open>lit/lit-char-helpers.c\<close>, trimming of \<open>ecma-helpers-string.c\<close>): binary searches in tables, classes of
    characters, escape sequences, decimal numbers and the second CESU-8 encoder, each against what it should compute.
  \<^item> \<open>Block_Heap\<close>: the contract between the memory manager and its clients, as locales (\<open>block_heap\<close>, \<open>failing_heap\<close>).
  \<^item> \<open>Jmem_Heap\<close> (\<open>jmem/jmem-heap.c\<close>, \<open>jmem-cellocator.c\<close>): the heap area as a record; free regions in a list that is stored
    in the regions themselves, blocks of at most 32 bytes in pages of cells. \<open>Jmem_Correct\<close>, \<open>Jmem_Alloc\<close>, \<open>Jmem_Realloc\<close>:
    the invariant (the free list is sorted and merged, free and allocated bytes partition the area, cells belong to one page)
    and that initialization, allocation, freeing and resizing keep it, whatever a garbage collector (locale
    \<open>garbage_collector\<close>) frees of its own blocks. \<open>Jmem_Theorems\<close>: the properties, for single requests and for all sequences of requests
    of a client (\<open>heap_step\<close>, \<open>heap_run\<close>), and that the memory manager satisfies \<open>block_heap\<close>.
    \<open>Jmem_Scratch\<close> (\<open>jmem-scratch-allocator.c\<close>, \<open>jmem-allocator.c\<close>): the scratch allocator on top of any
    \<open>block_heap\<close>, and compressed pointers.
  \<^item> \<open>Big_Digits\<close>: the digit loops of \<open>ecma-big-uint.c\<close> and their values. \<open>Big_Uint\<close>: the operations on blocks, with reference
    counts. \<open>Big_Uint_Correct\<close>, \<open>Big_Uint_Ops\<close>, \<open>Big_Uint_Pow_Div\<close>: inside \<open>failing_heap\<close>, each operation yields the number
    it should, in a new block, and leaves nothing else in memory; \<open>NULL\<close> only when memory ran out or the result has more than
    16384 digits. \<open>Big_Uint_Theorems\<close>: properties that only show on magnitudes.
  \<^item> \<open>Bigint\<close> (\<open>ecma-bigint.c\<close>): signed numbers with errors as values. \<open>Bigint_Correct\<close> and \<open>Bigint_Theorems\<close>: every operation
    refines the operation on \<open>int\<close>.
  \<^item> \<open>Bigint_Text\<close> (\<open>ecma-bigint.c\<close>): parsing and printing of BigInts; the parser against the conversion of ECMA-262, and the
    round trip.
  \<^item> \<open>Bigint_Number\<close>, \<open>Bigint_To_Number\<close> (\<open>ecma-bigint.c\<close>, \<open>ecma-helpers-number.c\<close>): BigInts and doubles. A double is its bit
    pattern, its value a multiple of the smallest positive double. Comparison and conversion to a BigInt are exact, the conversion to a double is
    rounding to nearest, with the exceptions that the theorems name.
  \<^item> \<open>Bigint_Digits\<close> (\<open>ecma-bigint.c\<close>): BigInts from and to arrays of 64-bit digits, the form of the API.
  \<^item> \<open>Merge_Sort\<close> (\<open>ecma/builtin-objects/ecma-builtin-helpers-sort.c\<close>): the merge sort of arrays and typed arrays, against merging of
    lists. What a comparison must promise are the locales \<open>comparison\<close> and \<open>strict_comparison\<close>; inside them the result is sorted, and stable.
    \<open>Sort_Compare\<close>: the comparison callbacks of typed arrays and arrays, which satisfy them, and the properties.
  \<^item> \<open>Global_Uri\<close> (\<open>ecma/builtin-objects/ecma-builtin-global.c\<close>): \<open>encodeURI\<close>, \<open>decodeURI\<close>, \<open>escape\<close> and their relatives, on top of
    \<open>Lit_Strings\<close> and \<open>Lit_Chars\<close>.
  \<^item> \<open>Line_Info\<close> (\<open>ecma/base/ecma-line-info.c\<close>), \<open>Line_Info_Create\<close> (\<open>parser/js/js-parser-line-info-create.c\<close>): source positions of
    byte code, recorded in pages, packed into chunks in two runs of one loop, and searched. \<open>Line_Info_Codec\<close>: the number
    encodings, as a locale \<open>number_code\<close>. \<open>Line_Info_Chunks\<close>: the packed form as a function of the positions, and what
    the search finds in it; the generator writes this form (\<open>Line_Info_Packing\<close>) from what the parser recorded
    (\<open>Line_Info_Record\<close>), so that a search gives the last location recorded at or before an offset.
  \<^item> This theory composes: BigInt arithmetic runs on the memory manager with any garbage collector.

  \<^bold>\<open>Conventions.\<close> State is threaded explicitly through records (\<open>jmem_context\<close>, \<open>ecma_context\<close>, \<open>scratch_allocator\<close>). \<open>None\<close> as
  the outermost result is what the code must never do: a read or write outside a buffer, a loop that does not end, a fatal
  error; the theorems show that it does not happen, or name the inputs for which it does. Errors that the program reports are
  ordinary results. \<open>JJS_ASSERT\<close> is compiled out of release builds and has no counterpart. Addresses are natural numbers;
  sizes that the code keeps in 32 bits wrap around where that is possible, otherwise a bound is proved. New memory has
  arbitrary contents. The headers of free regions, which the code stores in the regions, are a map of their own beside the bytes; the
  invariant keeps the regions of the list, and with them the headers in use, apart from all blocks.

  \<^bold>\<open>Loops.\<close> Loops over lists are structural, others have a measure. Walks through the free list, which could be cyclic in a
  corrupt heap, are \<open>partial_function (option)\<close>, and the invariant implies that they return. \<open>jmem_heap_alloc\<close> calls itself
  through the cell allocator; its first argument bounds the depth of this recursion, one nested call is enough for every
  configuration with at least one cell per page, and for none without.

  \<^bold>\<open>Not modelled.\<close> The parser apart from line information, the virtual machine, objects, most built-ins, regular expressions, the debugger and the API: they work
  on the object graph of the engine, which is not part of this library. The creation of error objects, so that raising an error
  here changes no memory. The statistics and the Valgrind hooks of the memory manager, and its finalization.
\<close>

section \<open>Big integers in the memory of the engine\<close>

interpretation list_gc_failing: failing_heap "record_failures (jmem_allocator list_gc)" "\<lambda>(h, f). heap_holds map_of {} h" snd
  by (rule record_failures_heap [OF list_gc.is_block_heap])

text \<open>
  A heap with one page, whose two cells hold the numbers \<open>2^32 - 1\<close> and -2.
\<close>

definition two_numbers :: "((addr \<times> nat) list jmem_context \<times> bool) ecma_context" where
  "two_numbers =
    \<lparr>store = [32 \<mapsto> signed_prim False [0xFFFFFFFF], 64 \<mapsto> signed_prim True [2]],
     heap =
      ((jmem_heap_init tiny_heap)
        \<lparr>nodes := (\<lambda>p. if p = 0 then \<lparr>next_offset = 88, region_size = 0\<rparr>
           else \<lparr>next_offset = JMEM_HEAP_END_OF_LIST, region_size = 160\<rparr>),
         jmem_heap_allocated_size := 88, jmem_heap_limit := 128,
         pages := [\<lparr>page_p = 8, start_p = 32, end_p = 64\<rparr>]\<rparr>, False)\<rparr>"

lemma two_numbers_blocks: "blocks (store two_numbers) = [32 \<mapsto> 16, 64 \<mapsto> 16]"
  by (auto simp: two_numbers_def signed_prim_def ECMA_BIGINT_GET_SIZE_def blocks_def bigint_mem_size_def ECMA_BIGINT_GET_BYTE_SIZE_def fun_eq_iff)

lemma two_numbers_holds: "heap_holds map_of {} (fst (heap two_numbers)) [32 \<mapsto> 16, 64 \<mapsto> 16]"
proof -
  let ?c = "fst (heap two_numbers)" and ?B = "[32 \<mapsto> 16, 64 \<mapsto> 16] :: addr \<rightharpoonup> nat" and ?L = "[(0, 0), (96, 160)]"
  have m: "main_blocks ?c ?B = [8 \<mapsto> 88]"
    by (auto simp: main_blocks_def two_numbers_def tiny_heap_def jmem_heap_init_def small_def align_up_def fun_eq_iff
        JMEM_CELLOCATOR_PAGE_SIZE_def)
  have u: "used [8 \<mapsto> 88] = {8..<96}" by (simp add: used_def block_bytes_def align_up_def)
  have "free_list (nodes ?c) 256 ?L"
    by (auto simp: free_list_def two_numbers_def gap_def region_ok_def JMEM_HEAP_GET_OFFSET_FROM_ADDR_def)
  moreover have "all_bytes ?L = {96..<256}" by (auto simp: region_bytes_def)
  ultimately have "heap_inv {} ?c (main_blocks ?c ?B)"
    unfolding m by (intro heap_invI [where L = ?L]) (auto simp: u two_numbers_def tiny_heap_def jmem_heap_init_def blocks_ok_def)
  moreover have "small_blocks ?B = {32, 64}" by (auto simp: small_blocks_def small_def align_up_def)
  moreover have "cells ?c = {32, 64}"
  proof -
    have "a = 32 \<or> a = 64" if "32 \<le> a" "a \<le> 64" "32 dvd a - 32" for a :: nat
      using that by (auto elim!: dvdE) presburger
    then show ?thesis by (auto simp: cells_def cells_of_def two_numbers_def tiny_heap_def jmem_heap_init_def)
  qed
  ultimately show ?thesis
    by (auto simp: heap_holds_def jmem_inv_def two_numbers_def tiny_heap_def jmem_heap_init_def config_ok_def page_ok_def small_def align_up_def)
qed

text \<open>
  (C11) Arithmetic of BigInts on the memory manager of the engine, whatever its garbage collector frees: sum, difference,
  product and power are stored in a block that the memory manager has handed out, all other blocks are untouched, and temporary
  memory has been given back. An error is raised only when the result has more than 16384 digits, the exponent is negative, or an allocation
  has failed.
\<close>

theorem bigint_in_heap:
  assumes "garbage_collector gc owned"
    and "ctx_inv (\<lambda>(h, f). heap_holds owned {} h) X c" "operand (store c) l a" "operand (store c) r b"
  shows "returns (\<lambda>(h, f). heap_holds owned {} h) snd X (store c) (Inr (if is_add then a + b else a - b))
      (ecma_bigint_add_sub (record_failures (jmem_allocator gc)) c l r is_add) \<and>
    returns (\<lambda>(h, f). heap_holds owned {} h) snd X (store c) (Inr (a * b)) (ecma_bigint_mul (record_failures (jmem_allocator gc)) c l r) \<and>
    returns (\<lambda>(h, f). heap_holds owned {} h) snd X (store c)
      (if b < 0 then Inl ECMA_ERR_NEGATIVE_EXPONENT_IS_NOT_ALLOWED_FOR_BIGINTS else Inr (a ^ nat b))
      (ecma_bigint_pow (record_failures (jmem_allocator gc)) c l r)"
proof -
  have "block_heap (jmem_allocator gc) (heap_holds owned {})"
    using assms(1) by (rule garbage_collector.is_block_heap)
  note heap = record_failures_heap [OF this]
  show ?thesis
    using failing_heap.add_sub_returns [OF heap assms(2-4)] failing_heap.mul_returns [OF heap assms(2-4)]
      failing_heap.pow_returns [OF heap assms(2-4)] by (intro conjI)
qed

theorem bigint_in_heap_witness:
  "returns (\<lambda>(h, f). heap_holds map_of {} h) snd Map.empty (store two_numbers) (Inr (4294967295 * - 2))
    (ecma_bigint_mul (record_failures (jmem_allocator list_gc)) two_numbers (BigInt 32) (BigInt 64))"
proof -
  have "ctx_inv (\<lambda>(h, f). heap_holds map_of {} h) Map.empty two_numbers"
    using two_numbers_holds by (simp add: ctx_inv_def two_numbers_blocks case_prod_beta)
  moreover have "operand (store two_numbers) (BigInt 32) 4294967295" "operand (store two_numbers) (BigInt 64) (- 2)"
    by (rule signed_prim_operand [where s = False and ds = "[0xFFFFFFFF]"] signed_prim_operand [where s = True and ds = "[2]"];
        simp add: two_numbers_def normalized_def)+
  ultimately show ?thesis by (rule bigint_in_heap [OF list_gc.garbage_collector_axioms, THEN conjunct2, THEN conjunct1])
qed

end
